(* ===== verification/Prelude.thy ===== *)
theory Prelude
  imports Complex_Main "HOL-Library.Word" "HOL-Library.AList" "HOL-Library.Signed_Division"
begin

text \<open>
  What the components share: Go's clock and integer conventions, byte strings, the
  association of a Go \<open>map\<close> with a HOL map, and the named collections the component
  proofs draw on.

  \<^item> \<^bold>\<open>Time.\<close> A \<open>time.Time\<close> is the integer number of nanoseconds since the Unix epoch and
    a \<open>time.Duration\<close> an integer number of nanoseconds. Go's zero time (1 January of
    year 1) keeps its real value, \<open>zero_time\<close>, because the code compares against it and
    subtracts it. \<open>Time.Sub\<close> saturates at the bounds of an \<open>int64\<close>, as \<open>time_sub\<close> does.
  \<^item> \<^bold>\<open>Numbers.\<close> Fixed-width integers are words where the code can wrap; \<open>float64\<close>
    coordinates and speeds are modelled as reals with exact arithmetic.
  \<^item> \<^bold>\<open>Strings\<close> are byte strings, \<open>char list\<close>.
\<close>

named_theorems go_time "Go's clock arithmetic"
named_theorems go_str "Go's byte-string operations"
named_theorems go_map "updates of maps modelled as partial functions"

unbundle bit_operations_syntax

section \<open>Time and durations\<close>

type_synonym time = int
type_synonym duration = int
type_synonym mmsi = "32 word"

abbreviation second :: duration where "second \<equiv> 1000000000"
abbreviation minute :: duration where "minute \<equiv> 60000000000"
abbreviation hour :: duration where "hour \<equiv> 3600000000000"

definition zero_time :: time where
  "zero_time = - 62135596800000000000"

definition max_duration :: duration where
  "max_duration = 2 ^ 63 - 1"

definition min_duration :: duration where
  "min_duration = - (2 ^ 63)"

text \<open>\<open>Time.Sub\<close>: the difference, saturated to an \<open>int64\<close>.\<close>

definition time_sub :: "time \<Rightarrow> time \<Rightarrow> duration" where
  "time_sub t u = max min_duration (min max_duration (t - u))"

text \<open>\<open>Unix\<close>, \<open>UnixMilli\<close> and \<open>Truncate\<close>; \<open>Truncate\<close> counts from the zero time.\<close>

definition unix :: "time \<Rightarrow> int" where
  "unix t = t div 1000000000"

definition unix_milli :: "time \<Rightarrow> int" where
  "unix_milli t = t div 1000000"

definition truncate_time :: "time \<Rightarrow> duration \<Rightarrow> time" where
  "truncate_time t d = t - (t - zero_time) mod d"

lemma time_sub_less_iff [go_time]:
  "min_duration < d \<Longrightarrow> d \<le> max_duration \<Longrightarrow> time_sub t u < d \<longleftrightarrow> t - u < d"
  by (auto simp: time_sub_def)

lemma time_sub_exact [go_time]:
  "min_duration \<le> t - u \<Longrightarrow> t - u \<le> max_duration \<Longrightarrow> time_sub t u = t - u"
  by (auto simp: time_sub_def)

lemma truncate_time_le [go_time]: "0 < d \<Longrightarrow> truncate_time t d \<le> t"
  by (simp add: truncate_time_def)

lemma truncate_time_gt [go_time]: "0 < d \<Longrightarrow> t < truncate_time t d + d"
  using pos_mod_bound [of d "t - zero_time"] by (simp add: truncate_time_def)

lemma unix_mono [go_time]: "t \<le> u \<Longrightarrow> unix t \<le> unix u"
  by (simp add: unix_def zdiv_mono1)

lemma unix_milli_mono [go_time]: "t \<le> u \<Longrightarrow> unix_milli t \<le> unix_milli u"
  by (simp add: unix_milli_def zdiv_mono1)

section \<open>Integers\<close>

text \<open>An \<open>int64\<close> or \<open>int32\<close> result that overflowed, read back as two's complement.\<close>

definition wrap64 :: "int \<Rightarrow> int" where
  "wrap64 n = (n + 2 ^ 63) mod 2 ^ 64 - 2 ^ 63"

definition wrap32 :: "int \<Rightarrow> int" where
  "wrap32 n = (n + 2 ^ 31) mod 2 ^ 32 - 2 ^ 31"

lemma wrap64_id: "- (2 ^ 63) \<le> n \<Longrightarrow> n < 2 ^ 63 \<Longrightarrow> wrap64 n = n"
  by (simp add: wrap64_def)

lemma wrap32_id: "- (2 ^ 31) \<le> n \<Longrightarrow> n < 2 ^ 31 \<Longrightarrow> wrap32 n = n"
  by (simp add: wrap32_def)

lemma wrap32_range: "- (2 ^ 31) \<le> wrap32 n \<and> wrap32 n < 2 ^ 31"
  using pos_mod_bound [of "2 ^ 32" "n + 2 ^ 31"] pos_mod_sign [of "2 ^ 32" "n + 2 ^ 31"]
  by (simp add: wrap32_def)

text \<open>\<open>math.Round\<close>: half away from zero.\<close>

definition go_round :: "real \<Rightarrow> int" where
  "go_round x = (if x < 0 then - \<lfloor>- x + 1 / 2\<rfloor> else \<lfloor>x + 1 / 2\<rfloor>)"

lemma go_round_of_int [simp]: "go_round (of_int n) = n"
proof -
  have "\<lfloor>real_of_int k + 1 / 2\<rfloor> = k" for k :: int by linarith
  from this [of n] this [of "- n"] show ?thesis by (simp add: go_round_def)
qed

lemma go_round_error: "\<bar>of_int (go_round x) - x\<bar> \<le> 1 / 2"
proof -
  have half: "\<bar>of_int \<lfloor>y + 1 / 2\<rfloor> - y\<bar> \<le> 1 / 2" for y :: real
    by linarith
  show ?thesis
  proof (cases "x < 0")
    case True
    then have "go_round x = - \<lfloor>- x + 1 / 2\<rfloor>" by (simp add: go_round_def)
    then show ?thesis using half [of "- x"] by (simp only: of_int_minus)
  next
    case False
    then have "go_round x = \<lfloor>x + 1 / 2\<rfloor>" by (simp add: go_round_def)
    then show ?thesis using half [of x] by simp
  qed
qed

section \<open>Byte strings\<close>

definition has_prefix :: "string \<Rightarrow> string \<Rightarrow> bool" where
  "has_prefix s p \<longleftrightarrow> take (length p) s = p"

definition has_suffix :: "string \<Rightarrow> string \<Rightarrow> bool" where
  "has_suffix s p \<longleftrightarrow> has_prefix (rev s) (rev p)"

fun contains_str :: "string \<Rightarrow> string \<Rightarrow> bool" where
  "contains_str [] p \<longleftrightarrow> p = []"
| "contains_str (c # s) p \<longleftrightarrow> has_prefix (c # s) p \<or> contains_str s p"

text \<open>\<open>strings.Cut\<close> at a one-byte separator: before, after, found.\<close>

definition cut_at :: "char \<Rightarrow> string \<Rightarrow> string \<times> string \<times> bool" where
  "cut_at c s = (case dropWhile (\<lambda>x. x \<noteq> c) s of
       [] \<Rightarrow> (s, [], False)
     | _ # rest \<Rightarrow> (takeWhile (\<lambda>x. x \<noteq> c) s, rest, True))"

text \<open>The ASCII part of \<open>strings.TrimSpace\<close>, and of \<open>strings.ToLower\<close>.\<close>

definition is_space :: "char \<Rightarrow> bool" where
  "is_space c \<longleftrightarrow> c \<in> {CHR 0x09, CHR 0x0A, CHR 0x0B, CHR 0x0C, CHR 0x0D, CHR '' ''}"

definition trim_space :: "string \<Rightarrow> string" where
  "trim_space s = rev (dropWhile is_space (rev (dropWhile is_space s)))"

definition is_digit :: "char \<Rightarrow> bool" where
  "is_digit c \<longleftrightarrow> 48 \<le> (of_char c :: nat) \<and> (of_char c :: nat) \<le> 57"

lemma has_prefix_append [go_str]: "has_prefix (p @ s) p"
  by (simp add: has_prefix_def)

lemma has_prefix_Nil [simp, go_str]: "has_prefix s []"
  by (simp add: has_prefix_def)

lemma has_prefix_iff [go_str]: "has_prefix s p \<longleftrightarrow> (\<exists>r. s = p @ r)"
  by (metis append_eq_conv_conj append_take_drop_id has_prefix_def)

lemma cut_at_found [go_str]: "c \<notin> set a \<Longrightarrow> cut_at c (a @ c # b) = (a, b, True)"
proof -
  assume c: "c \<notin> set a"
  then have "dropWhile (\<lambda>x. x \<noteq> c) (a @ c # b) = c # b"
    and "takeWhile (\<lambda>x. x \<noteq> c) (a @ c # b) = a"
    by (induction a) auto
  then show ?thesis by (simp add: cut_at_def)
qed

lemma cut_at_absent [go_str]: "c \<notin> set s \<Longrightarrow> cut_at c s = (s, [], False)"
proof -
  assume "c \<notin> set s"
  then have "dropWhile (\<lambda>x. x \<noteq> c) s = []" by (auto simp: dropWhile_eq_Nil_conv)
  then show ?thesis by (simp only: cut_at_def list.case)
qed

section \<open>Decimal text\<close>

text \<open>\<open>strconv\<close> and \<open>fmt\<close> with the verbs \<open>%d\<close> and \<open>%02d\<close>, for numbers that are not negative.\<close>

definition digit_char :: "nat \<Rightarrow> char" where
  "digit_char d = char_of (48 + d)"

fun dec :: "nat \<Rightarrow> string" where
  "dec n = (if n < 10 then [digit_char n] else dec (n div 10) @ [digit_char (n mod 10)])"

declare dec.simps [simp del]

definition pad2 :: "nat \<Rightarrow> string" where
  "pad2 n = (if n < 10 then CHR ''0'' # dec n else dec n)"

fun undec :: "nat \<Rightarrow> string \<Rightarrow> nat" where
  "undec n [] = n"
| "undec n (c # s) = undec (10 * n + (of_char c - 48)) s"

lemma of_digit_char [simp]: "d < 10 \<Longrightarrow> (of_char (digit_char d) :: nat) = 48 + d"
  by (simp add: digit_char_def)

lemma undec_append: "undec n (a @ b) = undec (undec n a) b"
  by (induction a arbitrary: n) auto

lemma undec_dec [simp, go_str]: "undec 0 (dec n) = n"
  by (induction n rule: dec.induct) (subst dec.simps, auto simp: undec_append)

lemma dec_inject [go_str]: "dec m = dec n \<longleftrightarrow> m = n"
  by (metis undec_dec)

lemma dec_nonempty [simp]: "dec n \<noteq> []"
  by (subst dec.simps) auto

lemma is_digit_digit_char: "d < 10 \<Longrightarrow> is_digit (digit_char d)"
  by (simp add: is_digit_def)

lemma dec_digits: "c \<in> set (dec n) \<Longrightarrow> is_digit c"
  by (induction n rule: dec.induct)
     (subst (asm) (2) dec.simps, auto simp: is_digit_digit_char split: if_splits)

section \<open>Maps\<close>

text \<open>
  A Go \<open>map\<close> is the association list of its entries: \<open>map_of m k\<close> reads it, \<open>AList.update\<close> and
  \<open>AList.delete\<close> write it, its length is \<open>len\<close>, and a \<open>range\<close> over it takes its entries in the
  list's order, which nothing the components prove depends on. \<open>nil\<close> is the \<open>None\<close> of an option.
  \<open>is_map\<close> says that no key occurs twice.
\<close>

abbreviation put :: "'k \<Rightarrow> 'v \<Rightarrow> ('k \<times> 'v) list \<Rightarrow> ('k \<times> 'v) list" where
  "put \<equiv> AList.update"

abbreviation del :: "'k \<Rightarrow> ('k \<times> 'v) list \<Rightarrow> ('k \<times> 'v) list" where
  "del \<equiv> AList.delete"

abbreviation is_map :: "('k \<times> 'v) list \<Rightarrow> bool" where
  "is_map m \<equiv> distinct (map fst m)"

text \<open>A read that answers the zero value \<open>d\<close> for a missing key.\<close>

definition get_or :: "'v \<Rightarrow> ('k \<times> 'v) list \<Rightarrow> 'k \<Rightarrow> 'v" where
  "get_or d m k = (case map_of m k of None \<Rightarrow> d | Some v \<Rightarrow> v)"

text \<open>\<open>maps.DeleteFunc\<close>, and a loop that deletes the entries that fail a test.\<close>

definition keep_if :: "('k \<Rightarrow> 'v \<Rightarrow> bool) \<Rightarrow> ('k \<times> 'v) list \<Rightarrow> ('k \<times> 'v) list" where
  "keep_if P m = filter (\<lambda>(k, v). P k v) m"

lemma is_map_put [go_map, intro]: "is_map m \<Longrightarrow> is_map (put k v m)"
  by (rule distinct_update)

lemma is_map_del [go_map, intro]: "is_map m \<Longrightarrow> is_map (del k m)"
  by (rule distinct_delete)

lemma is_map_keep_if [go_map, intro]: "is_map m \<Longrightarrow> is_map (keep_if P m)"
  by (induction m) (auto simp: keep_if_def)

lemma map_of_put [go_map]: "map_of (put k v m) x = (if x = k then Some v else map_of m x)"
  by (simp add: update_conv)

lemma map_of_del [go_map]: "map_of (del k m) x = (if x = k then None else map_of m x)"
  by (auto simp: delete_conv)

lemma map_of_keep_if [go_map]:
  "is_map m \<Longrightarrow> map_of (keep_if P m) k =
     (case map_of m k of None \<Rightarrow> None | Some v \<Rightarrow> if P k v then Some v else None)"
  by (induction m) (auto simp: keep_if_def map_of_eq_None_iff image_iff split: option.splits)

lemma get_or_put: "get_or d (put k v m) x = (if x = k then v else get_or d m x)"
  by (simp add: get_or_def map_of_put)

lemma length_put [go_map]:
  "length (put k v m) = (if map_of m k = None then Suc (length m) else length m)"
  by (induction m) auto

lemma length_put_le: "length (put k v m) \<le> Suc (length m)"
  by (simp add: length_put)

lemma length_del_le: "length (del k m) \<le> length m"
  by (induction m) auto

lemma length_keep_if_le: "length (keep_if P m) \<le> length m"
  by (simp add: keep_if_def)

lemma set_put_subset: "set (put k v m) \<subseteq> insert (k, v) (set m)"
  by (induction m) auto

lemma set_del [go_map]: "set (del k m) = {e \<in> set m. fst e \<noteq> k}"
  by (auto simp: AList.delete_eq)

lemma set_keep_if [go_map]: "(k, v) \<in> set (keep_if P m) \<longleftrightarrow> (k, v) \<in> set m \<and> P k v"
  by (auto simp: keep_if_def)

lemma map_of_in_set: "is_map m \<Longrightarrow> map_of m k = Some v \<longleftrightarrow> (k, v) \<in> set m"
  by (rule map_of_eq_Some_iff)

section \<open>Lists\<close>

lemma distinct_map_filter_key:
  "distinct (map f xs) \<Longrightarrow> distinct (map f (filter P xs))"
  by (induction xs) auto

lemma length_filter_split:
  "length (filter P xs) + length (filter (\<lambda>x. \<not> P x) xs) = length xs"
  by (induction xs) auto

end
