(* ===== verification/Regexps.thy ===== *)
theory Regexps
  imports Prelude
begin

text \<open>
  The regular expressions of Go's \<open>regexp\<close> package that the source compiles, as a datatype
  matched by derivatives. \<open>MatchString\<close> looks for a match anywhere in the text; a pattern
  is therefore written with \<open>any_star\<close> in front, and behind too where it is not anchored
  with a dollar sign. \<open>accepts_iff\<close> says the matcher decides the pattern's language.
\<close>

datatype rx = Zero | One | Chr "char \<Rightarrow> bool" | Seq rx rx | Alt rx rx | Star rx

fun nullable :: "rx \<Rightarrow> bool" where
  "nullable Zero \<longleftrightarrow> False"
| "nullable One \<longleftrightarrow> True"
| "nullable (Chr P) \<longleftrightarrow> False"
| "nullable (Seq r s) \<longleftrightarrow> nullable r \<and> nullable s"
| "nullable (Alt r s) \<longleftrightarrow> nullable r \<or> nullable s"
| "nullable (Star r) \<longleftrightarrow> True"

fun deriv_rx :: "char \<Rightarrow> rx \<Rightarrow> rx" where
  "deriv_rx c Zero = Zero"
| "deriv_rx c One = Zero"
| "deriv_rx c (Chr P) = (if P c then One else Zero)"
| "deriv_rx c (Seq r s) =
     (if nullable r then Alt (Seq (deriv_rx c r) s) (deriv_rx c s) else Seq (deriv_rx c r) s)"
| "deriv_rx c (Alt r s) = Alt (deriv_rx c r) (deriv_rx c s)"
| "deriv_rx c (Star r) = Seq (deriv_rx c r) (Star r)"

fun accepts :: "rx \<Rightarrow> string \<Rightarrow> bool" where
  "accepts r [] \<longleftrightarrow> nullable r"
| "accepts r (c # s) \<longleftrightarrow> accepts (deriv_rx c r) s"

abbreviation any_star :: rx where "any_star \<equiv> Star (Chr (\<lambda>_. True))"
abbreviation digit :: rx where "digit \<equiv> Chr is_digit"
abbreviation space :: rx where
  "space \<equiv> Chr (\<lambda>c. c \<in> {CHR 0x09, CHR 0x0A, CHR 0x0C, CHR 0x0D, CHR '' ''})"
abbreviation opt :: "rx \<Rightarrow> rx" where "opt r \<equiv> Alt One r"

fun lit :: "string \<Rightarrow> rx" where
  "lit [] = One"
| "lit (c # s) = Seq (Chr (\<lambda>x. x = c)) (lit s)"

text \<open>The language of a pattern, and that the matcher decides it.\<close>

inductive matches :: "rx \<Rightarrow> string \<Rightarrow> bool" where
  One: "matches One []"
| Chr: "P c \<Longrightarrow> matches (Chr P) [c]"
| Seq: "matches r u \<Longrightarrow> matches s v \<Longrightarrow> matches (Seq r s) (u @ v)"
| AltL: "matches r u \<Longrightarrow> matches (Alt r s) u"
| AltR: "matches s u \<Longrightarrow> matches (Alt r s) u"
| Star0: "matches (Star r) []"
| Star1: "matches r (c # u) \<Longrightarrow> matches (Star r) v \<Longrightarrow> matches (Star r) (c # u @ v)"

inductive_cases matches_cases [elim!]:
  "matches Zero u" "matches One u" "matches (Chr P) u" "matches (Alt r s) u"

inductive_cases matches_SeqE: "matches (Seq r s) u"
inductive_cases matches_StarE: "matches (Star r) (c # u)"

lemma nullable_iff: "nullable r \<longleftrightarrow> matches r []"
  by (induction r) (auto intro: matches.intros elim!: matches_SeqE
      dest: matches.Seq [where u = "[]" and v = "[]", simplified])

lemma deriv_sound: "matches (deriv_rx c r) u \<Longrightarrow> matches r (c # u)"
proof (induction r arbitrary: u)
  case (Seq r s)
  have left: "matches (Seq r s) (c # w)" if w: "matches (Seq (deriv_rx c r) s) w" for w
  proof -
    from w obtain a b where "w = a @ b" "matches (deriv_rx c r) a" "matches s b"
      by (auto elim: matches_SeqE)
    with Seq.IH(1) show ?thesis using matches.Seq [of r "c # a" s b] by simp
  qed
  show ?case
  proof (cases "nullable r")
    case True
    with Seq.prems consider "matches (Seq (deriv_rx c r) s) u" | "matches (deriv_rx c s) u"
      by auto
    then show ?thesis
    proof cases
      case 2
      with Seq.IH(2) True show ?thesis
        using matches.Seq [of r "[]" s "c # u"] by (simp add: nullable_iff)
    qed (rule left)
  next
    case False
    with Seq.prems left show ?thesis by simp
  qed
next
  case (Star r)
  then obtain a b where "u = a @ b" "matches (deriv_rx c r) a" "matches (Star r) b"
    by (auto elim: matches_SeqE)
  with Star.IH show ?case by (simp add: matches.Star1)
qed (auto intro: matches.intros split: if_splits)

lemma deriv_complete: "matches r (c # u) \<Longrightarrow> matches (deriv_rx c r) u"
proof (induction r arbitrary: u)
  case (Seq r s)
  then obtain a b where ab: "c # u = a @ b" "matches r a" "matches s b"
    by (auto elim: matches_SeqE)
  show ?case
  proof (cases a)
    case Nil
    with ab Seq.IH(2) show ?thesis by (auto simp: nullable_iff intro: matches.AltR)
  next
    case (Cons x a')
    with ab Seq.IH(1) have "matches (Seq (deriv_rx c r) s) u"
      by (auto intro: matches.Seq)
    then show ?thesis by (auto intro: matches.AltL)
  qed
next
  case (Star r)
  then obtain a b where "u = a @ b" "matches r (c # a)" "matches (Star r) b"
    by (auto elim: matches_StarE)
  with Star.IH show ?case by (auto intro: matches.Seq)
qed (auto intro: matches.intros)

lemma accepts_iff: "accepts r u \<longleftrightarrow> matches r u"
  by (induction r u rule: accepts.induct)
    (auto simp: nullable_iff intro: deriv_sound deriv_complete)

text \<open>What the combinators used by the source match.\<close>

named_theorems rx_sem "the language of a pattern, spelled out"

lemma matches_Seq [rx_sem]: "matches (Seq r s) u \<longleftrightarrow> (\<exists>a b. u = a @ b \<and> matches r a \<and> matches s b)"
  by (blast intro: matches.Seq elim: matches_SeqE)

lemma matches_Alt [rx_sem]: "matches (Alt r s) u \<longleftrightarrow> matches r u \<or> matches s u"
  by (auto intro: matches.intros)

lemma matches_One [rx_sem]: "matches One u \<longleftrightarrow> u = []"
  by (auto intro: matches.intros)

lemma matches_Chr [rx_sem]: "matches (Chr P) u \<longleftrightarrow> (\<exists>c. u = [c] \<and> P c)"
  by (auto intro: matches.intros)

lemma matches_lit [rx_sem]: "matches (lit p) u \<longleftrightarrow> u = p"
  by (induction p arbitrary: u) (auto simp: rx_sem)

lemma matches_Star_Chr [rx_sem]: "matches (Star (Chr P)) u \<longleftrightarrow> (\<forall>c\<in>set u. P c)"
proof
  show "matches (Star (Chr P)) u \<Longrightarrow> \<forall>c\<in>set u. P c"
    by (induction "Star (Chr P)" u rule: matches.induct) (auto simp: rx_sem)
  show "\<forall>c\<in>set u. P c \<Longrightarrow> matches (Star (Chr P)) u"
  proof (induction u)
    case (Cons c u)
    then show ?case
      using matches.Star1 [of "Chr P" c "[]" u] by (auto intro: matches.intros)
  qed (rule matches.Star0)
qed

lemma accepts_any_star [rx_sem]:
  "accepts (Seq any_star r) s \<longleftrightarrow> (\<exists>u v. s = u @ v \<and> matches r v)"
  by (simp add: accepts_iff rx_sem)

end
