(* ===== verification/Mmsi.thy ===== *)
theory Mmsi
  imports Prelude Regexps
begin

text \<open>
  Station identities, from \<open>server/mid.go\<close> and \<open>server/kinds.go\<close>: which MMSI can name one
  station, which flag its Maritime Identification Digits give it, and the kind a station's
  own data gives it (\<open>vessel\<close>, \<open>gear\<close>, \<open>sar\<close>). An MMSI is a 32-bit word and the digit
  arithmetic is on words, as in the source. The lemmas tie the two tables of \<open>mid.go\<close>
  together: what \<open>valid_mmsi\<close> refuses has no slot for an allocated MID.
\<close>

section \<open>Flag state of an MMSI\<close>

definition mid_flag_table :: "(mmsi \<times> string) list" where
  "mid_flag_table = [
   (201, ''AL''), (202, ''AD''), (203, ''AT''), (204, ''PT''), (205, ''BE''), (206, ''BY''),
   (207, ''BG''), (208, ''VA''), (209, ''CY''), (210, ''CY''), (211, ''DE''), (212, ''CY''),
   (213, ''GE''), (214, ''MD''), (215, ''MT''), (216, ''AM''), (218, ''DE''), (219, ''DK''),
   (220, ''DK''), (224, ''ES''), (225, ''ES''), (226, ''FR''), (227, ''FR''), (228, ''FR''),
   (229, ''MT''), (230, ''FI''), (231, ''FO''), (232, ''GB''), (233, ''GB''), (234, ''GB''),
   (235, ''GB''), (236, ''GI''), (237, ''GR''), (238, ''HR''), (239, ''GR''), (240, ''GR''),
   (241, ''GR''), (242, ''MA''), (243, ''HU''), (244, ''NL''), (245, ''NL''), (246, ''NL''),
   (247, ''IT''), (248, ''MT''), (249, ''MT''), (250, ''IE''), (251, ''IS''), (252, ''LI''),
   (253, ''LU''), (254, ''MC''), (255, ''PT''), (256, ''MT''), (257, ''NO''), (258, ''NO''),
   (259, ''NO''), (261, ''PL''), (262, ''ME''), (263, ''PT''), (264, ''RO''), (265, ''SE''),
   (266, ''SE''), (267, ''SK''), (268, ''SM''), (269, ''CH''), (270, ''CZ''), (271, ''TR''),
   (272, ''UA''), (273, ''RU''), (274, ''MK''), (275, ''LV''), (276, ''EE''), (277, ''LT''),
   (278, ''SI''), (279, ''RS''), (301, ''AI''), (303, ''US''), (304, ''AG''), (305, ''AG''),
   (306, ''CW''), (307, ''AW''), (308, ''BS''), (309, ''BS''), (310, ''BM''), (311, ''BS''),
   (312, ''BZ''), (314, ''BB''), (316, ''CA''), (319, ''KY''), (321, ''CR''), (323, ''CU''),
   (325, ''DM''), (327, ''DO''), (329, ''GP''), (330, ''GD''), (331, ''GL''), (332, ''GT''),
   (334, ''HN''), (336, ''HT''), (338, ''US''), (339, ''JM''), (341, ''KN''), (343, ''LC''),
   (345, ''MX''), (347, ''MQ''), (348, ''MS''), (350, ''NI''), (351, ''PA''), (352, ''PA''),
   (353, ''PA''), (354, ''PA''), (355, ''PA''), (356, ''PA''), (357, ''PA''), (358, ''PR''),
   (359, ''SV''), (361, ''PM''), (362, ''TT''), (364, ''TC''), (366, ''US''), (367, ''US''),
   (368, ''US''), (369, ''US''), (370, ''PA''), (371, ''PA''), (372, ''PA''), (373, ''PA''),
   (374, ''PA''), (375, ''VC''), (376, ''VC''), (377, ''VC''), (378, ''VG''), (379, ''VI''),
   (401, ''AF''), (403, ''SA''), (405, ''BD''), (408, ''BH''), (410, ''BT''), (412, ''CN''),
   (413, ''CN''), (414, ''CN''), (416, ''TW''), (417, ''LK''), (419, ''IN''), (422, ''IR''),
   (423, ''AZ''), (425, ''IQ''), (428, ''IL''), (431, ''JP''), (432, ''JP''), (434, ''TM''),
   (436, ''KZ''), (437, ''UZ''), (438, ''JO''), (440, ''KR''), (441, ''KR''), (443, ''PS''),
   (445, ''KP''), (447, ''KW''), (450, ''LB''), (451, ''KG''), (453, ''MO''), (455, ''MV''),
   (457, ''MN''), (459, ''NP''), (461, ''OM''), (463, ''PK''), (466, ''QA''), (468, ''SY''),
   (470, ''AE''), (471, ''AE''), (472, ''TJ''), (473, ''YE''), (475, ''YE''), (477, ''HK''),
   (478, ''BA''), (501, ''TF''), (503, ''AU''), (506, ''MM''), (508, ''BN''), (510, ''FM''),
   (511, ''PW''), (512, ''NZ''), (514, ''KH''), (515, ''KH''), (516, ''CX''), (518, ''CK''),
   (520, ''FJ''), (523, ''CC''), (525, ''ID''), (529, ''KI''), (531, ''LA''), (533, ''MY''),
   (536, ''MP''), (538, ''MH''), (540, ''NC''), (542, ''NU''), (544, ''NR''), (546, ''PF''),
   (548, ''PH''), (550, ''TL''), (553, ''PG''), (555, ''PN''), (557, ''SB''), (559, ''AS''),
   (561, ''WS''), (563, ''SG''), (564, ''SG''), (565, ''SG''), (566, ''SG''), (567, ''TH''),
   (570, ''TO''), (572, ''TV''), (574, ''VN''), (576, ''VU''), (577, ''VU''), (578, ''WF''),
   (601, ''ZA''), (603, ''AO''), (605, ''DZ''), (607, ''TF''), (608, ''SH''), (609, ''BI''),
   (610, ''BJ''), (611, ''BW''), (612, ''CF''), (613, ''CM''), (615, ''CG''), (616, ''KM''),
   (617, ''CV''), (618, ''TF''), (619, ''CI''), (620, ''KM''), (621, ''DJ''), (622, ''EG''),
   (624, ''ET''), (625, ''ER''), (626, ''GA''), (627, ''GH''), (629, ''GM''), (630, ''GW''),
   (631, ''GQ''), (632, ''GN''), (633, ''BF''), (634, ''KE''), (635, ''TF''), (636, ''LR''),
   (637, ''LR''), (638, ''SS''), (642, ''LY''), (644, ''LS''), (645, ''MU''), (647, ''MG''),
   (649, ''ML''), (650, ''MZ''), (654, ''MR''), (655, ''MW''), (656, ''NE''), (657, ''NG''),
   (659, ''NA''), (660, ''RE''), (661, ''RW''), (662, ''SD''), (663, ''SN''), (664, ''SC''),
   (665, ''SH''), (666, ''SO''), (667, ''SL''), (668, ''ST''), (669, ''SZ''), (670, ''TD''),
   (671, ''TG''), (672, ''TN''), (674, ''TZ''), (675, ''UG''), (676, ''CD''), (677, ''TZ''),
   (678, ''ZM''), (679, ''ZW''), (701, ''AR''), (710, ''BR''), (720, ''BO''), (725, ''CL''),
   (730, ''CO''), (735, ''EC''), (740, ''FK''), (745, ''GF''), (750, ''GY''), (755, ''PY''),
   (760, ''PE''), (765, ''SR''), (770, ''UY''), (775, ''VE'')]"

definition mid_flag :: "mmsi \<Rightarrow> string" where
  "mid_flag mid = (case map_of mid_flag_table mid of None \<Rightarrow> [] | Some f \<Rightarrow> f)"

text \<open>The slot of the MMSI that holds the MID; \<open>None\<close> is the source's \<open>default\<close>.\<close>

definition mid_of :: "mmsi \<Rightarrow> mmsi option" where
  "mid_of m =
     (if 200000000 \<le> m \<and> m < 800000000 then Some (m div 1000000)
      else if 800000000 \<le> m \<and> m < 900000000 then Some (m div 100000 mod 1000)
      else if 980000000 \<le> m then Some (m div 10000 mod 1000)
      else if 111000000 \<le> m \<and> m < 112000000 then Some (m div 1000 mod 1000)
      else if 10000000 \<le> m \<and> m < 100000000 then Some (m div 100000)
      else if m < 10000000 then Some (m div 10000)
      else None)"

definition flag_of :: "mmsi \<Rightarrow> string" where
  "flag_of m = (case mid_of m of None \<Rightarrow> [] | Some mid \<Rightarrow> mid_flag mid)"

section \<open>Which MMSIs name one station\<close>

definition invalid_mmsi_ranges :: "(mmsi \<times> mmsi) list" where
  "invalid_mmsi_ranges =
     [(0, 1999999), (8000000, 19999999), (80000000, 99999999), (1000000000, 4294967295)]"

definition default_mmsis :: "mmsi list" where
  "default_mmsis = [100000000, 111111111, 222222222, 333333333, 444444444, 555555555,
     666666666, 777777777, 888888888, 999999999, 123456789, 987654321]"

fun in_ranges :: "mmsi \<Rightarrow> (mmsi \<times> mmsi) list \<Rightarrow> bool" where
  "in_ranges m [] \<longleftrightarrow> False"
| "in_ranges m ((lo, hi) # rs) \<longleftrightarrow> lo \<le> m \<and> m \<le> hi \<or> in_ranges m rs"

definition valid_mmsi :: "mmsi \<Rightarrow> bool" where
  "valid_mmsi m \<longleftrightarrow> \<not> in_ranges m invalid_mmsi_ranges \<and> m \<notin> set default_mmsis"

section \<open>Kinds a station's own data gives it\<close>

definition is_beacon_mmsi :: "mmsi \<Rightarrow> bool" where
  "is_beacon_mmsi m = (let p = m div 1000000 in p = 970 \<or> p = 972 \<or> p = 974)"

definition ship_type :: "8 word \<Rightarrow> bool" where
  "ship_type t \<longleftrightarrow> 20 \<le> t \<and> t \<le> 99"

definition gear_battery :: rx where
  "gear_battery = Seq any_star (Seq digit (Seq (Star space) (lit ''%'')))"

definition gear_voltage :: rx where
  "gear_voltage = Seq any_star (Alt
     (Seq digit (Seq (Star space) (Seq (lit ''V'') (opt digit))))
     (Alt (Seq digit (Seq (lit ''.'') (Seq digit (Seq (lit ''V'') any_star))))
          (Seq (lit ''@'') (Seq digit (Seq (Star digit) (Seq (lit ''V'') any_star))))))"

definition gear_name :: rx where
  "gear_name = Seq any_star (Seq (Alt (lit ''BUOY'') (Alt (lit ''BOUY'')
     (Alt (Seq (lit ''NET'') (Seq (opt (lit '' '')) (lit ''MARK'')))
          (Seq (lit ''NET'') (Seq (opt (lit '' '')) (lit ''FISH'')))))) any_star)"

text \<open>
  \<open>derivedKind\<close> over the fields of the vessel it reads: name, navigational status, ship
  type, length and beam.
\<close>

definition derived_kind :: "mmsi \<Rightarrow> string \<Rightarrow> 8 word \<Rightarrow> 8 word \<Rightarrow> 16 word \<Rightarrow> 16 word \<Rightarrow> string" where
  "derived_kind m vname nav typ len beam =
     (let name = trim_space vname in
      if is_beacon_mmsi m \<and> nav = 14 then ''sar''
      else if m div 1000000 = 979 then ''gear''
      else if accepts gear_battery name then ''gear''
      else if \<not> ship_type typ \<and> (accepts gear_voltage name \<or> accepts gear_name name \<or>
                len = 10 \<and> beam = 10) then ''gear''
      else ''vessel'')"

definition served_flag :: "mmsi \<Rightarrow> string \<Rightarrow> string" where
  "served_flag m kind = (if kind = ''gear'' then [] else flag_of m)"

definition valid_heading :: "16 word \<Rightarrow> bool" where
  "valid_heading h \<longleftrightarrow> h < 360"

definition has_hull :: "string \<Rightarrow> bool" where
  "has_hull kind \<longleftrightarrow> kind \<noteq> ''gear''"

section \<open>The tables of \<open>mid.go\<close> agree\<close>

lemma mid_flag_table_range: "list_all (\<lambda>(mid, f). 200 \<le> mid \<and> mid < 800) mid_flag_table"
  by (simp add: mid_flag_table_def)

lemma mid_flag_range: "mid_flag mid \<noteq> [] \<Longrightarrow> 200 \<le> mid \<and> mid < 800"
  using mid_flag_table_range
  by (auto simp: mid_flag_def list_all_iff split: option.splits dest!: map_of_SomeD)

lemmas mmsi_nat = word_le_nat_alt word_less_nat_alt unat_div_distrib unat_mod_distrib

lemma div_bounds: "0 < (k::nat) \<Longrightarrow> (a \<le> n div k \<longleftrightarrow> a * k \<le> n) \<and> (n div k < a \<longleftrightarrow> n < a * k)"
  by (simp add: less_eq_div_iff_mult_less_eq div_less_iff_less_mult)

lemma ranges_are_mid_slots:
  assumes "m < 100000000"
  shows "in_ranges m invalid_mmsi_ranges \<longleftrightarrow>
    (\<forall>mid. mid_of m = Some mid \<longrightarrow> \<not> (200 \<le> mid \<and> mid < 800))"
  using assms div_bounds [of 10000 200 "unat m"] div_bounds [of 10000 800 "unat m"]
    div_bounds [of 100000 200 "unat m"] div_bounds [of 100000 800 "unat m"]
  by (auto simp: invalid_mmsi_ranges_def mid_of_def mmsi_nat split: if_splits)

text \<open>
  \<open>invalidMMSIRanges\<close> is exact: a number of at most nine digits is in one of its ranges
  if and only if it is a coast station or group number (below 100,000,000) whose own MID
  slot, as \<open>flagOf\<close> finds it, lies outside 200 to 799. So no number that shows a flag is
  ever refused for want of a MID.
\<close>

theorem invalid_ranges_exact:
  assumes "m < 1000000000"
  shows "(in_ranges m invalid_mmsi_ranges \<longleftrightarrow>
      m < 100000000 \<and> (\<forall>mid. mid_of m = Some mid \<longrightarrow> \<not> (200 \<le> mid \<and> mid < 800)))
    \<and> (flag_of m \<noteq> [] \<longrightarrow> \<not> in_ranges m invalid_mmsi_ranges)"
proof (cases "m < 100000000")
  case True
  then show ?thesis
    using ranges_are_mid_slots [OF True] mid_flag_range
    by (fastforce simp: flag_of_def split: option.splits)
next
  case False
  with assms show ?thesis by (simp add: invalid_mmsi_ranges_def mmsi_nat)
qed

theorem invalid_ranges_exact_witness:
  "\<not> in_ranges (2570000 :: mmsi) invalid_mmsi_ranges \<and> flag_of 2570000 = ''NO''"
proof -
  have f: "flag_of 2570000 = ''NO''"
    by (simp add: flag_of_def mid_of_def mid_flag_def mid_flag_table_def)
  have "2570000 < (1000000000 :: mmsi)" by simp
  from invalid_ranges_exact [OF this] f show ?thesis by auto
qed

section \<open>Kinds\<close>

lemma gear_battery_iff: "accepts gear_battery s \<longleftrightarrow>
  (\<exists>u d w. s = u @ d # w @ ''%'' \<and> is_digit d \<and>
     (\<forall>c\<in>set w. c \<in> {CHR 0x09, CHR 0x0A, CHR 0x0C, CHR 0x0D, CHR '' ''}))"
proof -
  have "accepts gear_battery s \<longleftrightarrow> (\<exists>u d w. s = u @ [d] @ w @ ''%'' \<and> is_digit d \<and>
      (\<forall>c\<in>set w. c \<in> {CHR 0x09, CHR 0x0A, CHR 0x0C, CHR 0x0D, CHR '' ''}))"
    unfolding gear_battery_def accepts_any_star matches_Seq matches_Chr matches_lit matches_Star_Chr
    by metis
  then show ?thesis by simp
qed

text \<open>
  \<open>derivedKind\<close> is total over \<open>sar\<close>, \<open>gear\<close> and \<open>vessel\<close>, and each verdict has its
  documented cause: \<open>sar\<close> exactly for a beacon number with navigational status 14; a station
  that reports a ship's type (20 to 99) is gear only by a 979 number or a battery level
  closing its name, so a cargo ship named BUOYSUND stays a vessel; and a battery level makes
  gear of any station that is not an active beacon, whatever type it claims.
\<close>

theorem derived_kind_causes:
  "derived_kind m n nav typ l b \<in> {''sar'', ''gear'', ''vessel''} \<and>
   (derived_kind m n nav typ l b = ''sar'' \<longleftrightarrow> is_beacon_mmsi m \<and> nav = 14) \<and>
   (ship_type typ \<and> derived_kind m n nav typ l b = ''gear'' \<longrightarrow> m div 1000000 = 979 \<or>
      (\<exists>u d w. trim_space n = u @ d # w @ ''%'' \<and> is_digit d)) \<and>
   (\<not> (is_beacon_mmsi m \<and> nav = 14) \<and> trim_space n = u @ d # ''%'' \<and> is_digit d \<longrightarrow>
      derived_kind m n nav typ l b = ''gear'')"
proof -
  have battery: "accepts gear_battery (trim_space n)"
    if "trim_space n = u @ d # ''%''" "is_digit d"
    using that unfolding gear_battery_iff
    by (intro exI [of _ u] exI [of _ d] exI [of _ "[]"]) simp
  show ?thesis
    using battery by (auto simp: derived_kind_def Let_def gear_battery_iff)
qed

theorem derived_kind_causes_witness:
  "derived_kind 257123456 ''HSD-NET-88%'' 15 70 0 0 = ''gear'' \<and>
   derived_kind 257123456 ''BUOYSUND'' 0 70 90 14 = ''vessel'' \<and>
   derived_kind 257123456 ''BUOYSUND'' 0 0 90 14 = ''gear''"
proof -
  have trim: "trim_space ''HSD-NET-88%'' = ''HSD-NET-8'' @ CHR ''8'' # ''%''"
    by (simp add: trim_space_def is_space_def)
  have d: "is_digit (CHR ''8'')" by (simp add: is_digit_def)
  have nb: "\<not> (is_beacon_mmsi 257123456 \<and> (15 :: 8 word) = 14)" by (simp add: is_beacon_mmsi_def)
  have "derived_kind 257123456 ''HSD-NET-88%'' 15 70 0 0 = ''gear''"
    using derived_kind_causes [of 257123456 "''HSD-NET-88%''" 15 70 0 0 "''HSD-NET-8''" "CHR ''8''"]
      nb trim d by blast
  moreover have "derived_kind 257123456 ''BUOYSUND'' 0 70 90 14 = ''vessel'' \<and>
      derived_kind 257123456 ''BUOYSUND'' 0 0 90 14 = ''gear''"
    by (simp add: derived_kind_def is_beacon_mmsi_def gear_battery_def gear_voltage_def
        gear_name_def trim_space_def is_space_def is_digit_def ship_type_def)
  ultimately show ?thesis by blast
qed

end
