(* ===== verification/Tracks.thy ===== *)
theory Tracks
  imports Prelude "HOL-Library.Sublist"
begin

text \<open>
  Track positions, from \<open>server/tracks.go\<close>, with \<open>nm\<close> of \<open>server/vessels.go\<close>: the position
  report as it is queued (\<open>trackPoint\<close>), the anchor that decides whether a report is moving,
  the ring of a vessel's recent transmissions (\<open>remember\<close>, \<open>repeats\<close>, \<open>jumps\<close>,
  \<open>freeDisc\<close>, \<open>sent\<close>) and \<open>despike\<close>, which drops impossible positions from a served track.

  Positions are integers, 1/600000 degree, as in the source; \<open>wrap32\<close> keeps their
  differences at 32 bits. The ring is the list \<open>v.recent\<close>, oldest first.
\<close>

section \<open>Data\<close>

record track_point =
  pt_mmsi :: mmsi
  pt_ts :: time
  pt_lat6 :: int
  pt_lon6 :: int
  pt_sog10 :: "16 word"
  pt_cog10 :: "16 word"
  pt_heading :: "16 word"
  pt_nav :: "8 word"
  pt_source :: string
  pt_tx_at :: time
  pt_tx_disc :: "8 word"
  pt_recv :: time
  pt_station :: string
  pt_dup :: bool
  pt_uncorroborated :: bool
  pt_implausible :: bool
  pt_clock_bad :: bool
  pt_still :: bool
  pt_stale :: bool

record anchor =
  an_lat6 :: int
  an_lon6 :: int
  an_set :: bool

record recent_pos =
  rp_ms :: int
  rp_lat6 :: int
  rp_lon6 :: int
  rp_disc :: "8 word"
  rp_bad :: bool
  rp_still :: bool

definition no_anchor :: anchor where
  "no_anchor = \<lparr>an_lat6 = 0, an_lon6 = 0, an_set = False\<rparr>"

definition max_pending :: nat where "max_pending = 300000"
definition max_own_pending :: nat where "max_own_pending = 10000"
definition max_own_per_station :: nat where "max_own_per_station = 4"
definition moved_m :: real where "moved_m = 50"
definition clock_bad_age :: duration where "clock_bad_age = 24 * hour"
definition recent_keep_ms :: int where "recent_keep_ms = 300000"
definition recent_max :: nat where "recent_max = 32"
definition recent_bad :: nat where "recent_bad = 4"
definition recent_near_a :: int where "recent_near_a = 4"
definition implausible_knots :: real where "implausible_knots = 120"
definition implausible_jump_nm :: real where "implausible_jump_nm = 10"
definition despike_floor_nm :: real where "despike_floor_nm = 3 / 100"
definition despike_min_knots :: real where "despike_min_knots = 25"
definition despike_max_run :: nat where "despike_max_run = 3"

lemmas track_consts = max_pending_def max_own_pending_def max_own_per_station_def moved_m_def
  clock_bad_age_def recent_keep_ms_def recent_max_def recent_bad_def recent_near_a_def
  implausible_knots_def implausible_jump_nm_def despike_floor_nm_def despike_min_knots_def
  despike_max_run_def

section \<open>Distances\<close>

text \<open>\<open>nm\<close>: the great-circle distance in nautical miles.\<close>

definition nm :: "real \<Rightarrow> real \<Rightarrow> real \<Rightarrow> real \<Rightarrow> real" where
  "nm lat1 lon1 lat2 lon2 =
     (let f1 = lat1 * pi / 180; f2 = lat2 * pi / 180;
          df = (lat2 - lat1) * pi / 180; dl = (lon2 - lon1) * pi / 180;
          a = sin (df / 2) * sin (df / 2) + cos f1 * cos f2 * sin (dl / 2) * sin (dl / 2)
      in 2 * (3440065 / 1000) * arcsin (sqrt a))"

definition deg6 :: "int \<Rightarrow> real" where
  "deg6 n = of_int n / 600000"

definition nm6 :: "int \<Rightarrow> int \<Rightarrow> int \<Rightarrow> int \<Rightarrow> real" where
  "nm6 a b c d = nm (deg6 a) (deg6 b) (deg6 c) (deg6 d)"

definition abs_int :: "int \<Rightarrow> int" where
  "abs_int n = (if n < 0 then wrap32 (- n) else n)"

section \<open>Building a track point\<close>

definition hex_val :: "char \<Rightarrow> nat option" where
  "hex_val c = (let n = of_char c :: nat in
     if 48 \<le> n \<and> n \<le> 57 then Some (n - 48)
     else if 97 \<le> n \<and> n \<le> 102 then Some (n - 87)
     else if 65 \<le> n \<and> n \<le> 70 then Some (n - 55) else None)"

text \<open>\<open>strconv.ParseUint(s, 16, 64)\<close> with the error dropped: 0 for anything not a digit.\<close>

fun parse_hex :: "64 word \<Rightarrow> string \<Rightarrow> 64 word" where
  "parse_hex h [] = h"
| "parse_hex h (c # s) = (case hex_val c of None \<Rightarrow> 0 | Some d \<Rightarrow> parse_hex (16 * h + of_nat d) s)"

definition disc_of :: "(string \<Rightarrow> string) \<Rightarrow> string \<Rightarrow> 8 word" where
  "disc_of event_id id0 =
     (let i = (if length id0 < 16 then event_id id0 else id0)
      in ucast (parse_hex 0 (take 16 i)))"

definition new_track_point ::
  "mmsi \<Rightarrow> time \<Rightarrow> real \<Rightarrow> real \<Rightarrow> real \<Rightarrow> real \<Rightarrow> 16 word \<Rightarrow> 8 word \<Rightarrow> string \<Rightarrow> track_point" where
  "new_track_point m ts lat lon sog cog heading nav kind =
     \<lparr>pt_mmsi = m, pt_ts = ts,
      pt_lat6 = wrap32 (go_round (lat * 600000)), pt_lon6 = wrap32 (go_round (lon * 600000)),
      pt_sog10 = (if sog < 1023 / 10 then word_of_int (go_round (sog * 10)) else 1023),
      pt_cog10 = (if cog < 360 then word_of_int (go_round (cog * 10)) else 3600),
      pt_heading = heading, pt_nav = nav, pt_source = kind,
      pt_tx_at = zero_time, pt_tx_disc = 0, pt_recv = zero_time, pt_station = [],
      pt_dup = False, pt_uncorroborated = False, pt_implausible = False,
      pt_clock_bad = False, pt_still = False, pt_stale = False\<rparr>"

section \<open>Whether a report is moving\<close>

text \<open>
  \<open>anchor.still\<close>: the anchor afterwards and the verdict. A seed sets an anchor not yet set;
  a moving report becomes the anchor when \<open>advance\<close> is set.
\<close>

definition anchor_still ::
  "anchor \<Rightarrow> track_point \<Rightarrow> (int \<times> int) option \<Rightarrow> bool \<Rightarrow> anchor \<times> bool" where
  "anchor_still a0 pt seed adv =
     (let a = (case seed of
                 Some (la, lo) \<Rightarrow>
                   if an_set a0 then a0 else \<lparr>an_lat6 = la, an_lon6 = lo, an_set = True\<rparr>
               | None \<Rightarrow> a0);
          moving = (\<not> an_set a \<or>
             nm6 (an_lat6 a) (an_lon6 a) (pt_lat6 pt) (pt_lon6 pt) * 1852 > moved_m);
          a' = (if moving \<and> adv
                then \<lparr>an_lat6 = pt_lat6 pt, an_lon6 = pt_lon6 pt, an_set = True\<rparr> else a)
      in (a', \<not> moving))"

section \<open>The ring of recent transmissions\<close>

text \<open>\<open>slices.IndexFunc\<close> and \<open>slices.Delete\<close> of the first entry that satisfies the test.\<close>

fun drop_first :: "('a \<Rightarrow> bool) \<Rightarrow> 'a list \<Rightarrow> 'a list" where
  "drop_first P [] = []"
| "drop_first P (x # xs) = (if P x then xs else x # drop_first P xs)"

definition remember :: "track_point \<Rightarrow> recent_pos list \<Rightarrow> recent_pos list" where
  "remember pt recent =
     (let ms = unix_milli (pt_ts pt);
          keep = filter (\<lambda>r. ms - rp_ms r < recent_keep_ms) recent;
          same = length (filter (\<lambda>r. rp_bad r = pt_implausible pt) keep);
          keep' = (if pt_implausible pt \<and> recent_bad \<le> same \<or> recent_max \<le> same
                   then drop_first (\<lambda>r. rp_bad r = pt_implausible pt) keep else keep)
      in keep' @ [\<lparr>rp_ms = ms, rp_lat6 = pt_lat6 pt, rp_lon6 = pt_lon6 pt,
                   rp_disc = pt_tx_disc pt, rp_bad = pt_implausible pt, rp_still = pt_still pt\<rparr>])"

definition repeat_dt :: "track_point \<Rightarrow> recent_pos \<Rightarrow> int" where
  "repeat_dt pt r = (let ms = unix_milli (pt_ts pt) in max (ms - rp_ms r) (rp_ms r - ms))"

definition repeatable :: "track_point \<Rightarrow> recent_pos \<Rightarrow> bool" where
  "repeatable pt r \<longleftrightarrow> \<not> rp_bad r \<and> repeat_dt pt r < recent_keep_ms \<and>
     abs_int (wrap32 (rp_lat6 r - pt_lat6 pt)) \<le> recent_near_a \<and>
     abs_int (wrap32 (rp_lon6 r - pt_lon6 pt)) \<le> recent_near_a"

fun repeats_from :: "track_point \<Rightarrow> recent_pos option \<Rightarrow> recent_pos list \<Rightarrow> recent_pos option" where
  "repeats_from pt best [] = best"
| "repeats_from pt best (r # rs) = repeats_from pt
     (if repeatable pt r \<and> (case best of None \<Rightarrow> True | Some b \<Rightarrow> repeat_dt pt r < repeat_dt pt b)
      then Some r else best) rs"

definition repeats :: "track_point \<Rightarrow> recent_pos list \<Rightarrow> recent_pos option" where
  "repeats pt recent = repeats_from pt None recent"

text \<open>
  \<open>jumps\<close>: the vessel's latest position, if it has one, starts the search for the position
  nearest in time.
\<close>

fun nearest_from :: "int \<Rightarrow> (real \<times> real \<times> int) option \<Rightarrow> recent_pos list \<Rightarrow> (real \<times> real \<times> int) option" where
  "nearest_from ms best [] = best"
| "nearest_from ms best (r # rs) = nearest_from ms
     (if \<not> rp_bad r \<and> (case best of None \<Rightarrow> True
            | Some (_, _, tm) \<Rightarrow> max (ms - rp_ms r) (rp_ms r - ms) < max (ms - tm) (tm - ms))
      then Some (deg6 (rp_lat6 r), deg6 (rp_lon6 r), rp_ms r) else best) rs"

definition jumps :: "(real \<times> real \<times> time) option \<Rightarrow> recent_pos list \<Rightarrow> track_point \<Rightarrow> bool" where
  "jumps latest recent pt =
     (let ms = unix_milli (pt_ts pt);
          start = map_option (\<lambda>(la, lo, t). (la, lo, unix_milli t)) latest
      in case nearest_from ms start recent of
           None \<Rightarrow> False
         | Some (lat, lon, tm) \<Rightarrow>
             let dt = of_int (max (ms - tm) (tm - ms)) / 1000 :: real;
                 d = nm lat lon (deg6 (pt_lat6 pt)) (deg6 (pt_lon6 pt))
             in dt \<ge> 1 \<and> d > implausible_jump_nm \<and> d / (dt / 3600) > implausible_knots)"

definition disc_taken :: "int \<Rightarrow> recent_pos list \<Rightarrow> 8 word \<Rightarrow> bool" where
  "disc_taken ms recent d \<longleftrightarrow> (\<exists>r\<in>set recent. rp_ms r = ms \<and> rp_disc r = d)"

fun free_disc_loop :: "nat \<Rightarrow> int \<Rightarrow> recent_pos list \<Rightarrow> 8 word \<Rightarrow> 8 word" where
  "free_disc_loop 0 ms recent d = d"
| "free_disc_loop (Suc n) ms recent d =
     (if disc_taken ms recent d then free_disc_loop n ms recent (d + 1) else d)"

definition free_disc :: "recent_pos list \<Rightarrow> track_point \<Rightarrow> track_point" where
  "free_disc recent pt =
     pt\<lparr>pt_tx_disc := free_disc_loop 256 (unix_milli (pt_tx_at pt)) recent (pt_tx_disc pt)\<rparr>"

definition sent :: "int \<Rightarrow> int \<Rightarrow> int \<Rightarrow> recent_pos list \<Rightarrow> recent_pos option" where
  "sent ms lat6 lon6 recent =
     find (\<lambda>r. rp_ms r = ms \<and> rp_lat6 r = lat6 \<and> rp_lon6 r = lon6) recent"

section \<open>Removing impossible positions from a track\<close>

definition impossible :: "track_point \<Rightarrow> track_point \<Rightarrow> bool" where
  "impossible a pt =
     (let dt = of_int (time_sub (pt_ts pt) (pt_ts a)) / 1000000000 :: real;
          d = nm6 (pt_lat6 a) (pt_lon6 a) (pt_lat6 pt) (pt_lon6 pt);
          v1 = (if pt_sog10 a \<noteq> 1023
                then max despike_min_knots (2 * of_nat (unat (pt_sog10 a)) / 10)
                else despike_min_knots);
          vmax = (if pt_sog10 pt \<noteq> 1023
                then max v1 (2 * of_nat (unat (pt_sog10 pt)) / 10) else v1)
      in dt > 0 \<and> d > despike_floor_nm \<and> d / (dt / 3600) > vmax)"

text \<open>The loop: the kept points newest first, the run of drops, whether the anchor is corroborated.\<close>

fun despike_loop :: "track_point list \<Rightarrow> nat \<Rightarrow> bool \<Rightarrow> track_point list \<Rightarrow> track_point list" where
  "despike_loop kept run corr [] = rev kept"
| "despike_loop [] run corr (pt # pts) = despike_loop [pt] run corr pts"
| "despike_loop (a # kept) run corr (pt # pts) =
     (if impossible a pt then
        if run < despike_max_run then despike_loop (a # kept) (Suc run) corr pts
        else if \<not> corr then despike_loop (pt # kept) 0 False pts
        else despike_loop (pt # a # kept) 0 False pts
      else despike_loop (pt # a # kept) 0 True pts)"

definition despike :: "track_point list \<Rightarrow> track_point list" where
  "despike points = despike_loop [] 0 False points"

section \<open>Distances: facts\<close>

lemma sin_half_square: "sin (x / 2) * sin (x / 2) = (1 - cos x) / (2 :: real)"
  using cos_double_sin [of "x / 2"] by (simp add: power2_eq_square)

lemma sin_square_neg: "sin (- x) * sin (- x) = sin x * sin (x :: real)"
  by simp

lemma haversine_range:
  fixes p q d e :: real
  defines "a \<equiv> sin ((q - p) / 2) * sin ((q - p) / 2) + cos p * cos q * sin e * sin e"
  shows "0 \<le> a \<and> a \<le> 1"
proof -
  let ?s = "sin e * sin e"
  have s: "0 \<le> ?s" "?s \<le> 1"
    using abs_sin_le_one [of e] by (auto simp: abs_square_le_1 power2_eq_square [symmetric])
  have h: "sin ((q - p) / 2) * sin ((q - p) / 2) = (1 - cos (q - p)) / 2"
    by (rule sin_half_square)
  have c: "cos p * cos q = (cos (q - p) + cos (q + p)) / 2"
    by (simp add: cos_add cos_diff field_simps)
  have a: "a = (1 - ?s) * ((1 - cos (q - p)) / 2) + ?s * ((1 + cos (q + p)) / 2)"
    unfolding a_def h c by (simp add: field_simps)
  have r: "0 \<le> (1 - c) / 2 \<and> (1 - c) / 2 \<le> 1 \<and> 0 \<le> (1 + c) / 2 \<and> (1 + c) / 2 \<le> 1"
    if "- 1 \<le> c" "c \<le> 1" for c :: real using that by simp
  have "0 \<le> (1 - cos (q - p)) / 2" "(1 - cos (q - p)) / 2 \<le> 1"
    "0 \<le> (1 + cos (q + p)) / 2" "(1 + cos (q + p)) / 2 \<le> 1"
    using r [OF cos_ge_minus_one cos_le_one] by blast+
  moreover have "0 \<le> (1 - t) * x + t * y \<and> (1 - t) * x + t * y \<le> 1"
    if "0 \<le> t" "t \<le> 1" "0 \<le> x" "x \<le> 1" "0 \<le> y" "y \<le> 1" for t x y :: real
    using that convex_bound_le [of x 1 y "1 - t" t] by simp
  ultimately show ?thesis using s unfolding a by blast
qed

lemma nm_arg:
  "nm lat1 lon1 lat2 lon2 = 2 * (3440065 / 1000) * arcsin (sqrt (
     sin ((lat2 * pi / 180 - lat1 * pi / 180) / 2) * sin ((lat2 * pi / 180 - lat1 * pi / 180) / 2) +
     cos (lat1 * pi / 180) * cos (lat2 * pi / 180) *
       sin ((lon2 - lon1) * pi / 180 / 2) * sin ((lon2 - lon1) * pi / 180 / 2)))"
  by (simp add: nm_def Let_def algebra_simps diff_divide_distrib)

lemma nm_nonneg: "0 \<le> nm lat1 lon1 lat2 lon2"
proof -
  have "0 \<le> arcsin (sqrt a)" if "0 \<le> a \<and> a \<le> (1 :: real)" for a
    using that arcsin_le_arcsin [of 0 "sqrt a"] by simp
  then show ?thesis
    unfolding nm_arg using haversine_range by (intro mult_nonneg_nonneg) (auto)
qed

lemma nm_sym: "nm lat1 lon1 lat2 lon2 = nm lat2 lon2 lat1 lon1"
proof -
  have lat: "(lat1 - lat2) * pi / 180 / 2 = - ((lat2 - lat1) * pi / 180 / 2)"
    and lon: "(lon1 - lon2) * pi / 180 / 2 = - ((lon2 - lon1) * pi / 180 / 2)"
    by (simp_all add: field_simps)
  show ?thesis
    unfolding nm_def Let_def lat lon sin_minus by (simp add: mult.commute mult.left_commute)
qed

lemma nm_same [simp]: "nm lat lon lat lon = 0"
  by (simp add: nm_def)

text \<open>Along a meridian the distance is the arc itself.\<close>

lemma nm_meridian:
  assumes "\<bar>lat2 - lat1\<bar> \<le> 180"
  shows "nm lat1 lon lat2 lon = (3440065 / 1000) * (\<bar>lat2 - lat1\<bar> * pi / 180)"
proof -
  let ?x = "\<bar>lat2 - lat1\<bar> * pi / 180 / 2"
  have x: "0 \<le> ?x" "?x \<le> pi / 2"
    using assms by (auto simp: field_simps)
  have "sin ((lat2 - lat1) * pi / 180 / 2) * sin ((lat2 - lat1) * pi / 180 / 2) = sin ?x * sin ?x"
  proof (cases "lat1 \<le> lat2")
    case False
    then have "(lat2 - lat1) * pi / 180 / 2 = - ?x" by (simp add: field_simps)
    then show ?thesis by (simp only: sin_square_neg)
  qed simp
  moreover have "0 \<le> sin ?x" using x by (intro sin_ge_zero) auto
  ultimately have "sqrt (sin ((lat2 - lat1) * pi / 180 / 2) * sin ((lat2 - lat1) * pi / 180 / 2)) = sin ?x"
    by (metis real_sqrt_mult_self abs_of_nonneg real_sqrt_mult)
  then have "nm lat1 lon lat2 lon = 2 * (3440065 / 1000) * arcsin (sin ?x)"
    by (simp only: nm_def Let_def diff_self mult_zero_left mult_zero_right div_0 sin_zero add_0_right)
  also have "arcsin (sin ?x) = ?x" using x pi_gt_zero by (intro arcsin_sin) linarith+
  finally show ?thesis by simp
qed

lemma nm6_same [simp]: "nm6 a b a b = 0"
  by (simp add: nm6_def)

section \<open>The ring: bounds and matching\<close>

definition ring_ok :: "recent_pos list \<Rightarrow> bool" where
  "ring_ok rs \<longleftrightarrow> length (filter rp_bad rs) \<le> recent_bad \<and>
     length (filter (\<lambda>r. \<not> rp_bad r) rs) \<le> recent_max"

lemma ring_ok_Nil [simp]: "ring_ok []"
  by (simp add: ring_ok_def)

lemma ring_ok_length: "ring_ok rs \<Longrightarrow> length rs \<le> recent_max + recent_bad"
  using length_filter_split [of rp_bad rs] by (simp add: ring_ok_def)

lemma ring_ok_filter: "ring_ok rs \<Longrightarrow> ring_ok (filter P rs)"
  using length_filter_le [of P "filter rp_bad rs"]
    length_filter_le [of P "filter (\<lambda>r. \<not> rp_bad r) rs"]
  by (simp add: ring_ok_def filter_filter conj_commute)

lemma drop_first_removes:
  "filter P xs \<noteq> [] \<Longrightarrow> Suc (length (filter P (drop_first P xs))) = length (filter P xs)"
  by (induction xs) auto

lemma drop_first_others: "(\<And>x. P x \<Longrightarrow> \<not> Q x) \<Longrightarrow> filter Q (drop_first P xs) = filter Q xs"
  by (induction xs) auto

lemma set_drop_first: "set (drop_first P xs) \<subseteq> set xs"
  by (induction xs) auto

lemma remember_ok:
  assumes "ring_ok rs"
  shows "ring_ok (remember pt rs)"
proof -
  define keep where "keep = filter (\<lambda>r. unix_milli (pt_ts pt) - rp_ms r < recent_keep_ms) rs"
  have k: "ring_ok keep" using assms by (simp add: keep_def ring_ok_filter)
  define P where "P = (\<lambda>r :: recent_pos. rp_bad r = pt_implausible pt)"
  define same where "same = length (filter P keep)"
  define full where "full \<longleftrightarrow> pt_implausible pt \<and> recent_bad \<le> same \<or> recent_max \<le> same"
  define kept where "kept = (if full then drop_first P keep else keep)"
  have same_le: "same \<le> (if pt_implausible pt then recent_bad else recent_max)"
    using k by (cases "pt_implausible pt") (simp_all add: same_def P_def ring_ok_def)
  have nonempty: "full \<Longrightarrow> filter P keep \<noteq> []"
    by (auto simp: full_def same_def recent_bad_def recent_max_def)
  have len: "length (filter P kept) < (if pt_implausible pt then recent_bad else recent_max)"
    using drop_first_removes [OF nonempty] same_le
    by (auto simp: kept_def full_def same_def split: if_splits)
  have others: "filter (\<lambda>r. \<not> P r) kept = filter (\<lambda>r. \<not> P r) keep"
    by (simp add: kept_def drop_first_others)
  have r: "remember pt rs = kept @ [\<lparr>rp_ms = unix_milli (pt_ts pt), rp_lat6 = pt_lat6 pt,
      rp_lon6 = pt_lon6 pt, rp_disc = pt_tx_disc pt, rp_bad = pt_implausible pt, rp_still = pt_still pt\<rparr>]"
    unfolding remember_def Let_def kept_def full_def same_def keep_def P_def by (rule refl)
  show ?thesis
    using len others k unfolding r
    by (cases "pt_implausible pt") (simp_all add: ring_ok_def P_def)
qed

lemma repeats_from_spec:
  "(case repeats_from pt best rs of
      None \<Rightarrow> best = None \<and> (\<forall>r\<in>set rs. \<not> repeatable pt r)
    | Some r \<Rightarrow> (best = Some r \<or> r \<in> set rs \<and> repeatable pt r) \<and>
        (\<forall>b. best = Some b \<longrightarrow> repeat_dt pt r \<le> repeat_dt pt b) \<and>
        (\<forall>q\<in>set rs. repeatable pt q \<longrightarrow> repeat_dt pt r \<le> repeat_dt pt q))"
proof (induction rs arbitrary: best)
  case (Cons r rs)
  show ?case
    using Cons.IH [of "if repeatable pt r \<and> (case best of None \<Rightarrow> True
        | Some b \<Rightarrow> repeat_dt pt r < repeat_dt pt b) then Some r else best"]
    by (auto split: option.splits if_splits)
qed (auto split: option.splits)

lemma free_disc_loop_free:
  "i < n \<Longrightarrow> \<not> disc_taken ms rs (d + of_nat i) \<Longrightarrow> \<not> disc_taken ms rs (free_disc_loop n ms rs d)"
proof (induction n arbitrary: d i)
  case (Suc n)
  show ?case
  proof (cases "disc_taken ms rs d")
    case True
    with Suc.prems obtain j where j: "i = Suc j" by (cases i) auto
    have "\<not> disc_taken ms rs (d + 1 + of_nat j)" using Suc.prems(2) j by (simp add: ac_simps)
    then have "\<not> disc_taken ms rs (free_disc_loop n ms rs (d + 1))"
      using Suc.IH [of j "d + 1"] Suc.prems(1) j by simp
    with True show ?thesis by simp
  qed simp
qed simp

lemma byte_surj: "\<exists>i<256. (x :: 8 word) = d + of_nat i"
proof (intro exI conjI)
  show "unat (x - d) < 256" using unsigned_less [of "x - d"] by simp
  show "x = d + of_nat (unat (x - d))" by simp
qed

lemma free_byte_exists:
  assumes "length rs < 256"
  shows "\<exists>i<256. \<not> disc_taken ms rs (d + of_nat i)"
proof (rule ccontr)
  assume "\<not> ?thesis"
  then have "x \<in> rp_disc ` set rs" for x
    using byte_surj [of x d] by (force simp: disc_taken_def)
  then have "(UNIV :: 8 word set) \<subseteq> rp_disc ` set rs" by auto
  then have "card (UNIV :: 8 word set) \<le> card (rp_disc ` set rs)"
    by (intro card_mono) auto
  also have "\<dots> \<le> length rs"
    by (meson card_image_le card_length finite_set le_trans)
  finally show False using assms by (simp add: card_word)
qed

lemma free_disc_free:
  assumes "ring_ok rs"
  shows "\<not> disc_taken (unix_milli (pt_tx_at pt)) rs (pt_tx_disc (free_disc rs pt))"
proof -
  have "length rs < 256"
    using ring_ok_length [OF assms] by (simp add: recent_max_def recent_bad_def)
  then obtain i where "i < 256"
    "\<not> disc_taken (unix_milli (pt_tx_at pt)) rs (pt_tx_disc pt + of_nat i)"
    using free_byte_exists by blast
  from free_disc_loop_free [OF this] show ?thesis by (simp add: free_disc_def)
qed

lemma free_disc_same: "\<not> disc_taken (unix_milli (pt_tx_at pt)) rs (pt_tx_disc pt) \<Longrightarrow> free_disc rs pt = pt"
  using free_disc_loop.simps(2) [of 255] by (simp add: free_disc_def)

section \<open>Despiking\<close>

fun bad_pairs :: "track_point list \<Rightarrow> nat" where
  "bad_pairs (a # b # ps) = (if impossible a b then 1 else 0) + bad_pairs (b # ps)"
| "bad_pairs _ = 0"

lemma bad_pairs_append:
  "bad_pairs (ps @ a # b # qs) = bad_pairs (ps @ [a]) + (if impossible a b then 1 else 0) + bad_pairs (b # qs)"
proof (induction ps)
  case (Cons p ps)
  then show ?case by (cases ps) auto
qed simp

lemma bad_pairs_snoc:
  "bad_pairs (rev (b # a # kept)) = bad_pairs (rev (a # kept)) + (if impossible a b then 1 else 0)"
  using bad_pairs_append [of "rev kept" a b "[]"] by simp

lemma bad_pairs_replace: "bad_pairs (rev (b # kept)) \<le> Suc (bad_pairs (rev (a # kept)))"
proof (cases kept)
  case (Cons c k)
  then show ?thesis using bad_pairs_snoc [of b c k] bad_pairs_snoc [of a c k] by simp
qed simp

lemma despike_loop_budget:
  "run \<le> despike_max_run \<Longrightarrow>
   3 * bad_pairs (despike_loop kept run corr pts) + length (despike_loop kept run corr pts) \<le>
   3 * bad_pairs (rev kept) + length kept + run + length pts"
proof (induction kept run corr pts rule: despike_loop.induct)
  case (2 run corr pt pts)
  then show ?case by simp
next
  case (3 a kept run corr pt pts)
  show ?case
  proof (cases "impossible a pt")
    case False
    then show ?thesis
      using "3.IH"(4) by (simp del: rev.simps add: bad_pairs_snoc despike_max_run_def)
  next
    case imp: True
    show ?thesis
    proof (cases "run < despike_max_run")
      case True
      with imp "3.IH"(1) show ?thesis by simp
    next
      case False
      with "3.prems" have run: "run = 3" by (simp add: despike_max_run_def)
      show ?thesis
        using "3.IH"(2,3) [OF imp False] imp False run bad_pairs_replace [of pt kept a]
        by (cases corr) (simp_all del: rev.simps add: bad_pairs_snoc despike_max_run_def)
    qed
  qed
qed simp

lemma despike_loop_sublist:
  "subseq (despike_loop kept run corr pts) (rev kept @ pts)"
proof (induction kept run corr pts rule: despike_loop.induct)
  case (3 a kept run corr pt pts)
  have drop: "subseq (rev (a # kept) @ pts) (rev (a # kept) @ pt # pts)"
    by (simp add: subseq_append' list_emb_Cons)
  have pop: "subseq (rev (pt # kept) @ pts) (rev (a # kept) @ pt # pts)"
    by (simp add: subseq_append' list_emb_Cons)
  show ?case
    using "3.IH" drop pop by (auto intro: subseq_order.order_trans simp del: rev.simps)
      (auto intro: subseq_order.order_trans)
qed simp_all

lemma despike_loop_clean:
  "(case kept of [] \<Rightarrow> True | a # _ \<Rightarrow> pts = [] \<or> \<not> impossible a (hd pts)) \<Longrightarrow> bad_pairs pts = 0 \<Longrightarrow>
    despike_loop kept run corr pts = rev kept @ pts"
proof (induction kept run corr pts rule: despike_loop.induct)
  case (2 run corr pt pts)
  then show ?case by (cases pts) (auto split: if_splits)
next
  case (3 a kept run corr pt pts)
  then show ?case by (cases pts) (auto split: if_splits)
qed auto

section \<open>Properties of the ring\<close>

abbreviation ring_keys :: "recent_pos list \<Rightarrow> (int \<times> 8 word) list" where
  "ring_keys rs \<equiv> map (\<lambda>r. (rp_ms r, rp_disc r)) rs"

lemma distinct_keys_drop_first: "distinct (map f xs) \<Longrightarrow> distinct (map f (drop_first P xs))"
  using set_drop_first by (induction xs) fastforce+

lemma remember_shape:
  obtains kept r where "remember pt rs = kept @ [r]"
    and "rp_ms r = unix_milli (pt_ts pt)" and "rp_disc r = pt_tx_disc pt"
    and "kept = filter (\<lambda>r. unix_milli (pt_ts pt) - rp_ms r < recent_keep_ms) rs \<or>
      kept = drop_first (\<lambda>r. rp_bad r = pt_implausible pt)
        (filter (\<lambda>r. unix_milli (pt_ts pt) - rp_ms r < recent_keep_ms) rs)"
  by (auto simp: remember_def Let_def split: if_splits)

lemma remember_distinct:
  assumes "distinct (ring_keys rs)" and "\<not> disc_taken (unix_milli (pt_ts pt)) rs (pt_tx_disc pt)"
  shows "distinct (ring_keys (remember pt rs))"
proof -
  obtain kept r where r: "remember pt rs = kept @ [r]" "rp_ms r = unix_milli (pt_ts pt)"
    "rp_disc r = pt_tx_disc pt"
    and k: "distinct (ring_keys kept)" "set kept \<subseteq> set rs"
    by (rule remember_shape [of pt rs])
      (use assms(1) set_drop_first in \<open>fastforce simp: distinct_map_filter_key distinct_keys_drop_first\<close>)
  have "(rp_ms r, rp_disc r) \<notin> set (ring_keys kept)"
    using assms(2) k(2) r by (auto simp: disc_taken_def)
  with k(1) show ?thesis by (simp add: r(1))
qed

text \<open>
  C1. The ring of recent transmissions stays bounded and names each transmission once: with
  at most 4 implausible and 32 plausible entries and no two entries sharing a millisecond and
  a byte, giving a new transmission a free byte (\<open>freeDisc\<close>) and remembering it keeps both,
  and the byte it gets is one no entry of its millisecond holds.
\<close>

theorem ring_names_once:
  assumes "ring_ok rs" and "distinct (ring_keys rs)" and "pt_tx_at pt = pt_ts pt"
  shows "\<not> disc_taken (unix_milli (pt_ts pt)) rs (pt_tx_disc (free_disc rs pt)) \<and>
    ring_ok (remember (free_disc rs pt) rs) \<and>
    distinct (ring_keys (remember (free_disc rs pt) rs)) \<and>
    length (remember (free_disc rs pt) rs) \<le> 36"
proof -
  have same: "pt_ts (free_disc rs pt) = pt_ts pt" by (simp add: free_disc_def)
  have free: "\<not> disc_taken (unix_milli (pt_ts pt)) rs (pt_tx_disc (free_disc rs pt))"
    using free_disc_free [OF assms(1), of pt] assms(3) by simp
  have "ring_ok (remember (free_disc rs pt) rs)" by (rule remember_ok [OF assms(1)])
  moreover from this have "length (remember (free_disc rs pt) rs) \<le> 36"
    using ring_ok_length by (fastforce simp: recent_max_def recent_bad_def)
  moreover have "distinct (ring_keys (remember (free_disc rs pt) rs))"
    using remember_distinct [OF assms(2), of "free_disc rs pt"] free same by simp
  ultimately show ?thesis using free by blast
qed

definition sample_point :: "time \<Rightarrow> int \<Rightarrow> 8 word \<Rightarrow> track_point" where
  "sample_point t lat6 d = (new_track_point 257000001 t 0 0 5 90 90 0 ''kystverket'')
     \<lparr>pt_lat6 := lat6, pt_lon6 := 6000000, pt_tx_at := t, pt_tx_disc := d\<rparr>"

theorem ring_names_once_witness:
  "ring_keys (remember (free_disc [\<lparr>rp_ms = 1000, rp_lat6 = 1, rp_lon6 = 2, rp_disc = 7,
     rp_bad = False, rp_still = False\<rparr>] (sample_point 1000000000 36000000 7))
     [\<lparr>rp_ms = 1000, rp_lat6 = 1, rp_lon6 = 2, rp_disc = 7, rp_bad = False, rp_still = False\<rparr>])
   = [(1000, 7), (1000, 8)] \<and>
   distinct (ring_keys (remember (free_disc [\<lparr>rp_ms = 1000, rp_lat6 = 1, rp_lon6 = 2, rp_disc = 7,
     rp_bad = False, rp_still = False\<rparr>] (sample_point 1000000000 36000000 7))
     [\<lparr>rp_ms = 1000, rp_lat6 = 1, rp_lon6 = 2, rp_disc = 7, rp_bad = False, rp_still = False\<rparr>]))"
proof -
  let ?r = "\<lparr>rp_ms = 1000, rp_lat6 = 1, rp_lon6 = 2, rp_disc = 7, rp_bad = False, rp_still = False\<rparr>"
  have ok: "ring_ok [?r]" by (simp add: ring_ok_def recent_max_def)
  have d: "distinct (ring_keys [?r])" by simp
  have t: "pt_tx_at (sample_point 1000000000 36000000 7) = pt_ts (sample_point 1000000000 36000000 7)"
    by (simp add: sample_point_def new_track_point_def)
  have loop: "free_disc_loop 256 1000 [?r] 7 = 8"
    using free_disc_loop.simps(2) [of 255 1000 "[?r]" 7] free_disc_loop.simps(2) [of 254 1000 "[?r]" 8]
    by (simp add: disc_taken_def)
  have "ring_keys (remember (free_disc [?r] (sample_point 1000000000 36000000 7)) [?r]) = [(1000, 7), (1000, 8)]"
    using loop by (simp add: remember_def free_disc_def sample_point_def new_track_point_def
        unix_milli_def recent_keep_ms_def recent_max_def)
  then show ?thesis using ring_names_once [OF ok d t] by blast
qed

lemma wrap32_diff: "\<bar>a\<bar> \<le> 108000000 \<Longrightarrow> \<bar>b\<bar> \<le> 108000000 \<Longrightarrow> abs_int (wrap32 (a - b)) = \<bar>a - b\<bar>"
proof -
  assume "\<bar>a\<bar> \<le> 108000000" "\<bar>b\<bar> \<le> 108000000"
  then have "- (2 ^ 31) \<le> a - b \<and> a - b < 2 ^ 31" "- (2 ^ 31) \<le> - (a - b) \<and> - (a - b) < 2 ^ 31"
    by auto
  then have "wrap32 (a - b) = a - b" "wrap32 (- (a - b)) = - (a - b)"
    by (blast intro: wrap32_id)+
  then show ?thesis by (simp add: abs_int_def)
qed

text \<open>
  \<open>repeats\<close> is exact: it answers with a plausible entry within 5 minutes and within 4
  wire units of the copy on both axes that is nearest in time among all such entries, and
  answers nothing only when the ring holds none.
\<close>

theorem repeats_nearest:
  "(case repeats pt rs of
      None \<Rightarrow> \<forall>r\<in>set rs. \<not> repeatable pt r
    | Some r \<Rightarrow> r \<in> set rs \<and> repeatable pt r \<and>
        (\<forall>q\<in>set rs. repeatable pt q \<longrightarrow> repeat_dt pt r \<le> repeat_dt pt q))"
  using repeats_from_spec [where pt = pt and best = None and rs = rs] by (auto simp: repeats_def split: option.splits)

theorem repeats_nearest_witness:
  "repeats (sample_point 100000000000 36000000 0)
     [\<lparr>rp_ms = 90000, rp_lat6 = 36000003, rp_lon6 = 6000000, rp_disc = 1, rp_bad = False, rp_still = False\<rparr>]
   = Some \<lparr>rp_ms = 90000, rp_lat6 = 36000003, rp_lon6 = 6000000, rp_disc = 1, rp_bad = False, rp_still = False\<rparr>"
proof -
  let ?pt = "sample_point 100000000000 36000000 0"
  let ?r = "\<lparr>rp_ms = 90000, rp_lat6 = 36000003, rp_lon6 = 6000000, rp_disc = 1, rp_bad = False, rp_still = False\<rparr>"
  have "repeatable ?pt ?r"
    by (simp add: repeatable_def repeat_dt_def sample_point_def new_track_point_def unix_milli_def
        recent_keep_ms_def recent_near_a_def abs_int_def wrap32_def)
  then show ?thesis
    using repeats_nearest [where pt = ?pt and rs = "[?r]"] by (cases "repeats ?pt [?r]") auto
qed

section \<open>Properties of positions and tracks\<close>

text \<open>
  A queued position is the reported one to within half a wire unit: for coordinates on
  the globe the 32-bit encoding never wraps, each axis decodes to within 1/1200000 degree of
  the reported value, and speed and course stay within AIS's own encodings, with their "not
  available" values for the sentinels.
\<close>

theorem track_point_precision:
  assumes "\<bar>lat\<bar> \<le> 90" and "\<bar>lon\<bar> \<le> 180" and "0 \<le> sog" and "0 \<le> cog"
  shows "\<bar>deg6 (pt_lat6 (new_track_point m ts lat lon sog cog hdg nav k)) - lat\<bar> \<le> 1 / 1200000 \<and>
    \<bar>deg6 (pt_lon6 (new_track_point m ts lat lon sog cog hdg nav k)) - lon\<bar> \<le> 1 / 1200000 \<and>
    unat (pt_sog10 (new_track_point m ts lat lon sog cog hdg nav k)) \<le> 1023 \<and>
    unat (pt_cog10 (new_track_point m ts lat lon sog cog hdg nav k)) \<le> 3600"
proof -
  have pos: "\<bar>deg6 (wrap32 (go_round (x * 600000))) - x\<bar> \<le> 1 / 1200000" if "\<bar>x\<bar> \<le> 180" for x
  proof -
    have e: "\<bar>of_int (go_round (x * 600000)) - x * 600000\<bar> \<le> 1 / 2" by (rule go_round_error)
    with that have "- 108000001 \<le> go_round (x * 600000)" "go_round (x * 600000) \<le> 108000001"
      by linarith+
    then have "wrap32 (go_round (x * 600000)) = go_round (x * 600000)"
      by (intro wrap32_id) simp_all
    with e show ?thesis by (simp add: deg6_def abs_le_iff field_simps)
  qed
  have enc: "unat (word_of_int (go_round (x * 10)) :: 16 word) \<le> n"
    if x: "0 \<le> x" "x * 10 \<le> of_nat n" "n < 65536" for x n
  proof -
    have e: "\<bar>of_int (go_round (x * 10)) - x * 10\<bar> \<le> 1 / 2" by (rule go_round_error)
    with x have r: "0 \<le> go_round (x * 10)" "go_round (x * 10) \<le> int n" by linarith+
    then have "uint (word_of_int (go_round (x * 10)) :: 16 word) = go_round (x * 10)"
      using x(3) by (simp add: uint_word_of_int)
    with r show ?thesis by (simp flip: nat_uint_eq)
  qed
  show ?thesis
    using pos [of lat] pos [of lon] enc [of sog 1023] enc [of cog 3600] assms
    by (simp add: new_track_point_def)
qed

theorem track_point_precision_witness:
  "pt_lat6 (new_track_point 257000001 0 (60 + 1 / 3) 5 (123 / 10) 360 511 15 ''dma'') = 36200000 \<and>
   \<bar>deg6 (pt_lat6 (new_track_point 257000001 0 (60 + 1 / 3) 5 (123 / 10) 360 511 15 ''dma'')) - (60 + 1 / 3)\<bar>
     \<le> 1 / 1200000"
proof -
  have "\<bar>60 + 1 / 3 :: real\<bar> \<le> 90" "\<bar>5 :: real\<bar> \<le> 180" "0 \<le> (123 / 10 :: real)" "0 \<le> (360 :: real)"
    by simp_all
  from track_point_precision [OF this, of 257000001 0 511 15 "''dma''"]
  have "\<bar>deg6 (pt_lat6 (new_track_point 257000001 0 (60 + 1 / 3) 5 (123 / 10) 360 511 15 ''dma'')) - (60 + 1 / 3)\<bar>
     \<le> 1 / 1200000" by blast
  moreover have "go_round ((60 + 1 / 3) * 600000) = 36200000"
    using go_round_of_int [of 36200000] by simp
  ultimately show ?thesis by (simp add: new_track_point_def wrap32_id)
qed

text \<open>
  C2. \<open>despike\<close> only drops positions, and pays for every impossible segment it still draws:
  the served track is a subsequence of the stored one, every impossible pair of neighbours
  left in it (a forced re-anchoring) cost three dropped positions, and a track with no
  impossible segment is served unchanged.
\<close>

theorem despike_spec:
  "subseq (despike pts) pts \<and>
   3 * bad_pairs (despike pts) + length (despike pts) \<le> length pts \<and>
   (bad_pairs pts = 0 \<longrightarrow> despike pts = pts)"
  using despike_loop_sublist [of "[]" 0 False pts] despike_loop_budget [of 0 "[]" False pts]
    despike_loop_clean [where kept = "[]" and pts = pts and run = 0 and corr = False]
  by (simp add: despike_def)

lemma far_meridian: "nm6 0 6000000 6000000 6000000 \<ge> 300"
proof -
  have "nm6 0 6000000 6000000 6000000 = 3440065 / 1000 * (10 * pi / 180)"
    using nm_meridian [of 10 0 10] by (simp add: nm6_def deg6_def)
  then show ?thesis using pi_ge_two by simp
qed

lemma impossible_sample: "impossible (sample_point 0 0 0) (sample_point 60000000000 6000000 0)"
proof -
  have "nm6 0 6000000 6000000 6000000 * 60 > 25"
    "nm6 0 6000000 6000000 6000000 > 3 / 100" using far_meridian by linarith+
  moreover have "word_of_int (go_round 50) = (50 :: 16 word)" using go_round_of_int [of 50] by simp
  ultimately show ?thesis
    by (simp add: impossible_def sample_point_def new_track_point_def time_sub_def min_duration_def
        max_duration_def despike_floor_nm_def despike_min_knots_def Let_def)
qed

theorem despike_spec_witness:
  "despike [sample_point 0 0 0, sample_point 60000000000 6000000 0] = [sample_point 0 0 0] \<and>
   3 * bad_pairs (despike [sample_point 0 0 0, sample_point 60000000000 6000000 0]) + 1 \<le> 2"
  using despike_spec [of "[sample_point 0 0 0, sample_point 60000000000 6000000 0]"] impossible_sample
  by (simp add: despike_def despike_max_run_def)

end
