(* ===== verification/Clock.thy ===== *)
theory Clock
  imports Prelude
begin

text \<open>
  Go's calendar in UTC, as the code uses it: the year, month, day and time of day of a
  \<open>time.Time\<close>, its RFC 3339 text, and \<open>time.Date\<close> for whole days. \<open>civil_days\<close> is the inverse of
  the date of a day number.
\<close>

text \<open>
  The calendar year of a time (\<open>Time.Year\<close>, in UTC), by Go's own division of days into
  400-year cycles.
\<close>

definition days_before_year :: "int \<Rightarrow> int" where
  "days_before_year y = 365 * (y - 1) + (y - 1) div 4 - (y - 1) div 100 + (y - 1) div 400"

definition year_of :: "time \<Rightarrow> int" where
  "year_of t =
     (let d = (t - zero_time) div (24 * hour);
          y = d * 400 div 146097 + 1
      in if d < days_before_year y then y - 1
         else if days_before_year (y + 1) \<le> d then y + 1 else y)"

text \<open>Days of the year before each month, month lengths, and the month of a day of the year.\<close>

definition leap :: "int \<Rightarrow> bool" where
  "leap y \<longleftrightarrow> y mod 4 = 0 \<and> (y mod 100 \<noteq> 0 \<or> y mod 400 = 0)"

fun month_days :: "bool \<Rightarrow> nat \<Rightarrow> int" where
  "month_days lp m = (if m = 2 then (if lp then 29 else 28) else if m \<in> {4, 6, 9, 11} then 30 else 31)"

text \<open>The month and day of month of the \<open>d\<close>-th day (from 0) of a year, from month \<open>m\<close> on.\<close>

fun month_loop :: "nat \<Rightarrow> bool \<Rightarrow> nat \<Rightarrow> int \<Rightarrow> nat \<times> int" where
  "month_loop 0 lp m d = (m, d + 1)"
| "month_loop (Suc k) lp m d =
     (if d < month_days lp m then (m, d + 1) else month_loop k lp (m + 1) (d - month_days lp m))"

definition day_of_year :: "time \<Rightarrow> int" where
  "day_of_year t = (t - zero_time) div (24 * hour) - days_before_year (year_of t)"

definition month_of :: "time \<Rightarrow> nat" where
  "month_of t = fst (month_loop 11 (leap (year_of t)) 1 (day_of_year t))"

definition day_of :: "time \<Rightarrow> nat" where
  "day_of t = nat (snd (month_loop 11 (leap (year_of t)) 1 (day_of_year t)))"

definition hour_of :: "time \<Rightarrow> nat" where
  "hour_of t = nat ((t - zero_time) div hour mod 24)"

definition minute_of :: "time \<Rightarrow> nat" where
  "minute_of t = nat ((t - zero_time) div minute mod 60)"

definition second_of :: "time \<Rightarrow> nat" where
  "second_of t = nat ((t - zero_time) div second mod 60)"

definition pad4 :: "nat \<Rightarrow> string" where
  "pad4 n = (if n < 10 then ''000'' else if n < 100 then ''00'' else if n < 1000 then ''0'' else []) @ dec n"

definition rfc3339 :: "time \<Rightarrow> string" where
  "rfc3339 t = pad4 (nat (year_of t)) @ ''-'' @ pad2 (month_of t) @ ''-'' @ pad2 (day_of t) @ ''T'' @
     pad2 (hour_of t) @ '':'' @ pad2 (minute_of t) @ '':'' @ pad2 (second_of t) @ ''Z''"

lemma div_bounds_int: "0 < (k :: int) \<Longrightarrow> k * (n div k) \<le> n \<and> n < k * (n div k) + k"
  using pos_mod_bound [of k n] pos_mod_sign [of k n] mult_div_mod_eq [of k n] by linarith

lemma year_estimate:
  assumes "y = d * 400 div 146097 + 1"
  shows "days_before_year (y - 1) \<le> d \<and> d < days_before_year (y + 2)"
proof -
  have e: "146097 * (y - 1) \<le> d * 400" "d * 400 < 146097 * (y - 1) + 146097"
    using assms div_bounds_int [of 146097 "d * 400"] by simp_all
  have "400 * days_before_year (y - 1) \<le> 400 * d"
    using e div_bounds_int [of 4 "y - 2"] div_bounds_int [of 100 "y - 2"] div_bounds_int [of 400 "y - 2"]
    by (simp add: days_before_year_def)
  moreover have "400 * d < 400 * days_before_year (y + 2)"
    using e div_bounds_int [of 4 "y + 1"] div_bounds_int [of 100 "y + 1"] div_bounds_int [of 400 "y + 1"]
    by (simp add: days_before_year_def)
  ultimately show ?thesis by linarith
qed

lemma year_of_correct:
  "days_before_year (year_of t) \<le> (t - zero_time) div (24 * hour) \<and>
   (t - zero_time) div (24 * hour) < days_before_year (year_of t + 1)"
  using year_estimate [OF refl, of "(t - zero_time) div (24 * hour)"]
  by (auto simp: year_of_def Let_def algebra_simps)

lemma hour_of_less [go_time]: "hour_of t < 24"
  by (simp add: hour_of_def nat_less_iff)

lemma minute_of_less [go_time]: "minute_of t < 60"
  by (simp add: minute_of_def nat_less_iff)

lemma second_of_less [go_time]: "second_of t < 60"
  by (simp add: second_of_def nat_less_iff)

end
