(* ===== verification/Packets.thy ===== *)
theory Packets
  imports Mmsi Clock
begin

text \<open>
  The decoded AIS message and the event, from \<open>server/pipeline.go\<close>. The message structs
  belong to the decoder library the program calls; the model has the ones its type switches
  name, with the fields it reads, and every other message as \<open>OtherPacket\<close>. \<open>type_name\<close>,
  \<open>tx_second\<close>, \<open>corrupt_base_report\<close> and the source-name tests are the program's own.
\<close>

record header =
  h_message_id :: "8 word"
  h_user_id :: mmsi

record field_dimension =
  dim_a :: "16 word"
  dim_b :: "16 word"
  dim_c :: "8 word"
  dim_d :: "8 word"

record field_eta =
  eta_month :: "8 word"
  eta_day :: "8 word"
  eta_hour :: "8 word"
  eta_minute :: "8 word"

record motion =
  m_lat :: real
  m_lon :: real
  m_cog :: real
  m_sog :: real
  m_heading :: "16 word"
  m_timestamp :: "8 word"

datatype packet =
    PositionReport header motion "8 word"
  | StandardClassBPositionReport header motion
  | ExtendedClassBPositionReport header bool motion string "8 word" field_dimension
  | LongRangeAisBroadcastMessage header real real "16 word" "8 word" "8 word"
  | StandardSearchAndRescueAircraftReport header real real real "16 word"
  | BaseStationReport header "16 word" real real
  | AidsToNavigationReport header string "8 word" real real
  | ShipStaticData header bool string "8 word" "32 word" string string real field_eta field_dimension
  | StaticDataReport header bool "string option" "(8 word \<times> string \<times> field_dimension) option"
  | OtherPacket header string

fun get_header :: "packet \<Rightarrow> header" where
  "get_header (PositionReport h _ _) = h"
| "get_header (StandardClassBPositionReport h _) = h"
| "get_header (ExtendedClassBPositionReport h _ _ _ _ _) = h"
| "get_header (LongRangeAisBroadcastMessage h _ _ _ _ _) = h"
| "get_header (StandardSearchAndRescueAircraftReport h _ _ _ _) = h"
| "get_header (BaseStationReport h _ _ _) = h"
| "get_header (AidsToNavigationReport h _ _ _ _) = h"
| "get_header (ShipStaticData h _ _ _ _ _ _ _ _ _) = h"
| "get_header (StaticDataReport h _ _ _) = h"
| "get_header (OtherPacket h _) = h"

abbreviation user_id :: "packet \<Rightarrow> mmsi" where
  "user_id p \<equiv> h_user_id (get_header p)"

text \<open>\<open>typeName\<close>: the struct name, with the one name the protocol spells differently.\<close>

fun type_name :: "packet \<Rightarrow> string" where
  "type_name (PositionReport _ _ _) = ''PositionReport''"
| "type_name (StandardClassBPositionReport _ _) = ''StandardClassBPositionReport''"
| "type_name (ExtendedClassBPositionReport _ _ _ _ _ _) = ''ExtendedClassBPositionReport''"
| "type_name (LongRangeAisBroadcastMessage _ _ _ _ _ _) = ''LongRangeAisBroadcastMessage''"
| "type_name (StandardSearchAndRescueAircraftReport _ _ _ _ _) = ''StandardSearchAndRescueAircraftReport''"
| "type_name (BaseStationReport _ _ _ _) = ''BaseStationReport''"
| "type_name (AidsToNavigationReport _ _ _ _ _) = ''AidsToNavigationReport''"
| "type_name (ShipStaticData _ _ _ _ _ _ _ _ _ _) = ''ShipStaticData''"
| "type_name (StaticDataReport _ _ _ _) = ''StaticDataReport''"
| "type_name (OtherPacket _ n) = (if n = ''AddessedSafetyMessage'' then ''AddressedSafetyMessage'' else n)"

definition is_position_type :: "string \<Rightarrow> bool" where
  "is_position_type t \<longleftrightarrow> t \<in> {''PositionReport'', ''StandardClassBPositionReport'',
     ''ExtendedClassBPositionReport'', ''LongRangeAisBroadcastMessage'',
     ''StandardSearchAndRescueAircraftReport''}"

section \<open>The event\<close>

record event =
  ev_id :: string
  ev_time :: time
  ev_recv :: time
  ev_source :: string
  ev_station :: string
  ev_channel :: char
  ev_payload :: string
  ev_packet :: packet
  ev_type :: string
  ev_mmsi :: mmsi
  ev_name :: string
  ev_lat :: real
  ev_lon :: real
  ev_has_pos :: bool
  ev_sentences :: "string list"
  ev_synthesized :: bool
  ev_own :: bool
  ev_sender :: string
  ev_rebuilt :: bool
  ev_unserved :: bool
  ev_low_trust :: bool
  ev_corroborated :: bool
  ev_implausible :: bool
  ev_stale :: bool

text \<open>An event as an adapter builds it: everything else is Go's zero value.\<close>

definition new_event ::
  "time \<Rightarrow> time \<Rightarrow> string \<Rightarrow> string \<Rightarrow> char \<Rightarrow> string \<Rightarrow> packet \<Rightarrow> string list \<Rightarrow> event" where
  "new_event t recv source station ch payload pkt sentences =
     \<lparr>ev_id = [], ev_time = t, ev_recv = recv, ev_source = source, ev_station = station,
      ev_channel = ch, ev_payload = payload, ev_packet = pkt, ev_type = [], ev_mmsi = 0,
      ev_name = [], ev_lat = 0, ev_lon = 0, ev_has_pos = False, ev_sentences = sentences,
      ev_synthesized = False, ev_own = False, ev_sender = [], ev_rebuilt = False,
      ev_unserved = False, ev_low_trust = False, ev_corroborated = False,
      ev_implausible = False, ev_stale = False\<rparr>"

section \<open>Sources\<close>

definition low_trust :: "string \<Rightarrow> bool" where
  "low_trust source \<longleftrightarrow> has_prefix source ''udp:'' \<or> has_prefix source ''mmsi:''"

definition volunteer :: "string \<Rightarrow> bool" where
  "volunteer source \<longleftrightarrow> has_prefix source ''station:'' \<or> has_prefix source ''udp:'' \<or>
     has_prefix source ''mmsi:''"

definition source_kind :: "string \<Rightarrow> string" where
  "source_kind source = fst (cut_at CHR '':'' source)"

definition station_source :: "string \<Rightarrow> string" where
  "station_source sub = ''station:'' @ sub"

section \<open>Judgements on one message\<close>

fun corrupt_base_report :: "event \<Rightarrow> bool" where
  "corrupt_base_report ev =
     (case ev_packet ev of
        BaseStationReport h yr _ _ \<Rightarrow>
          h_message_id h = 4 \<and>
          (length (ev_payload ev) > 168 \<or>
           uint yr \<noteq> 0 \<and> (uint yr < 1998 \<or> uint yr > year_of (ev_time ev) + 1))
      | _ \<Rightarrow> False)"

text \<open>\<open>txSecond\<close>: the UTC second a position was fixed, \<open>None\<close> from 60 up.\<close>

fun tx_second :: "packet \<Rightarrow> 8 word option" where
  "tx_second p =
     (let s = (case p of
                 PositionReport _ m _ \<Rightarrow> m_timestamp m
               | StandardClassBPositionReport _ m \<Rightarrow> m_timestamp m
               | ExtendedClassBPositionReport _ _ m _ _ _ \<Rightarrow> m_timestamp m
               | _ \<Rightarrow> 60)
      in if s < 60 then Some s else None)"

text \<open>\<open>feedable\<close>: only what a volunteer station received goes to the aggregator.\<close>

definition feedable :: "event \<Rightarrow> bool" where
  "feedable ev \<longleftrightarrow> \<not> ev_synthesized ev \<and> volunteer (ev_source ev)"

lemma low_trust_volunteer: "low_trust s \<Longrightarrow> volunteer s"
  by (auto simp: low_trust_def volunteer_def)

end
