(* ===== verification/Queue.thy ===== *)
theory Queue
  imports Tracks Packets "HOL-Library.Sublist"
begin

text \<open>
  What waits for ClickHouse, from \<open>server/tracks.go\<close> (\<open>noteReception\<close>, \<open>noteOwn\<close>,
  \<open>pruneClaims\<close>), \<open>server/clickhouse.go\<close> (\<open>flushClickHouse\<close>, \<open>flushOwn\<close>) and
  \<open>server/statics.go\<close> (\<open>noteStatic\<close>, \<open>flushStatics\<close>): the queue of receptions with the batch
  being sent, the own-ship sightings with the allowance of each sender, and the static states.

  The database is a parameter of the steps: an insert is written, lost (the connection failed)
  or refused. A flush takes its batch in one step and settles it in another, so any number of
  receptions can arrive between the two, as they do while the insert runs outside the lock.
\<close>

section \<open>Data\<close>

record own_key =
  ok_station :: string
  ok_hour :: int
  ok_mmsi :: mmsi

record static_key =
  sk_mmsi :: mmsi
  sk_day :: int
  sk_source :: string
  sk_station :: string
  sk_message :: string
  sk_name :: string
  sk_callsign :: string
  sk_imo :: "32 word"
  sk_ship_type :: "8 word"
  sk_to_bow :: "16 word"
  sk_to_stern :: "16 word"
  sk_to_port :: "8 word"
  sk_to_starboard :: "8 word"
  sk_draught10 :: "16 word"
  sk_destination :: string
  sk_eta :: string

record static_times =
  st_first :: time
  st_last :: time

datatype outcome = Written | Lost | Refused

record chq =
  q_gate :: time
  q_queue :: "track_point list option"
  q_failed :: "track_point list option"
  q_token :: string
  q_refused :: "time option"
  q_written :: nat
  q_failures :: nat
  q_dropped :: nat
  q_rebuilt_matched :: nat
  q_rebuilt_late :: nat
  q_own :: "(own_key \<times> time) list option"
  q_claimed :: "(own_key \<times> mmsi list) list"
  q_claim_hours :: "(int \<times> nat) list"
  q_own_hw :: int
  q_own_refused :: nat
  q_own_dropped :: nat
  q_statics :: "(static_key \<times> static_times) list option"
  q_statics_dropped :: nat
  q_aishub_at :: "(mmsi \<times> int) list"

definition max_statics_pending :: nat where "max_statics_pending = 100000"
definition max_skew :: duration where "max_skew = 30 * second"
definition ch_refuse_for :: duration where "ch_refuse_for = 10 * minute"

text \<open>Before ClickHouse connects nothing is queued.\<close>

definition detached :: "time \<Rightarrow> chq" where
  "detached gate =
     \<lparr>q_gate = gate, q_queue = None, q_failed = None, q_token = [], q_refused = None,
      q_written = 0, q_failures = 0, q_dropped = 0, q_rebuilt_matched = 0, q_rebuilt_late = 0,
      q_own = None, q_claimed = [], q_claim_hours = [], q_own_hw = 0, q_own_refused = 0,
      q_own_dropped = 0, q_statics = None, q_statics_dropped = 0, q_aishub_at = []\<rparr>"

definition attach_clickhouse :: "bool \<Rightarrow> chq \<Rightarrow> chq" where
  "attach_clickhouse with_statics q =
     q\<lparr>q_queue := Some [], q_failed := None, q_token := [], q_refused := None, q_written := 0,
       q_failures := 0, q_dropped := 0, q_rebuilt_matched := 0, q_rebuilt_late := 0,
       q_own := Some [], q_claimed := [], q_claim_hours := [], q_own_refused := 0,
       q_own_dropped := 0, q_statics := (if with_statics then Some [] else None),
       q_statics_dropped := 0\<rparr>"

definition ch_on :: "chq \<Rightarrow> bool" where
  "ch_on q \<longleftrightarrow> q_queue q \<noteq> None"

section \<open>Receptions\<close>

definition note_reception :: "track_point \<Rightarrow> chq \<Rightarrow> chq" where
  "note_reception pt q =
     (if pt_recv pt < q_gate q then q
      else case q_queue q of
        None \<Rightarrow> q
      | Some ps \<Rightarrow>
          if max_pending \<le> length ps
          then q\<lparr>q_dropped := q_dropped q + max_pending div 10,
                 q_queue := Some (drop (max_pending div 10) ps @ [pt])\<rparr>
          else q\<lparr>q_queue := Some (ps @ [pt])\<rparr>)"

text \<open>
  \<open>flushClickHouse\<close>: the batch that failed last time, unchanged and under its token, or else
  everything queued under a new token; then what the insert's answer does. \<open>n1\<close> and \<open>n2\<close> are
  the two clock readings of a refusal.
\<close>

definition flush_take :: "string \<Rightarrow> chq \<Rightarrow> chq" where
  "flush_take token q =
     (case q_failed q of
        Some _ \<Rightarrow> q
      | None \<Rightarrow> (case q_queue q of
            None \<Rightarrow> q
          | Some [] \<Rightarrow> q
          | Some ps \<Rightarrow> q\<lparr>q_queue := Some [], q_failed := Some ps, q_token := token, q_refused := None\<rparr>))"

definition flush_settle :: "outcome \<Rightarrow> time \<Rightarrow> time \<Rightarrow> chq \<Rightarrow> chq" where
  "flush_settle res n1 n2 q =
     (case q_failed q of
        None \<Rightarrow> q
      | Some ps \<Rightarrow> (case res of
            Written \<Rightarrow> q\<lparr>q_written := q_written q + length ps, q_failed := None\<rparr>
          | Lost \<Rightarrow> q\<lparr>q_failures := q_failures q + 1\<rparr>
          | Refused \<Rightarrow>
              let since = (case q_refused q of None \<Rightarrow> n1 | Some t \<Rightarrow> t);
                  q' = q\<lparr>q_failures := q_failures q + 1, q_refused := Some since\<rparr>
              in if ch_refuse_for \<le> time_sub n2 since
                 then q'\<lparr>q_dropped := q_dropped q' + length ps, q_failed := None\<rparr> else q'))"

section \<open>Own-ship sightings\<close>

definition prune_claims :: "int \<Rightarrow> chq \<Rightarrow> chq" where
  "prune_claims before q =
     (let q' = q\<lparr>q_claim_hours := keep_if (\<lambda>h _. \<not> h < before) (q_claim_hours q)\<rparr>
      in if list_ex (\<lambda>e. fst e < before) (q_claim_hours q)
         then q'\<lparr>q_claimed := keep_if (\<lambda>sh _. \<not> ok_hour sh < before) (q_claimed q')\<rparr>
         else q')"

definition own_hour :: "event \<Rightarrow> int" where
  "own_hour ev = unix (ev_recv ev) sdiv 3600"

definition claimer :: "event \<Rightarrow> string" where
  "claimer ev = (if ev_sender ev \<noteq> [] then ev_sender ev else ev_station ev)"

definition own_key_of :: "event \<Rightarrow> own_key" where
  "own_key_of ev =
     \<lparr>ok_station = ev_station ev, ok_hour = own_hour ev, ok_mmsi = user_id (ev_packet ev)\<rparr>"

definition claim_key_of :: "event \<Rightarrow> own_key" where
  "claim_key_of ev = \<lparr>ok_station = claimer ev, ok_hour = own_hour ev, ok_mmsi = 0\<rparr>"

text \<open>The sighting \<open>k\<close> at \<open>t\<close> by the claimer and hour \<open>sh\<close>, under the lock.\<close>

definition claim_own :: "own_key \<Rightarrow> own_key \<Rightarrow> time \<Rightarrow> (own_key \<times> time) list \<Rightarrow> chq \<Rightarrow> chq" where
  "claim_own sh k t own q =
     (let claimed = get_or [] (q_claimed q) sh;
          known = (map_of (q_claimed q) sh \<noteq> None)
      in if ok_mmsi k \<notin> set claimed \<and> max_own_per_station \<le> length claimed
         then q\<lparr>q_own_refused := q_own_refused q + 1\<rparr>
         else
           let q2 = (if \<not> known \<and> max_own_pending \<le> length (q_claimed q)
                     then prune_claims (ok_hour sh) q else q)
           in if map_of own k = None \<and> max_own_pending \<le> length own \<or>
                 \<not> known \<and> max_own_pending \<le> length (q_claimed q2)
              then q2\<lparr>q_own_dropped := q_own_dropped q2 + 1\<rparr>
              else
                let hours = (if known then q_claim_hours q2
                             else put (ok_hour sh) (get_or 0 (q_claim_hours q2) (ok_hour sh) + 1)
                                    (q_claim_hours q2));
                    q3 = q2\<lparr>q_claim_hours := hours,
                            q_claimed := put sh (List.insert (ok_mmsi k) claimed) (q_claimed q2)\<rparr>
                in if get_or zero_time own k < t then q3\<lparr>q_own := Some (put k t own)\<rparr> else q3)"

definition note_own :: "event \<Rightarrow> chq \<Rightarrow> chq" where
  "note_own ev q =
     (if ev_recv ev < q_gate q then q
      else case q_own q of
        None \<Rightarrow> q
      | Some own \<Rightarrow> claim_own (claim_key_of ev) (own_key_of ev) (ev_time ev) own
                      (q\<lparr>q_own_hw := max (q_own_hw q) (own_hour ev)\<rparr>))"

text \<open>\<open>flushOwn\<close>: what it takes, and putting a failed batch back in the map's order.\<close>

definition own_take :: "chq \<Rightarrow> (own_key \<times> time) list \<times> chq" where
  "own_take q =
     (case q_own q of
        None \<Rightarrow> ([], prune_claims (q_own_hw q - 1) q)
      | Some own \<Rightarrow> (own, prune_claims (q_own_hw q - 1) (q\<lparr>q_own := Some []\<rparr>)))"

definition put_back_own :: "own_key \<times> time \<Rightarrow> chq \<Rightarrow> chq" where
  "put_back_own e q =
     (case q_own q of
        None \<Rightarrow> q
      | Some own \<Rightarrow>
          if map_of own (fst e) = None \<and> max_own_pending \<le> length own
          then q\<lparr>q_own_dropped := q_own_dropped q + 1\<rparr>
          else if get_or zero_time own (fst e) < snd e
               then q\<lparr>q_own := Some (put (fst e) (snd e) own)\<rparr> else q)"

definition own_settle :: "bool \<Rightarrow> (own_key \<times> time) list \<Rightarrow> chq \<Rightarrow> chq" where
  "own_settle ok batch q =
     (if batch = [] \<or> ok then q
      else fold put_back_own batch (q\<lparr>q_failures := q_failures q + 1\<rparr>))"

section \<open>Static states\<close>

definition static_eta :: "field_eta \<Rightarrow> string" where
  "static_eta e = pad2 (unat (eta_month e)) @ ''-'' @ pad2 (unat (eta_day e)) @ '' '' @
     pad2 (unat (eta_hour e)) @ '':'' @ pad2 (unat (eta_minute e))"

definition no_static :: static_key where
  "no_static =
     \<lparr>sk_mmsi = 0, sk_day = 0, sk_source = [], sk_station = [], sk_message = [], sk_name = [],
      sk_callsign = [], sk_imo = 0, sk_ship_type = 0, sk_to_bow = 0, sk_to_stern = 0,
      sk_to_port = 0, sk_to_starboard = 0, sk_draught10 = 0, sk_destination = [], sk_eta = []\<rparr>"

definition with_dimension :: "field_dimension \<Rightarrow> static_key \<Rightarrow> static_key" where
  "with_dimension d k =
     k\<lparr>sk_to_bow := dim_a d, sk_to_stern := dim_b d, sk_to_port := dim_c d, sk_to_starboard := dim_d d\<rparr>"

fun static_of :: "packet \<Rightarrow> static_key option" where
  "static_of (ShipStaticData _ valid name ty imo cs dest dr eta dm) =
     (if \<not> valid then None
      else Some (with_dimension dm (no_static
        \<lparr>sk_message := ''5'', sk_name := name, sk_callsign := cs, sk_imo := imo, sk_ship_type := ty,
         sk_draught10 := word_of_int (go_round (dr * 10)), sk_destination := dest,
         sk_eta := static_eta eta\<rparr>)))"
| "static_of (ExtendedClassBPositionReport _ valid _ name ty dm) =
     (if \<not> valid then None
      else Some (with_dimension dm (no_static\<lparr>sk_message := ''19'', sk_name := name, sk_ship_type := ty\<rparr>)))"
| "static_of (StaticDataReport _ valid a b) =
     (if \<not> valid then None
      else case a of
        Some name \<Rightarrow> Some (no_static\<lparr>sk_message := ''24A'', sk_name := name\<rparr>)
      | None \<Rightarrow> (case b of
            Some (ty, cs, dm) \<Rightarrow> Some (with_dimension dm (no_static
              \<lparr>sk_message := ''24B'', sk_callsign := cs, sk_ship_type := ty\<rparr>))
          | None \<Rightarrow> None))"
| "static_of _ = None"

text \<open>A state heard at \<open>t\<close> joins the earliest and the latest time it was heard.\<close>

definition static_join :: "static_times option \<Rightarrow> static_times \<Rightarrow> static_times" where
  "static_join cur t =
     (case cur of
        None \<Rightarrow> \<lparr>st_first = st_first t, st_last = (if zero_time < st_last t then st_last t else zero_time)\<rparr>
      | Some c \<Rightarrow> \<lparr>st_first = (if st_first t < st_first c then st_first t else st_first c),
                  st_last = (if st_last c < st_last t then st_last t else st_last c)\<rparr>)"

definition put_static :: "static_key \<times> static_times \<Rightarrow> chq \<Rightarrow> chq" where
  "put_static e q =
     (case q_statics q of
        None \<Rightarrow> q
      | Some m \<Rightarrow>
          if map_of m (fst e) = None \<and> max_statics_pending \<le> length m
          then q\<lparr>q_statics_dropped := q_statics_dropped q + 1\<rparr>
          else q\<lparr>q_statics := Some (put (fst e) (static_join (map_of m (fst e)) (snd e)) m)\<rparr>)"

definition note_static_packet :: "string \<Rightarrow> string \<Rightarrow> time \<Rightarrow> time \<Rightarrow> packet \<Rightarrow> chq \<Rightarrow> chq" where
  "note_static_packet source station t recv pkt q =
     (if recv < q_gate q then q
      else if clock_bad_age \<le> time_sub recv t \<or> recv + max_skew < t then q
      else case static_of pkt of
        None \<Rightarrow> q
      | Some k \<Rightarrow>
          put_static (k\<lparr>sk_mmsi := user_id pkt, sk_source := source_kind source,
                        sk_station := (if volunteer source then station else source_kind source),
                        sk_day := unix t sdiv 86400\<rparr>,
                      \<lparr>st_first = t, st_last = t\<rparr>) q)"

definition note_static :: "event \<Rightarrow> chq \<Rightarrow> chq" where
  "note_static ev =
     note_static_packet (ev_source ev) (ev_station ev) (ev_time ev) (ev_recv ev) (ev_packet ev)"

definition aishub_static_moved :: "mmsi \<Rightarrow> int \<Rightarrow> chq \<Rightarrow> bool \<times> chq" where
  "aishub_static_moved m secs q =
     (case q_statics q of
        None \<Rightarrow> (False, q)
      | Some _ \<Rightarrow> if secs \<le> get_or 0 (q_aishub_at q) m then (False, q)
                  else (True, q\<lparr>q_aishub_at := put m secs (q_aishub_at q)\<rparr>))"

definition prune_aishub_statics :: "time \<Rightarrow> chq \<Rightarrow> chq" where
  "prune_aishub_statics now q =
     q\<lparr>q_aishub_at := keep_if (\<lambda>_ secs. \<not> secs < unix (now - clock_bad_age)) (q_aishub_at q)\<rparr>"

definition statics_take :: "chq \<Rightarrow> (static_key \<times> static_times) list \<times> chq" where
  "statics_take q =
     (case q_statics q of None \<Rightarrow> ([], q) | Some m \<Rightarrow> (m, q\<lparr>q_statics := Some []\<rparr>))"

definition statics_settle :: "bool \<Rightarrow> (static_key \<times> static_times) list \<Rightarrow> chq \<Rightarrow> chq" where
  "statics_settle ok batch q =
     (if batch = [] \<or> ok then q
      else fold put_static batch (q\<lparr>q_failures := q_failures q + 1\<rparr>))"

text \<open>One whole flush, with the answers of the three inserts and nothing arriving meanwhile.\<close>

definition flush_clickhouse :: "bool \<Rightarrow> bool \<Rightarrow> string \<Rightarrow> outcome \<Rightarrow> time \<Rightarrow> time \<Rightarrow> chq \<Rightarrow> chq" where
  "flush_clickhouse own_ok statics_ok token res n1 n2 q =
     (if \<not> ch_on q then q
      else
        let (own, q1) = own_take q;
            q2 = own_settle own_ok own q1;
            (rows, q3) = statics_take q2;
            q4 = statics_settle statics_ok rows q3
        in flush_settle res n1 n2 (flush_take token q4))"

section \<open>Vessel ranges of a rebuild\<close>

fun range_starts :: "mmsi list \<Rightarrow> mmsi list \<Rightarrow> mmsi list" where
  "range_starts starts [] = starts"
| "range_starts starts (e # es) =
     range_starts (if last starts < e then starts @ [e] else starts) es"

fun ranges_of :: "mmsi list \<Rightarrow> (mmsi \<times> mmsi) list" where
  "ranges_of [] = []"
| "ranges_of [lo] = [(lo, 4294967295)]"
| "ranges_of (lo # lo' # los) = (lo, lo' - 1) # ranges_of (lo' # los)"

definition vessel_ranges :: "mmsi list \<Rightarrow> (mmsi \<times> mmsi) list" where
  "vessel_ranges edges = ranges_of (range_starts [0] edges)"

definition clamp_int32 :: "int \<Rightarrow> int" where
  "clamp_int32 n = max (min n (2 ^ 31 - 1)) (- (2 ^ 31))"

section \<open>Rows that wait for an insert\<close>

text \<open>
  The contract own-ship sightings and static states share: rows keyed in a map of at most
  \<open>cap\<close> entries, where a row that is already there is joined with the one that arrives and a new
  one is refused when the map is full.
\<close>

locale pending_rows =
  fixes rows :: "'q \<Rightarrow> ('k \<times> 'v) list option"
    and put_row :: "'k \<times> 'v \<Rightarrow> 'q \<Rightarrow> 'q"
    and cap :: nat
    and join :: "'v option \<Rightarrow> 'v \<Rightarrow> 'v option"
    and le :: "'v \<Rightarrow> 'v \<Rightarrow> bool"
  assumes rows_nil: "rows q = None \<Longrightarrow> rows (put_row e q) = None"
    and rows_put: "rows q = Some m \<Longrightarrow> is_map m \<Longrightarrow>
      \<exists>m'. rows (put_row e q) = Some m' \<and> is_map m' \<and> length m' \<le> max cap (length m) \<and>
           length m' \<le> Suc (length m) \<and>
           (\<forall>k. map_of m' k = (if k = fst e \<and> \<not> (map_of m k = None \<and> cap \<le> length m)
                               then join (map_of m k) (snd e) else map_of m k))"
    and join_ge: "join c v = Some w \<Longrightarrow> le v w \<and> (\<forall>c'. c = Some c' \<longrightarrow> le c' w)"
    and join_keeps: "join (Some u) v \<noteq> None"
    and le_refl: "le v v"
    and le_trans: "le u v \<Longrightarrow> le v w \<Longrightarrow> le u w"
begin

definition rows_ok :: "'q \<Rightarrow> bool" where
  "rows_ok q = (case rows q of None \<Rightarrow> True | Some m \<Rightarrow> is_map m \<and> length m \<le> cap)"

lemma put_row_ok: "rows_ok q \<Longrightarrow> rows_ok (put_row e q)"
  using rows_nil [of q e] rows_put [of q _ e] by (fastforce simp: rows_ok_def split: option.splits)

lemma fold_rows_ok: "rows_ok q \<Longrightarrow> rows_ok (fold put_row es q)"
  by (induction es arbitrary: q) (auto intro: put_row_ok)

lemma put_row_mono:
  assumes "rows q = Some m" "is_map m" "map_of m k = Some v"
  obtains m' w where "rows (put_row e q) = Some m'" "is_map m'" "map_of m' k = Some w" "le v w"
proof -
  obtain m' where m': "rows (put_row e q) = Some m'" "is_map m'"
    "map_of m' k = (if k = fst e \<and> \<not> (map_of m k = None \<and> cap \<le> length m)
                    then join (map_of m k) (snd e) else map_of m k)"
    using rows_put [OF assms(1,2), of e] by blast
  show thesis
  proof (cases "k = fst e")
    case True
    then have "map_of m' k = join (Some v) (snd e)" using m'(3) assms(3) by simp
    moreover obtain w where w: "join (Some v) (snd e) = Some w" using join_keeps by blast
    ultimately show thesis using that [OF m'(1,2), of w] join_ge [OF w] by simp
  next
    case False
    then show thesis using that [OF m'(1,2), of v] m'(3) assms(3) le_refl by simp
  qed
qed

lemma fold_rows_mono:
  assumes "rows q = Some m" "is_map m" "map_of m k = Some v"
  shows "\<exists>m' w. rows (fold put_row es q) = Some m' \<and> map_of m' k = Some w \<and> le v w"
  using assms
proof (induction es arbitrary: q m v)
  case Nil
  then show ?case using le_refl by auto
next
  case (Cons e es)
  obtain m1 w1 where 1: "rows (put_row e q) = Some m1" "is_map m1" "map_of m1 k = Some w1" "le v w1"
    using put_row_mono [OF Cons.prems] by blast
  show ?case using Cons.IH [OF 1(1-3)] 1(4) le_trans by auto
qed

lemma fold_rows_no_loss:
  assumes "rows q = Some m" "is_map m" "length m + length es \<le> cap"
    and "(k, v) \<in> set es" "join None v \<noteq> None"
  shows "\<exists>m' w. rows (fold put_row es q) = Some m' \<and> map_of m' k = Some w \<and> le v w"
  using assms
proof (induction es arbitrary: q m)
  case Nil
  then show ?case by simp
next
  case (Cons e es)
  obtain m1 where m1: "rows (put_row e q) = Some m1" "is_map m1" "length m1 \<le> Suc (length m)"
    "\<forall>x. map_of m1 x = (if x = fst e \<and> \<not> (map_of m x = None \<and> cap \<le> length m)
                        then join (map_of m x) (snd e) else map_of m x)"
    using rows_put [OF Cons.prems(1,2), of e] by blast
  show ?case
  proof (cases "e = (k, v)")
    case True
    then have "map_of m1 k = join (map_of m k) v" using m1(4) Cons.prems(3) by simp
    moreover obtain w where w: "join (map_of m k) v = Some w"
      using Cons.prems(5) join_keeps by (cases "map_of m k") auto
    ultimately have "map_of m1 k = Some w" by simp
    from fold_rows_mono [OF m1(1,2) this, of es] join_ge [OF w] le_trans show ?thesis by auto
  next
    case False
    then have "(k, v) \<in> set es" using Cons.prems(4) by simp
    moreover have "length m1 + length es \<le> cap" using m1(3) Cons.prems(3) by simp
    ultimately show ?thesis using Cons.IH [OF m1(1,2)] Cons.prems(5) by simp
  qed
qed

end

interpretation own_rows: pending_rows q_own put_back_own max_own_pending
  "\<lambda>c t. if (case c of None \<Rightarrow> zero_time | Some u \<Rightarrow> u) < t then Some t else c" "(\<le>)"
  by unfold_locales
    (auto simp: put_back_own_def get_or_def go_map length_put split: option.splits if_splits)

definition static_le :: "static_times \<Rightarrow> static_times \<Rightarrow> bool" where
  "static_le t u \<longleftrightarrow> st_first u \<le> st_first t \<and> st_last t \<le> st_last u"

interpretation static_rows: pending_rows q_statics put_static max_statics_pending
  "\<lambda>c t. Some (static_join c t)" static_le
  by unfold_locales
    (auto simp: put_static_def static_join_def static_le_def go_map length_put split: option.splits if_splits)

section \<open>Runs\<close>

text \<open>
  An interleaving of what arrives and of a flush's steps. The run keeps the chq and, beside it,
  what the properties speak of: the positions offered for queueing, the batches the database
  took, and every insert with its token.
\<close>

datatype chq_op =
    NotePosition track_point
  | NoteOwn event
  | NoteStatic event
  | TakeBatch string
  | SettleBatch outcome time time
  | OwnFlight bool "event list"
  | StaticsFlight bool "event list"
  | PruneAishub time

record chq_run =
  run_q :: chq
  run_noted :: "track_point list"
  run_delivered :: "track_point list"
  run_inserts :: "(string \<times> track_point list) list"

text \<open>
  \<open>OwnFlight ok evs\<close> is \<open>flushOwn\<close> with the own-ship messages \<open>evs\<close> arriving while its insert
  runs; \<open>StaticsFlight\<close> likewise.
\<close>

fun chq_apply :: "chq_op \<Rightarrow> chq_run \<Rightarrow> chq_run" where
  "chq_apply (NotePosition pt) r =
     r\<lparr>run_q := note_reception pt (run_q r),
       run_noted := (if pt_recv pt < q_gate (run_q r) \<or> q_queue (run_q r) = None
                     then run_noted r else run_noted r @ [pt])\<rparr>"
| "chq_apply (NoteOwn ev) r = r\<lparr>run_q := note_own ev (run_q r)\<rparr>"
| "chq_apply (NoteStatic ev) r = r\<lparr>run_q := note_static ev (run_q r)\<rparr>"
| "chq_apply (TakeBatch token) r = r\<lparr>run_q := flush_take token (run_q r)\<rparr>"
| "chq_apply (SettleBatch res n1 n2) r =
     (case q_failed (run_q r) of
        None \<Rightarrow> r
      | Some ps \<Rightarrow> r\<lparr>run_q := flush_settle res n1 n2 (run_q r),
                    run_delivered := (if res = Written then run_delivered r @ ps else run_delivered r),
                    run_inserts := run_inserts r @ [(q_token (run_q r), ps)]\<rparr>)"
| "chq_apply (OwnFlight ok evs) r =
     (let (batch, q) = own_take (run_q r)
      in r\<lparr>run_q := own_settle ok batch (fold note_own evs q)\<rparr>)"
| "chq_apply (StaticsFlight ok evs) r =
     (let (batch, q) = statics_take (run_q r)
      in r\<lparr>run_q := statics_settle ok batch (fold note_static evs q)\<rparr>)"
| "chq_apply (PruneAishub now) r = r\<lparr>run_q := prune_aishub_statics now (run_q r)\<rparr>"

definition chq_start :: "time \<Rightarrow> bool \<Rightarrow> chq_run" where
  "chq_start gate with_statics =
     \<lparr>run_q = attach_clickhouse with_statics (detached gate), run_noted = [], run_delivered = [],
      run_inserts = []\<rparr>"

definition chq_after :: "chq_op list \<Rightarrow> time \<Rightarrow> bool \<Rightarrow> chq_run" where
  "chq_after ops gate with_statics = fold chq_apply ops (chq_start gate with_statics)"

definition opt_list :: "'a list option \<Rightarrow> 'a list" where
  "opt_list x = (case x of None \<Rightarrow> [] | Some l \<Rightarrow> l)"

lemma opt_list_simps [simp]: "opt_list None = []" "opt_list (Some l) = l"
  by (simp_all add: opt_list_def)

text \<open>What only the receptions' own steps change.\<close>

definition same_queue :: "chq \<Rightarrow> chq \<Rightarrow> bool" where
  "same_queue q q' \<longleftrightarrow> q_gate q' = q_gate q \<and> q_queue q' = q_queue q \<and> q_failed q' = q_failed q \<and>
     q_token q' = q_token q \<and> q_written q' = q_written q \<and> q_dropped q' = q_dropped q"

lemma same_queue_refl [simp]: "same_queue q q"
  by (simp add: same_queue_def)

lemma same_queue_trans: "same_queue p q \<Longrightarrow> same_queue q r \<Longrightarrow> same_queue p r"
  by (simp add: same_queue_def)

lemma same_queue_fold:
  "(\<And>e q. same_queue q (f e q)) \<Longrightarrow> same_queue q (fold f es q)"
  by (induction es arbitrary: q) (auto intro: same_queue_trans)

lemma same_queue_prune: "same_queue q (prune_claims b q)"
  by (simp add: prune_claims_def same_queue_def Let_def)

lemma same_queue_note_own: "same_queue q (note_own ev q)"
  by (simp add: note_own_def claim_own_def prune_claims_def same_queue_def Let_def split: option.split)

lemma same_queue_put_static: "same_queue q (put_static e q)"
  by (simp add: put_static_def same_queue_def split: option.split)

lemma same_queue_note_static: "same_queue q (note_static ev q)"
  by (simp add: note_static_def note_static_packet_def same_queue_put_static split: option.split)

lemma same_queue_put_back_own: "same_queue q (put_back_own e q)"
  by (simp add: put_back_own_def same_queue_def split: option.split)

lemma same_queue_own_flight:
  "own_take q = (b, q1) \<Longrightarrow> same_queue q (own_settle ok b (fold note_own evs q1))"
proof -
  assume "own_take q = (b, q1)"
  then have 1: "same_queue q q1"
    by (auto simp: own_take_def prune_claims_def same_queue_def Let_def split: option.splits if_splits)
  have 2: "same_queue q1 (fold note_own evs q1)" by (rule same_queue_fold) (rule same_queue_note_own)
  have 3: "same_queue x (own_settle ok b x)" for x
  proof -
    have "same_queue (x\<lparr>q_failures := q_failures x + 1\<rparr>)
            (fold put_back_own b (x\<lparr>q_failures := q_failures x + 1\<rparr>))"
      by (rule same_queue_fold) (rule same_queue_put_back_own)
    then show ?thesis by (simp add: own_settle_def same_queue_def)
  qed
  show ?thesis using same_queue_trans [OF 1 same_queue_trans [OF 2 3]] .
qed

lemma same_queue_statics_flight:
  "statics_take q = (b, q1) \<Longrightarrow> same_queue q (statics_settle ok b (fold note_static evs q1))"
proof -
  assume "statics_take q = (b, q1)"
  then have 1: "same_queue q q1"
    by (auto simp: statics_take_def same_queue_def split: option.splits)
  have 2: "same_queue q1 (fold note_static evs q1)" by (rule same_queue_fold) (rule same_queue_note_static)
  have 3: "same_queue x (statics_settle ok b x)" for x
  proof -
    have "same_queue (x\<lparr>q_failures := q_failures x + 1\<rparr>)
            (fold put_static b (x\<lparr>q_failures := q_failures x + 1\<rparr>))"
      by (rule same_queue_fold) (rule same_queue_put_static)
    then show ?thesis by (simp add: statics_settle_def same_queue_def)
  qed
  show ?thesis using same_queue_trans [OF 1 same_queue_trans [OF 2 3]] .
qed

text \<open>The run's invariant, and that every step keeps it.\<close>

definition run_ok :: "chq_run \<Rightarrow> bool" where
  "run_ok r \<longleftrightarrow>
     subseq (run_delivered r @ opt_list (q_failed (run_q r)) @ opt_list (q_queue (run_q r))) (run_noted r) \<and>
     length (run_noted r) = q_written (run_q r) + q_dropped (run_q r) +
       length (opt_list (q_failed (run_q r))) + length (opt_list (q_queue (run_q r))) \<and>
     q_written (run_q r) = length (run_delivered r) \<and>
     length (opt_list (q_queue (run_q r))) \<le> max_pending"

lemma run_ok_same:
  "run_ok r \<Longrightarrow> same_queue (run_q r) q \<Longrightarrow> run_ok (r\<lparr>run_q := q\<rparr>)"
  by (simp add: run_ok_def same_queue_def)

lemma subseq_drop_middle: "subseq (a @ b @ c) xs \<Longrightarrow> subseq (a @ c) xs"
  by (meson list_emb_append_mono subseq_order.order_refl subseq_order.order_trans subseq_rev_drop_many
      list_emb_append2)

lemma run_ok_note: "run_ok r \<Longrightarrow> run_ok (chq_apply (NotePosition pt) r)"
proof -
  assume ok: "run_ok r"
  show ?thesis
  proof (cases "pt_recv pt < q_gate (run_q r) \<or> q_queue (run_q r) = None")
    case True
    then show ?thesis using ok by (auto simp: note_reception_def run_ok_def split: option.splits)
  next
    case False
    then obtain ps where ps: "q_queue (run_q r) = Some ps" "\<not> pt_recv pt < q_gate (run_q r)" by auto
    let ?n = "max_pending div 10" and ?a = "run_delivered r @ opt_list (q_failed (run_q r))"
    have s: "subseq (?a @ ps) (run_noted r)" using ok ps by (simp add: run_ok_def)
    show ?thesis
    proof (cases "max_pending \<le> length ps")
      case True
      have "subseq (?a @ take ?n ps @ drop ?n ps) (run_noted r)" using s by simp
      from subseq_drop_middle [OF this] have "subseq (?a @ drop ?n ps) (run_noted r)" .
      then have "subseq ((?a @ drop ?n ps) @ [pt]) (run_noted r @ [pt])"
        by (rule list_emb_append_mono) simp
      then show ?thesis using ok ps True
        by (simp add: run_ok_def note_reception_def max_pending_def)
    next
      case 2: False
      have "subseq ((?a @ ps) @ [pt]) (run_noted r @ [pt])"
        by (rule list_emb_append_mono [OF s]) simp
      then show ?thesis using ok ps 2
        by (simp add: run_ok_def note_reception_def)
    qed
  qed
qed

lemma run_ok_take: "run_ok r \<Longrightarrow> run_ok (chq_apply (TakeBatch token) r)"
  by (auto simp: run_ok_def flush_take_def split: option.splits list.splits)

lemma run_ok_settle: "run_ok r \<Longrightarrow> run_ok (chq_apply (SettleBatch res n1 n2) r)"
proof -
  assume ok: "run_ok r"
  show ?thesis
  proof (cases "q_failed (run_q r)")
    case None
    then show ?thesis using ok by simp
  next
    case (Some ps)
    have s: "subseq (run_delivered r @ ps @ opt_list (q_queue (run_q r))) (run_noted r)"
      using ok Some by (simp add: run_ok_def)
    show ?thesis
      using ok Some s subseq_drop_middle [OF s]
      by (cases res) (auto simp: run_ok_def flush_settle_def Let_def)
  qed
qed

lemma run_ok_apply: "run_ok r \<Longrightarrow> run_ok (chq_apply op r)"
proof (cases op)
  case (NotePosition pt)
  assume "run_ok r"
  then show ?thesis unfolding NotePosition by (rule run_ok_note)
next
  case (TakeBatch token)
  assume "run_ok r"
  then show ?thesis unfolding TakeBatch by (rule run_ok_take)
next
  case (SettleBatch res n1 n2)
  assume "run_ok r"
  then show ?thesis unfolding SettleBatch by (rule run_ok_settle)
next
  case (OwnFlight ok evs)
  assume "run_ok r"
  then show ?thesis unfolding OwnFlight
    using run_ok_same [OF _ same_queue_own_flight] by (auto split: prod.split)
next
  case (StaticsFlight ok evs)
  assume "run_ok r"
  then show ?thesis unfolding StaticsFlight
    using run_ok_same [OF _ same_queue_statics_flight] by (auto split: prod.split)
qed (auto intro: run_ok_same same_queue_note_own same_queue_note_static
       simp: prune_aishub_statics_def same_queue_def)

lemma run_ok_start: "run_ok (chq_start gate b)"
  by (simp add: run_ok_def chq_start_def attach_clickhouse_def detached_def)

lemma run_ok_after: "run_ok (chq_after ops gate b)"
proof -
  have "run_ok r \<Longrightarrow> run_ok (fold chq_apply ops r)" for r
    by (induction ops arbitrary: r) (auto intro: run_ok_apply)
  then show ?thesis by (simp add: chq_after_def run_ok_start)
qed



section \<open>Tokens\<close>

fun new_token :: "chq_op \<Rightarrow> string list" where
  "new_token (TakeBatch token) = [token]"
| "new_token _ = []"

definition tokens_ok :: "string list \<Rightarrow> chq_run \<Rightarrow> bool" where
  "tokens_ok used r \<longleftrightarrow>
     (\<forall>t b. (t, b) \<in> set (run_inserts r) \<longrightarrow> t \<in> set used) \<and>
     (\<forall>t b b'. (t, b) \<in> set (run_inserts r) \<longrightarrow> (t, b') \<in> set (run_inserts r) \<longrightarrow> b = b') \<and>
     (\<forall>ps. q_failed (run_q r) = Some ps \<longrightarrow> q_token (run_q r) \<in> set used \<and>
        (\<forall>b. (q_token (run_q r), b) \<in> set (run_inserts r) \<longrightarrow> b = ps))"

lemma tokens_ok_same:
  "tokens_ok used r \<Longrightarrow> q_failed q = q_failed (run_q r) \<Longrightarrow> q_token q = q_token (run_q r) \<Longrightarrow>
   tokens_ok used (r\<lparr>run_q := q\<rparr>)"
  by (simp add: tokens_ok_def)

lemma note_reception_batch:
  "q_failed (note_reception pt q) = q_failed q \<and> q_token (note_reception pt q) = q_token q"
  by (simp add: note_reception_def split: option.split)

lemma tokens_ok_take:
  "tokens_ok used r \<Longrightarrow> token \<notin> set used \<Longrightarrow> tokens_ok (used @ [token]) (chq_apply (TakeBatch token) r)"
  by (fastforce simp: tokens_ok_def flush_take_def split: option.splits list.splits)

lemma tokens_ok_settle:
  assumes ok: "tokens_ok used r"
  shows "tokens_ok used (chq_apply (SettleBatch res n1 n2) r)"
proof (cases "q_failed (run_q r)")
  case None
  then show ?thesis using ok by simp
next
  case (Some ps)
  have q: "q_token (flush_settle res n1 n2 (run_q r)) = q_token (run_q r)"
    "q_failed (flush_settle res n1 n2 (run_q r)) = Some qs \<Longrightarrow> qs = ps" for qs
    using Some by (auto simp: flush_settle_def Let_def split: outcome.splits if_splits)
  show ?thesis using ok Some q by (auto simp: tokens_ok_def)
qed

lemma tokens_ok_apply:
  assumes ok: "tokens_ok used r" and fresh: "distinct (used @ new_token op)"
  shows "tokens_ok (used @ new_token op) (chq_apply op r)"
proof (cases op)
  case (NotePosition pt)
  then show ?thesis using ok note_reception_batch [of pt "run_q r"] by (simp add: tokens_ok_def)
next
  case (TakeBatch token)
  then show ?thesis using tokens_ok_take [OF ok] fresh by simp
next
  case (SettleBatch res n1 n2)
  then show ?thesis using tokens_ok_settle [OF ok] by simp
next
  case (OwnFlight fine evs)
  then show ?thesis using tokens_ok_same [OF ok] same_queue_own_flight [of "run_q r" _ _ fine evs]
    by (auto simp: same_queue_def split: prod.split)
next
  case (StaticsFlight fine evs)
  then show ?thesis using tokens_ok_same [OF ok] same_queue_statics_flight [of "run_q r" _ _ fine evs]
    by (auto simp: same_queue_def split: prod.split)
qed (use tokens_ok_same [OF ok] same_queue_note_own [of "run_q r"] same_queue_note_static [of "run_q r"] in
     \<open>auto simp: same_queue_def prune_aishub_statics_def\<close>)

lemma tokens_ok_fold:
  "tokens_ok used r \<Longrightarrow> distinct (used @ concat (map new_token ops)) \<Longrightarrow>
   tokens_ok (used @ concat (map new_token ops)) (fold chq_apply ops r)"
proof (induction ops arbitrary: used r)
  case Nil
  then show ?case by simp
next
  case (Cons op ops)
  then have "tokens_ok (used @ new_token op) (chq_apply op r)"
    by (intro tokens_ok_apply) auto
  from Cons.IH [OF this] Cons.prems(2) show ?case by (simp add: append_assoc)
qed

text \<open>
  A token names one batch: when each flush draws a token of its own, no two inserts under one
  token ever carry different positions, however often a batch is sent again and whatever
  arrives meanwhile. So the database, which drops an insert whose token it has seen, never
  drops a position it does not hold.
\<close>

theorem token_names_batch:
  assumes "distinct (concat (map new_token ops))"
    and "(token, b) \<in> set (run_inserts (chq_after ops gate with_statics))"
    and "(token, b') \<in> set (run_inserts (chq_after ops gate with_statics))"
  shows "b = b'"
proof -
  have "tokens_ok [] (chq_start gate with_statics)"
    by (simp add: tokens_ok_def chq_start_def attach_clickhouse_def detached_def)
  from tokens_ok_fold [OF this, of ops] assms show ?thesis
    by (auto simp: tokens_ok_def chq_after_def)
qed


definition token_ops :: "chq_op list" where
  "token_ops = [NotePosition (sample_point 1000000000 36000000 7\<lparr>pt_recv := 1000000000\<rparr>),
     TakeBatch ''t1'', SettleBatch Lost 0 0, TakeBatch ''t2'', SettleBatch Written 0 0]"

lemma token_ops_inserts:
  "set (run_inserts (chq_after token_ops 0 True)) =
     {(''t1'', [sample_point 1000000000 36000000 7\<lparr>pt_recv := 1000000000\<rparr>])}"
  by (simp add: token_ops_def chq_after_def chq_start_def attach_clickhouse_def detached_def
      note_reception_def flush_take_def flush_settle_def max_pending_def)

theorem token_names_batch_witness:
  "[sample_point 1000000000 36000000 7\<lparr>pt_recv := 1000000000\<rparr>] =
   [sample_point 1000000000 36000000 7\<lparr>pt_recv := 1000000000\<rparr>]"
  by (rule token_names_batch [of token_ops "''t1''" _ 0 True])
     (simp_all add: token_ops_inserts, simp add: token_ops_def)

section \<open>The own-ship allowance\<close>

definition hour_count :: "int \<Rightarrow> (own_key \<times> mmsi list) list \<Rightarrow> nat" where
  "hour_count h m = length (filter (\<lambda>e. ok_hour (fst e) = h) m)"

definition hours_exact :: "(int \<times> nat) list \<Rightarrow> (own_key \<times> mmsi list) list \<Rightarrow> bool" where
  "hours_exact hs m \<longleftrightarrow> is_map hs \<and>
     (\<forall>h. map_of hs h = (if hour_count h m = 0 then None else Some (hour_count h m)))"

definition claims_ok :: "(own_key \<times> mmsi list) list \<Rightarrow> bool" where
  "claims_ok m \<longleftrightarrow> is_map m \<and> length m \<le> max_own_pending \<and>
     (\<forall>(sh, ms) \<in> set m. distinct ms \<and> length ms \<le> max_own_per_station)"

definition own_ok :: "chq \<Rightarrow> bool" where
  "own_ok q \<longleftrightarrow> own_rows.rows_ok q \<and> claims_ok (q_claimed q) \<and>
     hours_exact (q_claim_hours q) (q_claimed q)"

lemma hour_count_keep:
  "hour_count h (keep_if (\<lambda>sh _. \<not> ok_hour sh < b) m) = (if h < b then 0 else hour_count h m)"
  by (induction m) (auto simp: hour_count_def keep_if_def)

lemma hour_count_put_new:
  "map_of m sh = None \<Longrightarrow>
   hour_count h (put sh v m) = (if h = ok_hour sh then Suc (hour_count h m) else hour_count h m)"
  by (induction m) (auto simp: hour_count_def)

lemma hour_count_put_old:
  "map_of m sh \<noteq> None \<Longrightarrow> hour_count h (put sh v m) = hour_count h m"
  by (induction m) (auto simp: hour_count_def split: if_splits)

lemma hours_exact_old:
  assumes "hours_exact hs m"
  shows "list_ex (\<lambda>e. fst e < b) hs \<longleftrightarrow> (\<exists>sh \<in> fst ` set m. ok_hour sh < b)"
proof
  assume "list_ex (\<lambda>e. fst e < b) hs"
  then obtain h n where hn: "(h, n) \<in> set hs" "h < b" by (auto simp: list_ex_iff)
  then have "map_of hs h = Some n" using assms by (intro map_of_is_SomeI) (auto simp: hours_exact_def)
  then have "hour_count h m \<noteq> 0" using assms by (auto simp: hours_exact_def split: if_splits)
  then obtain e where "e \<in> set m" "ok_hour (fst e) = h"
    by (auto simp: hour_count_def filter_empty_conv)
  then show "\<exists>sh \<in> fst ` set m. ok_hour sh < b" using hn by blast
next
  assume "\<exists>sh \<in> fst ` set m. ok_hour sh < b"
  then obtain e where e: "e \<in> set m" "ok_hour (fst e) < b" by auto
  then have "hour_count (ok_hour (fst e)) m \<noteq> 0" by (auto simp: hour_count_def filter_empty_conv)
  then obtain n where "map_of hs (ok_hour (fst e)) = Some n" using assms by (auto simp: hours_exact_def)
  then have "(ok_hour (fst e), n) \<in> set hs" by (rule map_of_SomeD)
  then show "list_ex (\<lambda>e. fst e < b) hs" using e by (force simp: list_ex_iff)
qed

lemma keep_if_all: "(\<And>k v. (k, v) \<in> set m \<Longrightarrow> P k v) \<Longrightarrow> keep_if P m = m"
  by (simp add: keep_if_def filter_id_conv split_def)

lemma prune_claims_eq:
  assumes "hours_exact (q_claim_hours q) (q_claimed q)"
  shows "prune_claims b q =
     q\<lparr>q_claim_hours := keep_if (\<lambda>h _. \<not> h < b) (q_claim_hours q),
       q_claimed := keep_if (\<lambda>sh _. \<not> ok_hour sh < b) (q_claimed q)\<rparr>"
proof (cases "list_ex (\<lambda>e. fst e < b) (q_claim_hours q)")
  case True
  then show ?thesis by (simp add: prune_claims_def Let_def)
next
  case False
  then have "keep_if (\<lambda>sh _. \<not> ok_hour sh < b) (q_claimed q) = q_claimed q"
    using hours_exact_old [OF assms, of b] by (intro keep_if_all) force
  then show ?thesis using False by (simp add: prune_claims_def Let_def)
qed

lemma hours_exact_keep:
  assumes "hours_exact hs m"
  shows "hours_exact (keep_if (\<lambda>h _. \<not> h < b) hs) (keep_if (\<lambda>sh _. \<not> ok_hour sh < b) m)"
  using assms by (auto simp: hours_exact_def go_map hour_count_keep split: option.splits)

lemma claims_ok_keep: "claims_ok m \<Longrightarrow> claims_ok (keep_if P m)"
  using length_keep_if_le [of P m] by (auto simp: claims_ok_def go_map)

lemma own_ok_prune: "own_ok q \<Longrightarrow> own_ok (prune_claims b q)"
  by (auto simp: own_ok_def prune_claims_eq hours_exact_keep claims_ok_keep own_rows.rows_ok_def)

lemma hours_exact_put_new:
  assumes "hours_exact hs m" "map_of m sh = None"
  shows "hours_exact (put (ok_hour sh) (get_or 0 hs (ok_hour sh) + 1) hs) (put sh v m)"
  using assms by (auto simp: hours_exact_def go_map hour_count_put_new get_or_def)

lemma hours_exact_put_old:
  "hours_exact hs m \<Longrightarrow> map_of m sh \<noteq> None \<Longrightarrow> hours_exact hs (put sh v m)"
  by (simp add: hours_exact_def hour_count_put_old)

lemma get_or_claims_ok:
  "claims_ok m \<Longrightarrow> distinct (get_or [] m sh) \<and> length (get_or [] m sh) \<le> max_own_per_station"
  by (auto simp: claims_ok_def get_or_def split: option.split dest!: map_of_SomeD)

lemma claims_ok_put:
  assumes "claims_ok m" "distinct ms" "length ms \<le> max_own_per_station"
    and "map_of m sh \<noteq> None \<or> length m < max_own_pending"
  shows "claims_ok (put sh ms m)"
  using assms set_put_subset [of sh ms m] by (auto simp: claims_ok_def length_put is_map_put)

lemma length_insert_le: "x \<in> set xs \<or> length xs < n \<Longrightarrow> length xs \<le> n \<Longrightarrow> length (List.insert x xs) \<le> n"
  by (auto simp: List.insert_def)

lemma own_ok_claim_own:
  assumes ok: "own_ok q" and own: "q_own q = Some own"
  shows "own_ok (claim_own sh k t own q)"
proof -
  define cl where "cl = get_or [] (q_claimed q) sh"
  define q2 where "q2 = (if map_of (q_claimed q) sh = None \<and> max_own_pending \<le> length (q_claimed q)
                         then prune_claims (ok_hour sh) q else q)"
  define hs where "hs = (if map_of (q_claimed q) sh \<noteq> None then q_claim_hours q2
     else put (ok_hour sh) (get_or 0 (q_claim_hours q2) (ok_hour sh) + 1) (q_claim_hours q2))"
  define cs where "cs = put sh (List.insert (ok_mmsi k) cl) (q_claimed q2)"
  have 2: "own_ok q2" using own_ok_prune [OF ok] ok by (simp add: q2_def)
  have cl: "distinct cl" "length cl \<le> max_own_per_station"
    using ok by (auto simp: own_ok_def cl_def dest: get_or_claims_ok)
  have same_sh: "map_of (q_claimed q2) sh = map_of (q_claimed q) sh"
    using ok by (auto simp: q2_def own_ok_def prune_claims_eq claims_ok_def go_map split: option.splits)
  have own2: "q_own q2 = Some own" using own by (simp add: q2_def prune_claims_def Let_def)
  let ?refuse = "ok_mmsi k \<notin> set cl \<and> max_own_per_station \<le> length cl"
  let ?full = "map_of own k = None \<and> max_own_pending \<le> length own \<or>
     map_of (q_claimed q) sh = None \<and> max_own_pending \<le> length (q_claimed q2)"
  have eq: "claim_own sh k t own q =
    (if ?refuse then q\<lparr>q_own_refused := q_own_refused q + 1\<rparr>
     else if ?full then q2\<lparr>q_own_dropped := q_own_dropped q2 + 1\<rparr>
     else if get_or zero_time own k < t
          then q2\<lparr>q_claim_hours := hs, q_claimed := cs, q_own := Some (put k t own)\<rparr>
          else q2\<lparr>q_claim_hours := hs, q_claimed := cs\<rparr>)"
    unfolding claim_own_def Let_def cs_def hs_def q2_def cl_def not_not by (simp only: chq.simps chq.update_convs)
  show ?thesis
  proof (cases "?refuse \<or> ?full")
    case True
    then show ?thesis using ok 2 by (auto simp: eq own_ok_def own_rows.rows_ok_def)
  next
    case fits: False
    have "length (List.insert (ok_mmsi k) cl) \<le> max_own_per_station"
      using fits cl by (intro length_insert_le) auto
    then have cs: "claims_ok cs"
      unfolding cs_def using 2 cl fits same_sh by (intro claims_ok_put) (auto simp: own_ok_def)
    have hs: "hours_exact hs cs"
      using 2 same_sh hours_exact_put_new [of "q_claim_hours q2" "q_claimed q2" sh]
        hours_exact_put_old [of "q_claim_hours q2" "q_claimed q2" sh]
      unfolding hs_def cs_def own_ok_def by auto
    have rows: "is_map own" "length own \<le> max_own_pending"
      using 2 own2 by (auto simp: own_ok_def own_rows.rows_ok_def)
    then have "length (put k t own) \<le> max_own_pending"
      using fits by (auto simp: length_put)
    then show ?thesis using fits cs hs rows own2
      by (auto simp: eq own_ok_def own_rows.rows_ok_def is_map_put)
  qed
qed

lemma own_ok_more [simp]:
  "own_ok (q\<lparr>q_own_hw := n\<rparr>) = own_ok q"
  "own_ok (q\<lparr>q_failures := f\<rparr>) = own_ok q"
  "own_ok (q\<lparr>q_own_dropped := d\<rparr>) = own_ok q"
  "own_ok (q\<lparr>q_statics := s\<rparr>) = own_ok q"
  "own_ok (q\<lparr>q_statics_dropped := sd\<rparr>) = own_ok q"
  by (simp_all add: own_ok_def own_rows.rows_ok_def)

lemma own_ok_note_own: "own_ok q \<Longrightarrow> own_ok (note_own ev q)"
  by (auto simp: note_own_def split: option.split intro!: own_ok_claim_own)

lemma own_ok_put_back: "own_ok q \<Longrightarrow> own_ok (put_back_own e q)"
  using own_rows.put_row_ok [of q e]
  by (auto simp: own_ok_def put_back_own_def split: option.splits if_splits)

lemma own_ok_fold: "(\<And>e q. own_ok q \<Longrightarrow> own_ok (f e q)) \<Longrightarrow> own_ok q \<Longrightarrow> own_ok (fold f es q)"
  by (induction es arbitrary: q) auto

lemma own_ok_take: "own_ok q \<Longrightarrow> own_take q = (b, q1) \<Longrightarrow> own_ok q1"
proof -
  have e: "own_ok q \<Longrightarrow> own_ok (q\<lparr>q_own := Some []\<rparr>)"
    by (simp add: own_ok_def own_rows.rows_ok_def)
  show "own_ok q \<Longrightarrow> own_take q = (b, q1) \<Longrightarrow> own_ok q1"
    using e own_ok_prune by (auto simp: own_take_def split: option.splits)
qed

lemma own_ok_settle: "own_ok q \<Longrightarrow> own_ok (own_settle ok b q)"
  by (auto simp: own_settle_def intro!: own_ok_fold own_ok_put_back)

lemma own_ok_put_static: "own_ok q \<Longrightarrow> own_ok (put_static e q)"
  by (simp add: put_static_def split: option.split)

lemma own_ok_note_static: "own_ok q \<Longrightarrow> own_ok (note_static ev q)"
  by (simp add: note_static_def note_static_packet_def own_ok_put_static split: option.split)

lemma own_ok_batch:
  "own_ok (note_reception pt q) = own_ok q" "own_ok (flush_take token q) = own_ok q"
  "own_ok (flush_settle res n1 n2 q) = own_ok q" "own_ok (prune_aishub_statics now q) = own_ok q"
  by (auto simp: own_ok_def own_rows.rows_ok_def note_reception_def flush_take_def flush_settle_def
      prune_aishub_statics_def Let_def split: option.split list.split outcome.split)

lemma own_ok_apply: "own_ok (run_q r) \<Longrightarrow> own_ok (run_q (chq_apply op r))"
proof (cases op)
  case (SettleBatch res n1 n2)
  then show "own_ok (run_q r) \<Longrightarrow> own_ok (run_q (chq_apply op r))"
    by (simp add: own_ok_batch split: option.split)
next
  case (OwnFlight ok evs)
  then show "own_ok (run_q r) \<Longrightarrow> own_ok (run_q (chq_apply op r))"
    by (auto split: prod.split intro!: own_ok_settle own_ok_fold own_ok_note_own intro: own_ok_take)
next
  case (StaticsFlight ok evs)
  then show "own_ok (run_q r) \<Longrightarrow> own_ok (run_q (chq_apply op r))"
    by (auto simp: statics_take_def statics_settle_def split: prod.split option.split
        intro!: own_ok_fold own_ok_note_static own_ok_put_static)
qed (auto simp: own_ok_batch own_ok_note_own own_ok_note_static)

lemma keep_if_not_less: "keep_if (\<lambda>k _. \<not> f k < b) m = filter (\<lambda>e. b \<le> f (fst e)) m"
  for b :: int
  by (simp add: keep_if_def split_def not_less)

lemma own_ok_after: "own_ok (run_q (chq_after ops gate b))"
proof -
  have "own_ok (run_q r) \<Longrightarrow> own_ok (run_q (fold chq_apply ops r))" for r
    by (induction ops arbitrary: r) (auto intro: own_ok_apply)
  moreover have "own_ok (run_q (chq_start gate b))"
    by (simp add: chq_start_def attach_clickhouse_def detached_def own_ok_def own_rows.rows_ok_def
        claims_ok_def hours_exact_def hour_count_def)
  ultimately show ?thesis by (simp add: chq_after_def)
qed

text \<open>
  C4. Own-ship memory is bounded and the allowance is kept: at every point of every run the
  sightings that wait are at most 10,000 with one entry for each key, the senders remembered
  are at most 10,000, none has more than 4 different vessels in an hour, and the hours \<open>pruneClaims\<close>
  looks at count exactly the senders remembered for each hour.
\<close>

theorem own_allowance:
  "(let q = run_q (chq_after ops gate with_statics); own = opt_list (q_own q)
    in is_map own \<and> length own \<le> 10000 \<and>
       is_map (q_claimed q) \<and> length (q_claimed q) \<le> 10000 \<and>
       list_all (\<lambda>(sh, ms). distinct ms \<and> length ms \<le> 4) (q_claimed q) \<and>
       (\<forall>h. get_or 0 (q_claim_hours q) h =
              length (filter (\<lambda>e. ok_hour (fst e) = h) (q_claimed q))))"
  using own_ok_after [of ops gate with_statics]
  unfolding own_ok_def own_rows.rows_ok_def
  unfolding claims_ok_def hours_exact_def hour_count_def max_own_pending_def max_own_per_station_def
  by (cases "q_own (run_q (chq_after ops gate with_statics))")
     (auto simp: list_all_iff get_or_def Let_def)

text \<open>
  \<open>pruneClaims\<close> is exact although it scans the claims only when the hour counts say there is
  something to drop: in every state a run reaches it leaves the claims of the given hour and
  later as they are and none before it, in the claims and in the counts.
\<close>

theorem prune_exact:
  "(let q = run_q (chq_after ops gate with_statics); q' = prune_claims b q
    in q_claimed q' = filter (\<lambda>e. b \<le> ok_hour (fst e)) (q_claimed q) \<and>
       q_claim_hours q' = filter (\<lambda>e. b \<le> fst e) (q_claim_hours q))"
  using prune_claims_eq [of "run_q (chq_after ops gate with_statics)" b]
    own_ok_after [of ops gate with_statics]
  by (simp add: own_ok_def Let_def keep_if_not_less keep_if_not_less [of "\<lambda>h. h", simplified])

text \<open>
  A failed insert loses nothing while there is room. Putting a failed batch back into maps
  that received other rows meanwhile leaves every own-ship sighting with its time or a later
  one, and every static state with a span that covers the one it had.
\<close>

theorem failed_insert_keeps:
  assumes "q_own q = Some own" "is_map own" "length own + length batch \<le> 10000"
    and "(k, t) \<in> set batch" "zero_time < t"
    and "q_statics q = Some rows" "is_map rows" "length rows + length sbatch \<le> 100000"
    and "(sk, st) \<in> set sbatch"
  shows "(\<exists>own' t'. q_own (own_settle False batch q) = Some own' \<and> map_of own' k = Some t' \<and> t \<le> t') \<and>
    (\<exists>rows' st'. q_statics (statics_settle False sbatch q) = Some rows' \<and> map_of rows' sk = Some st' \<and>
       st_first st' \<le> st_first st \<and> st_last st \<le> st_last st')"
proof
  have "batch \<noteq> []" "sbatch \<noteq> []" using assms by auto
  then have e: "own_settle False batch q = fold put_back_own batch (q\<lparr>q_failures := q_failures q + 1\<rparr>)"
    "statics_settle False sbatch q = fold put_static sbatch (q\<lparr>q_failures := q_failures q + 1\<rparr>)"
    by (simp_all add: own_settle_def statics_settle_def)
  show "\<exists>own' t'. q_own (own_settle False batch q) = Some own' \<and> map_of own' k = Some t' \<and> t \<le> t'"
    unfolding e using assms
    by (intro own_rows.fold_rows_no_loss) (simp_all add: max_own_pending_def)
  show "\<exists>rows' st'. q_statics (statics_settle False sbatch q) = Some rows' \<and> map_of rows' sk = Some st' \<and>
       st_first st' \<le> st_first st \<and> st_last st \<le> st_last st'"
    unfolding e using static_rows.fold_rows_no_loss [of "q\<lparr>q_failures := q_failures q + 1\<rparr>" rows sbatch sk st] assms
    by (simp add: max_statics_pending_def static_le_def)
qed

theorem failed_insert_keeps_witness:
  "(\<exists>own' t'. q_own (own_settle False [(\<lparr>ok_station = ''s'', ok_hour = 1, ok_mmsi = 7\<rparr>, 5)]
        (attach_clickhouse True (detached 0))) = Some own' \<and>
      map_of own' \<lparr>ok_station = ''s'', ok_hour = 1, ok_mmsi = 7\<rparr> = Some t' \<and> 5 \<le> t') \<and>
   (\<exists>rows' st'. q_statics (statics_settle False [(no_static, \<lparr>st_first = 3, st_last = 4\<rparr>)]
        (attach_clickhouse True (detached 0))) = Some rows' \<and> map_of rows' no_static = Some st' \<and>
      st_first st' \<le> st_first \<lparr>st_first = 3, st_last = 4\<rparr> \<and> st_last \<lparr>st_first = 3, st_last = 4\<rparr> \<le> st_last st')"
  by (rule failed_insert_keeps [where own = "[]" and rows = "[]"])
     (simp_all add: attach_clickhouse_def detached_def zero_time_def)

section \<open>Vessel ranges\<close>

lemma sorted_last: "sorted_wrt (<) xs \<Longrightarrow> x \<in> set xs \<Longrightarrow> x \<le> last xs" for x :: mmsi
  by (induction xs) (auto intro: less_imp_le)

lemma range_starts_props:
  "starts \<noteq> [] \<Longrightarrow> hd starts = 0 \<Longrightarrow> sorted_wrt (<) starts \<Longrightarrow>
   range_starts starts es \<noteq> [] \<and> hd (range_starts starts es) = 0 \<and> sorted_wrt (<) (range_starts starts es)"
proof (induction es arbitrary: starts)
  case Nil
  then show ?case by simp
next
  case (Cons e es)
  have "sorted_wrt (<) (starts @ [e])" if "last starts < e"
    using Cons.prems(3) that sorted_last [OF Cons.prems(3)] by (fastforce simp: sorted_wrt_append)
  then show ?case
    using Cons.prems Cons.IH [of "starts @ [e]"] Cons.IH [of starts] by (cases "last starts < e") auto
qed

lemma ranges_of_low: "x \<in> set (ranges_of starts) \<Longrightarrow> fst x \<in> set starts"
  by (induction starts rule: ranges_of.induct) auto

lemma word_le_minus_one: "(lo :: 32 word) < hi \<Longrightarrow> m \<le> hi - 1 \<longleftrightarrow> m < hi"
proof -
  assume "lo < hi"
  then have "hi \<noteq> 0" by auto
  then have "unat (hi - 1) = unat hi - 1" "0 < unat hi"
    by (simp_all add: unat_minus_one unat_gt_0)
  then show ?thesis by (simp add: word_le_nat_alt word_less_nat_alt) linarith
qed

lemma word32_le_max: "(m :: 32 word) \<le> 4294967295"
  proof -
  have "unat m < 2 ^ LENGTH(32)" by (rule unsigned_less)
  then show ?thesis by (simp add: word_le_nat_alt)
qed

lemma ranges_of_cover:
  "sorted_wrt (<) starts \<Longrightarrow> starts \<noteq> [] \<Longrightarrow> hd starts \<le> m \<Longrightarrow>
   length (filter (\<lambda>r. fst r \<le> m \<and> m \<le> snd r) (ranges_of starts)) = 1"
proof (induction starts rule: ranges_of.induct)
  case (3 lo lo' los)
  have lo: "lo < lo'" using 3 by simp
  show ?case
  proof (cases "lo' \<le> m")
    case True
    then have "\<not> m \<le> lo' - 1" using word_le_minus_one [OF lo] by auto
    then show ?thesis using 3 True by simp
  next
    case False
    have "filter (\<lambda>r. fst r \<le> m \<and> m \<le> snd r) (ranges_of (lo' # los)) = []"
    proof -
      have "m < fst x" if "x \<in> set (ranges_of (lo' # los))" for x
        using ranges_of_low [OF that] False 3(2) by auto
      then show ?thesis by (auto simp: filter_empty_conv not_le)
    qed
    then show ?thesis using False 3(4) word_le_minus_one [OF lo, of m] by simp
  qed
qed (simp_all add: word32_le_max)

text \<open>
  \<open>vesselRanges\<close> covers every MMSI exactly once, whatever edges it is given: repeated, zero,
  unsorted or none at all. A rebuild that works range by range neither skips a vessel nor
  counts one twice.
\<close>

theorem vessel_ranges_partition:
  "length (filter (\<lambda>r. fst r \<le> m \<and> m \<le> snd r) (vessel_ranges edges)) = 1"
  using range_starts_props [of "[0]" edges]
  by (simp add: vessel_ranges_def ranges_of_cover)

end
