(* ===== verification/Vessel.thy ===== *)
theory Vessel
  imports Queue Clock
begin

text \<open>
  One vessel, from \<open>server/vessels.go\<close> and \<open>server/store.go\<close>: the state folded from every
  message (\<open>vessel\<close>, \<open>foldOf\<close>, \<open>staleFor\<close>, \<open>changesParticulars\<close>), what is served of it (the GeoJSON
  Feature, the events a snapshot rebuilds) and its row in the record (\<open>state\<close>, \<open>merge\<close>, the ETA and
  time columns). \<open>note_folded\<close> is the fold's hand-over to the ClickHouse queue.

  A retained event (\<open>lastPos\<close>, \<open>lastStatic\<close>) is a pointer in the code; the model keeps the event
  as the fold left it, which is how it stays.
\<close>

section \<open>Data\<close>

record vessel_props =
  vp_beam :: "16 word"
  vp_callsign :: string
  vp_cog :: "real option"
  vp_destination :: string
  vp_draught :: real
  vp_eta :: string
  vp_flag :: string
  vp_heading :: "16 word option"
  vp_imo :: "32 word"
  vp_kind :: string
  vp_length :: "16 word"
  vp_mmsi :: mmsi
  vp_msg_type :: string
  vp_name :: string
  vp_nav_status :: "8 word option"
  vp_seen :: string
  vp_sog :: "real option"
  vp_source :: string
  vp_station :: string
  vp_to_bow :: "16 word option"
  vp_to_port :: "8 word option"
  vp_to_starboard :: "8 word option"
  vp_to_stern :: "16 word option"
  vp_type :: "8 word"

record vessel_feature =
  vf_coordinates :: "real \<times> real"
  vf_id :: mmsi
  vf_properties :: vessel_props

record vessel =
  v_name :: string
  v_lat :: real
  v_lon :: real
  v_has_pos :: bool
  v_cog :: real
  v_sog :: real
  v_heading :: "16 word"
  v_nav :: "8 word"
  v_ship_type :: "8 word"
  v_kind :: string
  v_class :: string
  v_imo :: "32 word"
  v_callsign :: string
  v_destination :: string
  v_eta :: field_eta
  v_draught :: real
  v_length :: "16 word"
  v_beam :: "16 word"
  v_dim :: field_dimension
  v_seen :: time
  v_source :: string
  v_station :: string
  v_msg_type :: string
  v_trusted_at :: time
  v_pos_at :: time
  v_static_at :: time
  v_last_pos :: "event option"
  v_last_static :: "event option"
  v_recent :: "recent_pos list"
  v_moved :: anchor
  v_cell :: int
  v_indexed :: bool
  v_feat :: "vessel_feature option"

definition vessel_ttl :: duration where "vessel_ttl = 30 * minute"
definition vessel_sweep :: duration where "vessel_sweep = 30 * second"
definition corroboration_window :: duration where "corroboration_window = hour"

definition no_eta :: field_eta where
  "no_eta = \<lparr>eta_month = 0, eta_day = 0, eta_hour = 0, eta_minute = 0\<rparr>"

definition no_dimension :: field_dimension where
  "no_dimension = \<lparr>dim_a = 0, dim_b = 0, dim_c = 0, dim_d = 0\<rparr>"

definition new_vessel :: vessel where
  "new_vessel =
     \<lparr>v_name = [], v_lat = 0, v_lon = 0, v_has_pos = False, v_cog = 360, v_sog = 1023 / 10,
      v_heading = 511, v_nav = 15, v_ship_type = 0, v_kind = ''vessel'', v_class = [], v_imo = 0,
      v_callsign = [], v_destination = [], v_eta = no_eta, v_draught = 0, v_length = 0, v_beam = 0,
      v_dim = no_dimension, v_seen = zero_time, v_source = [], v_station = [], v_msg_type = [],
      v_trusted_at = zero_time, v_pos_at = zero_time, v_static_at = zero_time, v_last_pos = None,
      v_last_static = None, v_recent = [], v_moved = no_anchor, v_cell = 0, v_indexed = False,
      v_feat = None\<rparr>"

section \<open>What a message contributes\<close>

definition dimensions :: "field_dimension \<Rightarrow> 16 word \<times> 16 word \<times> field_dimension" where
  "dimensions d = (dim_a d + dim_b d, ucast (dim_c d) + ucast (dim_d d), d)"

definition with_dimensions :: "field_dimension \<Rightarrow> vessel \<Rightarrow> vessel" where
  "with_dimensions d u =
     (case dimensions d of (len, beam, dm) \<Rightarrow> u\<lparr>v_length := len, v_beam := beam, v_dim := dm\<rparr>)"

fun fold_message :: "packet \<Rightarrow> vessel \<times> bool \<times> bool" where
  "fold_message (PositionReport _ m nav) =
     (new_vessel\<lparr>v_lat := m_lat m, v_lon := m_lon m, v_class := ''A'', v_cog := m_cog m,
        v_sog := m_sog m, v_heading := m_heading m, v_nav := nav\<rparr>, True, False)"
| "fold_message (StandardClassBPositionReport _ m) =
     (new_vessel\<lparr>v_lat := m_lat m, v_lon := m_lon m, v_class := ''B'', v_cog := m_cog m,
        v_sog := m_sog m, v_heading := m_heading m\<rparr>, True, False)"
| "fold_message (ExtendedClassBPositionReport _ _ m name ty dm) =
     (with_dimensions dm (new_vessel\<lparr>v_lat := m_lat m, v_lon := m_lon m, v_name := name, v_class := ''B'',
        v_cog := m_cog m, v_sog := m_sog m, v_heading := m_heading m, v_ship_type := ty\<rparr>), True, False)"
| "fold_message (LongRangeAisBroadcastMessage _ lat lon cog sog nav) =
     (new_vessel\<lparr>v_lat := lat, v_lon := lon,
        v_cog := (if cog = 511 then 360 else real (unat cog)),
        v_sog := (if sog = 63 then 1023 / 10 else real (unat sog)), v_nav := nav\<rparr>, True, False)"
| "fold_message (StandardSearchAndRescueAircraftReport _ lat lon cog sog) =
     (new_vessel\<lparr>v_lat := lat, v_lon := lon, v_kind := ''sar'', v_cog := cog, v_sog := real (unat sog)\<rparr>,
      True, False)"
| "fold_message (BaseStationReport h _ lat lon) =
     (if h_message_id h = 4
      then (new_vessel\<lparr>v_lat := lat, v_lon := lon, v_kind := ''base''\<rparr>, True, False)
      else (new_vessel, False, False))"
| "fold_message (AidsToNavigationReport _ name ty lat lon) =
     (new_vessel\<lparr>v_lat := lat, v_lon := lon, v_name := name, v_kind := ''aton'', v_ship_type := ty\<rparr>, True, False)"
| "fold_message (ShipStaticData _ _ name ty imo cs dest dr eta dm) =
     (with_dimensions dm (new_vessel\<lparr>v_name := name, v_ship_type := ty, v_imo := imo, v_callsign := cs,
        v_destination := dest, v_draught := dr,
        v_eta := (if 1 \<le> eta_month eta \<and> eta_month eta \<le> 12 \<and> 1 \<le> eta_day eta \<and> eta_day eta \<le> 31
                  then eta else no_eta)\<rparr>), False, True)"
| "fold_message (StaticDataReport _ _ a b) =
     (let u = (case a of None \<Rightarrow> new_vessel | Some name \<Rightarrow> new_vessel\<lparr>v_name := name\<rparr>)
      in (case b of None \<Rightarrow> u
          | Some (ty, cs, dm) \<Rightarrow> with_dimensions dm (u\<lparr>v_ship_type := ty, v_callsign := cs\<rparr>)),
      False, False)"
| "fold_message (OtherPacket _ _) = (new_vessel, False, False)"

text \<open>\<open>foldOf\<close>: coordinates off the globe, or exactly at its origin, are no position.\<close>

definition fold_of :: "packet \<Rightarrow> vessel \<times> bool \<times> bool" where
  "fold_of p =
     (case fold_message p of (u, has_pos, is_static) \<Rightarrow>
        (u, has_pos \<and> \<not> (\<bar>v_lat u\<bar> > 90 \<or> \<bar>v_lon u\<bar> > 180 \<or> v_lat u = 0 \<and> v_lon u = 0), is_static))"

definition stale_for :: "vessel \<Rightarrow> time \<Rightarrow> bool \<Rightarrow> bool \<Rightarrow> bool \<Rightarrow> bool" where
  "stale_for v t has_pos is_static rebuilt \<longleftrightarrow>
     v_has_pos v \<and> t < v_seen v - second \<or>
     rebuilt \<and> (has_pos \<and> v_has_pos v \<and> \<not> v_pos_at v + second < t \<or>
                is_static \<and> v_static_at v \<noteq> zero_time \<and> \<not> v_static_at v + second < t)"

definition changes_particulars :: "vessel \<Rightarrow> vessel \<Rightarrow> bool" where
  "changes_particulars v u \<longleftrightarrow>
     v_name u \<noteq> [] \<and> v_name u \<noteq> v_name v \<or>
     v_ship_type u \<noteq> 0 \<and> v_ship_type u \<noteq> v_ship_type v \<or>
     v_imo u \<noteq> 0 \<and> v_imo u \<noteq> v_imo v \<or>
     v_callsign u \<noteq> [] \<and> v_callsign u \<noteq> v_callsign v \<or>
     v_destination u \<noteq> [] \<and> v_destination u \<noteq> v_destination v \<or>
     eta_month (v_eta u) \<noteq> 0 \<and> v_eta u \<noteq> v_eta v \<or>
     v_draught u > 0 \<and> v_draught u \<noteq> v_draught v \<or>
     v_length u > 0 \<and> (dim_a (v_dim u) \<noteq> dim_a (v_dim v) \<or> dim_b (v_dim u) \<noteq> dim_b (v_dim v)) \<or>
     v_beam u > 0 \<and> (dim_c (v_dim u) \<noteq> dim_c (v_dim v) \<or> dim_d (v_dim u) \<noteq> dim_d (v_dim v))"

text \<open>
  The static part of the fold in \<open>updateVessel\<close>: a field the message does not carry leaves the
  vessel's; the offsets travel with the total they add up to.
\<close>

definition fold_particulars :: "vessel \<Rightarrow> vessel \<Rightarrow> vessel" where
  "fold_particulars u v =
     v\<lparr>v_name := (if v_name u \<noteq> [] then v_name u else v_name v),
       v_ship_type := (if v_ship_type u \<noteq> 0 then v_ship_type u else v_ship_type v),
       v_kind := (if v_kind u \<noteq> ''vessel'' then v_kind u else v_kind v),
       v_class := (if v_class u \<noteq> [] then v_class u else v_class v),
       v_imo := (if v_imo u \<noteq> 0 then v_imo u else v_imo v),
       v_callsign := (if v_callsign u \<noteq> [] then v_callsign u else v_callsign v),
       v_destination := (if v_destination u \<noteq> [] then v_destination u else v_destination v),
       v_eta := (if eta_month (v_eta u) \<noteq> 0 then v_eta u else v_eta v),
       v_draught := (if v_draught u > 0 then v_draught u else v_draught v),
       v_length := (if v_length u > 0 then v_length u else v_length v),
       v_beam := (if v_beam u > 0 then v_beam u else v_beam v),
       v_dim := \<lparr>dim_a = (if v_length u > 0 then dim_a (v_dim u) else dim_a (v_dim v)),
                 dim_b = (if v_length u > 0 then dim_b (v_dim u) else dim_b (v_dim v)),
                 dim_c = (if v_beam u > 0 then dim_c (v_dim u) else dim_c (v_dim v)),
                 dim_d = (if v_beam u > 0 then dim_d (v_dim u) else dim_d (v_dim v))\<rparr>\<rparr>"

text \<open>The kind after the fold, from what the station says about itself.\<close>

definition fold_kind :: "mmsi \<Rightarrow> bool \<Rightarrow> bool \<Rightarrow> vessel \<Rightarrow> vessel \<Rightarrow> vessel" where
  "fold_kind m created has_pos u v =
     (if (v_kind v = ''vessel'' \<or> v_kind v = ''gear'' \<or> v_kind v = ''sar'' \<and> is_beacon_mmsi m) \<and>
         (created \<and> v_kind v = ''vessel'' \<or> v_name u \<noteq> [] \<or> v_ship_type u \<noteq> 0 \<or> v_length u > 0 \<or>
          v_beam u > 0 \<or> has_pos \<and> is_beacon_mmsi m)
      then v\<lparr>v_kind := derived_kind m (v_name v) (v_nav v) (v_ship_type v) (v_length v) (v_beam v)\<rparr>
      else v)"

section \<open>What is served\<close>

definition has_length_offsets :: "vessel \<Rightarrow> bool" where
  "has_length_offsets v \<longleftrightarrow> v_length v > 0 \<and> dim_a (v_dim v) + dim_b (v_dim v) = v_length v"

definition has_beam_offsets :: "vessel \<Rightarrow> bool" where
  "has_beam_offsets v \<longleftrightarrow> v_beam v > 0 \<and> ucast (dim_c (v_dim v)) + ucast (dim_d (v_dim v)) = v_beam v"

definition eta_string :: "field_eta \<Rightarrow> string" where
  "eta_string e =
     (if eta_month e < 1 \<or> eta_month e > 12 \<or> eta_day e < 1 \<or> eta_day e > 31 then []
      else if eta_hour e > 23 \<or> eta_minute e > 59
           then pad2 (unat (eta_month e)) @ ''-'' @ pad2 (unat (eta_day e))
           else pad2 (unat (eta_month e)) @ ''-'' @ pad2 (unat (eta_day e)) @ '' '' @
                pad2 (unat (eta_hour e)) @ '':'' @ pad2 (unat (eta_minute e)))"

definition feature :: "mmsi \<Rightarrow> vessel \<Rightarrow> vessel_feature" where
  "feature m v =
     (let body = has_hull (v_kind v);
          lo = body \<and> has_length_offsets v;
          bo = body \<and> has_beam_offsets v
      in \<lparr>vf_coordinates = (v_lon v, v_lat v), vf_id = m, vf_properties =
          \<lparr>vp_beam = (if body then v_beam v else 0), vp_callsign = v_callsign v,
           vp_cog = (if v_cog v < 360 then Some (v_cog v) else None),
           vp_destination = v_destination v, vp_draught = (if body then v_draught v else 0),
           vp_eta = eta_string (v_eta v), vp_flag = served_flag m (v_kind v),
           vp_heading = (if valid_heading (v_heading v) \<and> body then Some (v_heading v) else None),
           vp_imo = v_imo v, vp_kind = v_kind v, vp_length = (if body then v_length v else 0),
           vp_mmsi = m, vp_msg_type = v_msg_type v, vp_name = v_name v,
           vp_nav_status = (if v_nav v \<noteq> 15 then Some (v_nav v) else None),
           vp_seen = rfc3339 (v_seen v),
           vp_sog = (if v_sog v < 1023 / 10 then Some (v_sog v) else None),
           vp_source = v_source v, vp_station = v_station v,
           vp_to_bow = (if lo then Some (dim_a (v_dim v)) else None),
           vp_to_port = (if bo then Some (dim_c (v_dim v)) else None),
           vp_to_starboard = (if bo then Some (dim_d (v_dim v)) else None),
           vp_to_stern = (if lo then Some (dim_b (v_dim v)) else None),
           vp_type = v_ship_type v\<rparr>\<rparr>)"

text \<open>\<open>featureJSON\<close>: the Feature kept from the last read, or else built and kept.\<close>

definition feature_json :: "mmsi \<Rightarrow> vessel \<Rightarrow> vessel_feature \<times> vessel" where
  "feature_json m v =
     (case v_feat v of
        Some f \<Rightarrow> (f, v)
      | None \<Rightarrow> (feature m v, v\<lparr>v_feat := Some (feature m v)\<rparr>))"

definition report_kind :: "mmsi \<Rightarrow> vessel \<Rightarrow> string" where
  "report_kind m v =
     (if v_kind v = ''gear'' \<or> v_kind v = ''sar'' \<and> is_beacon_mmsi m then ''vessel'' else v_kind v)"

definition synth_event :: "mmsi \<Rightarrow> vessel \<Rightarrow> packet \<Rightarrow> time \<Rightarrow> event" where
  "synth_event m v pkt t =
     (new_event t zero_time (v_source v) (v_station v) (CHR 0x00) [] pkt [])
       \<lparr>ev_type := type_name pkt, ev_mmsi := m, ev_name := v_name v, ev_lat := v_lat v,
        ev_lon := v_lon v, ev_has_pos := v_has_pos v, ev_synthesized := True\<rparr>"

abbreviation hdr :: "8 word \<Rightarrow> mmsi \<Rightarrow> header" where
  "hdr i m \<equiv> \<lparr>h_message_id = i, h_user_id = m\<rparr>"

definition synth_packet :: "mmsi \<Rightarrow> vessel \<Rightarrow> packet" where
  "synth_packet m v =
     (let k = report_kind m v in
      if k = ''aton'' then AidsToNavigationReport (hdr 21 m) (v_name v) (v_ship_type v) (v_lat v) (v_lon v)
      else if k = ''base'' then
        BaseStationReport (hdr 4 m) (word_of_int (year_of (v_pos_at v))) (v_lat v) (v_lon v)
      else if k = ''sar'' then
        StandardSearchAndRescueAircraftReport (hdr 9 m) (v_lat v) (v_lon v) (v_cog v)
          (if v_sog v \<noteq> 1023 / 10 \<and> v_sog v < 1023 then word_of_int (go_round (v_sog v)) else 1023)
      else PositionReport (hdr 1 m)
        \<lparr>m_lat = v_lat v, m_lon = v_lon v, m_cog = v_cog v, m_sog = v_sog v, m_heading = v_heading v,
         m_timestamp = of_nat (second_of (v_pos_at v))\<rparr> (v_nav v))"

definition synth_pos :: "mmsi \<Rightarrow> vessel \<Rightarrow> event" where
  "synth_pos m v = synth_event m v (synth_packet m v) (v_pos_at v)"

definition synth_static :: "mmsi \<Rightarrow> vessel \<Rightarrow> event" where
  "synth_static m v = synth_event m v
     (ShipStaticData (hdr 5 m) True (v_name v) (v_ship_type v) 0 [] [] 0 no_eta no_dimension) (v_seen v)"

section \<open>The vessel's row\<close>

definition state_of :: "vessel \<Rightarrow> vessel" where
  "state_of v = v\<lparr>v_last_pos := None, v_last_static := None, v_recent := [], v_moved := no_anchor,
                  v_cell := 0, v_indexed := False, v_feat := None\<rparr>"

text \<open>
  \<open>merge\<close>: \<open>fills\<close> is one call of its \<open>fill\<close>, which sets a field that is blank when the row has a
  value. No setter changes what a later call tests.
\<close>

definition fills :: "bool \<Rightarrow> bool \<Rightarrow> 'a \<Rightarrow> 'a \<Rightarrow> 'a" where
  "fills blank has new old = (if blank \<and> has then new else old)"

definition merge_pos :: "vessel \<Rightarrow> vessel \<Rightarrow> bool" where
  "merge_pos v r \<longleftrightarrow> (\<not> v_has_pos v \<or> v_pos_at v < v_pos_at r) \<and> v_has_pos r"

definition merge_changes :: "vessel \<Rightarrow> vessel \<Rightarrow> bool" where
  "merge_changes v r \<longleftrightarrow>
     v_name v = [] \<and> v_name r \<noteq> [] \<or>
     (v_kind v = ''vessel'' \<or> v_kind v = ''gear'' \<and> v_kind r \<noteq> ''gear'') \<and> v_kind r \<noteq> ''vessel'' \<or>
     v_class v = [] \<and> v_class r \<noteq> [] \<or> v_ship_type v = 0 \<and> v_ship_type r \<noteq> 0 \<or>
     v_imo v = 0 \<and> v_imo r \<noteq> 0 \<or> v_callsign v = [] \<and> v_callsign r \<noteq> [] \<or>
     v_destination v = [] \<and> v_destination r \<noteq> [] \<or>
     eta_month (v_eta v) = 0 \<and> eta_month (v_eta r) \<noteq> 0 \<or> v_draught v = 0 \<and> v_draught r \<noteq> 0 \<or>
     v_length v = 0 \<and> v_length r \<noteq> 0 \<or> v_beam v = 0 \<and> v_beam r \<noteq> 0 \<or> merge_pos v r \<or>
     (v_nav v = 15 \<or> v_seen v < v_seen r) \<and> v_nav r \<noteq> 15 \<and> v_nav r \<noteq> v_nav v \<or>
     v_seen v < v_seen r"

definition merge_state :: "vessel \<Rightarrow> vessel \<Rightarrow> vessel" where
  "merge_state v r =
     v\<lparr>v_name := fills (v_name v = []) (v_name r \<noteq> []) (v_name r) (v_name v),
       v_kind := fills (v_kind v = ''vessel'' \<or> v_kind v = ''gear'' \<and> v_kind r \<noteq> ''gear'')
                   (v_kind r \<noteq> ''vessel'') (v_kind r) (v_kind v),
       v_class := fills (v_class v = []) (v_class r \<noteq> []) (v_class r) (v_class v),
       v_ship_type := fills (v_ship_type v = 0) (v_ship_type r \<noteq> 0) (v_ship_type r) (v_ship_type v),
       v_imo := fills (v_imo v = 0) (v_imo r \<noteq> 0) (v_imo r) (v_imo v),
       v_callsign := fills (v_callsign v = []) (v_callsign r \<noteq> []) (v_callsign r) (v_callsign v),
       v_destination := fills (v_destination v = []) (v_destination r \<noteq> []) (v_destination r) (v_destination v),
       v_eta := fills (eta_month (v_eta v) = 0) (eta_month (v_eta r) \<noteq> 0) (v_eta r) (v_eta v),
       v_draught := fills (v_draught v = 0) (v_draught r \<noteq> 0) (v_draught r) (v_draught v),
       v_length := fills (v_length v = 0) (v_length r \<noteq> 0) (v_length r) (v_length v),
       v_beam := fills (v_beam v = 0) (v_beam r \<noteq> 0) (v_beam r) (v_beam v),
       v_dim := \<lparr>dim_a = fills (v_length v = 0) (v_length r \<noteq> 0) (dim_a (v_dim r)) (dim_a (v_dim v)),
                 dim_b = fills (v_length v = 0) (v_length r \<noteq> 0) (dim_b (v_dim r)) (dim_b (v_dim v)),
                 dim_c = fills (v_beam v = 0) (v_beam r \<noteq> 0) (dim_c (v_dim r)) (dim_c (v_dim v)),
                 dim_d = fills (v_beam v = 0) (v_beam r \<noteq> 0) (dim_d (v_dim r)) (dim_d (v_dim v))\<rparr>,
       v_lat := fills (merge_pos v r) True (v_lat r) (v_lat v),
       v_lon := fills (merge_pos v r) True (v_lon r) (v_lon v),
       v_has_pos := fills (merge_pos v r) True True (v_has_pos v),
       v_pos_at := fills (merge_pos v r) True (v_pos_at r) (v_pos_at v),
       v_cog := fills (merge_pos v r) True (v_cog r) (v_cog v),
       v_sog := fills (merge_pos v r) True (v_sog r) (v_sog v),
       v_heading := fills (merge_pos v r) True (v_heading r) (v_heading v),
       v_nav := fills (v_nav v = 15 \<or> v_seen v < v_seen r) (v_nav r \<noteq> 15 \<and> v_nav r \<noteq> v_nav v)
                  (v_nav r) (v_nav v),
       v_seen := fills (v_seen v < v_seen r) True (v_seen r) (v_seen v),
       v_source := fills (v_seen v < v_seen r) True (v_source r) (v_source v),
       v_station := fills (v_seen v < v_seen r) True (v_station r) (v_station v),
       v_msg_type := fills (v_seen v < v_seen r) True (v_msg_type r) (v_msg_type v)\<rparr>"

definition merge_vessel :: "vessel \<Rightarrow> vessel \<Rightarrow> vessel \<times> bool" where
  "merge_vessel v r = (merge_state v r, merge_changes v r)"

definition unix_ms :: "time \<Rightarrow> int" where
  "unix_ms t = (if t = zero_time then 0 else unix_milli t)"

definition from_ms :: "int \<Rightarrow> time" where
  "from_ms ms = (if ms = 0 then zero_time else ms * 1000000)"

definition pack_eta :: "field_eta \<Rightarrow> 64 word" where
  "pack_eta e = push_bit 24 (ucast (eta_month e)) OR push_bit 16 (ucast (eta_day e)) OR
     push_bit 8 (ucast (eta_hour e)) OR ucast (eta_minute e)"

definition unpack_eta :: "64 word \<Rightarrow> field_eta" where
  "unpack_eta n = \<lparr>eta_month = ucast (drop_bit 24 n), eta_day = ucast (drop_bit 16 n),
     eta_hour = ucast (drop_bit 8 n), eta_minute = ucast n\<rparr>"

section \<open>Handing a position to the queue\<close>

text \<open>
  \<open>noteFolded\<close>: \<open>prev\<close> is the vessel's position before the report, \<open>seeds\<close> where a replay starts
  each vessel. The result is the event (a stale report the writer does not believe is marked
  unserved), the vessel (its anchor and recent transmissions) and the queue.
\<close>

definition folded_anchor :: "(mmsi \<Rightarrow> anchor option) \<Rightarrow> mmsi \<Rightarrow> bool \<Rightarrow> vessel \<Rightarrow> anchor" where
  "folded_anchor seeds m had_prev v =
     (if had_prev then v_moved v
      else case seeds m of
        None \<Rightarrow> v_moved v
      | Some a \<Rightarrow> if an_set (v_moved v) then v_moved v else a)"

definition folded_point :: "(string \<Rightarrow> string) \<Rightarrow> event \<Rightarrow> vessel \<Rightarrow> track_point" where
  "folded_point event_id ev u =
     (new_track_point (ev_mmsi ev) (ev_time ev) (v_lat u) (v_lon u) (v_sog u) (v_cog u) (v_heading u)
        (v_nav u) (source_kind (ev_source ev)))
       \<lparr>pt_tx_at := ev_time ev, pt_tx_disc := disc_of event_id (ev_id ev), pt_recv := ev_recv ev,
        pt_station := ev_station ev,
        pt_clock_bad := clock_bad_age \<le> time_sub (ev_recv ev) (ev_time ev)\<rparr>"

definition latest_pos :: "vessel \<Rightarrow> (real \<times> real \<times> time) option" where
  "latest_pos v = (if v_has_pos v then Some (v_lat v, v_lon v, v_pos_at v) else None)"

definition note_folded ::
  "(string \<Rightarrow> string) \<Rightarrow> (mmsi \<Rightarrow> anchor option) \<Rightarrow> event \<Rightarrow> vessel \<Rightarrow> vessel \<Rightarrow> bool \<Rightarrow>
   (real \<times> real) option \<Rightarrow> chq \<Rightarrow> event \<times> vessel \<times> chq" where
  "note_folded event_id seeds ev v u stale prev q =
     (if \<not> ch_on q then (ev, v, q)
      else
        let pt0 = folded_point event_id ev u;
            seed = map_option (\<lambda>(lat, lon). (wrap32 (go_round (lat * 600000)), wrap32 (go_round (lon * 600000)))) prev;
            (a, still) = anchor_still (folded_anchor seeds (ev_mmsi ev) (prev \<noteq> None) v) pt0 seed
                           (\<not> stale \<and> \<not> ev_implausible ev \<and> \<not> pt_clock_bad pt0);
            pt = pt0\<lparr>pt_still := still, pt_uncorroborated := (ev_low_trust ev \<and> \<not> ev_corroborated ev),
                     pt_implausible := ev_implausible ev, pt_stale := stale\<rparr>;
            v1 = v\<lparr>v_moved := a\<rparr>
        in if ev_implausible ev \<or> \<not> stale
           then let pt' = free_disc (v_recent v1) pt
                in (ev, v1\<lparr>v_recent := remember pt' (v_recent v1)\<rparr>, note_reception pt' q)
           else case (if ev_rebuilt ev then repeats pt (v_recent v1) else None) of
             Some r \<Rightarrow>
               (ev, v1, note_reception
                  (pt\<lparr>pt_tx_at := rp_ms r * 1000000, pt_tx_disc := rp_disc r, pt_still := rp_still r,
                      pt_dup := True\<rparr>)
                  (q\<lparr>q_rebuilt_matched := q_rebuilt_matched q + 1\<rparr>))
           | None \<Rightarrow>
               let bad = (volunteer (ev_source ev) \<or> jumps (latest_pos v1) (v_recent v1) pt);
                   pt' = free_disc (v_recent v1) (pt\<lparr>pt_implausible := bad\<rparr>)
               in (ev\<lparr>ev_unserved := bad\<rparr>, v1\<lparr>v_recent := remember pt' (v_recent v1)\<rparr>,
                   note_reception pt'
                     (if ev_rebuilt ev then q\<lparr>q_rebuilt_late := q_rebuilt_late q + 1\<rparr> else q)))"

section \<open>Particulars\<close>

text \<open>
  The offsets of a cached vessel add up to their totals, or were never kept (a row from before
  the record had them).
\<close>

definition offsets_ok :: "vessel \<Rightarrow> bool" where
  "offsets_ok v \<longleftrightarrow>
     (v_length v = dim_a (v_dim v) + dim_b (v_dim v) \<or> dim_a (v_dim v) = 0 \<and> dim_b (v_dim v) = 0) \<and>
     (v_beam v = ucast (dim_c (v_dim v)) + ucast (dim_d (v_dim v)) \<or> dim_c (v_dim v) = 0 \<and> dim_d (v_dim v) = 0)"

definition particulars_of :: "vessel \<Rightarrow> string \<times> 8 word \<times> 32 word \<times> string \<times> string \<times> field_eta \<times> real \<times>
    16 word \<times> 16 word \<times> field_dimension" where
  "particulars_of v = (v_name v, v_ship_type v, v_imo v, v_callsign v, v_destination v, v_eta v,
     v_draught v, v_length v, v_beam v, v_dim v)"

lemma fold_of_totals:
  "fold_of p = (u, hp, st) \<Longrightarrow>
   v_length u = dim_a (v_dim u) + dim_b (v_dim u) \<and>
   v_beam u = ucast (dim_c (v_dim u)) + ucast (dim_d (v_dim u))"
  by (cases p)
     (auto simp: fold_of_def new_vessel_def no_dimension_def with_dimensions_def dimensions_def Let_def
       split: if_splits option.splits prod.splits)

lemma dimension_eq_iff:
  "d = e \<longleftrightarrow> dim_a d = dim_a e \<and> dim_b d = dim_b e \<and> dim_c d = dim_c e \<and> dim_d d = dim_d e"
  for d :: field_dimension
  by (cases d, cases e) simp

text \<open>
  \<open>changesParticulars\<close> answers exactly whether the fold would change a particular: for every
  decoded message and every vessel whose offsets add up to its totals or were never kept, it
  says yes if and only if folding the message leaves some static particular different. So a
  source that asks it before sending never repeats a static that changes nothing and never
  withholds one that does.
\<close>

theorem changes_particulars_exact:
  assumes "fold_of p = (u, has_pos, is_static)" "offsets_ok v"
  shows "changes_particulars v u \<longleftrightarrow> particulars_of (fold_particulars u v) \<noteq> particulars_of v"
proof -
  have t: "v_length u = dim_a (v_dim u) + dim_b (v_dim u)"
    "v_beam u = ucast (dim_c (v_dim u)) + ucast (dim_d (v_dim u))"
    using fold_of_totals [OF assms(1)] by auto
  have l: "v_length u > 0 \<Longrightarrow> dim_a (v_dim u) = dim_a (v_dim v) \<Longrightarrow> dim_b (v_dim u) = dim_b (v_dim v) \<Longrightarrow>
      v_length u = v_length v"
    using assms(2) t by (auto simp: offsets_ok_def)
  have b: "v_beam u > 0 \<Longrightarrow> dim_c (v_dim u) = dim_c (v_dim v) \<Longrightarrow> dim_d (v_dim u) = dim_d (v_dim v) \<Longrightarrow>
      v_beam u = v_beam v"
    using assms(2) t by (auto simp: offsets_ok_def)
  have e: "(eta_month (v_eta u) \<noteq> 0 \<and> v_eta u \<noteq> v_eta v) =
      ((if eta_month (v_eta u) \<noteq> 0 then v_eta u else v_eta v) \<noteq> v_eta v)" by simp
  have d: "(v_length u > 0 \<and> (dim_a (v_dim u) \<noteq> dim_a (v_dim v) \<or> dim_b (v_dim u) \<noteq> dim_b (v_dim v)) \<or>
       v_beam u > 0 \<and> (dim_c (v_dim u) \<noteq> dim_c (v_dim v) \<or> dim_d (v_dim u) \<noteq> dim_d (v_dim v))) =
      (v_length (fold_particulars u v) \<noteq> v_length v \<or> v_beam (fold_particulars u v) \<noteq> v_beam v \<or>
       v_dim (fold_particulars u v) \<noteq> v_dim v)"
    using l b unfolding dimension_eq_iff
    by (cases "v_length u > 0"; cases "v_beam u > 0") (auto simp: fold_particulars_def)
  have rest: "v_name (fold_particulars u v) = (if v_name u \<noteq> [] then v_name u else v_name v)"
    "v_ship_type (fold_particulars u v) = (if v_ship_type u \<noteq> 0 then v_ship_type u else v_ship_type v)"
    "v_imo (fold_particulars u v) = (if v_imo u \<noteq> 0 then v_imo u else v_imo v)"
    "v_callsign (fold_particulars u v) = (if v_callsign u \<noteq> [] then v_callsign u else v_callsign v)"
    "v_destination (fold_particulars u v) = (if v_destination u \<noteq> [] then v_destination u else v_destination v)"
    "v_eta (fold_particulars u v) = (if eta_month (v_eta u) \<noteq> 0 then v_eta u else v_eta v)"
    "v_draught (fold_particulars u v) = (if v_draught u > 0 then v_draught u else v_draught v)"
    by (simp_all add: fold_particulars_def)
  show ?thesis
    unfolding changes_particulars_def d particulars_of_def prod.inject de_Morgan_conj rest by simp
qed

theorem changes_particulars_exact_witness:
  "changes_particulars new_vessel (fst (fold_of (StaticDataReport (hdr 24 7) True (Some ''ANNA'') None))) \<longleftrightarrow>
   particulars_of (fold_particulars (fst (fold_of (StaticDataReport (hdr 24 7) True (Some ''ANNA'') None))) new_vessel)
     \<noteq> particulars_of new_vessel"
  by (rule changes_particulars_exact [where p = "StaticDataReport (hdr 24 7) True (Some ''ANNA'') None"
        and has_pos = False and is_static = False])
     (simp_all add: fold_of_def Let_def offsets_ok_def new_vessel_def no_dimension_def)

lemma offsets_ok_fold: "fold_of p = (u, hp, st) \<Longrightarrow> offsets_ok v \<Longrightarrow> offsets_ok (fold_particulars u v)"
  using fold_of_totals [of p u hp st] by (auto simp: offsets_ok_def fold_particulars_def)

section \<open>The row\<close>

lemma fills_iff: "fills b h x y = (if b \<and> h then x else y)"
  by (simp add: fills_def)

lemma merge_fields:
  "v_name (merge_state v r) = (if v_name v = [] \<and> v_name r \<noteq> [] then v_name r else v_name v)"
  "v_kind (merge_state v r) =
     (if (v_kind v = ''vessel'' \<or> v_kind v = ''gear'' \<and> v_kind r \<noteq> ''gear'') \<and> v_kind r \<noteq> ''vessel''
      then v_kind r else v_kind v)"
  "v_class (merge_state v r) = (if v_class v = [] \<and> v_class r \<noteq> [] then v_class r else v_class v)"
  "v_ship_type (merge_state v r) = (if v_ship_type v = 0 \<and> v_ship_type r \<noteq> 0 then v_ship_type r else v_ship_type v)"
  "v_imo (merge_state v r) = (if v_imo v = 0 \<and> v_imo r \<noteq> 0 then v_imo r else v_imo v)"
  "v_callsign (merge_state v r) = (if v_callsign v = [] \<and> v_callsign r \<noteq> [] then v_callsign r else v_callsign v)"
  "v_destination (merge_state v r) =
     (if v_destination v = [] \<and> v_destination r \<noteq> [] then v_destination r else v_destination v)"
  "v_eta (merge_state v r) =
     (if eta_month (v_eta v) = 0 \<and> eta_month (v_eta r) \<noteq> 0 then v_eta r else v_eta v)"
  "v_draught (merge_state v r) = (if v_draught v = 0 \<and> v_draught r \<noteq> 0 then v_draught r else v_draught v)"
  "v_length (merge_state v r) = (if v_length v = 0 \<and> v_length r \<noteq> 0 then v_length r else v_length v)"
  "v_beam (merge_state v r) = (if v_beam v = 0 \<and> v_beam r \<noteq> 0 then v_beam r else v_beam v)"
  "v_has_pos (merge_state v r) = (v_has_pos v \<or> v_has_pos r)"
  "v_pos_at (merge_state v r) = (if merge_pos v r then v_pos_at r else v_pos_at v)"
  "v_nav (merge_state v r) =
     (if (v_nav v = 15 \<or> v_seen v < v_seen r) \<and> v_nav r \<noteq> 15 \<and> v_nav r \<noteq> v_nav v then v_nav r else v_nav v)"
  "v_seen (merge_state v r) = (if v_seen v < v_seen r then v_seen r else v_seen v)"
  by (simp_all add: merge_state_def fills_iff merge_pos_def)

lemma merge_unchanged: "\<not> merge_changes v r \<Longrightarrow> merge_state v r = v"
proof -
  assume a: "\<not> merge_changes v r"
  note a = a [unfolded merge_changes_def de_Morgan_disj]
  show ?thesis
  proof (rule vessel.equality)
    show "v_dim (merge_state v r) = v_dim v"
    proof -
      have n: "\<not> (v_length v = 0 \<and> v_length r \<noteq> 0)" "\<not> (v_beam v = 0 \<and> v_beam r \<noteq> 0)"
        using a by blast+
      have "v_dim (merge_state v r) =
        \<lparr>dim_a = fills (v_length v = 0) (v_length r \<noteq> 0) (dim_a (v_dim r)) (dim_a (v_dim v)),
         dim_b = fills (v_length v = 0) (v_length r \<noteq> 0) (dim_b (v_dim r)) (dim_b (v_dim v)),
         dim_c = fills (v_beam v = 0) (v_beam r \<noteq> 0) (dim_c (v_dim r)) (dim_c (v_dim v)),
         dim_d = fills (v_beam v = 0) (v_beam r \<noteq> 0) (dim_d (v_dim r)) (dim_d (v_dim v))\<rparr>"
        by (simp add: merge_state_def)
      then show ?thesis by (simp only: fills_iff n if_False) (cases "v_dim v"; simp)
    qed
  qed (simp_all add: merge_state_def fills_iff, insert a, blast+)
qed

lemma if_fix: "x = (if c then y else x) \<Longrightarrow> (c \<Longrightarrow> x \<noteq> y) \<Longrightarrow> \<not> c"
  by auto

lemma merge_changed:
  assumes w: "merge_state v r = v"
  shows "\<not> merge_changes v r"
proof -
  note f = merge_fields [of v r, unfolded w]
  have "\<not> (v_name v = [] \<and> v_name r \<noteq> [])" by (rule if_fix [OF f(1)]) auto
  moreover have "\<not> ((v_kind v = ''vessel'' \<or> v_kind v = ''gear'' \<and> v_kind r \<noteq> ''gear'') \<and> v_kind r \<noteq> ''vessel'')"
    by (rule if_fix [OF f(2)]) auto
  moreover have "\<not> (v_class v = [] \<and> v_class r \<noteq> [])" by (rule if_fix [OF f(3)]) auto
  moreover have "\<not> (v_ship_type v = 0 \<and> v_ship_type r \<noteq> 0)" by (rule if_fix [OF f(4)]) auto
  moreover have "\<not> (v_imo v = 0 \<and> v_imo r \<noteq> 0)" by (rule if_fix [OF f(5)]) auto
  moreover have "\<not> (v_callsign v = [] \<and> v_callsign r \<noteq> [])" by (rule if_fix [OF f(6)]) auto
  moreover have "\<not> (v_destination v = [] \<and> v_destination r \<noteq> [])" by (rule if_fix [OF f(7)]) auto
  moreover have "\<not> (eta_month (v_eta v) = 0 \<and> eta_month (v_eta r) \<noteq> 0)" by (rule if_fix [OF f(8)]) auto
  moreover have "\<not> (v_draught v = 0 \<and> v_draught r \<noteq> 0)" by (rule if_fix [OF f(9)]) auto
  moreover have "\<not> (v_length v = 0 \<and> v_length r \<noteq> 0)" by (rule if_fix [OF f(10)]) auto
  moreover have "\<not> (v_beam v = 0 \<and> v_beam r \<noteq> 0)" by (rule if_fix [OF f(11)]) auto
  moreover have "\<not> merge_pos v r" by (rule if_fix [OF f(13)]) (use f(12) in \<open>auto simp: merge_pos_def\<close>)
  moreover have "\<not> ((v_nav v = 15 \<or> v_seen v < v_seen r) \<and> v_nav r \<noteq> 15 \<and> v_nav r \<noteq> v_nav v)"
    by (rule if_fix [OF f(14)]) auto
  moreover have "\<not> v_seen v < v_seen r" by (rule if_fix [OF f(15)]) auto
  ultimately show ?thesis unfolding merge_changes_def by blast
qed

lemma merge_again: "\<not> merge_changes (merge_state v r) r"
proof -
  note f = merge_fields [of v r]
  have "\<not> (v_name (merge_state v r) = [] \<and> v_name r \<noteq> [])" by (simp add: f(1))
  moreover have "\<not> ((v_kind (merge_state v r) = ''vessel'' \<or>
      v_kind (merge_state v r) = ''gear'' \<and> v_kind r \<noteq> ''gear'') \<and> v_kind r \<noteq> ''vessel'')"
    unfolding f(2) by simp
  moreover have "\<not> (v_class (merge_state v r) = [] \<and> v_class r \<noteq> [])" by (simp add: f(3))
  moreover have "\<not> (v_ship_type (merge_state v r) = 0 \<and> v_ship_type r \<noteq> 0)" by (simp add: f(4))
  moreover have "\<not> (v_imo (merge_state v r) = 0 \<and> v_imo r \<noteq> 0)" by (simp add: f(5))
  moreover have "\<not> (v_callsign (merge_state v r) = [] \<and> v_callsign r \<noteq> [])" by (simp add: f(6))
  moreover have "\<not> (v_destination (merge_state v r) = [] \<and> v_destination r \<noteq> [])" by (simp add: f(7))
  moreover have "\<not> (eta_month (v_eta (merge_state v r)) = 0 \<and> eta_month (v_eta r) \<noteq> 0)" by (simp add: f(8))
  moreover have "\<not> (v_draught (merge_state v r) = 0 \<and> v_draught r \<noteq> 0)" by (simp add: f(9))
  moreover have "\<not> (v_length (merge_state v r) = 0 \<and> v_length r \<noteq> 0)" by (simp add: f(10))
  moreover have "\<not> (v_beam (merge_state v r) = 0 \<and> v_beam r \<noteq> 0)" by (simp add: f(11))
  moreover have "\<not> merge_pos (merge_state v r) r"
    unfolding merge_pos_def [of "merge_state v r"] f(12,13) by (auto simp: merge_pos_def)
  moreover have "\<not> v_seen (merge_state v r) < v_seen r" by (simp add: f(15))
  moreover have "\<not> (v_nav (merge_state v r) = 15 \<and> v_nav r \<noteq> 15 \<and> v_nav r \<noteq> v_nav (merge_state v r))"
    unfolding f(14) by simp
  ultimately show ?thesis unfolding merge_changes_def by blast
qed


section \<open>Columns\<close>

lemma pack_eta_bits:
  "bit (pack_eta e) n \<longleftrightarrow>
     24 \<le> n \<and> n < 64 \<and> bit (eta_month e) (n - 24) \<or> 16 \<le> n \<and> n < 64 \<and> bit (eta_day e) (n - 16) \<or>
     8 \<le> n \<and> n < 64 \<and> bit (eta_hour e) (n - 8) \<or> n < 64 \<and> bit (eta_minute e) n"
  by (auto simp: pack_eta_def bit_simps)

lemma bit8_high: "8 \<le> n \<Longrightarrow> \<not> bit (w :: 8 word) n"
  using bit_imp_le_length [of w n] by auto

text \<open>
  The columns of the record read back what was written: a packed ETA unpacks to itself whatever
  its four bytes hold, and a time comes back to the millisecond, the zero time as the zero time,
  for every time outside the epoch's first millisecond.
\<close>

theorem row_columns_roundtrip:
  assumes "t < 0 \<or> 1000000 \<le> t"
  shows "unpack_eta (pack_eta e) = e \<and> from_ms (unix_ms t) = t - t mod 1000000"
proof
  have "eta_month (unpack_eta (pack_eta e)) = eta_month e"
    by (rule bit_word_eqI) (auto simp: unpack_eta_def bit_simps pack_eta_bits bit8_high)
  moreover have "eta_day (unpack_eta (pack_eta e)) = eta_day e"
    by (rule bit_word_eqI) (auto simp: unpack_eta_def bit_simps pack_eta_bits bit8_high)
  moreover have "eta_hour (unpack_eta (pack_eta e)) = eta_hour e"
    by (rule bit_word_eqI) (auto simp: unpack_eta_def bit_simps pack_eta_bits bit8_high)
  moreover have "eta_minute (unpack_eta (pack_eta e)) = eta_minute e"
    by (rule bit_word_eqI) (auto simp: unpack_eta_def bit_simps pack_eta_bits bit8_high)
  ultimately show "unpack_eta (pack_eta e) = e" by simp
  show "from_ms (unix_ms t) = t - t mod 1000000"
  proof (cases "t = zero_time")
    case True
    then show ?thesis by (simp add: unix_ms_def from_ms_def zero_time_def)
  next
    case False
    have "t div 1000000 \<noteq> 0" using assms by (auto simp: div_eq_0_iff)
    then show ?thesis using False
      by (simp add: unix_ms_def from_ms_def unix_milli_def minus_mod_eq_div_mult)
  qed
qed

theorem row_columns_roundtrip_witness:
  "unpack_eta (pack_eta \<lparr>eta_month = 10, eta_day = 4, eta_hour = 24, eta_minute = 60\<rparr>) =
     \<lparr>eta_month = 10, eta_day = 4, eta_hour = 24, eta_minute = 60\<rparr> \<and>
   from_ms (unix_ms 1791075661123456789) = 1791075661123456789 - 1791075661123456789 mod 1000000"
  by (rule row_columns_roundtrip) simp

section \<open>What is served\<close>



section \<open>Snapshots\<close>

definition on_globe :: "real \<Rightarrow> real \<Rightarrow> bool" where
  "on_globe lat lon \<longleftrightarrow> \<bar>lat\<bar> \<le> 90 \<and> \<bar>lon\<bar> \<le> 180 \<and> \<not> (lat = 0 \<and> lon = 0)"

lemma fold_of_on_globe: "fold_of p = (u, True, st) \<Longrightarrow> on_globe (v_lat u) (v_lon u)"
  by (auto simp: fold_of_def on_globe_def split: prod.splits)

text \<open>
  A position a snapshot rebuilds says what the vessel's state says: for a vessel whose position
  is one the fold accepts, decoding the rebuilt report by the fold's own rules gives that
  position again; a report of a ship or an aircraft carries its course, one of a ship its
  speed, heading and navigational status, one of an aid its name and type; and a station whose
  kind is told by its reports folds to that kind.
\<close>

theorem snapshot_position_roundtrip:
  assumes "on_globe (v_lat v) (v_lon v)"
  shows "(case fold_of (ev_packet (synth_pos m v)) of (u, has_pos, is_static) \<Rightarrow>
      has_pos \<and> \<not> is_static \<and> v_lat u = v_lat v \<and> v_lon u = v_lon v \<and>
      (report_kind m v \<notin> {''aton'', ''base''} \<longrightarrow> v_cog u = v_cog v) \<and>
      (report_kind m v \<notin> {''aton'', ''base'', ''sar''} \<longrightarrow>
         v_sog u = v_sog v \<and> v_heading u = v_heading v \<and> v_nav u = v_nav v \<and> v_kind u = ''vessel'') \<and>
      (report_kind m v = ''aton'' \<longrightarrow> v_name u = v_name v \<and> v_ship_type u = v_ship_type v) \<and>
      (report_kind m v \<in> {''aton'', ''base'', ''sar''} \<longrightarrow> v_kind u = v_kind v))"
proof -
  have k: "report_kind m v \<in> {''aton'', ''base'', ''sar''} \<Longrightarrow> v_kind v = report_kind m v"
    by (auto simp: report_kind_def split: if_splits)
  show ?thesis
    using assms k
    by (auto simp: synth_pos_def synth_event_def synth_packet_def new_event_def Let_def fold_of_def
        on_globe_def new_vessel_def)
qed

theorem snapshot_position_roundtrip_witness:
  "(case fold_of (ev_packet (synth_pos 992570001
        (new_vessel\<lparr>v_kind := ''aton'', v_name := ''BUOY'', v_lat := 60, v_lon := 5\<rparr>))) of (u, has_pos, is_static) \<Rightarrow>
      has_pos \<and> v_lat u = 60 \<and> v_kind u = ''aton'' \<and> v_name u = ''BUOY'')"
  using snapshot_position_roundtrip [of "new_vessel\<lparr>v_kind := ''aton'', v_name := ''BUOY'', v_lat := 60, v_lon := 5\<rparr>" 992570001]
  by (auto simp: on_globe_def report_kind_def split: prod.splits)


end
