(* ===== verification/Index.thy ===== *)
theory Index
  imports Vessel
begin

text \<open>
  The vessel cache and its spatial index, from \<open>server/index.go\<close> with \<open>sweepLocked\<close> of
  \<open>server/vessels.go\<close>, \<open>bbox\<close> of \<open>server/stream.go\<close> and \<open>inAny\<close> of \<open>server/mcp.go\<close>.

  A cell holds pointers to the cached vessels in it; the model's cell holds their MMSIs, read
  through the cache. That both agree is the invariant \<open>cache_ok\<close>.
\<close>

declare map_of_eq_Some_iff [simp del]

section \<open>Boxes\<close>

record bbox =
  b_south :: real
  b_west :: real
  b_north :: real
  b_east :: real

definition box_contains :: "bbox \<Rightarrow> real \<Rightarrow> real \<Rightarrow> bool" where
  "box_contains b lat lon \<longleftrightarrow> b_south b \<le> lat \<and> lat \<le> b_north b \<and> b_west b \<le> lon \<and> lon \<le> b_east b"

fun in_any :: "bbox list \<Rightarrow> real \<Rightarrow> real \<Rightarrow> bool" where
  "in_any [] lat lon \<longleftrightarrow> False"
| "in_any (b # bs) lat lon \<longleftrightarrow> box_contains b lat lon \<or> in_any bs lat lon"

lemma in_any_iff: "in_any bs lat lon \<longleftrightarrow> (\<exists>b \<in> set bs. box_contains b lat lon)"
  by (induction bs) auto

section \<open>Cells\<close>

definition cell_row_col :: "real \<Rightarrow> real \<Rightarrow> int \<times> int" where
  "cell_row_col lat lon =
     (min (max (\<lfloor>lat\<rfloor> + 90) 0) 179, min (max (\<lfloor>lon\<rfloor> + 180) 0) 359)"

definition cell_of :: "real \<Rightarrow> real \<Rightarrow> int" where
  "cell_of lat lon = (case cell_row_col lat lon of (r, c) \<Rightarrow> r * 360 + c)"

type_synonym cells = "(int \<times> mmsi list) list"

record cache =
  c_vessels :: "(mmsi \<times> vessel) list"
  c_cells :: cells

definition unindex_vessel :: "mmsi \<Rightarrow> vessel \<Rightarrow> cells \<Rightarrow> vessel \<times> cells" where
  "unindex_vessel m v cs =
     (if \<not> v_indexed v then (v, cs)
      else let ms = removeAll m (get_or [] cs (v_cell v))
           in (v\<lparr>v_indexed := False\<rparr>,
               if ms = [] then del (v_cell v) cs else put (v_cell v) ms cs))"

definition index_vessel :: "mmsi \<Rightarrow> vessel \<Rightarrow> cells \<Rightarrow> vessel \<times> cells" where
  "index_vessel m v cs =
     (let c = cell_of (v_lat v) (v_lon v) in
      if v_indexed v \<and> v_cell v = c then (v, cs)
      else case unindex_vessel m v cs of (v1, cs1) \<Rightarrow>
        (v1\<lparr>v_cell := c, v_indexed := True\<rparr>, put c (List.insert m (get_or [] cs1 c)) cs1))"

definition put_vessel :: "mmsi \<Rightarrow> vessel \<Rightarrow> cache \<Rightarrow> cache" where
  "put_vessel m v c =
     (if v_has_pos v
      then case index_vessel m v (c_cells c) of (v', cs) \<Rightarrow>
        \<lparr>c_vessels = put m v' (c_vessels c), c_cells = cs\<rparr>
      else c\<lparr>c_vessels := put m v (c_vessels c)\<rparr>)"

text \<open>\<open>sweepLocked\<close>: the vessels unseen since the cutoff leave the index and the cache.\<close>

definition drop_vessel :: "mmsi \<times> vessel \<Rightarrow> cache \<Rightarrow> cache" where
  "drop_vessel mv c =
     \<lparr>c_vessels = del (fst mv) (c_vessels c), c_cells = snd (unindex_vessel (fst mv) (snd mv) (c_cells c))\<rparr>"

definition sweep :: "time \<Rightarrow> cache \<Rightarrow> cache" where
  "sweep cutoff c = fold drop_vessel (filter (\<lambda>mv. v_seen (snd mv) < cutoff) (c_vessels c)) c"

section \<open>Queries\<close>

definition box_span :: "bbox \<Rightarrow> int" where
  "box_span b =
     (case cell_row_col (b_south b) (b_west b) of (r0, c0) \<Rightarrow>
      case cell_row_col (b_north b) (b_east b) of (r1, c1) \<Rightarrow> (r1 - r0 + 1) * (c1 - c0 + 1))"

definition box_cells :: "bbox \<Rightarrow> int list" where
  "box_cells b =
     (case cell_row_col (b_south b) (b_west b) of (r0, c0) \<Rightarrow>
      case cell_row_col (b_north b) (b_east b) of (r1, c1) \<Rightarrow>
        concat (map (\<lambda>r. map (\<lambda>c. r * 360 + c) [c0..c1]) [r0..r1]))"

text \<open>The vessels of a cell that lie in a box, with what the cache holds for them.\<close>

definition cell_hits :: "cache \<Rightarrow> bbox list \<Rightarrow> mmsi list \<Rightarrow> (mmsi \<times> vessel) list" where
  "cell_hits c boxes ms =
     concat (map (\<lambda>m. case map_of (c_vessels c) m of
                        None \<Rightarrow> []
                      | Some v \<Rightarrow> if in_any boxes (v_lat v) (v_lon v) then [(m, v)] else []) ms)"

fun walk_cells :: "bool \<Rightarrow> (int \<Rightarrow> 'a list) \<Rightarrow> int list \<Rightarrow> int list \<Rightarrow> 'a list" where
  "walk_cells multi hits visited [] = []"
| "walk_cells multi hits visited (k # ks) =
     (if multi \<and> k \<in> set visited then walk_cells multi hits visited ks
      else hits k @ walk_cells multi hits (k # visited) ks)"

definition vessels_in :: "bbox list \<Rightarrow> cache \<Rightarrow> (mmsi \<times> vessel) list" where
  "vessels_in boxes c =
     (if int (length (c_cells c)) < sum_list (map box_span boxes)
      then concat (map (\<lambda>(k, ms). cell_hits c boxes ms) (c_cells c))
      else walk_cells (1 < length boxes) (\<lambda>k. cell_hits c boxes (get_or [] (c_cells c) k)) []
             (concat (map box_cells boxes)))"

record v1_sub =
  s_everything :: bool
  s_boxes :: "bbox list"
  s_mmsi :: "mmsi list"
  s_imo :: "(32 word \<times> nat) list option"
  s_joined :: "mmsi list"
  s_cut :: bool

text \<open>\<open>eachMatch\<close>: the vessels a subscription matches, in the order it calls for them.\<close>

definition each_match :: "v1_sub \<Rightarrow> cache \<Rightarrow> (mmsi \<times> vessel) list" where
  "each_match s c =
     (if s_everything s then c_vessels c
      else vessels_in (s_boxes s) c @
        concat (map (\<lambda>m. case map_of (c_vessels c) m of
                           None \<Rightarrow> []
                         | Some v \<Rightarrow> if v_has_pos v \<and> in_any (s_boxes s) (v_lat v) (v_lon v) then []
                                     else [(m, v)]) (s_mmsi s)))"

section \<open>The invariant\<close>

definition filed :: "cache \<Rightarrow> mmsi \<Rightarrow> int \<Rightarrow> bool" where
  "filed c m k \<longleftrightarrow> (\<exists>v. map_of (c_vessels c) m = Some v \<and> v_indexed v \<and> v_cell v = k)"

definition cells_ok :: "cells \<Rightarrow> bool" where
  "cells_ok cs \<longleftrightarrow> is_map cs \<and> (\<forall>(k, ms) \<in> set cs. distinct ms \<and> ms \<noteq> [])"

definition vessel_ok :: "vessel \<Rightarrow> bool" where
  "vessel_ok v \<longleftrightarrow> v_indexed v = v_has_pos v \<and>
     (v_has_pos v \<longrightarrow> v_cell v = cell_of (v_lat v) (v_lon v))"

definition cache_ok :: "cache \<Rightarrow> bool" where
  "cache_ok c \<longleftrightarrow> is_map (c_vessels c) \<and> cells_ok (c_cells c) \<and>
     (\<forall>m v. map_of (c_vessels c) m = Some v \<longrightarrow> vessel_ok v) \<and>
     (\<forall>m k. m \<in> set (get_or [] (c_cells c) k) \<longleftrightarrow> filed c m k)"

lemma cells_ok_get: "cells_ok cs \<Longrightarrow> distinct (get_or [] cs k)"
  by (auto simp: cells_ok_def get_or_def split: option.split dest!: map_of_SomeD)

lemma cells_ok_put: "cells_ok cs \<Longrightarrow> distinct ms \<Longrightarrow> ms \<noteq> [] \<Longrightarrow> cells_ok (put k ms cs)"
  using set_put_subset [of k ms cs] by (fastforce simp: cells_ok_def is_map_put)

lemma cells_ok_del: "cells_ok cs \<Longrightarrow> cells_ok (del k cs)"
  by (auto simp: cells_ok_def go_map)

lemma get_or_del: "get_or d (del k m) x = (if x = k then d else get_or d m x)"
  by (simp add: get_or_def map_of_del)

lemma removeAll_Nil_iff: "removeAll m xs = [] \<longleftrightarrow> set xs \<subseteq> {m}"
  by (induction xs) auto

lemma insert_not_Nil [simp]: "List.insert m xs \<noteq> []"
  by (auto simp: List.insert_def)

lemma unindex_cells:
  assumes "cells_ok cs" "unindex_vessel m v cs = (v', cs')"
  shows "cells_ok cs' \<and> \<not> v_indexed v' \<and>
    (\<forall>x k. x \<in> set (get_or [] cs' k) \<longleftrightarrow>
       x \<in> set (get_or [] cs k) \<and> \<not> (v_indexed v \<and> x = m \<and> k = v_cell v))"
  using assms cells_ok_get [OF assms(1), of "v_cell v"]
  by (auto simp: unindex_vessel_def Let_def get_or_put get_or_del cells_ok_del
      removeAll_Nil_iff distinct_removeAll intro!: cells_ok_put split: if_splits)

lemma unindex_vessel_fields:
  "unindex_vessel m v cs = (v', cs') \<Longrightarrow> v' = v\<lparr>v_indexed := False\<rparr>"
  by (cases v) (auto simp: unindex_vessel_def Let_def split: if_splits)

lemma index_cells:
  assumes "cells_ok cs" "index_vessel m v cs = (v', cs')"
    and only: "\<And>k. m \<in> set (get_or [] cs k) \<longleftrightarrow> v_indexed v \<and> v_cell v = k"
  shows "cells_ok cs' \<and> v' = v\<lparr>v_cell := cell_of (v_lat v) (v_lon v), v_indexed := True\<rparr> \<and>
    (\<forall>x k. x \<in> set (get_or [] cs' k) \<longleftrightarrow>
       (if x = m then k = cell_of (v_lat v) (v_lon v) else x \<in> set (get_or [] cs k)))"
proof (cases "v_indexed v \<and> v_cell v = cell_of (v_lat v) (v_lon v)")
  case True
  then have "v' = v" "cs' = cs" using assms(2) by (auto simp: index_vessel_def)
  then show ?thesis using True assms(1) only by (cases v) auto
next
  case False
  obtain v1 cs1 where u: "unindex_vessel m v cs = (v1, cs1)" by fastforce
  note un = unindex_cells [OF assms(1) u] and f = unindex_vessel_fields [OF u]
  have e: "v' = v1\<lparr>v_cell := cell_of (v_lat v) (v_lon v), v_indexed := True\<rparr>"
    "cs' = put (cell_of (v_lat v) (v_lon v)) (List.insert m (get_or [] cs1 (cell_of (v_lat v) (v_lon v)))) cs1"
    using assms(2) False u by (auto simp: index_vessel_def Let_def)
  have "cells_ok cs'" unfolding e
    using un cells_ok_get [of cs1] by (intro cells_ok_put) auto
  moreover have "v' = v\<lparr>v_cell := cell_of (v_lat v) (v_lon v), v_indexed := True\<rparr>"
    using e f by simp
  moreover have "x \<in> set (get_or [] cs' k) \<longleftrightarrow>
      (if x = m then k = cell_of (v_lat v) (v_lon v) else x \<in> set (get_or [] cs k))" for x k
    unfolding e using un only by (auto simp: get_or_put)
  ultimately show ?thesis by blast
qed

text \<open>Writing a vessel back: unmoved, or filed anew.\<close>

definition filed_as :: "cache \<Rightarrow> mmsi \<Rightarrow> vessel \<Rightarrow> bool" where
  "filed_as c m v \<longleftrightarrow>
     (case map_of (c_vessels c) m of
        None \<Rightarrow> \<not> v_indexed v
      | Some v0 \<Rightarrow> v_indexed v = v_indexed v0 \<and> v_cell v = v_cell v0)"

lemma filed_as_cells:
  "cache_ok c \<Longrightarrow> filed_as c m v \<Longrightarrow>
   m \<in> set (get_or [] (c_cells c) k) \<longleftrightarrow> v_indexed v \<and> v_cell v = k"
  by (auto simp: cache_ok_def filed_def filed_as_def split: option.splits)

lemma cache_ok_put_same:
  assumes "cache_ok c" "filed_as c m v" "vessel_ok v"
  shows "cache_ok (c\<lparr>c_vessels := put m v (c_vessels c)\<rparr>)"
  using assms filed_as_cells [OF assms(1,2)]
  by (auto simp: cache_ok_def filed_def map_of_put is_map_put split: if_splits)

lemma cache_ok_put_index:
  assumes ok: "cache_ok c" and fa: "filed_as c m v" and ix: "index_vessel m v (c_cells c) = (v', cs)"
    and w: "v_indexed w = v_indexed v'" "v_cell w = v_cell v'" "v_lat w = v_lat v" "v_lon w = v_lon v"
      "v_has_pos w"
  shows "cache_ok \<lparr>c_vessels = put m w (c_vessels c), c_cells = cs\<rparr>"
proof -
  have "cells_ok (c_cells c)" using ok by (simp add: cache_ok_def)
  note ic = index_cells [OF this ix filed_as_cells [OF ok fa]]
  then have wi: "v_indexed w" "v_cell w = cell_of (v_lat w) (v_lon w)" using w by simp_all
  have "x \<in> set (get_or [] cs k) \<longleftrightarrow>
      filed \<lparr>c_vessels = put m w (c_vessels c), c_cells = cs\<rparr> x k" for x k
    using ic wi w(3,4) ok by (auto simp: filed_def map_of_put cache_ok_def)
  then show ?thesis using ok ic wi w
    by (auto simp: cache_ok_def map_of_put is_map_put vessel_ok_def split: if_splits)
qed

lemma cache_ok_put_vessel:
  assumes "cache_ok c" "filed_as c m v" "vessel_ok v \<or> v_has_pos v"
  shows "cache_ok (put_vessel m v c)"
proof (cases "v_has_pos v")
  case True
  obtain v' cs where ix: "index_vessel m v (c_cells c) = (v', cs)" by fastforce
  have "cells_ok (c_cells c)" using assms(1) by (simp add: cache_ok_def)
  from index_cells [OF this ix filed_as_cells [OF assms(1,2)]]
  have "v' = v\<lparr>v_cell := cell_of (v_lat v) (v_lon v), v_indexed := True\<rparr>" by blast
  then show ?thesis using cache_ok_put_index [OF assms(1,2) ix, of v'] True
    by (simp add: put_vessel_def ix)
next
  case False
  then show ?thesis using cache_ok_put_same [OF assms(1,2)] assms(3) by (simp add: put_vessel_def)
qed

lemma cache_ok_drop:
  assumes ok: "cache_ok c" and v: "map_of (c_vessels c) m = Some v"
  shows "cache_ok (drop_vessel (m, v) c)"
proof -
  obtain v1 cs1 where u: "unindex_vessel m v (c_cells c) = (v1, cs1)" by fastforce
  have "cells_ok (c_cells c)" using ok by (simp add: cache_ok_def)
  note un = unindex_cells [OF this u]
  have "x \<in> set (get_or [] cs1 k) \<longleftrightarrow> filed (drop_vessel (m, v) c) x k" for x k
    using un ok v by (auto simp: filed_def drop_vessel_def map_of_del cache_ok_def)
  then show ?thesis using un ok
    by (auto simp: cache_ok_def drop_vessel_def u map_of_del is_map_del split: if_splits)
qed

lemma fold_drop:
  assumes "cache_ok c" "is_map es" "\<And>m v. (m, v) \<in> set es \<Longrightarrow> map_of (c_vessels c) m = Some v"
  shows "cache_ok (fold drop_vessel es c) \<and>
    (\<forall>m. map_of (c_vessels (fold drop_vessel es c)) m =
       (if m \<in> fst ` set es then None else map_of (c_vessels c) m))"
  using assms
proof (induction es arbitrary: c)
  case Nil
  then show ?case by simp
next
  case (Cons e es)
  obtain m v where e: "e = (m, v)" by fastforce
  have 1: "cache_ok (drop_vessel e c)" unfolding e using Cons.prems by (auto simp: e intro: cache_ok_drop)
  have 2: "map_of (c_vessels (drop_vessel e c)) x = Some w" if "(x, w) \<in> set es" for x w
  proof -
    have "x \<noteq> m" using that Cons.prems(2) e by (metis distinct.simps(2) fst_conv image_eqI list.map(2) list.set_map)
    then show ?thesis using Cons.prems(3) [of x w] that by (simp add: drop_vessel_def e map_of_del)
  qed
  from Cons.IH [OF 1 _ 2] Cons.prems(2)
  show ?case by (auto simp: drop_vessel_def e map_of_del)
qed

lemma sweep_effect:
  assumes "cache_ok c"
  shows "cache_ok (sweep cutoff c) \<and>
    (\<forall>m. map_of (c_vessels (sweep cutoff c)) m =
       (case map_of (c_vessels c) m of
          None \<Rightarrow> None | Some v \<Rightarrow> if v_seen v < cutoff then None else Some v))"
proof -
  let ?es = "filter (\<lambda>mv. v_seen (snd mv) < cutoff) (c_vessels c)"
  have im: "is_map (c_vessels c)" using assms by (simp add: cache_ok_def)
  then have "is_map ?es" by (simp add: distinct_map_filter_key)
  moreover have "map_of (c_vessels c) m = Some v" if "(m, v) \<in> set ?es" for m v
    using that im by (simp add: map_of_in_set)
  moreover have "m \<in> fst ` set ?es \<longleftrightarrow> (\<exists>v. map_of (c_vessels c) m = Some v \<and> v_seen v < cutoff)" for m
    using im by (force simp: map_of_in_set)
  ultimately have "cache_ok (sweep cutoff c)"
    "map_of (c_vessels (sweep cutoff c)) m =
      (if \<exists>v. map_of (c_vessels c) m = Some v \<and> v_seen v < cutoff then None else map_of (c_vessels c) m)" for m
    unfolding sweep_def using fold_drop [OF assms, of ?es] by simp_all
  then show ?thesis by (simp split: option.split)
qed

section \<open>The grid\<close>

text \<open>
  What a query needs of the cells: a box's cells are listed once, and the cell of every position
  in the box is among them. Everything else about a query is proved from that.
\<close>

locale grid =
  fixes cell :: "real \<Rightarrow> real \<Rightarrow> int"
    and cells_in :: "bbox \<Rightarrow> int list"
  assumes cells_once: "distinct (cells_in b)"
    and cells_cover: "box_contains b lat lon \<Longrightarrow> cell lat lon \<in> set (cells_in b)"
begin

lemma cover_any: "in_any bs lat lon \<Longrightarrow> cell lat lon \<in> set (concat (map cells_in bs))"
  using cells_cover by (auto simp: in_any_iff)

lemma cells_distinct_if_single: "length bs \<le> 1 \<Longrightarrow> distinct (concat (map cells_in bs))"
  using cells_once by (cases bs) auto

end

lemma walk_set:
  "set (walk_cells multi hits vis ks) \<union> (if multi then \<Union> (set ` hits ` set vis) else {}) =
   \<Union> (set ` hits ` set ks) \<union> (if multi then \<Union> (set ` hits ` set vis) else {})"
proof (induction ks arbitrary: vis)
  case Nil
  then show ?case by simp
next
  case (Cons k ks)
  show ?case using Cons [of vis] Cons [of "k # vis"] by (cases multi) auto
qed

lemma walk_distinct:
  assumes d: "\<And>k. distinct (map f (hits k))"
    and disj: "\<And>j k x. x \<in> f ` set (hits j) \<Longrightarrow> x \<in> f ` set (hits k) \<Longrightarrow> j = k"
    and once: "multi \<or> distinct (vis @ ks)"
  shows "distinct (map f (walk_cells multi hits vis ks)) \<and>
    (\<forall>k \<in> set vis. f ` set (hits k) \<inter> f ` set (walk_cells multi hits vis ks) = {})"
  using once
proof (induction ks arbitrary: vis)
  case Nil
  then show ?case by simp
next
  case (Cons k ks)
  show ?case
  proof (cases "multi \<and> k \<in> set vis")
    case True
    then show ?thesis using Cons.IH [of vis] by simp
  next
    case False
    have "multi \<or> distinct ((k # vis) @ ks)" using Cons.prems by auto
    note ih = Cons.IH [OF this]
    have k: "k \<notin> set vis" using False Cons.prems by auto
    have "f ` set (hits j) \<inter> f ` set (hits k) = {}" if "j \<in> set vis" for j
      using disj k that by blast
    then show ?thesis using ih d k by (simp add: image_Un Int_Un_distrib)
  qed
qed

lemma distinct_concat_inj:
  assumes "distinct xs" "\<And>x. distinct (f x)" "\<And>x y. x \<in> set xs \<Longrightarrow> y \<in> set xs \<Longrightarrow> x \<noteq> y \<Longrightarrow> set (f x) \<inter> set (f y) = {}"
  shows "distinct (concat (map f xs))"
  using assms
proof (induction xs)
  case Nil
  then show ?case by simp
next
  case (Cons x xs)
  have "set (f x) \<inter> set (f y) = {}" if "y \<in> set xs" for y
    using Cons.prems that by (metis distinct.simps(2) list.set_intros(1,2))
  moreover have "distinct (concat (map f xs))" using Cons by simp
  ultimately show ?case using Cons.prems(2) by auto
qed

lemma cell_row_col_range:
  "cell_row_col lat lon = (r, c) \<Longrightarrow> 0 \<le> r \<and> r \<le> 179 \<and> 0 \<le> c \<and> c \<le> 359"
  by (auto simp: cell_row_col_def)

lemma cell_row_col_mono:
  "lat \<le> lat' \<Longrightarrow> lon \<le> lon' \<Longrightarrow> cell_row_col lat lon = (r, c) \<Longrightarrow> cell_row_col lat' lon' = (r', c') \<Longrightarrow>
   r \<le> r' \<and> c \<le> c'"
  using floor_mono [of lat lat'] floor_mono [of lon lon']
  by (auto simp: cell_row_col_def intro!: min.mono max.mono)

lemma box_cells_distinct: "distinct (box_cells b)"
proof -
  obtain r0 c0 where l: "cell_row_col (b_south b) (b_west b) = (r0, c0)" by fastforce
  obtain r1 c1 where h: "cell_row_col (b_north b) (b_east b) = (r1, c1)" by fastforce
  have rng: "0 \<le> c0" "c1 \<le> 359" using cell_row_col_range [OF l] cell_row_col_range [OF h] by auto
  have "distinct (concat (map (\<lambda>r. map (\<lambda>c. r * 360 + c) [c0..c1]) [r0..r1]))"
  proof (rule distinct_concat_inj)
    fix r r' :: int
    assume "r \<noteq> r'"
    then show "set (map (\<lambda>c. r * 360 + c) [c0..c1]) \<inter> set (map (\<lambda>c. r' * 360 + c) [c0..c1]) = {}"
      using rng by auto
  qed (simp_all add: distinct_map inj_on_def)
  then show ?thesis by (simp add: box_cells_def l h)
qed

lemma box_cells_cover:
  assumes "box_contains b lat lon"
  shows "cell_of lat lon \<in> set (box_cells b)"
proof -
  obtain r0 c0 where l: "cell_row_col (b_south b) (b_west b) = (r0, c0)" by fastforce
  obtain r1 c1 where h: "cell_row_col (b_north b) (b_east b) = (r1, c1)" by fastforce
  obtain r c where p: "cell_row_col lat lon = (r, c)" by fastforce
  have "r0 \<le> r \<and> c0 \<le> c" "r \<le> r1 \<and> c \<le> c1"
    using cell_row_col_mono [OF _ _ l p] cell_row_col_mono [OF _ _ p h] assms
    by (auto simp: box_contains_def)
  then show ?thesis
    by (auto simp: box_cells_def l h cell_of_def p intro!: bexI [of _ r])
qed

interpretation degree_grid: grid cell_of box_cells
  by unfold_locales (rule box_cells_distinct, rule box_cells_cover)

definition hits_of :: "cache \<Rightarrow> bbox list \<Rightarrow> int \<Rightarrow> (mmsi \<times> vessel) list" where
  "hits_of c boxes k = cell_hits c boxes (get_or [] (c_cells c) k)"

lemma cell_hits_set:
  "(m, v) \<in> set (cell_hits c boxes ms) \<longleftrightarrow>
     m \<in> set ms \<and> map_of (c_vessels c) m = Some v \<and> in_any boxes (v_lat v) (v_lon v)"
  by (auto simp: cell_hits_def split: option.splits if_splits)

lemma cell_hits_distinct: "distinct ms \<Longrightarrow> distinct (map fst (cell_hits c boxes ms))"
proof (induction ms)
  case Nil
  then show ?case by (simp add: cell_hits_def)
next
  case (Cons m ms)
  have e: "cell_hits c boxes (m # ms) = cell_hits c boxes [m] @ cell_hits c boxes ms"
    by (simp add: cell_hits_def)
  have "fst ` set (cell_hits c boxes ms) \<subseteq> set ms" by (auto simp: cell_hits_set)
  moreover have "map fst (cell_hits c boxes [m]) \<in> {[], [m]}"
    by (auto simp: cell_hits_def split: option.split)
  ultimately show ?case using Cons unfolding e by auto
qed

lemma hits_of_set:
  assumes "cache_ok c"
  shows "(m, v) \<in> set (hits_of c boxes k) \<longleftrightarrow>
    map_of (c_vessels c) m = Some v \<and> v_has_pos v \<and> v_cell v = k \<and> in_any boxes (v_lat v) (v_lon v)"
  using assms by (auto simp: hits_of_def cell_hits_set cache_ok_def filed_def vessel_ok_def)

lemma hits_of_distinct: "cache_ok c \<Longrightarrow> distinct (map fst (hits_of c boxes k))"
  unfolding hits_of_def by (rule cell_hits_distinct) (auto simp: cache_ok_def intro: cells_ok_get)

lemma hits_of_disjoint:
  assumes "cache_ok c" "x \<in> fst ` set (hits_of c boxes j)" "x \<in> fst ` set (hits_of c boxes k)"
  shows "j = k"
  using assms by (auto simp: hits_of_set)

text \<open>The walk over every occupied cell is the walk over the cells' keys.\<close>

lemma all_cells_walk:
  assumes "cache_ok c"
  shows "concat (map (\<lambda>(k, ms). cell_hits c boxes ms) (c_cells c)) =
    walk_cells False (hits_of c boxes) [] (map fst (c_cells c))"
proof -
  have im: "is_map (c_cells c)" using assms by (simp add: cache_ok_def cells_ok_def)
  have w: "walk_cells False h vis ks = concat (map h ks)" for h :: "int \<Rightarrow> (mmsi \<times> vessel) list" and vis ks
    by (induction ks arbitrary: vis) auto
  have "map (\<lambda>(k, ms). cell_hits c boxes ms) (c_cells c) = map (hits_of c boxes \<circ> fst) (c_cells c)"
  proof (rule map_cong [OF refl])
    fix e assume "e \<in> set (c_cells c)"
    then have "map_of (c_cells c) (fst e) = Some (snd e)" using im by (simp add: map_of_in_set)
    then show "(case e of (k, ms) \<Rightarrow> cell_hits c boxes ms) = (hits_of c boxes \<circ> fst) e"
      by (simp add: hits_of_def get_or_def split_def)
  qed
  then show ?thesis by (simp add: w del: map_eq_conv)
qed

lemma vessels_in_walk:
  assumes "cache_ok c"
  shows "\<exists>multi ks. vessels_in boxes c = walk_cells multi (hits_of c boxes) [] ks \<and> (multi \<or> distinct ks) \<and>
    (\<forall>m v. map_of (c_vessels c) m = Some v \<longrightarrow> v_has_pos v \<longrightarrow> in_any boxes (v_lat v) (v_lon v) \<longrightarrow>
       v_cell v \<in> set ks)"
proof (cases "int (length (c_cells c)) < sum_list (map box_span boxes)")
  case True
  have "v_cell v \<in> set (map fst (c_cells c))" if "map_of (c_vessels c) m = Some v" "v_has_pos v" for m v
  proof -
    have "m \<in> set (get_or [] (c_cells c) (v_cell v))"
      using assms that by (auto simp: cache_ok_def filed_def vessel_ok_def)
    then obtain ms where "map_of (c_cells c) (v_cell v) = Some ms"
      by (cases "map_of (c_cells c) (v_cell v)") (auto simp: get_or_def)
    then show ?thesis using map_of_SomeD by force
  qed
  then show ?thesis
    using True assms all_cells_walk [OF assms, of boxes]
    by (intro exI [of _ False] exI [of _ "map fst (c_cells c)"])
       (auto simp: vessels_in_def cache_ok_def cells_ok_def)
next
  case False
  have "v_cell v \<in> set (concat (map box_cells boxes))"
    if "map_of (c_vessels c) m = Some v" "v_has_pos v" "in_any boxes (v_lat v) (v_lon v)" for m v
    using degree_grid.cover_any [OF that(3)] that assms by (auto simp: cache_ok_def vessel_ok_def)
  moreover have "1 < length boxes \<or> distinct (concat (map box_cells boxes))"
    using degree_grid.cells_distinct_if_single [of boxes] by (cases "length boxes \<le> 1") auto
  ultimately show ?thesis
    using False
    by (intro exI [of _ "1 < length boxes"] exI [of _ "concat (map box_cells boxes)"])
       (auto simp: vessels_in_def hits_of_def [abs_def])
qed

lemma vessels_in_set:
  assumes "cache_ok c"
  shows "(m, v) \<in> set (vessels_in boxes c) \<longleftrightarrow>
    map_of (c_vessels c) m = Some v \<and> v_has_pos v \<and> in_any boxes (v_lat v) (v_lon v)"
proof -
  obtain multi ks where w: "vessels_in boxes c = walk_cells multi (hits_of c boxes) [] ks"
    "\<forall>m v. map_of (c_vessels c) m = Some v \<longrightarrow> v_has_pos v \<longrightarrow> in_any boxes (v_lat v) (v_lon v) \<longrightarrow> v_cell v \<in> set ks"
    using vessels_in_walk [OF assms] by blast
  have "set (walk_cells multi (hits_of c boxes) [] ks) = \<Union> (set ` hits_of c boxes ` set ks)"
    using walk_set [of multi "hits_of c boxes" "[]" ks] by (simp split: if_splits)
  then show ?thesis unfolding w(1) using w(2) hits_of_set [OF assms] by auto
qed

lemma vessels_in_distinct:
  assumes "cache_ok c"
  shows "distinct (map fst (vessels_in boxes c))"
proof -
  obtain multi ks where w: "vessels_in boxes c = walk_cells multi (hits_of c boxes) [] ks" "multi \<or> distinct ([] @ ks)"
    using vessels_in_walk [OF assms, of boxes] by auto
  show ?thesis unfolding w(1)
    by (rule walk_distinct [of fst "hits_of c boxes" multi "[]" ks, THEN conjunct1])
       (use hits_of_distinct [OF assms] hits_of_disjoint [OF assms] w(2) in auto)
qed

lemma each_match_set:
  assumes "cache_ok c" "distinct (s_mmsi s)"
  shows "distinct (map fst (each_match s c)) \<and>
    ((m, v) \<in> set (each_match s c) \<longleftrightarrow>
       map_of (c_vessels c) m = Some v \<and>
       (s_everything s \<or> m \<in> set (s_mmsi s) \<or> v_has_pos v \<and> in_any (s_boxes s) (v_lat v) (v_lon v)))"
proof (cases "s_everything s")
  case True
  then show ?thesis using assms by (simp add: each_match_def cache_ok_def map_of_in_set)
next
  case False
  define f where "f m = (case map_of (c_vessels c) m of None \<Rightarrow> []
     | Some v \<Rightarrow> if v_has_pos v \<and> in_any (s_boxes s) (v_lat v) (v_lon v) then [] else [(m, v)])" for m
  have e: "each_match s c = vessels_in (s_boxes s) c @ concat (map f (s_mmsi s))"
    using False by (simp add: each_match_def f_def [abs_def])
  have fs: "(x, w) \<in> set (f y) \<longleftrightarrow> x = y \<and> map_of (c_vessels c) x = Some w \<and>
      \<not> (v_has_pos w \<and> in_any (s_boxes s) (v_lat w) (v_lon w))" for x w y
    by (auto simp: f_def split: option.splits)
  have "distinct (map fst (concat (map f ms)))" if "distinct ms" for ms
    using that
  proof (induction ms)
    case (Cons y ms)
    have "map fst (f y) \<in> {[], [y]}" by (auto simp: f_def split: option.split)
    moreover have "fst ` set (concat (map f ms)) \<subseteq> set ms" using fs by auto
    ultimately show ?case using Cons by (auto simp del: set_concat)
  qed simp
  then have "distinct (map fst (each_match s c))"
    using vessels_in_distinct [OF assms(1)] assms(2) fs vessels_in_set [OF assms(1)]
    by (fastforce simp: e)
  moreover have "(m, v) \<in> set (each_match s c) \<longleftrightarrow> map_of (c_vessels c) m = Some v \<and>
       (m \<in> set (s_mmsi s) \<or> v_has_pos v \<and> in_any (s_boxes s) (v_lat v) (v_lon v))"
    using fs vessels_in_set [OF assms(1)] by (auto simp: e)
  ultimately show ?thesis using False by simp
qed


definition sample_cache :: cache where
  "sample_cache = put_vessel 257000001 (new_vessel\<lparr>v_lat := 60, v_lon := 5, v_has_pos := True\<rparr>)
     \<lparr>c_vessels = [], c_cells = []\<rparr>"

lemma empty_cache_ok: "cache_ok \<lparr>c_vessels = [], c_cells = []\<rparr>"
  by (simp add: cache_ok_def cells_ok_def filed_def get_or_def)

lemma sample_cache_ok: "cache_ok sample_cache"
  unfolding sample_cache_def
  by (rule cache_ok_put_vessel [OF empty_cache_ok]) (simp_all add: filed_as_def new_vessel_def)

definition sample_sub :: v1_sub where
  "sample_sub = \<lparr>s_everything = False, s_boxes = [\<lparr>b_south = 59, b_west = 4, b_north = 61, b_east = 6\<rparr>],
     s_mmsi = [257000001], s_imo = None, s_joined = [], s_cut = False\<rparr>"


end
