(* ===== verification/Cache.thy ===== *)
theory Cache
  imports Index
begin

text \<open>
  The fold of one event into the vessel cache, from \<open>server/vessels.go\<close>: \<open>updateVessel\<close>,
  \<open>markTrusted\<close>, \<open>positionIsNew\<close>, \<open>staticIsNew\<close>, \<open>snapshotEvents\<close>, and the copies of a
  transmission from \<open>server/tracks.go\<close> (\<open>copyPoint\<close>, \<open>fromTransmission\<close>, \<open>noteCopy\<close>).

  \<open>event_id\<close> (a hash), the anchors a replay starts from and the kinds the record holds are
  parameters. \<open>vstate\<close> is the state the cache's lock guards, with the queue it hands positions to.
\<close>

record vstate =
  vs_cache :: cache
  vs_next_sweep :: time
  vs_dirty :: "mmsi list option"
  vs_chq :: chq

definition sweep_due :: "event \<Rightarrow> vstate \<Rightarrow> vstate" where
  "sweep_due ev st =
     (if ev_recv ev \<noteq> zero_time \<and> \<not> ev_recv ev < vs_next_sweep st
      then st\<lparr>vs_cache := sweep (ev_recv ev - vessel_ttl) (vs_cache st),
              vs_next_sweep := truncate_time (ev_recv ev) vessel_sweep + vessel_sweep\<rparr>
      else st)"

text \<open>The vessel an event folds into: the cached one, or a new one of the kind the record knew.\<close>

definition vessel_for :: "(mmsi \<Rightarrow> string) \<Rightarrow> mmsi \<Rightarrow> cache \<Rightarrow> vessel" where
  "vessel_for kind_of m c =
     (case map_of (c_vessels c) m of
        Some v \<Rightarrow> v
      | None \<Rightarrow> if kind_of m \<noteq> [] then new_vessel\<lparr>v_kind := kind_of m\<rparr> else new_vessel)"

definition implausible_move :: "vessel \<Rightarrow> event \<Rightarrow> vessel \<Rightarrow> bool" where
  "implausible_move v ev u \<longleftrightarrow>
     (let dt = of_int (time_sub (ev_time ev) (v_pos_at v)) / 1000000000 :: real;
          d = nm (v_lat v) (v_lon v) (v_lat u) (v_lon u)
      in dt \<ge> 1 \<and> d > implausible_jump_nm \<and> d / (dt / 3600) > implausible_knots)"

text \<open>The accepted position: the index moves with it, and the clock of trust for a trusted source.\<close>

definition move_vessel :: "event \<Rightarrow> vessel \<Rightarrow> vessel \<Rightarrow> cells \<Rightarrow> vessel \<times> cells" where
  "move_vessel ev u v cs =
     (case index_vessel (ev_mmsi ev)
             (v\<lparr>v_lat := v_lat u, v_lon := v_lon u, v_has_pos := True, v_pos_at := ev_time ev\<rparr>) cs of
        (v1, cs1) \<Rightarrow>
          (v1\<lparr>v_cog := v_cog u, v_sog := v_sog u, v_heading := v_heading u,
              v_trusted_at := (if ev_low_trust ev then v_trusted_at v1 else ev_time ev)\<rparr>, cs1))"

text \<open>What the fold does after the position: status, particulars, static time, hearing, kind.\<close>

definition fold_rest :: "bool \<Rightarrow> bool \<Rightarrow> bool \<Rightarrow> bool \<Rightarrow> event \<Rightarrow> vessel \<Rightarrow> vessel \<Rightarrow> vessel" where
  "fold_rest created has_pos is_static stale ev u v =
     (let v1 = (if v_nav u \<noteq> 15 \<and> \<not> stale then v\<lparr>v_nav := v_nav u\<rparr> else v);
          v2 = fold_particulars u v1;
          v3 = (if is_static \<and> v_static_at v2 < ev_time ev then v2\<lparr>v_static_at := ev_time ev\<rparr> else v2);
          v4 = (if stale then v3
                else v3\<lparr>v_seen := ev_time ev, v_source := ev_source ev, v_station := ev_station ev,
                        v_msg_type := ev_type ev\<rparr>)
      in fold_kind (ev_mmsi ev) created has_pos u v4)"

definition stamp_event :: "vessel \<Rightarrow> vessel \<Rightarrow> bool \<Rightarrow> bool \<Rightarrow> event \<Rightarrow> event" where
  "stamp_event v u has_pos stale ev =
     ev\<lparr>ev_name := v_name v, ev_has_pos := v_has_pos v,
        ev_lat := (if stale \<and> has_pos then v_lat u else v_lat v),
        ev_lon := (if stale \<and> has_pos then v_lon u else v_lon v)\<rparr>"

definition prev_pos :: "vessel \<Rightarrow> (real \<times> real) option" where
  "prev_pos v = (if v_has_pos v then Some (v_lat v, v_lon v) else None)"

text \<open>
  \<open>updateVessel\<close> under the cache's lock, once it has the vessel: an impossible move is handed to
  the queue and leaves the state alone; anything else is folded. \<open>v\<close> is the vessel before.
\<close>

definition fold_rejected ::
  "(string \<Rightarrow> string) \<Rightarrow> (mmsi \<Rightarrow> anchor option) \<Rightarrow> event \<Rightarrow> vessel \<Rightarrow> vessel \<Rightarrow> vstate \<Rightarrow> event \<times> vstate" where
  "fold_rejected event_id seeds ev u v st =
     (case note_folded event_id seeds (ev\<lparr>ev_implausible := True\<rparr>) v u False (prev_pos v) (vs_chq st) of
        (ev', v', q) \<Rightarrow>
          (ev', st\<lparr>vs_cache := (vs_cache st)\<lparr>c_vessels := put (ev_mmsi ev) v' (c_vessels (vs_cache st))\<rparr>,
                   vs_chq := q\<rparr>))"

definition fold_accepted ::
  "(string \<Rightarrow> string) \<Rightarrow> (mmsi \<Rightarrow> anchor option) \<Rightarrow> bool \<Rightarrow> bool \<Rightarrow> bool \<Rightarrow> bool \<Rightarrow> event \<Rightarrow> vessel \<Rightarrow> vessel \<Rightarrow>
   vstate \<Rightarrow> event \<times> vstate" where
  "fold_accepted event_id seeds created has_pos is_static stale ev u v st =
     (let c = vs_cache st;
          (v1, cs) = (if has_pos \<and> \<not> stale then move_vessel ev u (v\<lparr>v_feat := None\<rparr>) (c_cells c)
                      else (v\<lparr>v_feat := None\<rparr>, c_cells c));
          ev1 = ev\<lparr>ev_corroborated :=
                     (\<not> ev_low_trust ev \<or> time_sub (ev_time ev) (v_trusted_at v1) < corroboration_window)\<rparr>;
          (ev2, v2, q) = (if has_pos then note_folded event_id seeds ev1 v1 u stale (prev_pos v) (vs_chq st)
                          else (ev1, v1, vs_chq st));
          v3 = fold_rest created has_pos is_static stale ev2 u v2;
          ev3 = stamp_event v3 u has_pos stale ev2;
          v4 = v3\<lparr>v_last_pos := (if has_pos \<and> \<not> stale then Some ev3 else v_last_pos v3),
                  v_last_static := (if is_static then Some ev3 else v_last_static v3)\<rparr>
      in (ev3, st\<lparr>vs_cache := \<lparr>c_vessels = put (ev_mmsi ev) v4 (c_vessels c), c_cells = cs\<rparr>,
                  vs_dirty := map_option (List.insert (ev_mmsi ev)) (vs_dirty st), vs_chq := q\<rparr>))"

definition update_vessel ::
  "(string \<Rightarrow> string) \<Rightarrow> (mmsi \<Rightarrow> anchor option) \<Rightarrow> (mmsi \<Rightarrow> string) \<Rightarrow> event \<Rightarrow> vstate \<Rightarrow> event \<times> vstate" where
  "update_vessel event_id seeds kind_of ev0 st0 =
     (case fold_of (ev_packet ev0) of (u, has_pos, is_static) \<Rightarrow>
      let st = sweep_due ev0 st0;
          created = (map_of (c_vessels (vs_cache st)) (ev_mmsi ev0) = None);
          v = vessel_for kind_of (ev_mmsi ev0) (vs_cache st);
          stale = stale_for v (ev_time ev0) has_pos is_static (ev_rebuilt ev0);
          ev = ev0\<lparr>ev_stale := stale\<rparr>
      in if has_pos \<and> \<not> stale \<and> v_has_pos v \<and> implausible_move v ev u
         then fold_rejected event_id seeds ev u v st
         else fold_accepted event_id seeds created has_pos is_static stale ev u v st)"

definition mark_trusted :: "mmsi \<Rightarrow> time \<Rightarrow> vstate \<Rightarrow> vstate" where
  "mark_trusted m t st =
     (case map_of (c_vessels (vs_cache st)) m of
        None \<Rightarrow> st
      | Some v \<Rightarrow>
          if v_trusted_at v < t
          then st\<lparr>vs_cache := (vs_cache st)\<lparr>c_vessels := put m (v\<lparr>v_trusted_at := t\<rparr>) (c_vessels (vs_cache st))\<rparr>,
                  vs_dirty := map_option (List.insert m) (vs_dirty st)\<rparr>
          else st)"

definition position_is_new :: "mmsi \<Rightarrow> time \<Rightarrow> time \<Rightarrow> cache \<Rightarrow> bool" where
  "position_is_new m t now c \<longleftrightarrow>
     \<not> t < now - vessel_ttl \<and>
     (case map_of (c_vessels c) m of None \<Rightarrow> True | Some v \<Rightarrow> \<not> stale_for v t True False True)"

definition static_is_new :: "mmsi \<Rightarrow> time \<Rightarrow> time \<Rightarrow> packet \<Rightarrow> cache \<Rightarrow> bool" where
  "static_is_new m t now pkt c \<longleftrightarrow>
     \<not> t < now - vessel_ttl \<and>
     (case map_of (c_vessels c) m of
        None \<Rightarrow> True
      | Some v \<Rightarrow> (v_static_at v = zero_time \<or> v_static_at v + second < t) \<and>
                  changes_particulars v (fst (fold_of pkt)))"

text \<open>\<open>snapshotEvents\<close>: the retained events, or reconstructions from the state.\<close>

definition snapshot_of :: "mmsi \<Rightarrow> vessel \<Rightarrow> event list" where
  "snapshot_of m v =
     (case v_last_pos v of
        Some ev \<Rightarrow> [ev]
      | None \<Rightarrow> if v_has_pos v then [synth_pos m v] else []) @
     (case v_last_static v of
        Some ev \<Rightarrow> [ev]
      | None \<Rightarrow> if (report_kind m v = ''vessel'' \<or> report_kind m v = ''sar'') \<and>
                   (v_name v \<noteq> [] \<or> v_ship_type v \<noteq> 0)
                then [synth_static m v] else [])"

definition snapshot_events :: "v1_sub \<Rightarrow> cache \<Rightarrow> event list" where
  "snapshot_events s c = concat (map (\<lambda>(m, v). snapshot_of m v) (each_match s c))"

section \<open>The record's side\<close>

text \<open>
  \<open>attachStore\<close> for one row: a vessel the cache holds keeps its state; a position older than the
  cache keeps is dropped from the row.
\<close>

definition demote :: "time \<Rightarrow> vessel \<Rightarrow> vessel" where
  "demote cutoff v =
     (if v_has_pos v \<and> v_pos_at v < cutoff
      then v\<lparr>v_has_pos := False, v_lat := 0, v_lon := 0, v_pos_at := zero_time, v_cog := 360,
             v_sog := 1023 / 10, v_heading := 511\<rparr>
      else v)"

definition restore_vessel :: "time \<Rightarrow> mmsi \<Rightarrow> vessel \<Rightarrow> cache \<Rightarrow> cache" where
  "restore_vessel cutoff m v c =
     (if map_of (c_vessels c) m \<noteq> None then c else put_vessel m (demote cutoff v) c)"

text \<open>\<open>flushRecord\<close>: the rows it copies under the lock, and what a failed write marks again.\<close>

definition record_take :: "vstate \<Rightarrow> (mmsi \<times> vessel) list \<times> vstate" where
  "record_take st =
     (case vs_dirty st of
        None \<Rightarrow> ([], st)
      | Some d \<Rightarrow>
          (concat (map (\<lambda>m. case map_of (c_vessels (vs_cache st)) m of
                              None \<Rightarrow> [] | Some v \<Rightarrow> [(m, state_of v)]) d),
           st\<lparr>vs_dirty := Some []\<rparr>))"

definition record_failed :: "(mmsi \<times> vessel) list \<Rightarrow> vstate \<Rightarrow> vstate" where
  "record_failed rows st = st\<lparr>vs_dirty := map_option (fold List.insert (map fst rows)) (vs_dirty st)\<rparr>"

text \<open>A read of the encoded Feature, which keeps it.\<close>

definition read_feature :: "mmsi \<Rightarrow> vstate \<Rightarrow> vstate" where
  "read_feature m st =
     (case map_of (c_vessels (vs_cache st)) m of
        None \<Rightarrow> st
      | Some v \<Rightarrow> st\<lparr>vs_cache := (vs_cache st)\<lparr>c_vessels := put m (snd (feature_json m v)) (c_vessels (vs_cache st))\<rparr>\<rparr>)"

section \<open>Copies of a transmission\<close>

text \<open>
  \<open>copyPoint\<close>: a dedupe copy as a reception; \<open>key\<close> is the dedupe key, \<open>tx\<close> when its
  transmission was accepted.
\<close>

definition copy_point :: "(string \<Rightarrow> string) \<Rightarrow> event \<Rightarrow> string \<Rightarrow> time \<Rightarrow> track_point option" where
  "copy_point event_id ev key tx =
     (case fold_of (ev_packet ev) of (u, has_pos, is_static) \<Rightarrow>
        if \<not> has_pos then None
        else Some
          ((new_track_point (user_id (ev_packet ev)) (ev_time ev) (v_lat u) (v_lon u) (v_sog u) (v_cog u)
              (v_heading u) (v_nav u) (source_kind (ev_source ev)))
             \<lparr>pt_tx_at := tx, pt_tx_disc := disc_of event_id (event_id key), pt_dup := True,
              pt_recv := ev_recv ev, pt_station := ev_station ev,
              pt_uncorroborated := low_trust (ev_source ev),
              pt_clock_bad := clock_bad_age \<le> time_sub (ev_recv ev) (ev_time ev)\<rparr>))"

definition from_transmission :: "cache \<Rightarrow> track_point \<Rightarrow> track_point" where
  "from_transmission c pt =
     (case map_of (c_vessels c) (pt_mmsi pt) of
        None \<Rightarrow> pt
      | Some v \<Rightarrow>
          (case sent (unix_milli (pt_tx_at pt)) (pt_lat6 pt) (pt_lon6 pt) (v_recent v) of
             Some r \<Rightarrow> pt\<lparr>pt_tx_disc := rp_disc r, pt_still := rp_still r\<rparr>
           | None \<Rightarrow> pt\<lparr>pt_still := snd (anchor_still (v_moved v) pt None False)\<rparr>))"

definition note_copy :: "(string \<Rightarrow> string) \<Rightarrow> event \<Rightarrow> string \<Rightarrow> time \<Rightarrow> bool \<Rightarrow> vstate \<Rightarrow> vstate" where
  "note_copy event_id ev key tx implausible st =
     (case copy_point event_id ev key tx of
        None \<Rightarrow> st
      | Some pt \<Rightarrow> st\<lparr>vs_chq := note_reception
                       (from_transmission (vs_cache st) (pt\<lparr>pt_implausible := implausible\<rparr>)) (vs_chq st)\<rparr>)"

section \<open>What each part of the fold changes\<close>

lemma note_folded_frame:
  assumes "note_folded event_id seeds ev v u stale prev q = (ev', v', q')"
  shows "v'\<lparr>v_moved := a, v_recent := rs\<rparr> = v\<lparr>v_moved := a, v_recent := rs\<rparr>"
    and "ring_ok (v_recent v) \<Longrightarrow> ring_ok (v_recent v')"
    and "ev'\<lparr>ev_unserved := b\<rparr> = ev\<lparr>ev_unserved := b\<rparr>"
  using assms
  by (simp_all only: note_folded_def Let_def split: prod.splits if_splits option.splits)
     (auto simp: remember_ok)

lemma note_folded_effect:
  assumes "note_folded event_id seeds ev v u stale prev q = (ev', v', q')"
  shows "v' = v\<lparr>v_moved := v_moved v', v_recent := v_recent v'\<rparr>"
    and "ev' = ev\<lparr>ev_unserved := ev_unserved ev'\<rparr>"
  using note_folded_frame(1) [OF assms, where a = "v_moved v'" and rs = "v_recent v'"]
    note_folded_frame(3) [OF assms, where b = "ev_unserved ev'"]
  by simp_all

lemma fold_particulars_frame [simp]:
  "v_lat (fold_particulars u v) = v_lat v" "v_lon (fold_particulars u v) = v_lon v"
  "v_has_pos (fold_particulars u v) = v_has_pos v" "v_pos_at (fold_particulars u v) = v_pos_at v"
  "v_cog (fold_particulars u v) = v_cog v" "v_sog (fold_particulars u v) = v_sog v"
  "v_heading (fold_particulars u v) = v_heading v" "v_cell (fold_particulars u v) = v_cell v"
  "v_indexed (fold_particulars u v) = v_indexed v" "v_recent (fold_particulars u v) = v_recent v"
  "v_moved (fold_particulars u v) = v_moved v" "v_feat (fold_particulars u v) = v_feat v"
  "v_last_pos (fold_particulars u v) = v_last_pos v" "v_last_static (fold_particulars u v) = v_last_static v"
  "v_trusted_at (fold_particulars u v) = v_trusted_at v" "v_seen (fold_particulars u v) = v_seen v"
  "v_static_at (fold_particulars u v) = v_static_at v" "v_nav (fold_particulars u v) = v_nav v"
  by (simp_all add: fold_particulars_def)

lemma fold_rest_frame [simp]:
  "v_lat (fold_rest cr hp st stale ev u v) = v_lat v" "v_lon (fold_rest cr hp st stale ev u v) = v_lon v"
  "v_has_pos (fold_rest cr hp st stale ev u v) = v_has_pos v" "v_pos_at (fold_rest cr hp st stale ev u v) = v_pos_at v"
  "v_cog (fold_rest cr hp st stale ev u v) = v_cog v" "v_sog (fold_rest cr hp st stale ev u v) = v_sog v"
  "v_heading (fold_rest cr hp st stale ev u v) = v_heading v" "v_cell (fold_rest cr hp st stale ev u v) = v_cell v"
  "v_indexed (fold_rest cr hp st stale ev u v) = v_indexed v" "v_recent (fold_rest cr hp st stale ev u v) = v_recent v"
  "v_moved (fold_rest cr hp st stale ev u v) = v_moved v" "v_feat (fold_rest cr hp st stale ev u v) = v_feat v"
  "v_last_pos (fold_rest cr hp st stale ev u v) = v_last_pos v"
  "v_last_static (fold_rest cr hp st stale ev u v) = v_last_static v"
  "v_trusted_at (fold_rest cr hp st stale ev u v) = v_trusted_at v"
  by (simp_all add: fold_rest_def fold_kind_def Let_def)

lemma fold_rest_seen:
  "v_seen (fold_rest cr hp st stale ev u v) = (if stale then v_seen v else ev_time ev)"
  by (simp add: fold_rest_def fold_kind_def Let_def)

lemma offsets_ok_rest:
  assumes "fold_of p = (u, hp, st)" "offsets_ok v"
  shows "offsets_ok (fold_rest cr hp' st' stale ev u v)"
proof -
  have nav: "v_length (fold_particulars u (v\<lparr>v_nav := n\<rparr>)) = v_length (fold_particulars u v)"
    "v_beam (fold_particulars u (v\<lparr>v_nav := n\<rparr>)) = v_beam (fold_particulars u v)"
    "v_dim (fold_particulars u (v\<lparr>v_nav := n\<rparr>)) = v_dim (fold_particulars u v)" for n
    by (simp_all add: fold_particulars_def)
  have "v_length (fold_rest cr hp' st' stale ev u v) = v_length (fold_particulars u v)"
    "v_beam (fold_rest cr hp' st' stale ev u v) = v_beam (fold_particulars u v)"
    "v_dim (fold_rest cr hp' st' stale ev u v) = v_dim (fold_particulars u v)"
    by (simp_all add: fold_rest_def fold_kind_def Let_def nav)
  then show ?thesis using offsets_ok_fold [OF assms] by (simp add: offsets_ok_def)
qed

lemma move_vessel_effect:
  assumes "cells_ok cs" "move_vessel ev u v cs = (v', cs')"
    "\<And>k. ev_mmsi ev \<in> set (get_or [] cs k) \<longleftrightarrow> v_indexed v \<and> v_cell v = k"
  shows "v' = v\<lparr>v_lat := v_lat u, v_lon := v_lon u, v_has_pos := True, v_pos_at := ev_time ev,
      v_cell := cell_of (v_lat u) (v_lon u), v_indexed := True, v_cog := v_cog u, v_sog := v_sog u,
      v_heading := v_heading u, v_trusted_at := (if ev_low_trust ev then v_trusted_at v else ev_time ev)\<rparr>"
    and "\<exists>v1. index_vessel (ev_mmsi ev)
      (v\<lparr>v_lat := v_lat u, v_lon := v_lon u, v_has_pos := True, v_pos_at := ev_time ev\<rparr>) cs = (v1, cs') \<and>
      v_cell v' = v_cell v1 \<and> v_indexed v' = v_indexed v1"
proof -
  let ?v = "v\<lparr>v_lat := v_lat u, v_lon := v_lon u, v_has_pos := True, v_pos_at := ev_time ev\<rparr>"
  obtain v1 where ix: "index_vessel (ev_mmsi ev) ?v cs = (v1, cs')"
    and v': "v' = v1\<lparr>v_cog := v_cog u, v_sog := v_sog u, v_heading := v_heading u,
      v_trusted_at := (if ev_low_trust ev then v_trusted_at v1 else ev_time ev)\<rparr>"
    using assms(2) by (auto simp: move_vessel_def split: prod.splits)
  have "v1 = ?v\<lparr>v_cell := cell_of (v_lat ?v) (v_lon ?v), v_indexed := True\<rparr>"
    using index_cells [OF assms(1) ix] assms(3) by auto
  then show "v' = v\<lparr>v_lat := v_lat u, v_lon := v_lon u, v_has_pos := True, v_pos_at := ev_time ev,
      v_cell := cell_of (v_lat u) (v_lon u), v_indexed := True, v_cog := v_cog u, v_sog := v_sog u,
      v_heading := v_heading u, v_trusted_at := (if ev_low_trust ev then v_trusted_at v else ev_time ev)\<rparr>"
    by (simp add: v')
  show "\<exists>v1. index_vessel (ev_mmsi ev) ?v cs = (v1, cs') \<and> v_cell v' = v_cell v1 \<and> v_indexed v' = v_indexed v1"
    using ix by (simp add: v')
qed

section \<open>The fleet\<close>

text \<open>
  What holds of every cached vessel: an encoded Feature is the Feature of its state, the ring of
  recent transmissions is within its bounds, a position is on the globe, the offsets add up,
  and a retained position event carries the position the vessel is at.
\<close>

definition vessel_full :: "mmsi \<Rightarrow> vessel \<Rightarrow> bool" where
  "vessel_full m v \<longleftrightarrow>
     (\<forall>f. v_feat v = Some f \<longrightarrow> f = feature m v) \<and> ring_ok (v_recent v) \<and> offsets_ok v \<and>
     (v_has_pos v \<longrightarrow> on_globe (v_lat v) (v_lon v)) \<and>
     (\<forall>e. v_last_pos v = Some e \<longrightarrow> v_has_pos v \<and> ev_has_pos e \<and> ev_mmsi e = m \<and>
        ev_lat e = v_lat v \<and> ev_lon e = v_lon v)"

definition fleet_ok :: "cache \<Rightarrow> bool" where
  "fleet_ok c \<longleftrightarrow> cache_ok c \<and> (\<forall>m v. map_of (c_vessels c) m = Some v \<longrightarrow> vessel_full m v)"

lemma vessel_for_full:
  "fleet_ok c \<Longrightarrow> vessel_full m (vessel_for kind_of m c) \<and> filed_as c m (vessel_for kind_of m c) \<and>
     vessel_ok (vessel_for kind_of m c)"
  by (auto simp: fleet_ok_def vessel_for_def vessel_full_def new_vessel_def offsets_ok_def no_dimension_def
      filed_as_def vessel_ok_def cache_ok_def split: option.split)

lemma feature_frame [simp]:
  "feature m (v\<lparr>v_moved := a\<rparr>) = feature m v" "feature m (v\<lparr>v_recent := rs\<rparr>) = feature m v"
  "feature m (v\<lparr>v_trusted_at := t\<rparr>) = feature m v"
  by (simp_all add: feature_def has_length_offsets_def has_beam_offsets_def Let_def)

lemma fleet_ok_put_same:
  assumes "fleet_ok c" "filed_as c m v" "vessel_ok v" "vessel_full m v"
  shows "fleet_ok (c\<lparr>c_vessels := put m v (c_vessels c)\<rparr>)"
  using assms cache_ok_put_same [of c m v] by (auto simp: fleet_ok_def map_of_put)

lemma fleet_ok_sweep: "fleet_ok c \<Longrightarrow> fleet_ok (sweep t c)"
  using sweep_effect [of c t] by (auto simp: fleet_ok_def split: option.splits if_splits)

lemma fleet_ok_sweep_due: "fleet_ok (vs_cache st) \<Longrightarrow> fleet_ok (vs_cache (sweep_due ev st))"
  by (simp add: sweep_due_def fleet_ok_sweep)

section \<open>The fold, case by case\<close>

lemma fold_rejected_effect:
  assumes "fold_rejected event_id seeds ev u v st = (ev', st')"
  obtains w where "vs_cache st' = (vs_cache st)\<lparr>c_vessels := put (ev_mmsi ev) w (c_vessels (vs_cache st))\<rparr>"
    "w = v\<lparr>v_moved := v_moved w, v_recent := v_recent w\<rparr>"
    "ring_ok (v_recent v) \<longrightarrow> ring_ok (v_recent w)"
    "ev' = ev\<lparr>ev_implausible := True, ev_unserved := ev_unserved ev'\<rparr>"
    "vs_next_sweep st' = vs_next_sweep st"
proof -
  obtain e w q where n: "note_folded event_id seeds (ev\<lparr>ev_implausible := True\<rparr>) v u False (prev_pos v) (vs_chq st)
      = (e, w, q)" by (metis prod_cases3)
  have "ev' = e" "st' = st\<lparr>vs_cache := (vs_cache st)\<lparr>c_vessels := put (ev_mmsi ev) w (c_vessels (vs_cache st))\<rparr>,
      vs_chq := q\<rparr>"
    using assms by (simp_all add: fold_rejected_def n)
  then show thesis
    using that [of w] note_folded_effect [OF n] note_folded_frame(2) [OF n] by simp
qed

text \<open>The vessel an accepted fold leaves: where it is, and what it remembers.\<close>

definition moves :: "event \<Rightarrow> vessel \<Rightarrow> vessel \<Rightarrow> bool \<Rightarrow> vessel \<Rightarrow> bool" where
  "moves ev u v moved w \<longleftrightarrow>
     (if moved
      then v_lat w = v_lat u \<and> v_lon w = v_lon u \<and> v_has_pos w \<and> v_pos_at w = ev_time ev \<and>
           v_cog w = v_cog u \<and> v_sog w = v_sog u \<and> v_heading w = v_heading u
      else v_lat w = v_lat v \<and> v_lon w = v_lon v \<and> v_has_pos w = v_has_pos v \<and> v_pos_at w = v_pos_at v \<and>
           v_cog w = v_cog v \<and> v_sog w = v_sog v \<and> v_heading w = v_heading v)"

lemma fold_accepted_effect:
  assumes acc: "fold_accepted event_id seeds created hp ist stale ev u v st = (ev', st')"
    and f: "fold_of (ev_packet ev) = (u, hp, ist)"
    and ok: "cache_ok (vs_cache st)" and fa: "filed_as (vs_cache st) (ev_mmsi ev) v" and vo: "vessel_ok v"
  obtains w cs where "vs_cache st' = \<lparr>c_vessels = put (ev_mmsi ev) w (c_vessels (vs_cache st)), c_cells = cs\<rparr>"
    "cache_ok (vs_cache st')" "moves ev u v (hp \<and> \<not> stale) w" "v_feat w = None"
    "ring_ok (v_recent v) \<longrightarrow> ring_ok (v_recent w)" "offsets_ok v \<longrightarrow> offsets_ok w"
    "v_last_pos w = (if hp \<and> \<not> stale then Some ev' else v_last_pos v)"
    "ev_implausible ev' = ev_implausible ev" "ev_stale ev' = ev_stale ev" "ev_mmsi ev' = ev_mmsi ev"
    "ev_time ev' = ev_time ev" "ev_has_pos ev' = v_has_pos w"
    "ev_lat ev' = (if stale \<and> hp then v_lat u else v_lat w)"
    "ev_lon ev' = (if stale \<and> hp then v_lon u else v_lon w)"
    "v_seen w = (if stale then v_seen v else ev_time ev)"
proof -
  let ?c = "vs_cache st" and ?v = "v\<lparr>v_feat := None\<rparr>"
  obtain v1 cs where m: "(if hp \<and> \<not> stale then move_vessel ev u ?v (c_cells ?c) else (?v, c_cells ?c)) = (v1, cs)"
    by fastforce
  define ev1 where "ev1 = ev\<lparr>ev_corroborated :=
      (\<not> ev_low_trust ev \<or> time_sub (ev_time ev) (v_trusted_at v1) < corroboration_window)\<rparr>"
  obtain ev2 v2 q where n: "(if hp then note_folded event_id seeds ev1 v1 u stale (prev_pos v) (vs_chq st)
      else (ev1, v1, vs_chq st)) = (ev2, v2, q)" by (metis prod_cases3)
  define v3 where "v3 = fold_rest created hp ist stale ev2 u v2"
  define w where "w = v3\<lparr>v_last_pos := (if hp \<and> \<not> stale then Some ev' else v_last_pos v3),
                  v_last_static := (if ist then Some ev' else v_last_static v3)\<rparr>"
  have ev': "ev' = stamp_event v3 u hp stale ev2"
    and st': "vs_cache st' = \<lparr>c_vessels = put (ev_mmsi ev) w (c_vessels ?c), c_cells = cs\<rparr>"
    using acc unfolding fold_accepted_def Let_def m prod.case ev1_def [symmetric] n w_def v3_def by auto
  have v2: "v2 = v1\<lparr>v_moved := v_moved v2, v_recent := v_recent v2\<rparr>"
    "ring_ok (v_recent v1) \<Longrightarrow> ring_ok (v_recent v2)" "ev2 = ev1\<lparr>ev_unserved := ev_unserved ev2\<rparr>"
  proof (atomize (full), cases hp)
    case True
    then have nf: "note_folded event_id seeds ev1 v1 u stale (prev_pos v) (vs_chq st) = (ev2, v2, q)" using n by simp
    show "v2 = v1\<lparr>v_moved := v_moved v2, v_recent := v_recent v2\<rparr> \<and>
      (ring_ok (v_recent v1) \<longrightarrow> ring_ok (v_recent v2)) \<and> ev2 = ev1\<lparr>ev_unserved := ev_unserved ev2\<rparr>"
      using note_folded_effect [OF nf] note_folded_frame(2) [OF nf] by blast
  qed (use n in simp)
  have only: "ev_mmsi ev \<in> set (get_or [] (c_cells ?c) k) \<longleftrightarrow> v_indexed ?v \<and> v_cell ?v = k" for k
    using filed_as_cells [OF ok fa] by simp
  have cok: "cells_ok (c_cells ?c)" using ok by (simp add: cache_ok_def)
  have ev2: "ev_time ev2 = ev_time ev" "ev_mmsi ev2 = ev_mmsi ev" "ev_implausible ev2 = ev_implausible ev"
    "ev_stale ev2 = ev_stale ev"
    by (subst v2(3); simp add: ev1_def)+
  have same: "v_lat w = v_lat v1" "v_lon w = v_lon v1" "v_has_pos w = v_has_pos v1" "v_pos_at w = v_pos_at v1"
    "v_cog w = v_cog v1" "v_sog w = v_sog v1" "v_heading w = v_heading v1" "v_cell w = v_cell v1"
    "v_indexed w = v_indexed v1" "v_feat w = v_feat v1" "v_recent w = v_recent v2"
    unfolding w_def v3_def by (simp_all, (subst v2(1), simp)+)
  have seen: "v_seen w = (if stale then v_seen v1 else ev_time ev)"
    unfolding w_def v3_def by (simp add: fold_rest_seen ev2, subst v2(1), simp)
  have lastp: "v_last_pos w = (if hp \<and> \<not> stale then Some ev' else v_last_pos v1)"
    unfolding w_def v3_def by (simp, subst v2(1), simp)
  have off: "offsets_ok v1 \<Longrightarrow> offsets_ok w"
  proof -
    assume "offsets_ok v1"
    then have "offsets_ok v2" by (subst v2(1)) (simp add: offsets_ok_def)
    then have "offsets_ok v3" unfolding v3_def by (rule offsets_ok_rest [OF f])
    then show "offsets_ok w" by (simp add: w_def offsets_ok_def)
  qed
  have evs: "ev_implausible ev' = ev_implausible ev" "ev_stale ev' = ev_stale ev" "ev_mmsi ev' = ev_mmsi ev"
    "ev_time ev' = ev_time ev" "ev_has_pos ev' = v_has_pos w"
    "ev_lat ev' = (if stale \<and> hp then v_lat u else v_lat w)" "ev_lon ev' = (if stale \<and> hp then v_lon u else v_lon w)"
    unfolding ev' stamp_event_def w_def by (simp_all add: ev2)
  show thesis
  proof (cases "hp \<and> \<not> stale")
    case True
    then have mv: "move_vessel ev u ?v (c_cells ?c) = (v1, cs)" using m by simp
    note me = move_vessel_effect [OF cok mv only]
    obtain vi where ix: "index_vessel (ev_mmsi ev)
        (?v\<lparr>v_lat := v_lat u, v_lon := v_lon u, v_has_pos := True, v_pos_at := ev_time ev\<rparr>) (c_cells ?c) = (vi, cs)"
      "v_cell v1 = v_cell vi" "v_indexed v1 = v_indexed vi" using me(2) by blast
    have "cache_ok (vs_cache st')" unfolding st'
    proof (rule cache_ok_put_index [OF ok _ ix(1)])
      show "filed_as ?c (ev_mmsi ev)
          (?v\<lparr>v_lat := v_lat u, v_lon := v_lon u, v_has_pos := True, v_pos_at := ev_time ev\<rparr>)"
        using fa by (simp add: filed_as_def split: option.splits)
    qed (use ix(2,3) me(1) in \<open>simp_all add: same\<close>)
    then show thesis
      using that [OF st' _ _ _ _ _ _ evs] lastp True me(1) off v2(2) seen
      by (simp add: same moves_def offsets_ok_def)
  next
    case False
    then have m': "v1 = ?v" "cs = c_cells ?c" using m by (auto split: if_splits)
    have "vs_cache st' = ?c\<lparr>c_vessels := put (ev_mmsi ev) w (c_vessels ?c)\<rparr>" using st' m' by simp
    moreover have "filed_as ?c (ev_mmsi ev) w" using fa m' by (simp add: filed_as_def same split: option.splits)
    moreover have "vessel_ok w" using vo m' by (simp add: vessel_ok_def same)
    ultimately have "cache_ok (vs_cache st')" using cache_ok_put_same [OF ok] by simp
    then show thesis
      using that [OF st' _ _ _ _ _ _ evs] lastp False m' off v2(2) seen
      by (simp add: same moves_def offsets_ok_def)
  qed
qed

section \<open>The fold keeps the fleet\<close>

lemma vessel_full_rejected:
  assumes "vessel_full m v" "w = v\<lparr>v_moved := a, v_recent := rs\<rparr>" "ring_ok rs"
  shows "vessel_full m w"
  using assms by (simp add: vessel_full_def offsets_ok_def)

lemma feature_json_full: "vessel_full m v \<Longrightarrow> vessel_full m (snd (feature_json m v))"
proof -
  have "feature m (v\<lparr>v_feat := f\<rparr>) = feature m v" for f
    by (simp add: feature_def has_length_offsets_def has_beam_offsets_def Let_def)
  then show "vessel_full m v \<Longrightarrow> vessel_full m (snd (feature_json m v))"
    by (auto simp: feature_json_def vessel_full_def offsets_ok_def split: option.split)
qed

lemma fleet_ok_get: "fleet_ok c \<Longrightarrow> map_of (c_vessels c) m = Some v \<Longrightarrow> vessel_full m v \<and> vessel_ok v \<and> filed_as c m v"
  by (auto simp: fleet_ok_def cache_ok_def filed_as_def)

lemma fleet_ok_fold_rejected:
  assumes "fold_rejected event_id seeds ev u v st = (ev', st')"
    and "fleet_ok (vs_cache st)" "vessel_full (ev_mmsi ev) v" "filed_as (vs_cache st) (ev_mmsi ev) v" "vessel_ok v"
  shows "fleet_ok (vs_cache st')"
proof -
  obtain w where w: "vs_cache st' = (vs_cache st)\<lparr>c_vessels := put (ev_mmsi ev) w (c_vessels (vs_cache st))\<rparr>"
    "w = v\<lparr>v_moved := v_moved w, v_recent := v_recent w\<rparr>" "ring_ok (v_recent v) \<longrightarrow> ring_ok (v_recent w)"
    using fold_rejected_effect [OF assms(1)] by metis
  have "vessel_full (ev_mmsi ev) w"
    using vessel_full_rejected [OF assms(3) w(2)] w(3) assms(3) by (simp add: vessel_full_def)
  moreover have "v_indexed w = v_indexed v" "v_cell w = v_cell v" "v_has_pos w = v_has_pos v"
    "v_lat w = v_lat v" "v_lon w = v_lon v"
    by (subst w(2), simp)+
  then have "filed_as (vs_cache st) (ev_mmsi ev) w" "vessel_ok w"
    using assms(4,5) by (simp_all add: filed_as_def vessel_ok_def split: option.splits)
  ultimately show ?thesis unfolding w(1) using fleet_ok_put_same [OF assms(2)] by simp
qed

lemma fleet_ok_fold_accepted:
  assumes acc: "fold_accepted event_id seeds created hp ist stale ev u v st = (ev', st')"
    and f: "fold_of (ev_packet ev) = (u, hp, ist)"
    and fl: "fleet_ok (vs_cache st)" and vf: "vessel_full (ev_mmsi ev) v"
    and fa: "filed_as (vs_cache st) (ev_mmsi ev) v" and vo: "vessel_ok v"
  shows "fleet_ok (vs_cache st')"
proof -
  have ok: "cache_ok (vs_cache st)" using fl by (simp add: fleet_ok_def)
  obtain w cs where w: "vs_cache st' = \<lparr>c_vessels = put (ev_mmsi ev) w (c_vessels (vs_cache st)), c_cells = cs\<rparr>"
    "cache_ok (vs_cache st')" "moves ev u v (hp \<and> \<not> stale) w" "v_feat w = None"
    "ring_ok (v_recent v) \<longrightarrow> ring_ok (v_recent w)" "offsets_ok v \<longrightarrow> offsets_ok w"
    "v_last_pos w = (if hp \<and> \<not> stale then Some ev' else v_last_pos v)"
    "ev_mmsi ev' = ev_mmsi ev" "ev_has_pos ev' = v_has_pos w"
    "ev_lat ev' = (if stale \<and> hp then v_lat u else v_lat w)"
    "ev_lon ev' = (if stale \<and> hp then v_lon u else v_lon w)"
    by (rule fold_accepted_effect [OF acc f ok fa vo]) (rule that; assumption)
  have "vessel_full (ev_mmsi ev) w"
    using w(3-) vf fold_of_on_globe [of "ev_packet ev" u ist] f
    by (auto simp: vessel_full_def moves_def split: if_splits)
  then show ?thesis using w(1,2) fl by (auto simp: fleet_ok_def map_of_put)
qed

lemma fleet_ok_update:
  assumes "fleet_ok (vs_cache st)"
  shows "fleet_ok (vs_cache (snd (update_vessel event_id seeds kind_of ev st)))"
proof -
  obtain u hp ist where f: "fold_of (ev_packet ev) = (u, hp, ist)" by (metis prod_cases3)
  let ?s = "sweep_due ev st"
  define v where "v = vessel_for kind_of (ev_mmsi ev) (vs_cache ?s)"
  define stale where "stale = stale_for v (ev_time ev) hp ist (ev_rebuilt ev)"
  define e where "e = ev\<lparr>ev_stale := stale\<rparr>"
  have fl: "fleet_ok (vs_cache ?s)" using assms by (rule fleet_ok_sweep_due)
  have v: "vessel_full (ev_mmsi e) v" "filed_as (vs_cache ?s) (ev_mmsi e) v" "vessel_ok v"
    using vessel_for_full [OF fl, of "ev_mmsi ev" kind_of] by (simp_all add: v_def e_def)
  have fe: "fold_of (ev_packet e) = (u, hp, ist)" using f by (simp add: e_def)
  have r: "fleet_ok (vs_cache (snd (fold_rejected event_id seeds e u v ?s)))"
    using fleet_ok_fold_rejected [OF _ fl v] by (metis prod.collapse)
  have a: "fleet_ok (vs_cache (snd (fold_accepted event_id seeds cr hp ist stale e u v ?s)))" for cr
    using fleet_ok_fold_accepted [OF _ fe fl v] by (metis prod.collapse)
  have "update_vessel event_id seeds kind_of ev st =
    (if hp \<and> \<not> stale \<and> v_has_pos v \<and> implausible_move v e u then fold_rejected event_id seeds e u v ?s
     else fold_accepted event_id seeds (map_of (c_vessels (vs_cache ?s)) (ev_mmsi ev) = None) hp ist stale e u v ?s)"
    unfolding update_vessel_def f prod.case Let_def v_def stale_def e_def by (rule refl)
  then show ?thesis using r a by simp
qed

lemma fleet_ok_mark_trusted:
  assumes "fleet_ok (vs_cache st)"
  shows "fleet_ok (vs_cache (mark_trusted m t st))"
proof (cases "map_of (c_vessels (vs_cache st)) m")
  case (Some v)
  have "vessel_full m (v\<lparr>v_trusted_at := t\<rparr>) \<and> vessel_ok (v\<lparr>v_trusted_at := t\<rparr>) \<and>
      filed_as (vs_cache st) m (v\<lparr>v_trusted_at := t\<rparr>)"
    using fleet_ok_get [OF assms Some]
    by (auto simp: vessel_full_def vessel_ok_def filed_as_def offsets_ok_def split: option.splits)
  then show ?thesis using Some assms fleet_ok_put_same [OF assms] by (simp add: mark_trusted_def)
qed (simp add: mark_trusted_def assms)

lemma fleet_ok_read:
  assumes "fleet_ok (vs_cache st)"
  shows "fleet_ok (vs_cache (read_feature m st))"
proof (cases "map_of (c_vessels (vs_cache st)) m")
  case (Some v)
  have "vessel_full m (snd (feature_json m v)) \<and> vessel_ok (snd (feature_json m v)) \<and>
      filed_as (vs_cache st) m (snd (feature_json m v))"
    using fleet_ok_get [OF assms Some] feature_json_full [of m v]
    by (auto simp: vessel_ok_def filed_as_def feature_json_def split: option.splits)
  then show ?thesis using Some assms fleet_ok_put_same [OF assms] by (simp add: read_feature_def)
qed (simp add: read_feature_def assms)

text \<open>A row as the record keeps it.\<close>

definition row_ok :: "vessel \<Rightarrow> bool" where
  "row_ok v \<longleftrightarrow> \<not> v_indexed v \<and> v_feat v = None \<and> v_recent v = [] \<and> v_last_pos v = None \<and>
     offsets_ok v \<and> (v_has_pos v \<longrightarrow> on_globe (v_lat v) (v_lon v))"

lemma put_vessel_get:
  "map_of (c_vessels (put_vessel m v c)) x =
     (if x = m then Some (if v_has_pos v then fst (index_vessel m v (c_cells c)) else v)
      else map_of (c_vessels c) x)"
  by (simp add: put_vessel_def map_of_put split: prod.split)

lemma fleet_ok_restore:
  assumes "fleet_ok c" "row_ok v"
  shows "fleet_ok (restore_vessel cutoff m v c)"
proof (cases "map_of (c_vessels c) m")
  case None
  let ?v = "demote cutoff v"
  have d: "row_ok ?v" "\<not> v_indexed ?v" using assms(2) by (auto simp: demote_def row_ok_def offsets_ok_def)
  have fa: "filed_as c m ?v" using None d by (simp add: filed_as_def)
  have ok: "cache_ok c" using assms(1) by (simp add: fleet_ok_def)
  have c': "cache_ok (put_vessel m ?v c)"
    using ok fa d by (intro cache_ok_put_vessel) (auto simp: vessel_ok_def)
  have "vessel_full m ?v" using d(1) by (simp add: row_ok_def vessel_full_def)
  moreover have "vessel_full m (fst (index_vessel m ?v (c_cells c)))" if "v_has_pos ?v"
  proof -
    have "cells_ok (c_cells c)" using ok by (simp add: cache_ok_def)
    from index_cells [OF this _ filed_as_cells [OF ok fa], of "fst (index_vessel m ?v (c_cells c))"]
    have "fst (index_vessel m ?v (c_cells c)) =
      ?v\<lparr>v_cell := cell_of (v_lat ?v) (v_lon ?v), v_indexed := True\<rparr>" by (metis prod.collapse)
    then show ?thesis using d(1) by (simp add: row_ok_def vessel_full_def offsets_ok_def)
  qed
  ultimately have "vessel_full x y" if "map_of (c_vessels (put_vessel m ?v c)) x = Some y" for x y
    using that assms(1) by (auto simp: put_vessel_get fleet_ok_def split: if_splits)
  then show ?thesis using c' None by (simp add: restore_vessel_def fleet_ok_def)
qed (use assms in \<open>simp add: restore_vessel_def\<close>)

section \<open>Runs of the cache\<close>

text \<open>
  A run of the cache and of the record's writer: folds, trusted copies, reads of a Feature, a row
  restored at the start, and a flush in its two steps. \<open>fr_rows\<close> is the flush in flight and
  \<open>fr_written\<close> the latest state the record accepted for each vessel.
\<close>

record fleet_run =
  fr_state :: vstate
  fr_rows :: "(mmsi \<times> vessel) list"
  fr_written :: "(mmsi \<times> vessel) list"

definition fleet_start :: "chq \<Rightarrow> fleet_run" where
  "fleet_start q =
     \<lparr>fr_state = \<lparr>vs_cache = \<lparr>c_vessels = [], c_cells = []\<rparr>, vs_next_sweep = zero_time,
                  vs_dirty = Some [], vs_chq = q\<rparr>, fr_rows = [], fr_written = []\<rparr>"

definition write_rows :: "(mmsi \<times> vessel) list \<Rightarrow> (mmsi \<times> vessel) list \<Rightarrow> (mmsi \<times> vessel) list" where
  "write_rows rows written = fold (\<lambda>(m, v). put m v) rows written"

inductive fleet_reach :: "(string \<Rightarrow> string) \<Rightarrow> (mmsi \<Rightarrow> anchor option) \<Rightarrow> fleet_run \<Rightarrow> bool"
  for event_id seeds where
  start: "fleet_reach event_id seeds (fleet_start q)"
| fold: "fleet_reach event_id seeds r \<Longrightarrow>
    fleet_reach event_id seeds
      (r\<lparr>fr_state := snd (update_vessel event_id seeds kind_of ev (fr_state r))\<rparr>)"
| trust: "fleet_reach event_id seeds r \<Longrightarrow>
    fleet_reach event_id seeds (r\<lparr>fr_state := mark_trusted m t (fr_state r)\<rparr>)"
| read: "fleet_reach event_id seeds r \<Longrightarrow>
    fleet_reach event_id seeds (r\<lparr>fr_state := read_feature m (fr_state r)\<rparr>)"
| copy: "fleet_reach event_id seeds r \<Longrightarrow>
    fleet_reach event_id seeds (r\<lparr>fr_state := note_copy event_id ev key tx bad (fr_state r)\<rparr>)"
| restore: "fleet_reach event_id seeds r \<Longrightarrow> row_ok v \<Longrightarrow> fr_rows r = [] \<Longrightarrow>
    fleet_reach event_id seeds
      (r\<lparr>fr_state := (fr_state r)\<lparr>vs_cache := restore_vessel cutoff m v (vs_cache (fr_state r))\<rparr>,
         fr_written := (if map_of (c_vessels (vs_cache (fr_state r))) m = None
                        then put m v (fr_written r) else fr_written r)\<rparr>)"
| flush_take: "fleet_reach event_id seeds r \<Longrightarrow> fr_rows r = [] \<Longrightarrow>
    record_take (fr_state r) = (rows, st) \<Longrightarrow>
    fleet_reach event_id seeds (r\<lparr>fr_state := st, fr_rows := rows\<rparr>)"
| flush_ok: "fleet_reach event_id seeds r \<Longrightarrow>
    fleet_reach event_id seeds (r\<lparr>fr_rows := [], fr_written := write_rows (fr_rows r) (fr_written r)\<rparr>)"
| flush_failed: "fleet_reach event_id seeds r \<Longrightarrow>
    fleet_reach event_id seeds (r\<lparr>fr_state := record_failed (fr_rows r) (fr_state r), fr_rows := []\<rparr>)"

lemma fleet_ok_start: "fleet_ok (vs_cache (fr_state (fleet_start q)))"
  by (simp add: fleet_start_def fleet_ok_def empty_cache_ok)

lemma fleet_reach_ok: "fleet_reach event_id seeds r \<Longrightarrow> fleet_ok (vs_cache (fr_state r))"
proof (induction rule: fleet_reach.induct)
  case (copy r ev key tx bad)
  then show ?case by (simp add: note_copy_def split: option.split)
next
  case (flush_take r rows st)
  then show ?case by (auto simp: record_take_def split: option.splits)
qed (simp_all add: fleet_ok_start fleet_ok_update fleet_ok_mark_trusted fleet_ok_read fleet_ok_restore
      record_failed_def)

definition sample_report :: event where
  "sample_report =
     (new_event 1000000000 2000000000 ''kystverket'' ''kystverket'' CHR ''A'' ''p''
        (PositionReport (hdr 1 257000001)
           \<lparr>m_lat = 60, m_lon = 5, m_cog = 90, m_sog = 8, m_heading = 91, m_timestamp = 1\<rparr> 0) [])
       \<lparr>ev_mmsi := 257000001, ev_type := ''PositionReport''\<rparr>"

definition sample_run :: fleet_run where
  "sample_run = (fleet_start (detached 0))\<lparr>fr_state :=
     snd (update_vessel id (\<lambda>_. None) (\<lambda>_. []) sample_report (fr_state (fleet_start (detached 0))))\<rparr>"

definition sample_row :: vessel where
  "sample_row = new_vessel\<lparr>v_lat := 60, v_lon := 5, v_has_pos := True, v_pos_at := 1, v_dim := no_dimension\<rparr>"

definition sample_restored :: fleet_run where
  "sample_restored = (fleet_start (detached 0))\<lparr>
     fr_state := (fr_state (fleet_start (detached 0)))\<lparr>vs_cache :=
       restore_vessel 0 257000001 sample_row (vs_cache (fr_state (fleet_start (detached 0))))\<rparr>,
     fr_written := put 257000001 sample_row []\<rparr>"

lemma sample_restored_reached: "fleet_reach id (\<lambda>_. None) sample_restored"
proof -
  have "row_ok sample_row"
    by (simp add: row_ok_def sample_row_def new_vessel_def offsets_ok_def no_dimension_def on_globe_def)
  from fleet_reach.restore [OF fleet_reach.start [of id "\<lambda>_. None" "detached 0"] this, of 257000001 0]
  show ?thesis by (simp add: sample_restored_def fleet_start_def)
qed

lemma sample_restored_get:
  "map_of (c_vessels (vs_cache (fr_state sample_restored))) 257000001 =
     Some (sample_row\<lparr>v_cell := cell_of 60 5, v_indexed := True\<rparr>)"
  by (simp add: sample_restored_def fleet_start_def restore_vessel_def put_vessel_get demote_def
      index_vessel_def unindex_vessel_def sample_row_def new_vessel_def Let_def)

lemma sample_run_reached: "fleet_reach id (\<lambda>_. None) sample_run"
  unfolding sample_run_def by (rule fleet_reach.fold) (rule fleet_reach.start)

text \<open>
  C8. The vessel cache stays consistent through every interleaving of folds, trusted copies,
  sweeps, reads, restored rows and flushes: the spatial index files exactly the vessels with a
  position, each under the cell of where it is and nowhere else; an encoded Feature that is kept
  is the Feature of the vessel's present state; the ring of recent transmissions is within its
  bounds; positions are on the globe; and a retained position event is where the vessel is.
\<close>

theorem fleet_invariant:
  assumes "fleet_reach event_id seeds r"
  shows "fleet_ok (vs_cache (fr_state r))"
  using fleet_reach_ok [OF assms] .

theorem fleet_invariant_witness: "fleet_ok (vs_cache (fr_state sample_run))"
  by (rule fleet_invariant [OF sample_run_reached])



section \<open>The record is never behind\<close>

text \<open>
  A row holds a cached vessel's state: the state itself, or, of a row restored with a position older
  than the cache keeps, the state with that position left out.
\<close>

definition row_holds :: "vessel option \<Rightarrow> vessel \<Rightarrow> bool" where
  "row_holds row v \<longleftrightarrow> (\<exists>w cutoff. row = Some w \<and> state_of v = state_of (demote cutoff w))"

definition in_step :: "fleet_run \<Rightarrow> mmsi \<Rightarrow> vessel \<Rightarrow> bool" where
  "in_step r m v \<longleftrightarrow>
     (\<exists>d. vs_dirty (fr_state r) = Some d \<and> m \<in> set d) \<or> (m, state_of v) \<in> set (fr_rows r) \<or>
     m \<notin> fst ` set (fr_rows r) \<and> row_holds (map_of (fr_written r) m) v"

lemma row_holds_same: "row_holds (Some (state_of v)) v"
  unfolding row_holds_def by (rule exI [of _ "state_of v"], rule exI [of _ "v_pos_at v"])
    (simp add: demote_def state_of_def)

definition record_ok :: "fleet_run \<Rightarrow> bool" where
  "record_ok r \<longleftrightarrow> vs_dirty (fr_state r) \<noteq> None \<and>
     (\<forall>d. vs_dirty (fr_state r) = Some d \<longrightarrow> distinct d) \<and> is_map (fr_rows r) \<and>
     (\<forall>m v. map_of (c_vessels (vs_cache (fr_state r))) m = Some v \<longrightarrow> in_step r m v)"

lemma state_of_more [simp]:
  "state_of (v\<lparr>v_moved := a\<rparr>) = state_of v" "state_of (v\<lparr>v_recent := rs\<rparr>) = state_of v"
  "state_of (v\<lparr>v_feat := f\<rparr>) = state_of v" "state_of (v\<lparr>v_cell := k\<rparr>) = state_of v"
  "state_of (v\<lparr>v_indexed := b\<rparr>) = state_of v"
  by (simp_all add: state_of_def)

lemma sweep_due_get:
  "fleet_ok (vs_cache st) \<Longrightarrow> map_of (c_vessels (vs_cache (sweep_due ev st))) m = Some v \<Longrightarrow>
   map_of (c_vessels (vs_cache st)) m = Some v"
  using sweep_effect [of "vs_cache st" "ev_recv ev - vessel_ttl", THEN conjunct2, THEN spec, of m]
  by (auto simp: sweep_due_def fleet_ok_def split: option.splits if_splits)

lemma sweep_due_dirty [simp]: "vs_dirty (sweep_due ev st) = vs_dirty st"
  by (simp add: sweep_due_def)

text \<open>A fold either marks its vessel dirty, or leaves every vessel's row as it was.\<close>

lemma update_marks:
  assumes ok: "fleet_ok (vs_cache st)"
    and up: "update_vessel event_id seeds kind_of ev st = (ev', st')"
    and m: "map_of (c_vessels (vs_cache st')) m = Some w"
  shows "(m = ev_mmsi ev \<and> vs_dirty st' = map_option (List.insert m) (vs_dirty st)) \<or>
    (\<exists>v. map_of (c_vessels (vs_cache st)) m = Some v \<and> state_of w = state_of v \<and>
       (vs_dirty st' = vs_dirty st \<or> vs_dirty st' = map_option (List.insert (ev_mmsi ev)) (vs_dirty st)))"
proof -
  obtain u hp ist where f: "fold_of (ev_packet ev) = (u, hp, ist)" by (metis prod_cases3)
  let ?s = "sweep_due ev st"
  define v where "v = vessel_for kind_of (ev_mmsi ev) (vs_cache ?s)"
  define stale where "stale = stale_for v (ev_time ev) hp ist (ev_rebuilt ev)"
  define e where "e = ev\<lparr>ev_stale := stale\<rparr>"
  define cr where "cr = (map_of (c_vessels (vs_cache ?s)) (ev_mmsi ev) = None)"
  have fl: "fleet_ok (vs_cache ?s)" using ok by (rule fleet_ok_sweep_due)
  have eq: "update_vessel event_id seeds kind_of ev st =
    (if hp \<and> \<not> stale \<and> v_has_pos v \<and> implausible_move v e u then fold_rejected event_id seeds e u v ?s
     else fold_accepted event_id seeds cr hp ist stale e u v ?s)"
    unfolding update_vessel_def f prod.case Let_def v_def stale_def e_def cr_def by (rule refl)
  show ?thesis
  proof (cases "hp \<and> \<not> stale \<and> v_has_pos v \<and> implausible_move v e u")
    case True
    then have rj: "fold_rejected event_id seeds e u v ?s = (ev', st')" using eq up by simp
    obtain w' where w': "vs_cache st' = (vs_cache ?s)\<lparr>c_vessels := put (ev_mmsi e) w' (c_vessels (vs_cache ?s))\<rparr>"
      "w' = v\<lparr>v_moved := v_moved w', v_recent := v_recent w'\<rparr>"
      by (rule fold_rejected_effect [OF rj]) (rule that; assumption)
    have d: "vs_dirty st' = vs_dirty st"
      using rj by (auto simp: fold_rejected_def split: prod.splits)
    show ?thesis
    proof (cases "m = ev_mmsi ev")
      case m': True
      have "map_of (c_vessels (vs_cache ?s)) m = Some v"
        using True m' by (auto simp: v_def vessel_for_def new_vessel_def split: option.splits if_splits)
      then have "map_of (c_vessels (vs_cache st)) m = Some v" by (rule sweep_due_get [OF ok])
      moreover have "state_of w' = state_of v" by (subst w'(2)) simp
      ultimately show ?thesis using m w'(1) m' d by (auto simp: map_of_put e_def)
    next
      case False
      then have "map_of (c_vessels (vs_cache ?s)) m = Some w" using m w'(1) by (simp add: map_of_put e_def)
      then show ?thesis using sweep_due_get [OF ok] d by blast
    qed
  next
    case False
    then have ac: "fold_accepted event_id seeds cr hp ist stale e u v ?s = (ev', st')"
      using trans [OF eq if_not_P [OF False]] up by simp
    have d: "vs_dirty st' = map_option (List.insert (ev_mmsi ev)) (vs_dirty st)"
      using ac by (auto simp: fold_accepted_def Let_def e_def split: prod.splits)
    obtain x cs where x: "c_vessels (vs_cache st') = put (ev_mmsi ev) x (c_vessels (vs_cache ?s))"
      using ac by (auto simp: fold_accepted_def Let_def e_def split: prod.splits)
    show ?thesis
      using m x d sweep_due_get [OF ok, of ev m w] by (cases "m = ev_mmsi ev") (auto simp: map_of_put)
  qed
qed

lemma row_holds_state: "state_of w = state_of v \<Longrightarrow> row_holds row v \<Longrightarrow> row_holds row w"
  by (simp add: row_holds_def)

lemma in_step_state: "in_step r m v \<Longrightarrow> state_of w = state_of v \<Longrightarrow> in_step r m w"
  by (simp add: in_step_def row_holds_def)

lemma in_step_dirtier:
  "in_step r m v \<Longrightarrow> vs_dirty st = vs_dirty (fr_state r) \<or> vs_dirty st = map_option (List.insert x) (vs_dirty (fr_state r)) \<Longrightarrow>
   in_step (r\<lparr>fr_state := st\<rparr>) m v"
  by (auto simp: in_step_def)

lemma write_rows_get:
  "is_map rows \<Longrightarrow> map_of (write_rows rows written) m =
     (case map_of rows m of None \<Rightarrow> map_of written m | Some v \<Rightarrow> Some v)"
proof (induction rows arbitrary: written)
  case Nil
  then show ?case by (simp add: write_rows_def)
next
  case (Cons e rows)
  obtain k x where e: "e = (k, x)" by fastforce
  have "map_of rows k = None" using Cons.prems e by (auto simp: map_of_eq_None_iff)
  then show ?case using Cons.IH [of "put k x written"] Cons.prems
    by (auto simp: e write_rows_def map_of_put split: option.split)
qed

lemma fold_insert_set: "set (fold List.insert xs d) = set d \<union> set xs"
  by (induction xs arbitrary: d) auto

lemma fold_insert_distinct: "distinct d \<Longrightarrow> distinct (fold List.insert xs d)"
  by (induction xs arbitrary: d) auto

lemma record_ok_fold:
  assumes ok: "fleet_ok (vs_cache (fr_state r))" and rec: "record_ok r"
  shows "record_ok (r\<lparr>fr_state := snd (update_vessel event_id seeds kind_of ev (fr_state r))\<rparr>)"
proof -
  obtain ev' st' where up: "update_vessel event_id seeds kind_of ev (fr_state r) = (ev', st')" by fastforce
  obtain d where d: "vs_dirty (fr_state r) = Some d" "distinct d" using rec by (auto simp: record_ok_def)
  have dirty: "vs_dirty st' = Some d \<or> vs_dirty st' = Some (List.insert (ev_mmsi ev) d)"
  proof -
    have "vs_dirty st' \<in> {vs_dirty (fr_state r), map_option (List.insert (ev_mmsi ev)) (vs_dirty (fr_state r))}"
      using up by (auto simp: update_vessel_def fold_rejected_def fold_accepted_def Let_def split: prod.splits if_splits)
    then show ?thesis using d(1) by auto
  qed
  have "in_step (r\<lparr>fr_state := st'\<rparr>) m w" if w: "map_of (c_vessels (vs_cache st')) m = Some w" for m w
    using update_marks [OF ok up w]
  proof (elim disjE exE conjE)
    assume "m = ev_mmsi ev" "vs_dirty st' = map_option (List.insert m) (vs_dirty (fr_state r))"
    then show ?thesis using d(1) by (simp add: in_step_def)
  next
    fix v assume v: "map_of (c_vessels (vs_cache (fr_state r))) m = Some v" "state_of w = state_of v"
    have "in_step r m v" using rec v(1) by (simp add: record_ok_def)
    then have "in_step r m w" using v(2) by (rule in_step_state)
    then show "in_step (r\<lparr>fr_state := st'\<rparr>) m w" using dirty d(1) by (intro in_step_dirtier) auto
    then show "in_step (r\<lparr>fr_state := st'\<rparr>) m w" .
  qed
  then show ?thesis using dirty d rec by (auto simp: up record_ok_def)
qed

lemma record_ok_put_same:
  assumes rec: "record_ok r" and v: "map_of (c_vessels (vs_cache (fr_state r))) m = Some v"
    and st: "c_vessels (vs_cache st) = put m w (c_vessels (vs_cache (fr_state r)))"
    and d: "vs_dirty st = vs_dirty (fr_state r) \<and> state_of w = state_of v \<or>
            vs_dirty st = map_option (List.insert m) (vs_dirty (fr_state r))"
  shows "record_ok (r\<lparr>fr_state := st\<rparr>)"
proof -
  have "in_step (r\<lparr>fr_state := st\<rparr>) x y" if xy: "map_of (c_vessels (vs_cache st)) x = Some y" for x y
  proof (cases "x = m")
    case True
    have "in_step r m v" using rec v by (simp add: record_ok_def)
    then show ?thesis using d True xy st rec
      by (auto simp: map_of_put in_step_def record_ok_def dest: row_holds_state)
  next
    case False
    then have "in_step r x y" using rec xy st by (auto simp: record_ok_def map_of_put)
    then show ?thesis using d by (intro in_step_dirtier [where x = m]) auto
  qed
  then show ?thesis using rec d by (auto simp: record_ok_def)
qed

lemma record_ok_same_vessels:
  "record_ok r \<Longrightarrow> vs_cache st = vs_cache (fr_state r) \<Longrightarrow> vs_dirty st = vs_dirty (fr_state r) \<Longrightarrow>
   record_ok (r\<lparr>fr_state := st\<rparr>)"
  by (simp add: record_ok_def in_step_def)

lemma record_ok_take:
  assumes rec: "record_ok r" and none: "fr_rows r = []" and take: "record_take (fr_state r) = (rows, st)"
  shows "record_ok (r\<lparr>fr_state := st, fr_rows := rows\<rparr>)"
proof -
  let ?vs = "c_vessels (vs_cache (fr_state r))"
  obtain d where d: "vs_dirty (fr_state r) = Some d" "distinct d" using rec by (auto simp: record_ok_def)
  define f where "f m = (case map_of ?vs m of None \<Rightarrow> [] | Some v \<Rightarrow> [(m, state_of v)])" for m
  have rows: "rows = concat (map f d)" "st = (fr_state r)\<lparr>vs_dirty := Some []\<rparr>"
    using take d(1) by (auto simp: record_take_def f_def [abs_def])
  have fm: "(m, x) \<in> set (f k) \<longleftrightarrow> k = m \<and> (\<exists>v. map_of ?vs m = Some v \<and> x = state_of v)" for m x k
    by (cases "map_of ?vs k") (auto simp: f_def)
  have mem: "(m, x) \<in> set rows \<longleftrightarrow> m \<in> set d \<and> (\<exists>v. map_of ?vs m = Some v \<and> x = state_of v)" for m x
    by (auto simp: rows(1) fm)
  have "is_map (concat (map f ks))" if "distinct ks" for ks
    using that
  proof (induction ks)
    case (Cons k ks)
    have "fst ` set (concat (map f ks)) \<subseteq> set ks" by (auto simp: f_def split: option.splits)
    moreover have "map fst (f k) \<in> {[], [k]}" by (auto simp: f_def split: option.split)
    ultimately show ?case using Cons by (auto simp del: set_concat)
  qed simp
  then have "is_map rows" using d(2) by (simp add: rows)
  moreover have "in_step (r\<lparr>fr_state := st, fr_rows := rows\<rparr>) m v" if "map_of ?vs m = Some v" for m v
  proof -
    have "in_step r m v" using rec that by (simp add: record_ok_def)
    then show ?thesis using that none d(1) mem by (auto simp: in_step_def)
  qed
  ultimately show ?thesis by (simp add: record_ok_def rows(2))
qed

lemma record_ok_restore:
  assumes rec: "record_ok r" and none: "fr_rows r = []"
  shows "record_ok (r\<lparr>fr_state := (fr_state r)\<lparr>vs_cache := restore_vessel cutoff m v (vs_cache (fr_state r))\<rparr>,
         fr_written := (if map_of (c_vessels (vs_cache (fr_state r))) m = None
                        then put m v (fr_written r) else fr_written r)\<rparr>)"
proof (cases "map_of (c_vessels (vs_cache (fr_state r))) m")
  case None
  let ?v = "demote cutoff v"
  have "state_of (fst (index_vessel m ?v cs)) = state_of ?v" for cs
    by (simp add: index_vessel_def unindex_vessel_def Let_def)
  then have "row_holds (Some v) (fst (index_vessel m ?v cs))" "row_holds (Some v) ?v" for cs
    by (auto simp: row_holds_def)
  then have "in_step (r\<lparr>fr_state := (fr_state r)\<lparr>vs_cache := put_vessel m ?v (vs_cache (fr_state r))\<rparr>,
      fr_written := put m v (fr_written r)\<rparr>) x y"
    if "map_of (c_vessels (put_vessel m ?v (vs_cache (fr_state r)))) x = Some y" for x y
    using that rec none by (auto simp: put_vessel_get in_step_def record_ok_def map_of_put split: if_splits)
  then show ?thesis using rec None by (simp add: restore_vessel_def record_ok_def)
qed (use rec in \<open>simp add: restore_vessel_def record_ok_def in_step_def\<close>)

lemma record_ok_reach: "fleet_reach event_id seeds r \<Longrightarrow> record_ok r"
proof (induction rule: fleet_reach.induct)
  case (start q)
  show ?case by (simp add: record_ok_def fleet_start_def)
next
  case (fold r kind_of ev)
  then show ?case using record_ok_fold fleet_reach_ok by blast
next
  case (trust r m t)
  show ?case
  proof (cases "\<exists>v. map_of (c_vessels (vs_cache (fr_state r))) m = Some v \<and> v_trusted_at v < t")
    case True
    then show ?thesis using record_ok_put_same [OF trust.IH] by (auto simp: mark_trusted_def)
  next
    case False
    then have "mark_trusted m t (fr_state r) = fr_state r" by (auto simp: mark_trusted_def split: option.split)
    then show ?thesis using trust.IH by simp
  qed
next
  case (read r m)
  show ?case
  proof (cases "map_of (c_vessels (vs_cache (fr_state r))) m")
    case (Some v)
    have "state_of (snd (feature_json m v)) = state_of v" by (simp add: feature_json_def split: option.split)
    then show ?thesis using Some record_ok_put_same [OF read.IH Some] by (simp add: read_feature_def)
  qed (use read.IH in \<open>simp add: read_feature_def\<close>)
next
  case (copy r ev key tx bad)
  then show ?case by (intro record_ok_same_vessels) (auto simp: note_copy_def split: option.split)
next
  case (restore r v cutoff m)
  then show ?case using record_ok_restore by blast
next
  case (flush_take r rows st)
  then show ?case using record_ok_take by blast
next
  case (flush_ok r)
  let ?r = "r\<lparr>fr_rows := [], fr_written := write_rows (fr_rows r) (fr_written r)\<rparr>"
  have im: "is_map (fr_rows r)" using flush_ok.IH by (simp add: record_ok_def)
  have "in_step ?r m v" if v: "map_of (c_vessels (vs_cache (fr_state r))) m = Some v" for m v
  proof -
    have "in_step r m v" using flush_ok.IH v by (simp add: record_ok_def)
    moreover have "(m, state_of v) \<in> set (fr_rows r) \<Longrightarrow> map_of (fr_rows r) m = Some (state_of v)"
      using im by (rule map_of_is_SomeI)
    moreover have "m \<notin> fst ` set (fr_rows r) \<Longrightarrow> map_of (fr_rows r) m = None"
      by (simp add: map_of_eq_None_iff)
    ultimately show ?thesis by (auto simp: in_step_def write_rows_get [OF im] row_holds_same)
  qed
  then show ?case using flush_ok.IH by (simp add: record_ok_def)
next
  case (flush_failed r)
  let ?r = "r\<lparr>fr_state := record_failed (fr_rows r) (fr_state r), fr_rows := []\<rparr>"
  obtain d where d: "vs_dirty (fr_state r) = Some d" "distinct d"
    using flush_failed.IH by (auto simp: record_ok_def)
  have vs: "vs_cache (fr_state ?r) = vs_cache (fr_state r)" by (simp add: record_failed_def)
  have "in_step ?r m v" if v: "map_of (c_vessels (vs_cache (fr_state r))) m = Some v" for m v
  proof -
    have "in_step r m v" using flush_failed.IH v by (simp add: record_ok_def)
    moreover have "(m, state_of v) \<in> set (fr_rows r) \<Longrightarrow> m \<in> fst ` set (fr_rows r)" by force
    ultimately show ?thesis
      using d(1) by (auto simp: in_step_def record_failed_def fold_insert_set)
  qed
  then show ?case using d by (simp add: record_ok_def record_failed_def fold_insert_distinct)
qed



end
