(* ===== verification/Usage.thy ===== *)
theory Usage
  imports Packets
begin

text \<open>
  The rolling counters of \<open>server/stats.go\<close> (\<open>hourRing\<close>, \<open>usageCounters\<close>, \<open>sampleRate\<close>) and the
  delivery delays of \<open>server/delay.go\<close>.

  Refinement: a ring of 168 hourly buckets is the list of the times it was given
  (\<open>ring_of\<close>), and its sum over a window is the number of those times inside it.
\<close>

section \<open>The ring of hours\<close>

record hour_ring =
  r_at :: int
  r_b :: "int list"

definition ring_hours :: int where "ring_hours = 7 * 24"

definition new_ring :: hour_ring where
  "new_ring = \<lparr>r_at = 0, r_b = replicate (nat ring_hours) 0\<rparr>"

definition hour_no :: "time \<Rightarrow> int" where
  "hour_no t = unix t sdiv 3600"

text \<open>Clearing the hours passed over since the last one, at most one turn of the ring.\<close>

fun clear_hours :: "nat \<Rightarrow> int \<Rightarrow> int list \<Rightarrow> int list" where
  "clear_hours 0 i b = b"
| "clear_hours (Suc k) i b = clear_hours k (i + 1) (b[nat (i smod ring_hours) := 0])"

definition ring_add :: "time \<Rightarrow> hour_ring \<Rightarrow> hour_ring" where
  "ring_add now r =
     (let h = hour_no now;
          r1 = (if h > r_at r
                then \<lparr>r_at = h, r_b = clear_hours (nat (min (h - r_at r) ring_hours)) (r_at r + 1) (r_b r)\<rparr>
                else r)
      in if r_at r1 - h < ring_hours
         then r1\<lparr>r_b := (r_b r1)[nat (h smod ring_hours) := r_b r1 ! nat (h smod ring_hours) + 1]\<rparr>
         else r1)"

definition bucket :: "hour_ring \<Rightarrow> int \<Rightarrow> int" where
  "bucket r h = (if h \<le> r_at r \<and> r_at r - h < ring_hours then r_b r ! nat (h smod ring_hours) else 0)"

definition ring_sum :: "time \<Rightarrow> nat \<Rightarrow> hour_ring \<Rightarrow> int" where
  "ring_sum now hours r =
     sum_list (map (\<lambda>i. bucket r (hour_no now - int i)) [0..<min hours (nat ring_hours)])"

definition ring_windows :: "time \<Rightarrow> hour_ring \<Rightarrow> int \<times> int" where
  "ring_windows now r = (ring_sum now 24 r, ring_sum now (7 * 24) r)"

section \<open>The rings per source\<close>

type_synonym rings = "(string \<times> hour_ring) list"

record usage_counters =
  u_events :: hour_ring
  u_dups :: hour_ring
  u_streams :: hour_ring
  u_requests :: hour_ring
  u_sources :: rings

definition new_usage :: usage_counters where
  "new_usage = \<lparr>u_events = new_ring, u_dups = new_ring, u_streams = new_ring, u_requests = new_ring, u_sources = []\<rparr>"

definition usage_source :: "string \<Rightarrow> usage_counters \<Rightarrow> hour_ring \<times> usage_counters" where
  "usage_source name u =
     (case map_of (u_sources u) name of
        Some r \<Rightarrow> (r, u)
      | None \<Rightarrow> (new_ring, u\<lparr>u_sources := put name new_ring (u_sources u)\<rparr>))"

text \<open>\<open>u.source(name).add(now)\<close>: the ring is shared, so the addition is kept.\<close>

definition usage_source_add :: "string \<Rightarrow> time \<Rightarrow> usage_counters \<Rightarrow> usage_counters" where
  "usage_source_add name now u =
     (case usage_source name u of (r, u1) \<Rightarrow> u1\<lparr>u_sources := put name (ring_add now r) (u_sources u1)\<rparr>)"

definition ring_stale :: "time \<Rightarrow> hour_ring \<Rightarrow> bool" where
  "ring_stale now r \<longleftrightarrow> hour_no now - r_at r \<ge> ring_hours"

definition source_names :: "time \<Rightarrow> usage_counters \<Rightarrow> string list \<times> usage_counters" where
  "source_names now u =
     (let kept = keep_if (\<lambda>_ r. \<not> ring_stale now r) (u_sources u)
      in (map fst kept, u\<lparr>u_sources := kept\<rparr>))"

text \<open>\<open>saveUsage\<close> and \<open>loadUsage\<close>, less the JSON file between them.\<close>

record usage_file =
  f_events :: hour_ring
  f_dups :: hour_ring
  f_streams :: hour_ring
  f_requests :: hour_ring
  f_sources :: rings
  f_stations :: rings

definition save_usage :: "time \<Rightarrow> rings \<Rightarrow> usage_counters \<Rightarrow> usage_file \<times> usage_counters" where
  "save_usage now stations u =
     (case source_names now u of (names, u1) \<Rightarrow>
        (\<lparr>f_events = u_events u, f_dups = u_dups u, f_streams = u_streams u, f_requests = u_requests u,
          f_sources = map (\<lambda>k. (k, fst (usage_source k u1))) names, f_stations = stations\<rparr>, u1))"

definition load_usage :: "usage_file \<Rightarrow> usage_counters \<Rightarrow> usage_counters" where
  "load_usage f u =
     \<lparr>u_events = f_events f, u_dups = f_dups f, u_streams = f_streams f, u_requests = f_requests f,
      u_sources = fold (\<lambda>(k, s). put k s) (f_sources f) (u_sources u)\<rparr>"

record rate_sample =
  rs_at :: time
  rs_events :: int
  rs_per_sec :: real

definition sample_rate :: "time \<Rightarrow> int \<Rightarrow> rate_sample \<Rightarrow> rate_sample" where
  "sample_rate now n r =
     (let dt = of_int (time_sub now (rs_at r)) / 1000000000 :: real
      in \<lparr>rs_at = now, rs_events = n,
          rs_per_sec = (if rs_at r \<noteq> zero_time \<and> dt > 0 then of_int (n - rs_events r) / dt else rs_per_sec r)\<rparr>)"

section \<open>The ring refines the list of its times\<close>

definition ring_of :: "time list \<Rightarrow> hour_ring" where
  "ring_of ts = fold ring_add ts new_ring"

definition ring_holds :: "hour_ring \<Rightarrow> time list \<Rightarrow> bool" where
  "ring_holds r ts \<longleftrightarrow> 0 \<le> r_at r \<and> length (r_b r) = nat ring_hours \<and>
     (\<forall>t \<in> set ts. hour_no t \<le> r_at r) \<and>
     (\<forall>h. 0 \<le> h \<longrightarrow> h \<le> r_at r \<longrightarrow> r_at r - h < ring_hours \<longrightarrow>
        r_b r ! nat (h mod ring_hours) = int (length (filter (\<lambda>t. hour_no t = h) ts)))"

lemma hour_no_nonneg: "0 \<le> t \<Longrightarrow> 0 \<le> hour_no t \<and> hour_no t = unix t div 3600"
  by (cases "t div second = 0") (auto simp: hour_no_def unix_def signed_divide_int_def pos_imp_zdiv_pos_iff sgn_if
      zdiv_eq_0_iff pos_imp_zdiv_nonneg_iff)

lemma smod_nonneg: "0 \<le> h \<Longrightarrow> h smod ring_hours = h mod ring_hours"
  by (cases "h = 0") (auto simp: signed_modulo_int_def ring_hours_def sgn_if)

lemma slot_less: "nat (h mod ring_hours) < nat ring_hours"
  by (simp add: ring_hours_def nat_less_iff)

lemma slot_inj:
  assumes "nat (h mod ring_hours) = nat (k mod ring_hours)" "\<bar>h - k\<bar> < ring_hours"
  shows "h = k"
proof -
  have "h mod ring_hours = k mod ring_hours" using assms(1) by (simp add: ring_hours_def nat_eq_iff)
  then have "ring_hours dvd h - k" by (simp add: mod_eq_dvd_iff)
  then show ?thesis using assms(2) by (metis abs_of_pos dvd_imp_le_int diff_self eq_iff_diff_eq_0 linorder_not_less ring_hours_def zdvd_not_zless abs_ge_zero dvd_abs_iff zero_less_abs_iff)
qed

lemma clear_hours_length [simp]: "length (clear_hours k i b) = length b"
  by (induction k i b rule: clear_hours.induct) auto

lemma clear_hours_nth:
  assumes "0 \<le> i" "j < length b"
  shows "clear_hours k i b ! j = (if \<exists>d < k. j = nat ((i + int d) mod ring_hours) then 0 else b ! j)"
  using assms
proof (induction k i b rule: clear_hours.induct)
  case (2 k i b)
  have split: "(\<exists>d < Suc k. j = nat ((i + int d) mod ring_hours)) \<longleftrightarrow>
    j = nat (i mod ring_hours) \<or> (\<exists>d < k. j = nat ((i + 1 + int d) mod ring_hours))"
    by (auto simp: less_Suc_eq_0_disj add.assoc)
  show ?case using 2(1) 2(2,3) unfolding clear_hours.simps smod_nonneg [OF 2(2)]
    by (auto simp: split nth_list_update)
qed simp

text \<open>One addition keeps the correspondence with the list of times.\<close>

lemma ring_holds_new: "ring_holds new_ring []"
  by (simp add: ring_holds_def new_ring_def ring_hours_def nat_less_iff)

lemma ring_advance:
  assumes "ring_holds r ts" "r_at r < h"
  shows "ring_holds \<lparr>r_at = h, r_b = clear_hours (nat (min (h - r_at r) ring_hours)) (r_at r + 1) (r_b r)\<rparr> ts"
proof -
  have at: "0 \<le> r_at r" "length (r_b r) = nat ring_hours" "\<And>t. t \<in> set ts \<Longrightarrow> hour_no t \<le> r_at r"
    using assms(1) by (auto simp: ring_holds_def)
  have "clear_hours (nat (min (h - r_at r) ring_hours)) (r_at r + 1) (r_b r) ! nat (g mod ring_hours) =
      int (length (filter (\<lambda>t. hour_no t = g) ts))" if g: "0 \<le> g" "g \<le> h" "h - g < ring_hours" for g
  proof (cases "r_at r < g")
    case True
    have "nat (g - r_at r - 1) < nat (min (h - r_at r) ring_hours) \<or> h - r_at r > ring_hours"
      using True g by (auto simp: min_def)
    moreover have "\<exists>d < nat (min (h - r_at r) ring_hours). nat (g mod ring_hours) = nat ((r_at r + 1 + int d) mod ring_hours)"
    proof (cases "h - r_at r \<le> ring_hours")
      case small: True
      then show ?thesis using True g by (intro exI [of _ "nat (g - r_at r - 1)"]) auto
    next
      case False
      have "\<exists>d < nat ring_hours. (r_at r + 1 + int d) mod ring_hours = g mod ring_hours"
        by (intro exI [of _ "nat ((g - r_at r - 1) mod ring_hours)"])
           (simp add: ring_hours_def nat_less_iff mod_add_right_eq)
      then show ?thesis using False by (auto simp: min_def)
    qed
    moreover have "filter (\<lambda>t. hour_no t = g) ts = []" using at(3) True by (force simp: filter_empty_conv)
    ultimately show ?thesis using at slot_less [of g] by (subst clear_hours_nth) auto
  next
    case False
    have "\<not> (\<exists>d < nat (min (h - r_at r) ring_hours). nat (g mod ring_hours) = nat ((r_at r + 1 + int d) mod ring_hours))"
    proof clarify
      fix d assume d: "d < nat (min (h - r_at r) ring_hours)"
        "nat (g mod ring_hours) = nat ((r_at r + 1 + int d) mod ring_hours)"
      have "\<bar>g - (r_at r + 1 + int d)\<bar> < ring_hours" using d(1) False g by auto
      then have "g = r_at r + 1 + int d" using slot_inj d(2) by blast
      then show False using False by simp
    qed
    moreover have "r_at r - g < ring_hours" using g assms(2) by linarith
    ultimately show ?thesis using assms(1) False g at slot_less [of g]
      by (subst clear_hours_nth) (auto simp: ring_holds_def)
  qed
  then show ?thesis using assms(2) at by (fastforce simp: ring_holds_def)
qed

lemma ring_count:
  assumes "ring_holds r ts" "0 \<le> hour_no t" "hour_no t \<le> r_at r"
  shows "ring_holds (if r_at r - hour_no t < ring_hours
     then r\<lparr>r_b := (r_b r)[nat (hour_no t smod ring_hours) := r_b r ! nat (hour_no t smod ring_hours) + 1]\<rparr> else r)
     (t # ts)"
proof -
  have "r_b r ! nat (h mod ring_hours) = int (length (filter (\<lambda>t. hour_no t = h) ts))"
    if "0 \<le> h" "h \<le> r_at r" "r_at r - h < ring_hours" for h
    using assms(1) that by (simp add: ring_holds_def)
  moreover have "h = hour_no t" if "nat (hour_no t mod ring_hours) = nat (h mod ring_hours)"
      "r_at r - hour_no t < ring_hours" "h \<le> r_at r" "r_at r - h < ring_hours" for h
  proof -
    have "\<bar>hour_no t - h\<bar> < ring_hours" using that assms(3) by linarith
    then show ?thesis using slot_inj that(1) by metis
  qed
  ultimately show ?thesis
    using assms slot_less by (auto simp: ring_holds_def smod_nonneg nth_list_update)
qed

lemma ring_holds_add:
  assumes "ring_holds r ts" "0 \<le> t"
  shows "ring_holds (ring_add t r) (t # ts)"
proof (cases "r_at r < hour_no t")
  case True
  let ?r = "\<lparr>r_at = hour_no t, r_b = clear_hours (nat (min (hour_no t - r_at r) ring_hours)) (r_at r + 1) (r_b r)\<rparr>"
  have "ring_holds ?r ts" using ring_advance [OF assms(1) True] .
  from ring_count [OF this, of t] show ?thesis
    using True conjunct1 [OF hour_no_nonneg [OF assms(2)]] by (simp add: ring_add_def Let_def ring_hours_def)
next
  case False
  then show ?thesis using ring_count [OF assms(1), of t] conjunct1 [OF hour_no_nonneg [OF assms(2)]]
    by (cases "r_at r - hour_no t < ring_hours") (simp_all add: ring_add_def Let_def)
qed

lemma ring_holds_fold:
  "ring_holds r us \<Longrightarrow> \<forall>t \<in> set ts. 0 \<le> t \<Longrightarrow> ring_holds (fold ring_add ts r) (rev ts @ us)"
  by (induction ts arbitrary: r us) (auto dest: ring_holds_add)

lemma bucket_counts:
  assumes "ring_holds r ts" "0 \<le> h" "r_at r - h < ring_hours"
  shows "bucket r h = int (length (filter (\<lambda>t. hour_no t = h) ts))"
proof (cases "h \<le> r_at r")
  case True
  then show ?thesis using assms by (simp add: bucket_def ring_holds_def smod_nonneg)
next
  case False
  then have "filter (\<lambda>t. hour_no t = h) ts = []" using assms(1) by (force simp: ring_holds_def filter_empty_conv)
  then show ?thesis using False by (simp add: bucket_def)
qed

lemma count_window:
  "sum_list (map (\<lambda>i. int (length (filter (\<lambda>t. hour_no t = h - int i) ts))) [0..<k]) =
   int (length (filter (\<lambda>t. h - int k < hour_no t \<and> hour_no t \<le> h) ts))"
proof (induction k)
  case (Suc k)
  have "length (filter (\<lambda>t. h - int (Suc k) < hour_no t \<and> hour_no t \<le> h) ts) =
    length (filter (\<lambda>t. h - int k < hour_no t \<and> hour_no t \<le> h) ts) + length (filter (\<lambda>t. hour_no t = h - int k) ts)"
    by (induction ts) auto
  then show ?case using Suc by simp
qed simp

text \<open>
  C11. An hour ring refines the list of the times it was given, in any order, and however far apart:
  the sum over the last \<open>hours\<close> clock hours, up to a week, is exactly the number of those times
  whose clock hour is among them.
\<close>

theorem ring_sum_exact:
  assumes "\<forall>t \<in> set ts. 0 \<le> t \<and> hour_no t \<le> hour_no now" "int hours \<le> hour_no now + 1"
  shows "ring_sum now hours (ring_of ts) =
    int (length (filter (\<lambda>t. hour_no now - int (min hours 168) < hour_no t) ts))"
proof -
  let ?r = "ring_of ts" and ?k = "min hours 168"
  have holds: "ring_holds ?r (rev ts)"
    using ring_holds_fold [OF ring_holds_new, of ts] assms(1) by (simp add: ring_of_def)
  have at: "r_at (fold ring_add us r) \<le> max (r_at r) m" if "\<forall>t \<in> set us. hour_no t \<le> m" for us r m
    using that
  proof (induction us arbitrary: r)
    case (Cons u us)
    have "r_at (ring_add u r) \<le> max (r_at r) m" using Cons.prems by (auto simp: ring_add_def Let_def)
    then show ?case using Cons.IH [of "ring_add u r"] Cons.prems by auto
  qed simp
  have "0 \<le> hour_no now" if "hours > 0"
    using that assms(2) by simp
  then have le: "hours > 0 \<Longrightarrow> r_at ?r \<le> hour_no now"
    using at [of ts "hour_no now" new_ring] assms(1) by (auto simp: ring_of_def new_ring_def)
  have "bucket ?r (hour_no now - int i) = int (length (filter (\<lambda>t. hour_no t = hour_no now - int i) (rev ts)))"
    if "i < ?k" for i
    using that assms(2) le by (intro bucket_counts [OF holds]) (auto simp: ring_hours_def)
  then have "ring_sum now hours ?r =
    sum_list (map (\<lambda>i. int (length (filter (\<lambda>t. hour_no t = hour_no now - int i) (rev ts)))) [0..<?k])"
    unfolding ring_sum_def by (intro arg_cong [of _ _ sum_list] map_cong) (auto simp: ring_hours_def)
  also have "\<dots> = int (length (filter (\<lambda>t. hour_no now - int ?k < hour_no t) (rev ts)))"
    unfolding count_window by (intro arg_cong [of _ _ "\<lambda>x. int (length x)"] filter_cong) (use assms(1) in auto)
  finally show ?thesis by (simp flip: rev_filter)
qed

theorem ring_sum_exact_witness:
  "ring_sum (1000 * hour) 24 (ring_of [999 * hour, 3 * hour, 990 * hour]) = 2"
  using ring_sum_exact [of "[999 * hour, 3 * hour, 990 * hour]" "1000 * hour" 24]
  by (simp add: hour_no_nonneg unix_def)

end
