(* ===== verification/Delay.thy ===== *)
theory Delay
  imports Packets "HOL-Library.Multiset"
begin

text \<open>
  Delivery delays per source kind, from \<open>server/delay.go\<close>. A \<open>delayRing\<close> keeps the last 512
  samples (\<open>delay_ring_recent\<close>); \<open>broadcastDelay\<close> picks the minute a report's UTC second belongs
  to. Samples are reals: the code's rounding to \<open>float32\<close> is not modelled.
\<close>

definition delay_samples :: nat where "delay_samples = 512"

record delay_ring =
  d_buf :: "real list"
  d_n :: nat
  d_i :: nat

definition new_delay_ring :: delay_ring where
  "new_delay_ring = \<lparr>d_buf = replicate delay_samples 0, d_n = 0, d_i = 0\<rparr>"

definition delay_add :: "real \<Rightarrow> delay_ring \<Rightarrow> delay_ring" where
  "delay_add d r =
     \<lparr>d_buf = (d_buf r)[d_i r := d], d_n = (if d_n r < delay_samples then d_n r + 1 else d_n r),
      d_i = (d_i r + 1) mod delay_samples\<rparr>"

definition quantiles :: "delay_ring \<Rightarrow> (nat \<times> real \<times> real) option" where
  "quantiles r =
     (let s = sort (take (d_n r) (d_buf r))
      in if s = [] then None
         else Some (length s, s ! (length s div 2), s ! (length s * 99 div 100)))"

definition round_tenth :: "real \<Rightarrow> real" where
  "round_tenth v = of_int (go_round (v * 10)) / 10"

definition percentiles :: "delay_ring \<Rightarrow> (nat \<times> real \<times> real) option" where
  "percentiles r =
     (case quantiles r of None \<Rightarrow> None | Some (n, p50, p99) \<Rightarrow> Some (n, round_tenth p50, round_tenth p99))"

text \<open>The broadcast a report's second names, near the best known time \<open>t\<close>, and its age at \<open>now\<close>.\<close>

definition broadcast_at :: "8 word \<Rightarrow> time \<Rightarrow> time" where
  "broadcast_at sec t =
     (let b = truncate_time t minute + uint sec * second
      in if b > t + 5 * second then b - minute else b)"

definition broadcast_delay :: "8 word \<Rightarrow> time \<Rightarrow> time \<Rightarrow> real" where
  "broadcast_delay sec t now = max 0 (of_int (time_sub now (broadcast_at sec t)) / 1000000000)"

definition delay_observe :: "event \<Rightarrow> time \<Rightarrow> (string \<times> delay_ring) list \<Rightarrow> (string \<times> delay_ring) list" where
  "delay_observe ev now by =
     (case tx_second (ev_packet ev) of
        None \<Rightarrow> by
      | Some sec \<Rightarrow>
          put (source_kind (ev_source ev))
            (delay_add (broadcast_delay sec (ev_time ev) now) (get_or new_delay_ring by (source_kind (ev_source ev)))) by)"

definition delay_snapshot :: "string \<Rightarrow> (string \<times> delay_ring) list \<Rightarrow> (nat \<times> real \<times> real) option" where
  "delay_snapshot kind by = (case map_of by kind of None \<Rightarrow> None | Some r \<Rightarrow> percentiles r)"

section \<open>The minute of a broadcast\<close>

lemma truncate_minute: "truncate_time t minute \<le> t" "t < truncate_time t minute + minute"
  using truncate_time_le [of minute t] truncate_time_gt [of minute t] by simp_all

text \<open>
  The broadcast a report's second is read as carries that second, lies between a minute before
  the event's time and five seconds after it, and is the only instant with that second, among those
  of the event's own minute or earlier, from 55 seconds before the event's time to five after.
\<close>

theorem broadcast_minute:
  assumes "sec < 60"
  shows "t - minute < broadcast_at sec t \<and> broadcast_at sec t \<le> t + 5 * second \<and>
    (broadcast_at sec t - zero_time - uint sec * second) mod minute = 0 \<and>
    (\<forall>b. t - 55 * second < b \<and> b \<le> t + 5 * second \<and> b < truncate_time t minute + minute \<and>
       (b - zero_time - uint sec * second) mod minute = 0 \<longrightarrow> b = broadcast_at sec t)"
proof -
  have "uint sec < uint (60 :: 8 word)" using assms by (simp add: word_less_def)
  then have "uint sec \<le> 59" by simp
  moreover obtain n where n: "uint sec = n" "0 \<le> n" using uint_ge_0 [of sec] by blast
  ultimately have sec: "n \<le> 59" by simp
  let ?b = "broadcast_at sec t"
  have range: "t - minute < ?b \<and> ?b \<le> t + 5 * second \<and> ?b < truncate_time t minute + minute"
    using truncate_minute [of t] n sec by (simp add: broadcast_at_def Let_def)
  have whole: "(truncate_time t minute - zero_time) mod minute = 0"
  proof -
    have "truncate_time t minute - zero_time = minute * ((t - zero_time) div minute)"
      using mult_div_mod_eq [of minute "t - zero_time"] unfolding truncate_time_def by linarith
    then show ?thesis by simp
  qed
  then have aligned: "(?b - zero_time - uint sec * second) mod minute = 0"
    by (auto simp: broadcast_at_def Let_def algebra_simps mod_eq_0_iff_dvd dvd_diff_left_iff)
  have "b = ?b" if b: "t - 55 * second < b" "b \<le> t + 5 * second" "b < truncate_time t minute + minute"
    "(b - zero_time - uint sec * second) mod minute = 0" for b
  proof -
    have "minute dvd b - zero_time - uint sec * second - (?b - zero_time - uint sec * second)"
      by (rule dvd_diff) (use b(4) aligned in \<open>simp_all add: mod_eq_0_iff_dvd\<close>)
    then obtain k where k: "b - ?b = minute * k" by (auto elim: dvdE)
    have "- minute < b - ?b \<and> b - ?b < minute"
      using b(1-3) range truncate_minute [of t] n sec by (simp add: broadcast_at_def Let_def split: if_splits)
    then have "k = 0" using k by linarith
    then show ?thesis using k by simp
  qed
  then show ?thesis using range aligned by (intro conjI allI impI) (elim conjE, simp_all only:)
qed

theorem broadcast_minute_witness:
  "broadcast_at 58 (62 * second) = 58 * second"
proof (rule sym, rule broadcast_minute [of 58 "62 * second", THEN conjunct2, THEN conjunct2, THEN conjunct2,
      THEN spec, THEN mp])
  show "62 * second - 55 * second < 58 * second \<and> 58 * second \<le> 62 * second + 5 * second \<and>
      58 * second < truncate_time (62 * second) minute + minute \<and>
      (58 * second - zero_time - uint (58 :: 8 word) * second) mod minute = 0"
    by (simp add: zero_time_def truncate_time_def)
qed simp

text \<open>
  A stamp ahead of the event's time is not read as skew across the turn of a minute: a broadcast two
  seconds ahead of 59 seconds past reads as one of 58 seconds before.
\<close>

lemma skew_over_minute: "broadcast_at 1 (59 * second) = second"
  by (simp add: broadcast_at_def truncate_time_def zero_time_def)

section \<open>The last samples\<close>

definition delay_ring_of :: "real list \<Rightarrow> delay_ring" where
  "delay_ring_of ds = fold delay_add ds new_delay_ring"

text \<open>The ring's slots after a list of samples: slot \<open>j\<close> has the last sample whose number is \<open>j\<close> in the ring.\<close>

definition delay_ok :: "delay_ring \<Rightarrow> real list \<Rightarrow> bool" where
  "delay_ok r ds \<longleftrightarrow> length (d_buf r) = delay_samples \<and> d_n r = min (length ds) delay_samples \<and>
     d_i r = length ds mod delay_samples \<and>
     (\<forall>k < length ds. length ds \<le> k + delay_samples \<longrightarrow> d_buf r ! (k mod delay_samples) = ds ! k)"

lemma mod_window_inj:
  assumes "k mod n = m mod (n :: nat)" "k \<le> m" "m < k + n"
  shows "k = m"
proof -
  have "n dvd m - k" using assms(2) assms(1) [symmetric] by (simp add: mod_eq_dvd_iff_nat)
  then show ?thesis using assms(2,3) by (metis add_diff_inverse_nat add_less_cancel_left dvd_imp_le le_antisym linorder_not_less zero_less_diff)
qed

lemma delay_ok_add: "delay_ok r ds \<Longrightarrow> delay_ok (delay_add d r) (ds @ [d])"
proof -
  assume ok: "delay_ok r ds"
  have pos: "0 < delay_samples" by (simp add: delay_samples_def)
  have "(d_buf r)[length ds mod delay_samples := d] ! (k mod delay_samples) = (ds @ [d]) ! k"
    if k: "k < Suc (length ds)" "Suc (length ds) \<le> k + delay_samples" for k
  proof (cases "k = length ds")
    case True
    then show ?thesis using ok pos by (simp add: delay_ok_def)
  next
    case False
    then have "k mod delay_samples \<noteq> length ds mod delay_samples"
      using k mod_window_inj [of k delay_samples "length ds"] by auto
    then show ?thesis using ok k False by (auto simp: delay_ok_def nth_append)
  qed
  then show ?thesis using ok pos by (auto simp: delay_ok_def delay_add_def mod_Suc_eq)
qed

lemma delay_ok_of: "delay_ok (delay_ring_of ds) ds"
proof (induction ds rule: rev_induct)
  case Nil
  then show ?case by (simp add: delay_ring_of_def new_delay_ring_def delay_ok_def)
next
  case (snoc d ds)
  then show ?case using delay_ok_add by (simp add: delay_ring_of_def)
qed

text \<open>The samples a full ring holds are a rotation of the last ones.\<close>

lemma delay_ring_rotation:
  assumes "delay_samples \<le> length ds"
  shows "mset (d_buf (delay_ring_of ds)) = mset (drop (length ds - delay_samples) ds)"
proof -
  let ?r = "delay_ring_of ds" and ?n = "length ds" and ?N = delay_samples
  have pos: "0 < ?N" by (simp add: delay_samples_def)
  have ok: "delay_ok ?r ds" by (rule delay_ok_of)
  let ?f = "\<lambda>k. k mod ?N"
  have bij: "bij_betw ?f {?n - ?N..<?n} {0..<?N}"
  proof (rule bij_betw_imageI)
    show inj: "inj_on ?f {?n - ?N..<?n}"
      by (rule linorder_inj_onI) (use assms in \<open>auto dest!: mod_window_inj\<close>)
    have "?f ` {?n - ?N..<?n} \<subseteq> {0..<?N}" using pos by auto
    then show "?f ` {?n - ?N..<?n} = {0..<?N}"
      using card_image [OF inj] assms by (intro card_subset_eq) auto
  qed
  have "mset (d_buf ?r) = image_mset ((!) (d_buf ?r)) (mset_set {0..<?N})"
    using map_nth [of "d_buf ?r"] ok by (metis delay_ok_def mset_map mset_upt)
  also have "\<dots> = image_mset ((!) (d_buf ?r)) (image_mset ?f (mset_set {?n - ?N..<?n}))"
    using bij by (simp add: image_mset_mset_set bij_betw_def)
  also have "\<dots> = image_mset ((!) ds) (mset_set {?n - ?N..<?n})"
    using ok assms by (auto simp: delay_ok_def multiset.map_comp intro!: image_mset_cong)
  also have "\<dots> = mset (drop (?n - ?N) ds)"
    using map_nth [of ds] assms by (metis drop_map drop_upt mset_map mset_upt add_0)
  finally show ?thesis .
qed

end
