(* ===== verification/Stations.thy ===== *)
theory Stations
  imports Usage "HOL-Library.Multiset" "HOL-Library.List_Lexorder" "HOL-Library.Char_ord"
begin

text \<open>
  Per-station statistics, from \<open>server/stations.go\<close>: \<open>stationStats\<close> with its rings restored from the
  usage file and its own-ship candidates read back from the database, the events and duplicates that
  reach it, and the rows it lists.
\<close>

declare map_of_eq_Some_iff [simp del]

type_synonym own_ships = "(mmsi \<times> int) list"

record station_stat =
  st_source :: string
  st_first :: time
  st_last :: time
  st_dups :: int
  st_positions :: int
  st_min_lat :: real
  st_min_lon :: real
  st_max_lat :: real
  st_max_lon :: real
  st_own :: own_ships
  st_ring :: hour_ring

record station_stats =
  ss_m :: "(string \<times> station_stat) list"
  ss_by_net :: "(string \<times> string list) list"
  ss_restored :: rings
  ss_restored_own :: "(string \<times> own_ships) list"
  ss_own_pending :: bool

definition station_vessel_ttl :: duration where "station_vessel_ttl = 24 * hour"
definition station_keep :: duration where "station_keep = 30 * 24 * hour"

definition new_station_stats :: station_stats where
  "new_station_stats = \<lparr>ss_m = [], ss_by_net = [], ss_restored = [], ss_restored_own = [], ss_own_pending = False\<rparr>"

section \<open>Operations\<close>

definition station_note_own :: "mmsi \<Rightarrow> time \<Rightarrow> station_stat \<Rightarrow> station_stat" where
  "station_note_own m t st = st\<lparr>st_own := put m (unix t) (st_own st)\<rparr>"

definition events24h_of :: "station_stats \<Rightarrow> time \<Rightarrow> string \<Rightarrow> int" where
  "events24h_of s now i =
     (case map_of (ss_m s) i of
        Some st \<Rightarrow> ring_sum now 24 (st_ring st)
      | None \<Rightarrow> case map_of (ss_restored s) i of Some r \<Rightarrow> ring_sum now 24 r | None \<Rightarrow> 0)"

definition events24h :: "string list \<Rightarrow> time \<Rightarrow> station_stats \<Rightarrow> int" where
  "events24h ids now s = sum_list (map (events24h_of s now) ids)"

definition note_net :: "string \<Rightarrow> string \<Rightarrow> station_stats \<Rightarrow> station_stats" where
  "note_net key i s =
     (if key = [] \<or> map_of (ss_m s) i = None \<or> i \<in> set (get_or [] (ss_by_net s) key) then s
      else s\<lparr>ss_by_net := put key (List.insert i (get_or [] (ss_by_net s) key)) (ss_by_net s)\<rparr>)"

definition net_ids :: "string \<Rightarrow> string \<Rightarrow> station_stats \<Rightarrow> string list" where
  "net_ids key own s =
     (if key = [] then []
      else let ids = get_or [] (ss_by_net s) key in if own \<in> set ids then ids else ids @ [own])"

text \<open>Merging candidates: the later sighting of each vessel.\<close>

definition merge_own :: "own_ships \<Rightarrow> own_ships \<Rightarrow> own_ships" where
  "merge_own new old = fold (\<lambda>(m, t). \<lambda>o'. put m (max (get_or 0 o' m) t) o') new old"

definition new_station :: "string \<Rightarrow> time \<Rightarrow> station_stats \<Rightarrow> string \<Rightarrow> station_stat" where
  "new_station source now s i =
     \<lparr>st_source = source, st_first = now, st_last = zero_time, st_dups = 0, st_positions = 0,
      st_min_lat = 91, st_min_lon = 181, st_max_lat = -91, st_max_lon = -181,
      st_own = merge_own (get_or [] (ss_restored_own s) i) [],
      st_ring = get_or new_ring (ss_restored s) i\<rparr>"

definition get_station :: "string \<Rightarrow> string \<Rightarrow> time \<Rightarrow> station_stats \<Rightarrow> station_stat \<times> station_stats" where
  "get_station i source now s =
     (case map_of (ss_m s) i of
        Some st \<Rightarrow> (st, s)
      | None \<Rightarrow>
          let st = new_station source now s i
          in (st, s\<lparr>ss_m := put i st (ss_m s), ss_restored := del i (ss_restored s),
                    ss_restored_own := del i (ss_restored_own s)\<rparr>))"

definition station_rings :: "time \<Rightarrow> station_stats \<Rightarrow> rings" where
  "station_rings now s =
     fold (\<lambda>(i, r). \<lambda>out. if ring_stale now r then out else put i r out) (ss_restored s)
       (map (\<lambda>(i, st). (i, st_ring st)) (keep_if (\<lambda>_ st. \<not> ring_stale now (st_ring st)) (ss_m s)))"

definition restore_own :: "(string \<times> own_ships) list \<Rightarrow> station_stats \<Rightarrow> station_stats" where
  "restore_own cands s =
     (fold (\<lambda>(i, own). \<lambda>s. case map_of (ss_m s) i of
              Some st \<Rightarrow> s\<lparr>ss_m := put i (st\<lparr>st_own := merge_own own (st_own st)\<rparr>) (ss_m s)\<rparr>
            | None \<Rightarrow> s\<lparr>ss_restored_own := put i own (ss_restored_own s)\<rparr>)
        cands (s\<lparr>ss_restored_own := []\<rparr>))\<lparr>ss_own_pending := False\<rparr>"

definition restore_rings :: "rings \<Rightarrow> station_stats \<Rightarrow> station_stats" where
  "restore_rings m s = s\<lparr>ss_restored := m\<rparr>"

definition later :: "time \<Rightarrow> station_stat \<Rightarrow> station_stat" where
  "later t st = (if t > st_last st then st\<lparr>st_last := t\<rparr> else st)"

definition widen :: "real \<Rightarrow> real \<Rightarrow> station_stat \<Rightarrow> station_stat" where
  "widen lat lon st =
     st\<lparr>st_positions := st_positions st + 1,
        st_min_lat := min (st_min_lat st) lat, st_max_lat := max (st_max_lat st) lat,
        st_min_lon := min (st_min_lon st) lon, st_max_lon := max (st_max_lon st) lon\<rparr>"

definition station_event :: "event \<Rightarrow> station_stats \<Rightarrow> station_stats" where
  "station_event ev s0 =
     (case get_station (ev_station ev) (ev_source ev) (ev_time ev) s0 of
        (st0, s) \<Rightarrow>
          let st1 = later (ev_time ev) st0;
              st2 = st1\<lparr>st_ring := ring_add (ev_time ev) (st_ring st1)\<rparr>;
              st3 = (if ev_own ev then station_note_own (ev_mmsi ev) (ev_time ev) st2 else st2);
              st4 = (if ev_has_pos ev \<and> is_position_type (ev_type ev) then widen (ev_lat ev) (ev_lon ev) st3 else st3)
          in s\<lparr>ss_m := put (ev_station ev) st4 (ss_m s)\<rparr>)"

definition station_dup :: "event \<Rightarrow> station_stats \<Rightarrow> station_stats" where
  "station_dup ev s0 =
     (case get_station (ev_station ev) (ev_source ev) (ev_time ev) s0 of
        (st0, s) \<Rightarrow>
          let st1 = later (ev_time ev) st0;
              st2 = st1\<lparr>st_dups := st_dups st1 + 1\<rparr>;
              st3 = (if ev_own ev then station_note_own (user_id (ev_packet ev)) (ev_time ev) st2 else st2)
          in s\<lparr>ss_m := put (ev_station ev) st3 (ss_m s)\<rparr>)"

definition own_ships_of :: "station_stats \<Rightarrow> (string \<times> own_ships) list" where
  "own_ships_of s =
     fold (\<lambda>(i, st). \<lambda>out. if st_own st \<noteq> [] then put i (st_own st) out else out) (ss_m s) (ss_restored_own s)"

definition station_sweep :: "time \<Rightarrow> station_stats \<Rightarrow> station_stats" where
  "station_sweep cutoff s =
     s\<lparr>ss_m := map (\<lambda>(i, st). (i, st\<lparr>st_own := keep_if (\<lambda>_ t. \<not> t < unix cutoff) (st_own st)\<rparr>)) (ss_m s)\<rparr>"

section \<open>Rows\<close>

record station_count =
  sc_source :: string
  sc_last :: time
  sc_first :: time
  sc_receptions :: nat
  sc_firsts :: nat
  sc_totaled :: bool
  sc_past :: int
  sc_now :: bool
  sc_uptime :: real
  sc_live :: int
  sc_day :: int
  sc_unique :: int

definition no_count :: station_count where
  "no_count = \<lparr>sc_source = [], sc_last = zero_time, sc_first = zero_time, sc_receptions = 0, sc_firsts = 0,
     sc_totaled = False, sc_past = 0, sc_now = False, sc_uptime = 0, sc_live = 0, sc_day = 0, sc_unique = 0\<rparr>"

record station_row =
  w_station :: string
  w_source :: string
  w_events :: "int \<times> int"
  w_dups :: int
  w_vessels :: int
  w_vessels24 :: int
  w_exclusive :: int
  w_uptime :: "real option"
  w_positions :: int
  w_first :: time
  w_last :: time
  w_age :: int
  w_bbox :: "(real \<times> real \<times> real \<times> real) option"
  w_name :: string
  w_name_from :: string
  w_mmsi :: mmsi
  w_near :: string

definition blank_row :: "string \<Rightarrow> string \<Rightarrow> int \<times> int \<Rightarrow> time \<Rightarrow> time \<Rightarrow> time \<Rightarrow> station_row" where
  "blank_row i src evs first heard now =
     \<lparr>w_station = i, w_source = src, w_events = evs, w_dups = 0, w_vessels = 0, w_vessels24 = 0, w_exclusive = 0,
      w_uptime = None, w_positions = 0, w_first = first, w_last = heard,
      w_age = time_sub now heard sdiv 1000000000, w_bbox = None, w_name = [], w_name_from = [], w_mmsi = 0, w_near = []\<rparr>"

text \<open>\<open>withTotals\<close>: a station's totals ever, and its uptime; \<open>stationWindow\<close> is 168 hours.\<close>

definition with_totals :: "station_count \<Rightarrow> time \<Rightarrow> station_count \<Rightarrow> station_count" where
  "with_totals t now s =
     (if sc_first t = zero_time then s\<lparr>sc_totaled := False\<rparr>
      else let s1 = s\<lparr>sc_totaled := True,
                     sc_first := (if sc_first t < sc_first s \<or> sc_first s = zero_time then sc_first t else sc_first s),
                     sc_receptions := sc_receptions t, sc_firsts := sc_firsts t\<rparr>;
               cur = truncate_time now hour;
               from0 = cur - (168 - 1) * hour;
               frm = (if sc_first s1 > from0 then sc_first s1 else from0);
               now1 = (if sc_now s1 then 1 else 0);
               hours = time_sub cur frm sdiv hour + now1
           in if hours > 0 then s1\<lparr>sc_uptime := of_int (sc_past s1 + now1) / of_int hours\<rparr> else s1)"

definition merge_counts :: "(string \<times> station_count) list \<Rightarrow> (string \<times> station_count) list \<Rightarrow> time \<Rightarrow>
    (string \<times> station_count) list" where
  "merge_counts counts totals now =
     map (\<lambda>(i, c). (i, with_totals (get_or no_count totals i) now c))
       (fold (\<lambda>(i, c). put i c) counts (map (\<lambda>(i, _). (i, no_count)) totals))"

definition with_series :: "station_count \<Rightarrow> station_row \<Rightarrow> station_row" where
  "with_series c r =
     (let r1 = r\<lparr>w_vessels := sc_live c, w_vessels24 := sc_day c, w_exclusive := sc_unique c\<rparr>
      in if sc_totaled c
         then r1\<lparr>w_uptime := Some (sc_uptime c), w_positions := int (sc_firsts c),
                 w_dups := int (sc_receptions c) - int (sc_firsts c),
                 w_first := (if sc_first c < w_first r then sc_first c else w_first r)\<rparr>
         else r1)"

definition retired_station :: "string \<Rightarrow> bool" where
  "retired_station kind \<longleftrightarrow> kind = ''v1'' \<or> kind = ''http''"

definition series_source :: "string \<Rightarrow> string \<Rightarrow> string" where
  "series_source i kind = (if has_prefix i (kind @ '':'') then i else kind)"

definition live_row :: "time \<Rightarrow> (string \<times> station_count) list \<Rightarrow> string \<times> station_stat \<Rightarrow> station_row list" where
  "live_row now counts ist =
     (case ist of (i, st) \<Rightarrow>
        let c = get_or no_count counts i;
            heard = (if sc_last c > st_last st then sc_last c else st_last st);
            r = (blank_row i (st_source st) (ring_windows now (st_ring st)) (st_first st) heard now)
                  \<lparr>w_dups := st_dups st, w_positions := st_positions st,
                   w_bbox := (if st_min_lat st \<le> st_max_lat st
                              then Some (st_min_lat st, st_min_lon st, st_max_lat st, st_max_lon st) else None)\<rparr>
        in if heard < now - station_keep then [] else [with_series c r])"

definition series_row :: "time \<Rightarrow> station_stats \<Rightarrow> string \<times> station_count \<Rightarrow> station_row list" where
  "series_row now s ic =
     (case ic of (i, c) \<Rightarrow>
        if map_of (ss_m s) i \<noteq> None \<or> sc_last c < now - station_keep then []
        else if sc_source c = ''udp'' \<or> sc_source c = ''mmsi'' \<or> retired_station (sc_source c) then []
        else [with_series c (blank_row i (series_source i (sc_source c))
                (ring_windows now (get_or new_ring (ss_restored s) i)) (sc_first c) (sc_last c) now)])"

definition station_rows :: "time \<Rightarrow> (string \<times> station_count) list \<Rightarrow> station_stats \<Rightarrow> station_row list" where
  "station_rows now counts s =
     sort_key w_station
       (concat (map (live_row now counts) (ss_m s)) @ concat (map (series_row now s) counts))"


section \<open>What stays the same when a station is claimed\<close>

definition stations_ok :: "station_stats \<Rightarrow> bool" where
  "stations_ok s \<longleftrightarrow> is_map (ss_m s) \<and> is_map (ss_restored s) \<and> is_map (ss_restored_own s) \<and>
     (\<forall>i. map_of (ss_m s) i \<noteq> None \<longrightarrow> map_of (ss_restored s) i = None \<and> map_of (ss_restored_own s) i = None)"

lemma bucket_new [simp]: "bucket new_ring h = 0"
proof -
  have "nat (h smod ring_hours) < nat ring_hours"
    using smod_int_range [of ring_hours h] unfolding ring_hours_def by simp linarith
  then show ?thesis by (simp add: bucket_def new_ring_def)
qed

lemma ring_sum_new [simp]: "ring_sum now k new_ring = 0"
  by (simp add: ring_sum_def sum_list_triv)

lemma get_station_effect:
  assumes "get_station i source now s = (st, s')"
  shows "map_of (ss_m s') i = Some st" "x \<noteq> i \<Longrightarrow> map_of (ss_m s') x = map_of (ss_m s) x"
    and "x \<noteq> i \<Longrightarrow> map_of (ss_restored s') x = map_of (ss_restored s) x"
    and "stations_ok s \<Longrightarrow> stations_ok s'"
    and "map_of (ss_m s) i = None \<Longrightarrow> st = new_station source now s i"
    and "map_of (ss_m s) i = Some st0 \<Longrightarrow> st = st0 \<and> s' = s"
  using assms
  by (auto simp: get_station_def Let_def map_of_put map_of_del stations_ok_def split: option.splits)

lemma stations_ok_put:
  "stations_ok s \<Longrightarrow> map_of (ss_m s) i \<noteq> None \<Longrightarrow> stations_ok (s\<lparr>ss_m := put i st (ss_m s)\<rparr>)"
  by (auto simp: stations_ok_def map_of_put)

lemma get_station_counts:
  "events24h_of (snd (get_station i source t s)) now x = events24h_of s now x"
  by (auto simp: get_station_def Let_def events24h_of_def map_of_put map_of_del new_station_def get_or_def
      split: option.splits)

text \<open>
  A run of the statistics: restored from the files before anything is heard, then events,
  duplicates, networks, the candidates read back at any time, and sweeps.
\<close>

inductive stations_reach :: "station_stats \<Rightarrow> bool" where
  start: "is_map m \<Longrightarrow> stations_reach (restore_rings m new_station_stats)"
| event: "stations_reach s \<Longrightarrow> stations_reach (station_event ev s)"
| dup: "stations_reach s \<Longrightarrow> stations_reach (station_dup ev s)"
| net: "stations_reach s \<Longrightarrow> stations_reach (note_net key i s)"
| own: "stations_reach s \<Longrightarrow> is_map cands \<Longrightarrow> stations_reach (restore_own cands s)"
| sweep: "stations_reach s \<Longrightarrow> stations_reach (station_sweep cutoff s)"

lemma map_of_map_values: "map_of (map (\<lambda>(k, v). (k, f v)) m) x = map_option f (map_of m x)"
  by (induction m) auto

lemma map_fst_map_values [simp]: "map (fst \<circ> (\<lambda>(k, v). (k, f v))) m = map fst m"
  by (induction m) auto

lemma stations_ok_restore_own:
  assumes "stations_ok s" "is_map cands"
  shows "stations_ok (restore_own cands s)"
proof -
  let ?step = "\<lambda>(i, own). \<lambda>s. case map_of (ss_m s) i of
              Some st \<Rightarrow> s\<lparr>ss_m := put i (st\<lparr>st_own := merge_own own (st_own st)\<rparr>) (ss_m s)\<rparr>
            | None \<Rightarrow> s\<lparr>ss_restored_own := put i own (ss_restored_own s)\<rparr>"
  have "stations_ok (fold ?step cs s')" if "stations_ok s'" for cs s'
    using that
  proof (induction cs arbitrary: s')
    case (Cons c cs)
    have "stations_ok (?step c s')"
      using Cons.prems by (auto simp: stations_ok_def map_of_put split: option.splits prod.splits)
    then show ?case using Cons.IH by simp
  qed simp
  from this [of "s\<lparr>ss_restored_own := []\<rparr>" cands] assms(1) show ?thesis
    by (simp add: restore_own_def stations_ok_def)
qed

lemma stations_reach_ok: "stations_reach s \<Longrightarrow> stations_ok s"
proof (induction rule: stations_reach.induct)
  case (start m)
  then show ?case by (simp add: restore_rings_def new_station_stats_def stations_ok_def)
next
  case (event s ev)
  obtain st s' where g: "get_station (ev_station ev) (ev_source ev) (ev_time ev) s = (st, s')" by fastforce
  then show ?case using get_station_effect(1,4) [OF g] event.IH
    by (simp add: station_event_def Let_def stations_ok_put)
next
  case (dup s ev)
  obtain st s' where g: "get_station (ev_station ev) (ev_source ev) (ev_time ev) s = (st, s')" by fastforce
  then show ?case using get_station_effect(1,4) [OF g] dup.IH
    by (simp add: station_dup_def Let_def stations_ok_put)
next
  case (net s key i)
  then show ?case by (simp add: note_net_def stations_ok_def)
next
  case (own s cands)
  then show ?case by (simp add: stations_ok_restore_own)
next
  case (sweep s cutoff)
  then show ?case
    unfolding station_sweep_def stations_ok_def by (simp add: map_of_map_values)
qed

section \<open>A restart keeps every station's count\<close>

lemma bucket_after: "hour_no now \<le> h \<Longrightarrow> ring_stale now r \<Longrightarrow> bucket r h = 0"
  by (simp add: ring_stale_def bucket_def ring_hours_def)

lemma ring_sum_stale:
  assumes "ring_stale now r" "hour_no now \<le> hour_no t"
  shows "ring_sum t 24 r = 0"
proof -
  have "bucket r (hour_no t - int i) = 0" if "i < 24" for i
    using assms that by (simp add: ring_stale_def bucket_def ring_hours_def)
  then have "map (\<lambda>i. bucket r (hour_no t - int i)) [0..<min 24 (nat ring_hours)] =
      map (\<lambda>_. 0) [0..<min 24 (nat ring_hours)]"
    by (intro map_cong) (auto simp: ring_hours_def)
  then have "ring_sum t 24 r = sum_list (map (\<lambda>_. 0) [0..<min 24 (nat ring_hours)])"
    unfolding ring_sum_def by (rule arg_cong)
  then show ?thesis by (simp add: sum_list_triv)
qed

lemma fold_put_rings:
  "is_map rs \<Longrightarrow> map_of (fold (\<lambda>(i, r). \<lambda>out. if P r then out else put i r out) rs out) x =
     (case map_of rs x of Some r \<Rightarrow> if P r then map_of out x else Some r | None \<Rightarrow> map_of out x)"
proof (induction rs arbitrary: out)
  case (Cons e rs)
  obtain k v where "e = (k, v)" by fastforce
  moreover have "map_of rs k = None" using Cons.prems calculation by (auto simp: map_of_eq_None_iff)
  ultimately show ?case using Cons.IH Cons.prems by (cases "P v"; cases "x = k") (simp_all add: map_of_put split: option.split)
qed simp

text \<open>
  A restart costs no station its count: the rings saved at one time and restored into fresh
  statistics give every list of stations the same number of events in the last 24 hours, at that
  time and at any later one, as the statistics that saved them, whether a station was heard since
  the start or still waits to be claimed; and claiming one by hearing it changes no count.
\<close>

theorem restart_keeps_counts:
  assumes "stations_reach s" "hour_no now \<le> hour_no t"
  shows "events24h ids t (restore_rings (station_rings now s) new_station_stats) = events24h ids t s \<and>
    events24h ids t (snd (get_station i source u s)) = events24h ids t s"
proof
  have ok: "stations_ok s" using stations_reach_ok [OF assms(1)] .
  let ?live = "map (\<lambda>(i, st). (i, st_ring st)) (keep_if (\<lambda>_ st. \<not> ring_stale now (st_ring st)) (ss_m s))"
  have live: "map_of ?live x = (case map_of (ss_m s) x of None \<Rightarrow> None
      | Some st \<Rightarrow> if ring_stale now (st_ring st) then None else Some (st_ring st))" for x
    using ok by (simp add: map_of_map_values map_of_keep_if stations_ok_def split: option.split)
  have rings: "map_of (station_rings now s) x =
      (case map_of (ss_restored s) x of Some r \<Rightarrow> if ring_stale now r then map_of ?live x else Some r
       | None \<Rightarrow> map_of ?live x)" for x
    using ok by (simp add: station_rings_def fold_put_rings stations_ok_def)
  have stale: "ring_stale now r \<Longrightarrow> ring_sum t 24 r = 0" for r using ring_sum_stale assms(2) by blast
  have "events24h_of (restore_rings (station_rings now s) new_station_stats) t x = events24h_of s t x" for x
  proof (cases "map_of (ss_m s) x")
    case None
    then show ?thesis
      by (cases "map_of (ss_restored s) x")
         (simp_all add: events24h_of_def restore_rings_def new_station_stats_def rings live stale)
  next
    case (Some st)
    then have "map_of (ss_restored s) x = None" using ok by (simp add: stations_ok_def)
    then show ?thesis using Some
      by (simp add: events24h_of_def restore_rings_def new_station_stats_def rings live stale)
  qed
  then show "events24h ids t (restore_rings (station_rings now s) new_station_stats) = events24h ids t s"
    unfolding events24h_def by (intro arg_cong [of _ _ sum_list] map_cong refl)
  show "events24h ids t (snd (get_station i source u s)) = events24h ids t s"
    unfolding events24h_def by (intro arg_cong [of _ _ sum_list] map_cong refl get_station_counts)
qed

definition sample_stations :: station_stats where
  "sample_stations = restore_rings [(''udp:a'', ring_of [999 * hour])] new_station_stats"

lemma sample_stations_reached: "stations_reach sample_stations"
  unfolding sample_stations_def by (rule stations_reach.start) simp

theorem restart_keeps_counts_witness:
  "events24h [''udp:a''] (1000 * hour) (restore_rings (station_rings (1000 * hour) sample_stations) new_station_stats) =
   events24h [''udp:a''] (1000 * hour) sample_stations"
  using restart_keeps_counts [OF sample_stations_reached order_refl, THEN conjunct1] .

section \<open>Which stations are listed\<close>

definition live_listed :: "time \<Rightarrow> (string \<times> station_count) list \<Rightarrow> string \<Rightarrow> station_stat \<Rightarrow> bool" where
  "live_listed now counts i st \<longleftrightarrow>
     now - station_keep \<le> max (st_last st) (sc_last (get_or no_count counts i))"

definition series_listed :: "time \<Rightarrow> station_count \<Rightarrow> bool" where
  "series_listed now c \<longleftrightarrow>
     now - station_keep \<le> sc_last c \<and> sc_source c \<notin> {''udp'', ''mmsi'', ''v1'', ''http''}"

lemma with_series_station [simp]: "w_station (with_series c r) = w_station r"
  by (simp add: with_series_def Let_def)

lemma live_row_station:
  "map w_station (live_row now counts (i, st)) = (if live_listed now counts i st then [i] else [])"
  by (auto simp: live_row_def live_listed_def blank_row_def Let_def max_def)

lemma series_row_station:
  "map w_station (series_row now s (i, c)) =
     (if map_of (ss_m s) i = None \<and> series_listed now c then [i] else [])"
  by (auto simp: series_row_def series_listed_def blank_row_def retired_station_def)

lemma map_concat_if:
  assumes "\<And>k v. map g (f (k, v)) = (if P k v then [k] else [])"
  shows "map g (concat (map f m)) = map fst (keep_if P m)"
proof (induction m)
  case (Cons e m)
  obtain k v where e: "e = (k, v)" by fastforce
  have "map g (f (k, v)) = (if P k v then [k] else [])" by (rule assms)
  then show ?case using Cons.IH by (simp add: e keep_if_def)
qed (simp add: keep_if_def)

lemma station_names:
  "map w_station (concat (map (live_row now counts) (ss_m s)) @ concat (map (series_row now s) counts)) =
   map fst (keep_if (live_listed now counts) (ss_m s)) @
   map fst (keep_if (\<lambda>i c. map_of (ss_m s) i = None \<and> series_listed now c) counts)"
  by (simp only: map_append map_concat_if [OF live_row_station] map_concat_if [OF series_row_station])

lemma fst_keep_if: "is_map m \<Longrightarrow> i \<in> fst ` set (keep_if P m) \<longleftrightarrow> (\<exists>v. map_of m i = Some v \<and> P i v)"
  by (force simp: keep_if_def map_of_in_set)

text \<open>
  The list of stations is in the order of their ids, each once, and holds exactly the stations
  heard within thirty days: those heard since the start, and those only the series has, unless
  their id is one anyone can name (UDP) or a retired kind.
\<close>

theorem station_rows_exact:
  assumes "stations_reach s" "is_map counts"
  shows "sorted (map w_station (station_rows now counts s)) \<and>
    distinct (map w_station (station_rows now counts s)) \<and>
    (i \<in> set (map w_station (station_rows now counts s)) \<longleftrightarrow>
       (case map_of (ss_m s) i of
          Some st \<Rightarrow> live_listed now counts i st
        | None \<Rightarrow> (case map_of counts i of Some c \<Rightarrow> series_listed now c | None \<Rightarrow> False)))"
proof -
  let ?rows = "concat (map (live_row now counts) (ss_m s)) @ concat (map (series_row now s) counts)"
  have m: "is_map (ss_m s)" using stations_reach_ok [OF assms(1)] by (simp add: stations_ok_def)
  have set: "set (map w_station (station_rows now counts s)) = set (map w_station ?rows)"
    by (simp only: station_rows_def set_map set_sort)
  have mset: "mset (map w_station (station_rows now counts s)) = mset (map w_station ?rows)"
    by (simp add: station_rows_def)
  have disj: "fst ` set (keep_if (live_listed now counts) (ss_m s)) \<inter>
      fst ` set (keep_if (\<lambda>i c. map_of (ss_m s) i = None \<and> series_listed now c) counts) = {}"
    unfolding disjoint_iff fst_keep_if [OF m] fst_keep_if [OF assms(2)] by auto
  have "distinct (map w_station ?rows)"
    unfolding station_names distinct_append set_map using disj m assms(2) is_map_keep_if by blast
  then have dist: "distinct (map w_station (station_rows now counts s))"
    using mset by (metis mset_eq_imp_distinct_iff)
  have "i \<in> set (map w_station ?rows) \<longleftrightarrow>
       (case map_of (ss_m s) i of
          Some st \<Rightarrow> live_listed now counts i st
        | None \<Rightarrow> (case map_of counts i of Some c \<Rightarrow> series_listed now c | None \<Rightarrow> False))"
    unfolding station_names set_append set_map Un_iff fst_keep_if [OF m] fst_keep_if [OF assms(2)]
    by (auto split: option.split)
  then show ?thesis using dist set by (simp add: station_rows_def)
qed

theorem station_rows_exact_witness:
  "distinct (map w_station (station_rows (1000 * hour) [(''aishub'', no_count)] sample_stations))"
  using station_rows_exact [OF sample_stations_reached, of "[(''aishub'', no_count)]"] by simp

end
