(* ===== verification/Pipeline.thy ===== *)
theory Pipeline
  imports Cache Stations Delay
begin

text \<open>
  The pipeline of \<open>server/pipeline.go\<close> and the dedupe window's file of \<open>server/dedupe_state.go\<close>:
  NMEA lines and decoded packets become events (\<open>ingestLine\<close>, \<open>ingestPacket\<close>), \<open>emit\<close> drops the
  copies of a transmission, folds the rest and broadcasts them.

  The record \<open>lib\<close> holds the code that is not the program's: the hash of an event id, the NMEA
  grammar, the AIS codec and assembler; with the kinds the record holds and the anchors a replay
  starts from, which other components provide. The clock readings of one step are one parameter,
  \<open>now\<close>. A reception is processed whole (\<open>admit\<close> takes the order lock), so \<open>emit\<close> is a function;
  \<open>dedupe_enter\<close> and \<open>settle_fold\<close> are its two sections under the dedupe lock, of which the proofs
  also consider any interleaving.
\<close>

declare map_of_eq_Some_iff [simp del] corrupt_base_report.simps [simp del]

section \<open>The state\<close>

record vdm =
  vdm_type :: string
  vdm_tag_time :: int
  vdm_tag_source :: string
  vdm_fragments :: int
  vdm_fragment :: int
  vdm_message_id :: int
  vdm_channel :: string

datatype nmea_sentence = ParseError | NotVdm | Vdm vdm

record vdm_packet =
  vp_channel :: int
  vp_payload :: string
  vp_packet :: "packet option"

record ('c, 'e) lib =
  lib_event_id :: "string \<Rightarrow> string"
  lib_seeds :: "mmsi \<Rightarrow> anchor option"
  lib_kind :: "mmsi \<Rightarrow> string"
  lib_parse :: "string \<Rightarrow> nmea_sentence"
  lib_new_codec :: 'c
  lib_assemble :: "'c \<Rightarrow> vdm \<Rightarrow> 'c \<times> vdm_packet option \<times> bool"
  lib_encode :: "packet \<Rightarrow> string option"
  lib_decode :: "string \<Rightarrow> packet option"
  lib_sentences :: "'e \<Rightarrow> int \<Rightarrow> string \<Rightarrow> 'e \<times> string list"

record counters =
  n_parse_err :: int
  n_decode_fail :: int
  n_dup :: int
  n_events :: int
  n_client_drops :: int
  n_replayed :: int
  n_implausible :: int
  n_stale :: int
  n_uncorroborated :: int
  n_invalid :: int

record subscriber =
  sub_queue :: "event list"
  sub_overflow :: bool

record fragment =
  fr_n :: int
  fr_line :: string

record ('c, 'e) pipe =
  p_v :: vstate
  p_seen :: "(string \<times> time) list"
  p_bad :: "(string \<times> time) list"
  p_folding :: "(string \<times> track_point list) list"
  p_hw :: time
  p_n_seen :: int
  p_codecs :: "(string \<times> 'c) list"
  p_pending :: "(string \<times> fragment list) list"
  p_own_of :: "(string \<times> string) list"
  p_encoder :: 'e
  p_paced :: bool
  p_batch :: "event list"
  p_subs :: "(nat \<times> subscriber) list"
  p_feed :: "string list option"
  p_stations :: station_stats
  p_usage :: usage_counters
  p_delays :: "(string \<times> delay_ring) list"
  p_last :: time
  p_last_by :: "(string \<times> time) list"
  p_by_source :: "(string \<times> int) list"
  p_count :: counters

definition dedupe_window :: duration where "dedupe_window = 10 * second"
definition replay_age :: duration where "replay_age = 60 * second"
definition sub_buffer :: nat where "sub_buffer = 1024"

definition new_pipe :: "('c, 'e) pipe \<Rightarrow> ('c, 'e) pipe" where
  "new_pipe p =
     p\<lparr>p_seen := [], p_bad := [], p_folding := [], p_hw := zero_time, p_n_seen := 0, p_codecs := [],
       p_pending := [], p_own_of := [], p_batch := [], p_subs := [], p_stations := new_station_stats,
       p_usage := new_usage, p_delays := [], p_last_by := [], p_by_source := []\<rparr>"

section \<open>Times and lines\<close>

text \<open>\<open>absDur\<close>: negating the least duration leaves it negative.\<close>

definition abs_dur :: "duration \<Rightarrow> duration" where
  "abs_dur d = (if d < 0 then wrap64 (- d) else d)"

definition tag_time :: "int \<Rightarrow> time" where
  "tag_time v =
     (if v \<le> 0 then zero_time
      else if v < 1000000000000 then v * 1000000000
      else if v < 1000000000000000 then v * 1000000
      else v * 1000)"

text \<open>The index of the last byte a test accepts, and of the first.\<close>

definition last_index :: "(char \<Rightarrow> bool) \<Rightarrow> string \<Rightarrow> nat option" where
  "last_index P s = (case filter (\<lambda>i. P (s ! i)) [0..<length s] of [] \<Rightarrow> None | is \<Rightarrow> Some (last is))"

definition first_index :: "(char \<Rightarrow> bool) \<Rightarrow> string \<Rightarrow> nat option" where
  "first_index P s = (let n = length (takeWhile (\<lambda>c. \<not> P c) s) in if n < length s then Some n else None)"

definition strip_trailing_fields :: "string \<Rightarrow> string" where
  "strip_trailing_fields line =
     (case last_index (\<lambda>c. c = CHR ''!'' \<or> c = CHR ''$'') line of
        None \<Rightarrow> line
      | Some i \<Rightarrow>
          (case first_index (\<lambda>c. c = CHR ''*'') (drop i line) of
             None \<Rightarrow> line
           | Some j \<Rightarrow> if length line > i + j + 3 \<and> line ! (i + j + 3) = CHR '','' then take (i + j + 3) line else line))"

text \<open>\<open>addFragment\<close>: a number that comes again starts the message anew.\<close>

definition add_fragment :: "fragment list \<Rightarrow> fragment \<Rightarrow> fragment list" where
  "add_fragment have f = (if fr_n f \<in> fr_n ` set have then [f] else have @ [f])"

section \<open>The dedupe window\<close>

definition event_key :: "event \<Rightarrow> string" where
  "event_key ev = ev_payload ev @ [ev_channel ev]"

definition dedupe_hit :: "event \<Rightarrow> ('c, 'e) pipe \<Rightarrow> time option" where
  "dedupe_hit ev p =
     (case map_of (p_seen p) (event_key ev) of
        None \<Rightarrow> None
      | Some prev \<Rightarrow> if abs_dur (time_sub (ev_time ev) prev) < dedupe_window then Some prev else None)"

definition chon :: "('c, 'e) pipe \<Rightarrow> bool" where
  "chon p = ch_on (vs_chq (p_v p))"

text \<open>The prune every 4096 accepted events, against the newest event time.\<close>

definition prune_dedupe :: "('c, 'e) pipe \<Rightarrow> ('c, 'e) pipe" where
  "prune_dedupe p =
     (if p_n_seen p mod 4096 = 0
      then p\<lparr>p_seen := keep_if (\<lambda>_ t. \<not> t < p_hw p - 6 * dedupe_window) (p_seen p),
             p_bad := keep_if (\<lambda>_ t. \<not> t < p_hw p - 6 * dedupe_window) (p_bad p)\<rparr>
      else p)"

text \<open>An accepted transmission enters the window and, with ClickHouse attached, waits for its verdict.\<close>

definition dedupe_enter :: "event \<Rightarrow> ('c, 'e) pipe \<Rightarrow> ('c, 'e) pipe" where
  "dedupe_enter ev p =
     (let key = event_key ev in
      prune_dedupe
        (p\<lparr>p_seen := put key (ev_time ev) (p_seen p),
           p_folding := (if chon p then put key [] (p_folding p) else p_folding p),
           p_hw := (if ev_time ev > p_hw p then ev_time ev else p_hw p),
           p_n_seen := p_n_seen p + 1\<rparr>))"

text \<open>A copy: held until its transmission's verdict, or written with the verdict that is known.\<close>

definition dedupe_copy :: "(string \<Rightarrow> string) \<Rightarrow> event \<Rightarrow> time \<Rightarrow> ('c, 'e) pipe \<Rightarrow> ('c, 'e) pipe" where
  "dedupe_copy event_id ev prev p =
     (let key = event_key ev;
          bad = (get_or zero_time (p_bad p) key = prev)
      in case map_of (p_folding p) key of
           Some waiting \<Rightarrow>
             if chon p
             then case copy_point event_id ev key prev of
                    None \<Rightarrow> p
                  | Some pt \<Rightarrow> p\<lparr>p_folding := put key (waiting @ [pt]) (p_folding p)\<rparr>
             else p
         | None \<Rightarrow> if chon p then p\<lparr>p_v := note_copy event_id ev key prev bad (p_v p)\<rparr> else p)"

definition write_verdict :: "bool \<Rightarrow> track_point \<Rightarrow> vstate \<Rightarrow> vstate" where
  "write_verdict bad pt st =
     st\<lparr>vs_chq := note_reception (from_transmission (vs_cache st) (pt\<lparr>pt_implausible := bad\<rparr>)) (vs_chq st)\<rparr>"

definition settle_fold :: "string \<Rightarrow> event \<Rightarrow> ('c, 'e) pipe \<Rightarrow> ('c, 'e) pipe" where
  "settle_fold key ev p =
     (let bad = (ev_implausible ev \<or> ev_unserved ev)
      in p\<lparr>p_folding := del key (p_folding p),
           p_bad := (if bad then put key (ev_time ev) (p_bad p) else p_bad p),
           p_v := fold (write_verdict bad) (get_or [] (p_folding p) key) (p_v p)\<rparr>)"

section \<open>Delivery\<close>

definition offer :: "event \<Rightarrow> subscriber \<Rightarrow> subscriber \<times> bool" where
  "offer ev s =
     (if length (sub_queue s) < sub_buffer then (s\<lparr>sub_queue := sub_queue s @ [ev]\<rparr>, False)
      else (s\<lparr>sub_overflow := True\<rparr>, True))"

definition feeder_send :: "('c, 'e) lib \<Rightarrow> event \<Rightarrow> ('c, 'e) pipe \<Rightarrow> ('c, 'e) pipe" where
  "feeder_send lib ev p =
     (case p_feed p of
        None \<Rightarrow> p
      | Some out \<Rightarrow>
          if \<not> feedable ev then p
          else if ev_low_trust ev \<and> \<not> ev_corroborated ev
          then p\<lparr>p_count := (p_count p)\<lparr>n_uncorroborated := n_uncorroborated (p_count p) + 1\<rparr>\<rparr>
          else case lib_sentences lib (p_encoder p) (if ev_channel ev \<in> {CHR ''B'', CHR 0x02} then 2 else 1) (ev_payload ev) of
                 (e, lines) \<Rightarrow> p\<lparr>p_encoder := e, p_feed := Some (out @ lines)\<rparr>)"

definition broadcast :: "('c, 'e) lib \<Rightarrow> event \<Rightarrow> ('c, 'e) pipe \<Rightarrow> ('c, 'e) pipe" where
  "broadcast lib ev p0 =
     (let p = feeder_send lib ev p0
      in p\<lparr>p_subs := map (\<lambda>(i, s). (i, fst (offer ev s))) (p_subs p),
           p_count := (p_count p)\<lparr>n_client_drops := n_client_drops (p_count p) +
                         int (length (filter (\<lambda>(i, s). snd (offer ev s)) (p_subs p)))\<rparr>\<rparr>)"

definition subscribe :: "time \<Rightarrow> nat \<Rightarrow> ('c, 'e) pipe \<Rightarrow> ('c, 'e) pipe" where
  "subscribe now i p =
     p\<lparr>p_usage := (p_usage p)\<lparr>u_streams := ring_add now (u_streams (p_usage p))\<rparr>,
       p_subs := put i \<lparr>sub_queue = [], sub_overflow = False\<rparr> (p_subs p)\<rparr>"

definition unsubscribe :: "nat \<Rightarrow> ('c, 'e) pipe \<Rightarrow> ('c, 'e) pipe" where
  "unsubscribe i p = p\<lparr>p_subs := del i (p_subs p)\<rparr>"

definition touch :: "string \<Rightarrow> time \<Rightarrow> ('c, 'e) pipe \<Rightarrow> ('c, 'e) pipe" where
  "touch source now p =
     p\<lparr>p_last_by := put source now (p_last_by p),
       p_by_source := put source (get_or 0 (p_by_source p) source + 1) (p_by_source p),
       p_usage := usage_source_add (source_kind source) now (p_usage p)\<rparr>"

text \<open>An event the fold accepted, on its way to the subscribers.\<close>

definition deliver :: "('c, 'e) lib \<Rightarrow> time \<Rightarrow> event \<Rightarrow> ('c, 'e) pipe \<Rightarrow> ('c, 'e) pipe" where
  "deliver lib now ev p =
     (let p1 = touch (ev_source ev) now
                 (p\<lparr>p_stations := station_event ev (p_stations p),
                    p_count := (p_count p)\<lparr>n_events := n_events (p_count p) + 1\<rparr>,
                    p_usage := (p_usage p)\<lparr>u_events := ring_add now (u_events (p_usage p))\<rparr>,
                    p_last := now\<rparr>)
      in if ev_source ev = ''aishub'' \<and> p_paced p1 then p1\<lparr>p_batch := p_batch p1 @ [ev]\<rparr>
         else broadcast lib ev p1)"

definition note_own_event :: "event \<Rightarrow> ('c, 'e) pipe \<Rightarrow> ('c, 'e) pipe" where
  "note_own_event ev p = (if ev_own ev then p\<lparr>p_v := (p_v p)\<lparr>vs_chq := note_own ev (vs_chq (p_v p))\<rparr>\<rparr> else p)"

section \<open>Emit\<close>

definition emit_copy :: "('c, 'e) lib \<Rightarrow> time \<Rightarrow> event \<Rightarrow> time \<Rightarrow> ('c, 'e) pipe \<Rightarrow> ('c, 'e) pipe" where
  "emit_copy lib now ev prev p0 =
     (let p1 = dedupe_copy (lib_event_id lib) ev prev p0;
          p2 = p1\<lparr>p_count := (p_count p1)\<lparr>n_dup := n_dup (p_count p1) + 1\<rparr>,
                 p_usage := (p_usage p1)\<lparr>u_dups := ring_add now (u_dups (p_usage p1))\<rparr>,
                 p_stations := station_dup ev (p_stations p1)\<rparr>;
          p3 = note_own_event ev p2
      in if \<not> low_trust (ev_source ev) \<and> is_position_type (type_name (ev_packet ev))
         then p3\<lparr>p_v := mark_trusted (user_id (ev_packet ev)) (ev_time ev) (p_v p3)\<rparr>
         else p3)"

definition stamped :: "('c, 'e) lib \<Rightarrow> event \<Rightarrow> event" where
  "stamped lib ev =
     ev\<lparr>ev_id := lib_event_id lib (event_key ev), ev_type := type_name (ev_packet ev),
        ev_mmsi := user_id (ev_packet ev), ev_low_trust := low_trust (ev_source ev)\<rparr>"

definition emit_accept :: "('c, 'e) lib \<Rightarrow> time \<Rightarrow> event \<Rightarrow> ('c, 'e) pipe \<Rightarrow> ('c, 'e) pipe" where
  "emit_accept lib now ev0 p0 =
     (let p1 = dedupe_enter ev0 p0
      in case update_vessel (lib_event_id lib) (lib_seeds lib) (lib_kind lib) (stamped lib ev0) (p_v p1) of
        (ev, st) \<Rightarrow>
          let p2 = p1\<lparr>p_v := st\<rparr>;
              p3 = (if chon p2 \<or> ev_implausible ev then settle_fold (event_key ev0) ev p2 else p2);
              p4 = note_own_event ev p3
          in if ev_implausible ev
             then p4\<lparr>p_count := (p_count p4)\<lparr>n_implausible := n_implausible (p_count p4) + 1\<rparr>\<rparr>
             else if ev_stale ev
             then touch (ev_source ev) now
                    (p4\<lparr>p_count := (p_count p4)\<lparr>n_stale := n_stale (p_count p4) + 1\<rparr>\<rparr>)
             else deliver lib now ev p4)"

definition emit :: "('c, 'e) lib \<Rightarrow> time \<Rightarrow> event \<Rightarrow> ('c, 'e) pipe \<Rightarrow> ('c, 'e) pipe" where
  "emit lib now ev p =
     (if \<not> valid_mmsi (user_id (ev_packet ev))
      then p\<lparr>p_count := (p_count p)\<lparr>n_invalid := n_invalid (p_count p) + 1\<rparr>\<rparr>
      else if corrupt_base_report ev
      then p\<lparr>p_count := (p_count p)\<lparr>n_decode_fail := n_decode_fail (p_count p) + 1\<rparr>\<rparr>
      else
        let p1 = p\<lparr>p_v := (p_v p)\<lparr>vs_chq := note_static ev (vs_chq (p_v p))\<rparr>,
                  p_delays := delay_observe ev now (p_delays p)\<rparr>
        in case dedupe_hit ev p1 of
             Some prev \<Rightarrow> emit_copy lib now ev prev p1
           | None \<Rightarrow> emit_accept lib now ev p1)"

section \<open>Receptions\<close>

record reception =
  rx_source :: string
  rx_station :: string
  rx_recv :: time
  rx_source_time :: time
  rx_body :: string
  rx_buffered :: bool
  rx_published :: bool

text \<open>The event's time: the TAG time if it is believable, else the source's, else the receipt's.\<close>

definition canonical_time :: "reception \<Rightarrow> vdm \<Rightarrow> time" where
  "canonical_time rx v =
     (let t = rx_recv rx; tag = tag_time (vdm_tag_time v) in
      if tag \<noteq> zero_time \<and> (abs_dur (time_sub tag t) \<le> max_skew \<or> rx_buffered rx \<and> tag < t) then tag
      else if rx_source_time rx \<noteq> zero_time \<and> abs_dur (time_sub (rx_source_time rx) t) \<le> max_skew
      then rx_source_time rx else t)"

definition replayed_line :: "reception \<Rightarrow> vdm \<Rightarrow> bool" where
  "replayed_line rx v \<longleftrightarrow>
     rx_buffered rx \<and> tag_time (vdm_tag_time v) \<noteq> zero_time \<and>
     time_sub (rx_recv rx) (tag_time (vdm_tag_time v)) > replay_age"

definition pending_key :: "string \<Rightarrow> vdm \<Rightarrow> string" where
  "pending_key station v =
     station @ CHR 0x00 # (if vdm_message_id v < 0 then CHR ''-'' # dec (nat (- vdm_message_id v))
                           else dec (nat (vdm_message_id v))) @ CHR 0x00 # vdm_channel v"

text \<open>The assembly of one sentence under the pipeline's lock: the packet it completes, and its lines.\<close>

definition assemble_line ::
  "('c, 'e) lib \<Rightarrow> string \<Rightarrow> string \<Rightarrow> vdm \<Rightarrow> ('c, 'e) pipe \<Rightarrow> (vdm_packet option \<times> bool \<times> string list) \<times> ('c, 'e) pipe" where
  "assemble_line lib station line v p =
     (let nc = get_or (lib_new_codec lib) (p_codecs p) station;
          pk = pending_key station v;
          multi = vdm_fragments v > 1;
          pending = (if multi
                     then put pk (add_fragment (get_or [] (p_pending p) pk) \<lparr>fr_n = vdm_fragment v, fr_line = line\<rparr>) (p_pending p)
                     else p_pending p)
      in case lib_assemble lib nc v of
           (nc', pkt, err) \<Rightarrow>
             ((pkt, err,
               if pkt = None then [] else if multi then map fr_line (get_or [] pending pk) else [line]),
              p\<lparr>p_codecs := put station nc' (p_codecs p),
                p_pending := (if pkt \<noteq> None \<and> multi then del pk pending else pending)\<rparr>))"

text \<open>A UDP sender's own-ship sentence names it by its MMSI from then on.\<close>

definition relabel :: "reception \<Rightarrow> vdm \<Rightarrow> packet \<Rightarrow> string \<Rightarrow> ('c, 'e) pipe \<Rightarrow> (string \<times> string) \<times> ('c, 'e) pipe" where
  "relabel rx v pkt station p =
     (if \<not> has_prefix (rx_source rx) ''udp:'' then ((rx_source rx, station), p)
      else
        let p1 = (if vdm_type v = ''VDO'' \<and> valid_mmsi (user_id pkt)
                  then p\<lparr>p_own_of := put (rx_source rx) (''mmsi:'' @ dec (unat (user_id pkt))) (p_own_of p)\<rparr> else p);
            own = get_or [] (p_own_of p1) (rx_source rx)
        in (if own \<noteq> [] then (own, own) else (rx_source rx, station), p1))"

definition line_event ::
  "reception \<Rightarrow> vdm \<Rightarrow> vdm_packet \<Rightarrow> packet \<Rightarrow> string list \<Rightarrow> string \<Rightarrow> string \<Rightarrow> string \<Rightarrow> event" where
  "line_event rx v vp pkt sentences sender source station =
     (new_event (canonical_time rx v) (rx_recv rx) source station
        (if vp_channel vp = 2 then CHR ''B'' else CHR ''A'') (vp_payload vp) pkt sentences)
       \<lparr>ev_synthesized := (vdm_type v = ''VDO'' \<and> vdm_tag_source v = ''self''),
        ev_own := (vdm_type v = ''VDO''), ev_sender := sender\<rparr>"

definition ingest_vdm ::
  "('c, 'e) lib \<Rightarrow> time \<Rightarrow> reception \<Rightarrow> string \<Rightarrow> vdm \<Rightarrow> ('c, 'e) pipe \<Rightarrow> ('c, 'e) pipe" where
  "ingest_vdm lib now rx line v p =
     (if replayed_line rx v then p\<lparr>p_count := (p_count p)\<lparr>n_replayed := n_replayed (p_count p) + 1\<rparr>\<rparr>
      else
        let tagged = (if vdm_tag_source v \<noteq> [] then rx_source rx @ CHR ''/'' # vdm_tag_source v else rx_station rx)
        in case assemble_line lib tagged line v p of
             ((pkt, err, sentences), p1) \<Rightarrow>
               if err then p1
               else case pkt of
                 None \<Rightarrow> p1
               | Some vp \<Rightarrow>
                   (case vp_packet vp of
                      None \<Rightarrow> p1\<lparr>p_count := (p_count p1)\<lparr>n_decode_fail := n_decode_fail (p_count p1) + 1\<rparr>\<rparr>
                    | Some q \<Rightarrow>
                        let station = (if volunteer (rx_source rx) then rx_station rx else tagged)
                        in case relabel rx v q station p1 of
                             ((source, station'), p2) \<Rightarrow>
                               emit lib now (line_event rx v vp q sentences station source station') p2))"

definition ingest_line :: "('c, 'e) lib \<Rightarrow> time \<Rightarrow> reception \<Rightarrow> ('c, 'e) pipe \<Rightarrow> ('c, 'e) pipe" where
  "ingest_line lib now rx p =
     (let line = strip_trailing_fields (trim_space (rx_body rx)) in
      if trim_space (rx_body rx) = [] then p
      else case lib_parse lib line of
        ParseError \<Rightarrow> p\<lparr>p_count := (p_count p)\<lparr>n_parse_err := n_parse_err (p_count p) + 1\<rparr>\<rparr>
      | NotVdm \<Rightarrow> p
      | Vdm v \<Rightarrow> ingest_vdm lib now rx line v p)"

text \<open>\<open>ingestPacket\<close>: a decoded message of a source that is not NMEA.\<close>

definition ingest_packet ::
  "('c, 'e) lib \<Rightarrow> time \<Rightarrow> string \<Rightarrow> string \<Rightarrow> time \<Rightarrow> time \<Rightarrow> packet \<Rightarrow> ('c, 'e) pipe \<Rightarrow> ('c, 'e) pipe" where
  "ingest_packet lib now source station t0 recv pkt p =
     (let t = (if t0 = zero_time \<or> t0 > recv then recv else t0);
          failed = p\<lparr>p_count := (p_count p)\<lparr>n_decode_fail := n_decode_fail (p_count p) + 1\<rparr>\<rparr>
      in case lib_encode lib pkt of
           None \<Rightarrow> failed
         | Some payload \<Rightarrow>
             (case lib_decode lib payload of
                None \<Rightarrow> failed
              | Some decoded \<Rightarrow>
                  (case lib_sentences lib (p_encoder p) 1 payload of
                     (e, sentences) \<Rightarrow>
                       emit lib now
                         ((new_event t recv source station (CHR 0x00) payload decoded sentences)
                            \<lparr>ev_synthesized := True, ev_rebuilt := True\<rparr>)
                         (p\<lparr>p_encoder := e\<rparr>))))"

section \<open>The dedupe window across a restart\<close>

text \<open>
  The file's text: \<open>enc\<close> and \<open>unenc\<close> are base64, \<open>fmt\<close> and \<open>parse\<close> RFC 3339 with nanoseconds. Entries
  that do not read back are skipped.
\<close>

record dedupe_state =
  ds_hw :: time
  ds_seen :: "(string \<times> string) list"

definition save_dedupe :: "(string \<Rightarrow> string) \<Rightarrow> (time \<Rightarrow> string) \<Rightarrow> ('c, 'e) pipe \<Rightarrow> dedupe_state" where
  "save_dedupe enc fmt p =
     \<lparr>ds_hw = p_hw p,
      ds_seen = fold (\<lambda>(k, v). put (enc k) (fmt v))
                  (keep_if (\<lambda>_ v. \<not> v < p_hw p - 6 * dedupe_window) (p_seen p)) []\<rparr>"

definition load_entry ::
  "(string \<Rightarrow> string option) \<Rightarrow> (string \<Rightarrow> time option) \<Rightarrow> string \<times> string \<Rightarrow> (string \<times> time) list \<Rightarrow> (string \<times> time) list" where
  "load_entry unenc parse e seen =
     (case unenc (fst e) of
        None \<Rightarrow> seen
      | Some k \<Rightarrow> case parse (snd e) of None \<Rightarrow> seen | Some t \<Rightarrow> put k t seen)"

definition load_dedupe ::
  "(string \<Rightarrow> string option) \<Rightarrow> (string \<Rightarrow> time option) \<Rightarrow> dedupe_state \<Rightarrow> ('c, 'e) pipe \<Rightarrow> ('c, 'e) pipe" where
  "load_dedupe unenc parse st p =
     p\<lparr>p_seen := fold (load_entry unenc parse) (ds_seen st) (p_seen p),
       p_hw := (if ds_hw st > p_hw p then ds_hw st else p_hw p)\<rparr>"

section \<open>What a step leaves alone\<close>

text \<open>The dedupe window: what decides whether an event is a copy, and with which verdict.\<close>

definition window_of :: "('c, 'e) pipe \<Rightarrow> (string \<times> time) list \<times> (string \<times> time) list \<times> time \<times> (string \<times> track_point list) list" where
  "window_of p = (p_seen p, p_bad p, p_hw p, p_folding p)"

lemma window_frames [simp]:
  "window_of (p\<lparr>p_v := st\<rparr>) = window_of p" "window_of (p\<lparr>p_count := c\<rparr>) = window_of p"
  "window_of (p\<lparr>p_usage := us\<rparr>) = window_of p" "window_of (p\<lparr>p_stations := ss\<rparr>) = window_of p"
  "window_of (p\<lparr>p_delays := ds\<rparr>) = window_of p" "window_of (p\<lparr>p_subs := subs\<rparr>) = window_of p"
  "window_of (p\<lparr>p_batch := b\<rparr>) = window_of p" "window_of (p\<lparr>p_last := t\<rparr>) = window_of p"
  "window_of (p\<lparr>p_encoder := e\<rparr>) = window_of p" "window_of (p\<lparr>p_feed := f\<rparr>) = window_of p"
  "window_of (p\<lparr>p_codecs := cs\<rparr>) = window_of p" "window_of (p\<lparr>p_pending := pd\<rparr>) = window_of p"
  "window_of (p\<lparr>p_own_of := ow\<rparr>) = window_of p" "window_of (p\<lparr>p_last_by := lb\<rparr>) = window_of p"
  "window_of (p\<lparr>p_by_source := bs\<rparr>) = window_of p"
  by (simp_all add: window_of_def)

lemma window_touch [simp]: "window_of (touch source now p) = window_of p"
  by (simp add: touch_def)

lemma window_feeder [simp]: "window_of (feeder_send lib ev p) = window_of p"
  by (simp add: feeder_send_def split: option.split prod.split)

lemma window_broadcast [simp]: "window_of (broadcast lib ev p) = window_of p"
  by (simp add: broadcast_def Let_def)

lemma window_deliver [simp]: "window_of (deliver lib now ev p) = window_of p"
  by (simp add: deliver_def Let_def)

lemma window_note_own [simp]: "window_of (note_own_event ev p) = window_of p"
  by (simp add: note_own_event_def)

lemma window_fields:
  "window_of p = window_of q \<Longrightarrow>
   p_seen p = p_seen q \<and> p_bad p = p_bad q \<and> p_hw p = p_hw q \<and> p_folding p = p_folding q"
  by (simp add: window_of_def)

text \<open>The fold never attaches or detaches ClickHouse.\<close>

lemma note_reception_on [simp]: "ch_on (note_reception pt q) = ch_on q"
  by (simp add: note_reception_def ch_on_def split: option.split)

lemma sweep_due_chq [simp]: "vs_chq (sweep_due ev st) = vs_chq st"
  by (simp add: sweep_due_def)

lemma update_vessel_cases:
  assumes "update_vessel event_id seeds kind_of ev st = (ev', st')"
  obtains (rejected) u v s where "vs_chq s = vs_chq st" "fold_rejected event_id seeds (ev\<lparr>ev_stale := False\<rparr>) u v s = (ev', st')"
  | (accepted) cr hp ist stale u v s where "vs_chq s = vs_chq st"
      "fold_accepted event_id seeds cr hp ist stale (ev\<lparr>ev_stale := stale\<rparr>) u v s = (ev', st')"
proof -
  obtain u hp ist where f: "fold_of (ev_packet ev) = (u, hp, ist)" by (metis prod_cases3)
  let ?s = "sweep_due ev st"
  define v where "v = vessel_for kind_of (ev_mmsi ev) (vs_cache ?s)"
  define stale where "stale = stale_for v (ev_time ev) hp ist (ev_rebuilt ev)"
  define cr where "cr = (map_of (c_vessels (vs_cache ?s)) (ev_mmsi ev) = None)"
  have eq: "update_vessel event_id seeds kind_of ev st =
    (if hp \<and> \<not> stale \<and> v_has_pos v \<and> implausible_move v (ev\<lparr>ev_stale := stale\<rparr>) u
     then fold_rejected event_id seeds (ev\<lparr>ev_stale := stale\<rparr>) u v ?s
     else fold_accepted event_id seeds cr hp ist stale (ev\<lparr>ev_stale := stale\<rparr>) u v ?s)"
    unfolding update_vessel_def f prod.case Let_def v_def stale_def cr_def by (rule refl)
  show thesis
  proof (cases "hp \<and> \<not> stale \<and> v_has_pos v \<and> implausible_move v (ev\<lparr>ev_stale := stale\<rparr>) u")
    case True
    from trans [OF eq if_P [OF True]] True show thesis using assms rejected [of ?s u v] by simp
  next
    case False
    from trans [OF eq if_not_P [OF False]] show thesis using assms accepted [of ?s cr hp ist stale u v] by simp
  qed
qed

lemma note_folded_on:
  "note_folded event_id seeds ev v u stale prev q = (ev', v', q') \<Longrightarrow> ch_on q' = ch_on q"
  by (simp only: note_folded_def Let_def split: prod.splits if_splits option.splits)
     (auto simp: ch_on_def note_reception_def split: option.splits)

lemma fold_rejected_on:
  assumes "fold_rejected event_id seeds ev u v st = (ev', st')"
  shows "ch_on (vs_chq st') = ch_on (vs_chq st)"
proof -
  obtain e w q where n: "note_folded event_id seeds (ev\<lparr>ev_implausible := True\<rparr>) v u False (prev_pos v) (vs_chq st) = (e, w, q)"
    by (metis prod_cases3)
  show ?thesis using assms note_folded_on [OF n] by (auto simp: fold_rejected_def n)
qed

lemma fold_accepted_note:
  assumes "fold_accepted event_id seeds cr hp ist stale ev u v st = (ev', st')"
  obtains e1 v1 e2 v2 q where "ev_unserved e1 = ev_unserved ev" "ev_time e1 = ev_time ev"
    "ev_implausible e1 = ev_implausible ev"
    "(if hp then note_folded event_id seeds e1 v1 u stale (prev_pos v) (vs_chq st) else (e1, v1, vs_chq st)) = (e2, v2, q)"
    "vs_chq st' = q" "ev_unserved ev' = ev_unserved e2" "ev_time ev' = ev_time e2" "ev_implausible ev' = ev_implausible e2"
proof -
  define e1v1 where "e1v1 = (if hp \<and> \<not> stale then move_vessel ev u (v\<lparr>v_feat := None\<rparr>) (c_cells (vs_cache st))
      else (v\<lparr>v_feat := None\<rparr>, c_cells (vs_cache st)))"
  obtain v1 cs where m: "e1v1 = (v1, cs)" by fastforce
  define e1 where "e1 = ev\<lparr>ev_corroborated :=
      (\<not> ev_low_trust ev \<or> time_sub (ev_time ev) (v_trusted_at v1) < corroboration_window)\<rparr>"
  obtain e2 v2 q where n: "(if hp then note_folded event_id seeds e1 v1 u stale (prev_pos v) (vs_chq st)
      else (e1, v1, vs_chq st)) = (e2, v2, q)" by (metis prod_cases3)
  have "vs_chq st' = q \<and> ev_unserved ev' = ev_unserved e2 \<and> ev_time ev' = ev_time e2 \<and> ev_implausible ev' = ev_implausible e2"
    using assms unfolding fold_accepted_def Let_def e1v1_def [symmetric] m prod.case e1_def [symmetric] n
    by (auto simp: stamp_event_def)
  then show thesis using that [of e1 v1 e2 v2 q] n by (simp add: e1_def)
qed

lemma update_vessel_on:
  assumes "update_vessel event_id seeds kind_of ev st = (ev', st')"
  shows "ch_on (vs_chq st') = ch_on (vs_chq st)"
  using assms
proof (cases rule: update_vessel_cases)
  case (rejected u v s)
  then show ?thesis using fold_rejected_on by metis
next
  case (accepted cr hp ist stale u v s)
  from accepted(2) show ?thesis
    by (rule fold_accepted_note) (use accepted(1) in \<open>auto dest: note_folded_on split: if_splits\<close>)
qed

text \<open>Without ClickHouse, nothing is kept out of history by the writer's own judgement.\<close>

lemma note_folded_off:
  "note_folded event_id seeds ev v u stale prev q = (ev', v', q') \<Longrightarrow> \<not> ch_on q \<Longrightarrow> ev' = ev"
  by (simp add: note_folded_def)

lemma note_folded_event:
  "note_folded event_id seeds ev v u stale prev q = (ev', v', q') \<Longrightarrow>
   ev_time ev' = ev_time ev \<and> ev_implausible ev' = ev_implausible ev"
  by (drule note_folded_effect(2)) (metis event.select_convs(2,23) event.surjective event.update_convs(20))

lemma update_vessel_off:
  assumes "update_vessel event_id seeds kind_of ev st = (ev', st')" "\<not> ch_on (vs_chq st)"
  shows "ev_unserved ev' = ev_unserved ev"
  using assms(1)
proof (cases rule: update_vessel_cases)
  case (rejected u v s)
  then show ?thesis using assms(2)
    by (auto simp: fold_rejected_def split: prod.splits dest!: note_folded_off)
next
  case (accepted cr hp ist stale u v s)
  from accepted(2) show ?thesis
    by (rule fold_accepted_note)
       (use accepted(1) assms(2) in \<open>auto dest: note_folded_off split: if_splits\<close>)
qed

lemma update_vessel_time:
  assumes "update_vessel event_id seeds kind_of ev st = (ev', st')"
  shows "ev_time ev' = ev_time ev"
  using assms
proof (cases rule: update_vessel_cases)
  case (rejected u v s)
  then show ?thesis by (auto simp: fold_rejected_def split: prod.splits dest!: note_folded_event)
next
  case (accepted cr hp ist stale u v s)
  from accepted(2) show ?thesis
    by (rule fold_accepted_note) (auto dest: note_folded_event split: if_splits)
qed

section \<open>Runs of the dedupe window\<close>

text \<open>What the log of accepted transmissions gains by an event: its key, time and verdict.\<close>

type_synonym accept_log = "(string \<times> time \<times> bool) list"

definition noted :: "event \<Rightarrow> time \<Rightarrow> ('c, 'e) pipe \<Rightarrow> ('c, 'e) pipe" where
  "noted ev now p = p\<lparr>p_v := (p_v p)\<lparr>vs_chq := note_static ev (vs_chq (p_v p))\<rparr>,
                     p_delays := delay_observe ev now (p_delays p)\<rparr>"

definition emit_log :: "('c, 'e) lib \<Rightarrow> time \<Rightarrow> event \<Rightarrow> ('c, 'e) pipe \<Rightarrow> accept_log" where
  "emit_log lib now ev p =
     (if \<not> valid_mmsi (user_id (ev_packet ev)) \<or> corrupt_base_report ev \<or> dedupe_hit ev p \<noteq> None then []
      else case update_vessel (lib_event_id lib) (lib_seeds lib) (lib_kind lib) (stamped lib ev)
                  (p_v (noted ev now p)) of
             (ev', _) \<Rightarrow> [(event_key ev, ev_time ev, ev_implausible ev' \<or> ev_unserved ev')])"

inductive pipe_run :: "('c, 'e) lib \<Rightarrow> ('c, 'e) pipe \<Rightarrow> accept_log \<Rightarrow> bool" for lib where
  start: "window_of p = ([], [], t, []) \<Longrightarrow> pipe_run lib p []"
| emit: "pipe_run lib p lg \<Longrightarrow> \<not> ev_unserved ev \<Longrightarrow>
    pipe_run lib (emit lib now ev p) (emit_log lib now ev p @ lg)"
| other: "pipe_run lib p lg \<Longrightarrow> window_of p' = window_of p \<Longrightarrow> pipe_run lib p' lg"

definition fresh_since :: "('c, 'e) pipe \<Rightarrow> time" where
  "fresh_since p = p_hw p - 6 * dedupe_window"

definition window_ok :: "('c, 'e) pipe \<Rightarrow> accept_log \<Rightarrow> bool" where
  "window_ok p lg \<longleftrightarrow> p_folding p = [] \<and> is_map (p_seen p) \<and> is_map (p_bad p) \<and>
     (\<forall>k t. map_of (p_seen p) k = Some t \<longrightarrow> (\<exists>b. map_of lg k = Some (t, b))) \<and>
     (\<forall>k t b. map_of lg k = Some (t, b) \<longrightarrow> map_of (p_seen p) k = Some t \<or> t < fresh_since p) \<and>
     (\<forall>k t. map_of (p_bad p) k = Some t \<longrightarrow> (k, t, True) \<in> set lg) \<and>
     (\<forall>k t. map_of lg k = Some (t, True) \<longrightarrow> map_of (p_bad p) k = Some t \<or> t < fresh_since p)"

lemma window_noted [simp]: "window_of (noted ev now p) = window_of p"
  by (simp add: noted_def)

lemma emit_noted:
  "valid_mmsi (user_id (ev_packet ev)) \<Longrightarrow> \<not> corrupt_base_report ev \<Longrightarrow>
   emit lib now ev p =
     (case dedupe_hit ev p of Some prev \<Rightarrow> emit_copy lib now ev prev (noted ev now p)
      | None \<Rightarrow> emit_accept lib now ev (noted ev now p))"
  unfolding emit_def noted_def Let_def dedupe_hit_def by simp

lemma dedupe_copy_window: "p_folding p = [] \<Longrightarrow> window_of (dedupe_copy event_id ev prev p) = window_of p"
  by (simp add: dedupe_copy_def Let_def)

lemma emit_copy_window:
  assumes "p_folding p = []"
  shows "window_of (emit_copy lib now ev prev p) = window_of p"
  using dedupe_copy_window [OF assms, of "lib_event_id lib" ev prev] by (simp add: emit_copy_def Let_def)

lemma dedupe_enter_fields:
  "p_v (dedupe_enter ev p) = p_v p"
  "p_folding (dedupe_enter ev p) = (if chon p then put (event_key ev) [] (p_folding p) else p_folding p)"
  "p_hw (dedupe_enter ev p) = max (ev_time ev) (p_hw p)"
  by (simp_all add: dedupe_enter_def prune_dedupe_def Let_def max_def)

lemma dedupe_enter_seen:
  assumes "is_map (p_seen p)"
  shows "is_map (p_seen (dedupe_enter ev p))"
    and "map_of (p_seen (dedupe_enter ev p)) k = Some t \<Longrightarrow>
      t = (if k = event_key ev then ev_time ev else t) \<and> (k \<noteq> event_key ev \<longrightarrow> map_of (p_seen p) k = Some t)"
    and "map_of (put (event_key ev) (ev_time ev) (p_seen p)) k = Some t \<Longrightarrow>
      map_of (p_seen (dedupe_enter ev p)) k = Some t \<or> t < fresh_since (dedupe_enter ev p)"
  using assms
  by (auto simp: dedupe_enter_def prune_dedupe_def Let_def fresh_since_def is_map_put is_map_keep_if
      map_of_keep_if map_of_put split: option.splits if_splits)

lemma dedupe_enter_bad:
  assumes "is_map (p_bad p)"
  shows "is_map (p_bad (dedupe_enter ev p))"
    and "map_of (p_bad (dedupe_enter ev p)) k = Some t \<Longrightarrow> map_of (p_bad p) k = Some t"
    and "map_of (p_bad p) k = Some t \<Longrightarrow>
      map_of (p_bad (dedupe_enter ev p)) k = Some t \<or> t < fresh_since (dedupe_enter ev p)"
  using assms
  by (auto simp: dedupe_enter_def prune_dedupe_def Let_def fresh_since_def is_map_keep_if
      map_of_keep_if split: option.splits if_splits)

lemma emit_accept_window:
  assumes up: "update_vessel (lib_event_id lib) (lib_seeds lib) (lib_kind lib) (stamped lib ev) (p_v p) = (ev', st)"
    and none: "p_folding p = []" and un: "\<not> ev_unserved ev"
  shows "window_of (emit_accept lib now ev p) =
    (p_seen (dedupe_enter ev p),
     (if ev_implausible ev' \<or> ev_unserved ev' then put (event_key ev) (ev_time ev) (p_bad (dedupe_enter ev p))
      else p_bad (dedupe_enter ev p)),
     p_hw (dedupe_enter ev p), [])"
proof -
  let ?p1 = "dedupe_enter ev p" and ?p2 = "(dedupe_enter ev p)\<lparr>p_v := st\<rparr>"
  have time: "ev_time ev' = ev_time ev" using update_vessel_time [OF up] by (simp add: stamped_def)
  have on: "chon ?p2 = chon p" using update_vessel_on [OF up] by (simp add: chon_def)
  have off: "\<not> chon p \<Longrightarrow> \<not> ev_unserved ev'"
    using update_vessel_off [OF up] un by (simp add: chon_def stamped_def)
  have fold1: "p_folding ?p1 = (if chon p then [(event_key ev, [])] else [])"
    using none by (simp add: dedupe_enter_fields)
  have settle: "window_of (if chon ?p2 \<or> ev_implausible ev' then settle_fold (event_key ev) ev' ?p2 else ?p2) =
    (p_seen ?p1, (if ev_implausible ev' \<or> ev_unserved ev' then put (event_key ev) (ev_time ev) (p_bad ?p1) else p_bad ?p1),
     p_hw ?p1, [])"
    using off fold1 unfolding on by (auto simp: settle_fold_def window_of_def Let_def time)
  have "window_of (emit_accept lib now ev p) =
    window_of (if chon ?p2 \<or> ev_implausible ev' then settle_fold (event_key ev) ev' ?p2 else ?p2)"
    unfolding emit_accept_def Let_def dedupe_enter_fields(1) up prod.case by simp
  then show ?thesis unfolding settle .
qed

lemma window_ok_emit:
  assumes "window_ok p lg" "\<not> ev_unserved ev"
  shows "window_ok (emit lib now ev p) (emit_log lib now ev p @ lg)"
proof (cases "valid_mmsi (user_id (ev_packet ev)) \<and> \<not> corrupt_base_report ev")
  case False
  then have "window_of (emit lib now ev p) = window_of p" by (auto simp: emit_def)
  then show ?thesis using assms False by (auto simp: emit_log_def window_ok_def window_of_def fresh_since_def)
next
  case True
  have fold0: "p_folding (noted ev now p) = []"
    using assms(1) by (simp add: window_ok_def noted_def)
  show ?thesis
  proof (cases "dedupe_hit ev p")
    case (Some prev)
    then have "window_of (emit lib now ev p) = window_of p"
      using True emit_copy_window [OF fold0] by (simp add: emit_noted)
    then show ?thesis using assms Some by (auto simp: emit_log_def window_ok_def window_of_def fresh_since_def)
  next
    case None
    obtain ev' st where up: "update_vessel (lib_event_id lib) (lib_seeds lib) (lib_kind lib) (stamped lib ev)
        (p_v (noted ev now p)) = (ev', st)" by fastforce
    define b where "b = (ev_implausible ev' \<or> ev_unserved ev')"
    let ?k = "event_key ev" and ?n = "dedupe_enter ev (noted ev now p)" and ?p' = "emit lib now ev p"
    have w: "p_seen ?p' = p_seen ?n" "p_hw ?p' = p_hw ?n" "p_folding ?p' = []"
      "p_bad ?p' = (if b then put ?k (ev_time ev) (p_bad ?n) else p_bad ?n)"
      using True None emit_accept_window [OF up fold0 assms(2), of now]
      by (simp_all add: emit_noted window_of_def b_def)
    have lg: "emit_log lib now ev p @ lg = (?k, ev_time ev, b) # lg"
      using True None up by (simp add: emit_log_def b_def)
    have nf: "p_seen (noted ev now p) = p_seen p" "p_bad (noted ev now p) = p_bad p" "p_hw (noted ev now p) = p_hw p"
      by (simp_all add: noted_def)
    have maps: "is_map (p_seen (noted ev now p))" "is_map (p_bad (noted ev now p))"
      using assms(1) by (simp_all add: nf window_ok_def)
    note seen = dedupe_enter_seen [where ev = ev, OF maps(1), unfolded nf]
    note bad = dedupe_enter_bad [where ev = ev, OF maps(2), unfolded nf]
    have fresh: "fresh_since ?p' = fresh_since ?n" by (simp add: fresh_since_def w)
    have up_hw: "fresh_since p \<le> fresh_since ?n" by (simp add: fresh_since_def dedupe_enter_fields nf)
    have "\<exists>b'. map_of ((?k, ev_time ev, b) # lg) k = Some (t, b')" if "map_of (p_seen ?p') k = Some t" for k t
      using seen(2) [of k t] that assms(1) by (cases "k = ?k") (auto simp: w window_ok_def)
    moreover have "map_of (p_seen ?p') k = Some t \<or> t < fresh_since ?p'"
      if "map_of ((?k, ev_time ev, b) # lg) k = Some (t, b')" for k t b'
    proof (cases "k = ?k")
      case True
      then show ?thesis using that seen(3) [of k t] by (simp add: w fresh map_of_put)
    next
      case False
      then have "map_of (p_seen p) k = Some t \<or> t < fresh_since p"
        using that assms(1) by (simp add: window_ok_def)
      then show ?thesis using seen(3) [of k t] False up_hw by (auto simp: w fresh map_of_put)
    qed
    moreover have "(k, t, True) \<in> set ((?k, ev_time ev, b) # lg)" if "map_of (p_bad ?p') k = Some t" for k t
      using that bad(2) [of k t] assms(1) by (cases "k = ?k \<and> b") (auto simp: w window_ok_def map_of_put split: if_splits)
    moreover have "map_of (p_bad ?p') k = Some t \<or> t < fresh_since ?p'"
      if "map_of ((?k, ev_time ev, b) # lg) k = Some (t, True)" for k t
    proof (cases "k = ?k")
      case True
      then show ?thesis using that by (auto simp: w map_of_put)
    next
      case False
      then have "map_of (p_bad p) k = Some t \<or> t < fresh_since p"
        using that assms(1) by (simp add: window_ok_def)
      then show ?thesis using bad(3) [of k t] False up_hw by (auto simp: w fresh map_of_put)
    qed
    ultimately show ?thesis unfolding lg window_ok_def using seen(1) bad(1) by (simp add: w is_map_put)
  qed
qed

lemma pipe_run_ok: "pipe_run lib p lg \<Longrightarrow> window_ok p lg"
proof (induction rule: pipe_run.induct)
  case (start p t)
  then show ?case by (simp add: window_of_def window_ok_def)
next
  case (emit p lg ev now)
  then show ?case using window_ok_emit by blast
next
  case (other p lg p')
  then show ?case by (simp add: window_ok_def window_of_def fresh_since_def)
qed

lemma no_hit_far:
  assumes "dedupe_hit ev p = None" "map_of (p_seen p) (event_key ev) = Some t"
  shows "dedupe_window \<le> \<bar>ev_time ev - t\<bar>"
proof -
  let ?d = "time_sub (ev_time ev) t"
  have d: "\<not> abs_dur ?d < dedupe_window" using assms by (simp add: dedupe_hit_def split: if_splits)
  have range: "- (2 ^ 63) \<le> ?d" "?d < 2 ^ 63" by (simp_all add: time_sub_def min_duration_def max_duration_def)
  have "dedupe_window \<le> \<bar>?d\<bar>"
  proof (cases "?d = - (2 ^ 63)")
    case True
    then show ?thesis by (simp add: dedupe_window_def)
  next
    case False
    then show ?thesis using d range by (auto simp: abs_dur_def wrap64_id abs_if)
  qed
  moreover have "\<bar>?d\<bar> \<le> \<bar>ev_time ev - t\<bar>" by (auto simp: time_sub_def min_duration_def max_duration_def)
  ultimately show ?thesis by linarith
qed

text \<open>
  C12. No transmission is served twice: in every run, an event that is accepted although its payload
  and channel were accepted before is at least the dedupe window away from the last acceptance, or
  that one is already sixty seconds behind the newest event time. The prune every 4096 events never
  opens the window for a copy that is less late than that.
\<close>

theorem dedupe_no_double:
  assumes "pipe_run lib p lg" "emit_log lib now ev p \<noteq> []" "map_of lg (event_key ev) = Some (t, b)"
  shows "dedupe_window \<le> \<bar>ev_time ev - t\<bar> \<or> t < p_hw p - 6 * dedupe_window"
proof -
  have "dedupe_hit ev p = None" using assms(2) by (auto simp: emit_log_def split: if_splits)
  moreover have "map_of (p_seen p) (event_key ev) = Some t \<or> t < p_hw p - 6 * dedupe_window"
    using pipe_run_ok [OF assms(1)] assms(3) by (auto simp: window_ok_def fresh_since_def)
  ultimately show ?thesis using no_hit_far by blast
qed


section \<open>A restart keeps the window\<close>

lemma fold_put_entries:
  assumes "is_map m" "inj enc"
  shows "map_of (fold (\<lambda>(k, v). put (enc k) (fmt v)) m out) (enc x) =
    (case map_of m x of Some v \<Rightarrow> Some (fmt v) | None \<Rightarrow> map_of out (enc x))"
  using assms(1)
proof (induction m arbitrary: out)
  case (Cons e m)
  obtain k v where e: "e = (k, v)" by fastforce
  have "map_of m k = None" using Cons.prems e by (auto simp: map_of_eq_None_iff)
  then show ?case using Cons e assms(2) by (cases "x = k") (auto simp: map_of_put inj_eq split: option.split)
qed simp

lemma fold_put_is_map: "is_map out \<Longrightarrow> is_map (fold (\<lambda>(k, v). put (enc k) (fmt v)) m out)"
proof (induction m arbitrary: out)
  case (Cons e m)
  show ?case using Cons.IH [OF is_map_put [OF Cons.prems]] by (simp add: case_prod_beta)
qed simp

lemma fold_put_form:
  assumes "e \<in> set (fold (\<lambda>(k, v). put (enc k) (fmt v)) es out)" "\<And>e. e \<in> set out \<Longrightarrow> \<exists>k t. e = (enc k, fmt t)"
  shows "\<exists>k t. e = (enc k, fmt t)"
  using assms
proof (induction es arbitrary: out)
  case (Cons a es)
  obtain k t where a: "a = (k, t)" by fastforce
  have "\<exists>k t. e = (enc k, fmt t)" if "e \<in> set (put (enc k) (fmt t) out)" for e
    using that set_put_subset [of "enc k" "fmt t" out] Cons.prems(2) by blast
  then show ?case using Cons.IH [of "put (enc k) (fmt t) out"] Cons.prems(1) by (simp add: a)
qed simp

lemma load_entries:
  assumes "\<And>k. unenc (enc k) = Some k" "\<And>t. parse (fmt t) = Some t" "is_map s"
    "\<And>e. e \<in> set s \<Longrightarrow> \<exists>k t. e = (enc k, fmt t)"
  shows "map_of (fold (load_entry unenc parse) s out) x =
    (case map_of s (enc x) of Some f \<Rightarrow> parse f | None \<Rightarrow> map_of out x)"
  using assms(3,4)
proof (induction s arbitrary: out)
  case (Cons e s)
  have "e \<in> set (e # s)" by simp
  from Cons.prems(2) [OF this] obtain k t where e: "e = (enc k, fmt t)" by blast
  have "map_of s (enc k) = None" using Cons.prems(1) e by (auto simp: map_of_eq_None_iff)
  moreover have "enc x = enc k \<longleftrightarrow> x = k" using assms(1) by (metis option.inject)
  ultimately show ?case using Cons e assms(1,2)
    by (cases "x = k") (auto simp: load_entry_def map_of_put split: option.split)
qed simp

text \<open>
  A clean restart keeps the dedupe window: for every event no more than fifty seconds behind the
  newest, a fresh pipeline that loads the saved file answers as the one that saved it whether the
  event is a copy, and of which acceptance.
\<close>

theorem restart_keeps_window:
  assumes "pipe_run lib p lg"
    and "\<And>k. unenc (enc k) = Some k" "\<And>t. parse (fmt t) = Some t"
    and "p_hw p - 5 * dedupe_window \<le> ev_time ev" "p_seen q = []"
  shows "dedupe_hit ev (load_dedupe unenc parse (save_dedupe enc fmt p) q) = dedupe_hit ev p"
proof -
  have m: "is_map (p_seen p)" using pipe_run_ok [OF assms(1)] by (simp add: window_ok_def)
  let ?kept = "keep_if (\<lambda>_ v. \<not> v < p_hw p - 6 * dedupe_window) (p_seen p)"
  define s where "s = fold (\<lambda>(k, v). put (enc k) (fmt v)) ?kept []"
  have form: "\<exists>k t. e = (enc k, fmt t)" if "e \<in> set s" for e
    using fold_put_form that by (fastforce simp: s_def)
  have inj: "inj enc" using assms(2) by (metis injI option.inject)
  have "map_of (p_seen (load_dedupe unenc parse (save_dedupe enc fmt p) q)) (event_key ev) =
    (case map_of s (enc (event_key ev)) of Some f \<Rightarrow> parse f | None \<Rightarrow> None)"
    using load_entries [of unenc enc parse fmt s "[]" "event_key ev", OF assms(2,3) _ form]
      fold_put_is_map [of "[]" enc fmt ?kept]
    by (simp add: load_dedupe_def save_dedupe_def assms(5) s_def cong: option.case_cong)
  also have "\<dots> = (case map_of (p_seen p) (event_key ev) of None \<Rightarrow> None
      | Some v \<Rightarrow> if v < p_hw p - 6 * dedupe_window then None else Some v)"
    using m by (simp add: s_def fold_put_entries [OF _ inj] is_map_keep_if map_of_keep_if assms(3) split: option.split)
  finally have seen: "map_of (p_seen (load_dedupe unenc parse (save_dedupe enc fmt p) q)) (event_key ev) =
    (case map_of (p_seen p) (event_key ev) of None \<Rightarrow> None
      | Some v \<Rightarrow> if v < p_hw p - 6 * dedupe_window then None else Some v)" .
  have "\<not> abs_dur (time_sub (ev_time ev) v) < dedupe_window" if "v < p_hw p - 6 * dedupe_window" for v
    using that assms(4) by (simp add: abs_dur_def time_sub_def dedupe_window_def max_duration_def min_duration_def min_def)
  then show ?thesis by (auto simp: dedupe_hit_def seen split: option.split)
qed

text \<open>
  The verdicts are not saved: after a restart, the copy of a transmission that was judged
  implausible is written as plausible.
\<close>

lemma restart_forgets_verdict:
  "p_bad q = [] \<Longrightarrow> p_bad (load_dedupe unenc parse (save_dedupe enc fmt p) q) = []"
  by (simp add: load_dedupe_def)


section \<open>What a reception becomes\<close>

text \<open>
  The time of an event from an NMEA line is never more than thirty seconds ahead of its receipt;
  it is within thirty seconds of it, unless the sender replays a backlog, and then, once old lines
  are set aside, within sixty seconds behind. A rebuilt event is never ahead at all (\<open>ingest_packet\<close>).
\<close>

theorem canonical_time_bounds:
  assumes "0 \<le> rx_recv rx" "rx_recv rx < 2 ^ 63" "rx_source_time rx = zero_time \<or> 0 \<le> rx_source_time rx"
  shows "canonical_time rx v \<le> rx_recv rx + max_skew \<and>
    (\<not> rx_buffered rx \<longrightarrow> rx_recv rx - max_skew \<le> canonical_time rx v) \<and>
    (\<not> replayed_line rx v \<longrightarrow> rx_recv rx - replay_age \<le> canonical_time rx v)"
proof -
  let ?tag = "tag_time (vdm_tag_time v)" and ?t = "rx_recv rx"
  have near: "\<bar>u - ?t\<bar> \<le> max_skew" if "0 \<le> u" "abs_dur (time_sub u ?t) \<le> max_skew" for u
  proof (cases "u - ?t < 2 ^ 63")
    case True
    then have "time_sub u ?t = u - ?t"
      using that(1) assms(1,2) by (simp add: time_sub_def min_duration_def max_duration_def)
    then show ?thesis using that assms(2) by (auto simp: abs_dur_def wrap64_id abs_if split: if_splits)
  next
    case False
    then have "time_sub u ?t = max_duration" by (simp add: time_sub_def min_duration_def max_duration_def)
    then show ?thesis using that(2) by (simp add: abs_dur_def max_duration_def max_skew_def)
  qed
  have tag: "?tag = zero_time \<or> 0 \<le> ?tag" by (simp add: tag_time_def)
  then have behind: "?tag \<noteq> zero_time \<Longrightarrow> ?tag < ?t \<Longrightarrow> time_sub ?t ?tag = ?t - ?tag"
    using assms(2) by (auto simp: time_sub_def min_duration_def max_duration_def)
  have "canonical_time rx v = ?t \<or> canonical_time rx v = ?tag \<and> \<bar>?tag - ?t\<bar> \<le> max_skew \<or>
      canonical_time rx v = ?tag \<and> ?tag \<noteq> zero_time \<and> rx_buffered rx \<and> ?tag < ?t \<or>
      canonical_time rx v = rx_source_time rx \<and> \<bar>rx_source_time rx - ?t\<bar> \<le> max_skew"
    using near [of ?tag] near [of "rx_source_time rx"] tag assms(3) unfolding canonical_time_def Let_def
    by (simp split: if_split) blast
  then show ?thesis
    by (elim disjE conjE) (use behind in \<open>auto simp: max_skew_def replay_age_def replayed_line_def abs_if split: if_splits\<close>)
qed

definition sample_rx :: reception where
  "sample_rx = \<lparr>rx_source = ''udp:a'', rx_station = ''udp:a'', rx_recv = 2000 * second, rx_source_time = zero_time,
     rx_body = [], rx_buffered = True, rx_published = False\<rparr>"

definition sample_vdm :: vdm where
  "sample_vdm = \<lparr>vdm_type = ''VDM'', vdm_tag_time = 1950, vdm_tag_source = [], vdm_fragments = 1, vdm_fragment = 1,
     vdm_message_id = 0, vdm_channel = ''A''\<rparr>"

theorem canonical_time_bounds_witness: "1940 * second \<le> canonical_time sample_rx sample_vdm"
  using canonical_time_bounds [of sample_rx sample_vdm]
  by (simp add: sample_rx_def sample_vdm_def tag_time_def zero_time_def replayed_line_def replay_age_def
      time_sub_def max_duration_def min_duration_def)

section \<open>A run\<close>

lemma emit_log_window:
  assumes "valid_mmsi (user_id (ev_packet ev))" "\<not> corrupt_base_report ev" "dedupe_hit ev p = None"
    and "p_folding p = []" "\<not> ev_unserved ev"
  shows "p_hw (emit lib now ev p) = max (ev_time ev) (p_hw p)"
    and "\<exists>b. emit_log lib now ev p = [(event_key ev, ev_time ev, b)]"
proof -
  obtain ev' st where up: "update_vessel (lib_event_id lib) (lib_seeds lib) (lib_kind lib) (stamped lib ev)
      (p_v (noted ev now p)) = (ev', st)" by fastforce
  have "p_folding (noted ev now p) = []" "p_hw (noted ev now p) = p_hw p" using assms(4) by (simp_all add: noted_def)
  then show "p_hw (emit lib now ev p) = max (ev_time ev) (p_hw p)"
    using emit_accept_window [OF up _ assms(5), of now] assms(1-3)
    by (simp add: emit_noted window_of_def dedupe_enter_fields)
  show "\<exists>b. emit_log lib now ev p = [(event_key ev, ev_time ev, b)]"
    using assms(1-3) up by (simp add: emit_log_def)
qed

definition sample_lib :: "(unit, unit) lib" where
  "sample_lib = \<lparr>lib_event_id = id, lib_seeds = (\<lambda>_. None), lib_kind = (\<lambda>_. []), lib_parse = (\<lambda>_. NotVdm),
     lib_new_codec = (), lib_assemble = (\<lambda>c _. (c, None, False)), lib_encode = (\<lambda>_. None),
     lib_decode = (\<lambda>_. None), lib_sentences = (\<lambda>e _ _. (e, []))\<rparr>"

definition sample_pipe :: "(unit, unit) pipe" where
  "sample_pipe = \<lparr>p_v = fr_state (fleet_start (detached 0)), p_seen = [], p_bad = [], p_folding = [], p_hw = zero_time,
     p_n_seen = 0, p_codecs = [], p_pending = [], p_own_of = [], p_encoder = (), p_paced = False, p_batch = [],
     p_subs = [], p_feed = None, p_stations = new_station_stats, p_usage = new_usage, p_delays = [], p_last = 0,
     p_last_by = [], p_by_source = [],
     p_count = \<lparr>n_parse_err = 0, n_decode_fail = 0, n_dup = 0, n_events = 0, n_client_drops = 0, n_replayed = 0,
       n_implausible = 0, n_stale = 0, n_uncorroborated = 0, n_invalid = 0\<rparr>\<rparr>"

definition sample_run1 :: "(unit, unit) pipe" where
  "sample_run1 = emit sample_lib 0 sample_report sample_pipe"

definition sample_log1 :: accept_log where
  "sample_log1 = emit_log sample_lib 0 sample_report sample_pipe @ []"

lemma sample_report_valid:
  "valid_mmsi (user_id (ev_packet sample_report))" "\<not> corrupt_base_report sample_report" "\<not> ev_unserved sample_report"
proof -
  have "valid_mmsi 257000001" by code_simp
  then show "valid_mmsi (user_id (ev_packet sample_report))" by (simp add: sample_report_def new_event_def)
qed (simp_all add: sample_report_def new_event_def corrupt_base_report.simps)

lemma sample_start: "pipe_run sample_lib sample_pipe []"
  by (rule pipe_run.start [of _ zero_time]) (simp add: sample_pipe_def window_of_def)

lemma sample_run1_reached: "pipe_run sample_lib sample_run1 sample_log1"
  unfolding sample_run1_def sample_log1_def
  by (rule pipe_run.emit [OF sample_start sample_report_valid(3)])

lemma sample_first: "dedupe_hit sample_report sample_pipe = None" "p_folding sample_pipe = []"
  by (simp_all add: dedupe_hit_def sample_pipe_def)

lemma sample_log1: "\<exists>b. sample_log1 = [(event_key sample_report, second, b)]"
  using emit_log_window(2) [OF sample_report_valid(1,2) sample_first sample_report_valid(3), of sample_lib 0]
  by (auto simp: sample_log1_def sample_report_def new_event_def)

lemma sample_hw: "p_hw sample_run1 = second"
  using emit_log_window(1) [OF sample_report_valid(1,2) sample_first sample_report_valid(3), of sample_lib 0]
  by (simp add: sample_run1_def sample_pipe_def sample_report_def new_event_def zero_time_def)

lemma sample_seen: "map_of (p_seen sample_run1) (event_key sample_report) = Some second"
proof -
  obtain b where "sample_log1 = [(event_key sample_report, second, b)]" using sample_log1 by blast
  then have "map_of sample_log1 (event_key sample_report) = Some (second, b)" by (metis map_of_Cons_code(2))
  then have "map_of (p_seen sample_run1) (event_key sample_report) = Some second \<or> second < fresh_since sample_run1"
    using pipe_run_ok [OF sample_run1_reached] unfolding window_ok_def by blast
  then show ?thesis by (simp add: fresh_since_def dedupe_window_def sample_hw)
qed

definition sample_again :: event where
  "sample_again = sample_report\<lparr>ev_time := 21 * second\<rparr>"

lemma sample_again_key: "event_key sample_again = event_key sample_report"
  by (simp add: sample_again_def event_key_def)

theorem dedupe_no_double_witness:
  "dedupe_window \<le> \<bar>ev_time sample_again - second\<bar> \<or> second < p_hw sample_run1 - 6 * dedupe_window"
proof -
  obtain b where b: "map_of sample_log1 (event_key sample_again) = Some (second, b)"
    using sample_log1 sample_again_key by (metis map_of_Cons_code(2))
  have "dedupe_hit sample_again sample_run1 = None"
    using sample_seen by (simp add: dedupe_hit_def sample_again_key)
      (simp add: sample_again_def abs_dur_def time_sub_def min_duration_def max_duration_def dedupe_window_def)
  then have "emit_log sample_lib 0 sample_again sample_run1 \<noteq> []"
    using sample_report_valid
    by (simp add: emit_log_def sample_again_def sample_report_def new_event_def corrupt_base_report.simps split: prod.split)
  from dedupe_no_double [OF sample_run1_reached this b] show ?thesis .
qed


theorem restart_keeps_window_witness:
  "dedupe_hit sample_report (load_dedupe (\<lambda>s. Some (tl s))
      (\<lambda>s. if hd s = CHR ''-'' then Some (- int (length s) + 1) else Some (int (length s)))
      (save_dedupe (\<lambda>s. CHR ''x'' # s)
         (\<lambda>t. if t < 0 \<or> t = 0 then CHR ''-'' # replicate (nat (- t)) CHR ''1'' else replicate (nat t) CHR ''1'') sample_run1)
      sample_pipe) = dedupe_hit sample_report sample_run1"
proof (rule restart_keeps_window [OF sample_run1_reached])
  show "p_hw sample_run1 - 5 * dedupe_window \<le> ev_time sample_report"
    by (simp add: sample_hw dedupe_window_def sample_report_def new_event_def)
  fix t :: time
  show "(\<lambda>s. if hd s = CHR ''-'' then Some (- int (length s) + 1) else Some (int (length s)))
      (if t < 0 \<or> t = 0 then CHR ''-'' # replicate (nat (- t)) CHR ''1'' else replicate (nat t) CHR ''1'') = Some t"
    by (cases "nat t") auto
qed (simp_all add: sample_pipe_def)

section \<open>The stream's order\<close>

text \<open>
  A subscriber's run: broadcasts, and reads of its channel by its writer. \<open>sr_sent\<close> is what was
  broadcast since it subscribed, \<open>sr_read\<close> what its writer took.
\<close>

record sub_run =
  sr_sub :: subscriber
  sr_sent :: "event list"
  sr_read :: "event list"

inductive sub_reach :: "sub_run \<Rightarrow> bool" where
  start: "sub_reach \<lparr>sr_sub = \<lparr>sub_queue = [], sub_overflow = False\<rparr>, sr_sent = [], sr_read = []\<rparr>"
| sent: "sub_reach r \<Longrightarrow> sub_reach (r\<lparr>sr_sub := fst (offer ev (sr_sub r)), sr_sent := sr_sent r @ [ev]\<rparr>)"
| read: "sub_reach r \<Longrightarrow> sub_queue (sr_sub r) = ev # evs \<Longrightarrow>
    sub_reach (r\<lparr>sr_sub := (sr_sub r)\<lparr>sub_queue := evs\<rparr>, sr_read := sr_read r @ [ev]\<rparr>)"

lemma broadcast_offers:
  "map_of (p_subs (broadcast lib ev p)) i = map_option (\<lambda>s. fst (offer ev s)) (map_of (p_subs (feeder_send lib ev p)) i)"
  by (simp add: broadcast_def Let_def map_of_map_values)



end
