(* ===== verification/Access.thy ===== *)
theory Access
  imports Stations Index
begin

text \<open>
  Who may do what: access tokens and their claims (\<open>server/auth.go\<close>), the tiers and the concurrent
  stream slots (\<open>server/tiers.go\<close>), and the fixed-window rate limits (\<open>server/ops.go\<close>).

  \<open>crypto\<close> holds the encodings and the signature scheme of Go's libraries, \<open>net\<close> the parsing and
  printing of addresses; an address is its 16 bytes, an IPv4 one in its IPv6-mapped form, as Go
  keeps it. Environment settings are arguments.
\<close>

section \<open>Claims\<close>

record claims =
  c_kid :: string
  c_sub :: string
  c_role :: string
  c_exp :: int
  c_iat :: int
  c_bbox :: "bbox list"
  c_cidr :: "string list"
  c_udp :: "string list"
  c_conns :: int
  c_rate :: int
  c_area :: real
  c_mmsis :: int
  c_rpm :: "int option"
  c_feeder :: bool

definition no_claims :: claims where
  "no_claims = \<lparr>c_kid = [], c_sub = [], c_role = [], c_exp = 0, c_iat = 0, c_bbox = [], c_cidr = [], c_udp = [],
     c_conns = 0, c_rate = 0, c_area = 0, c_mmsis = 0, c_rpm = None, c_feeder = False\<rparr>"

definition allows_mmsis :: "claims \<Rightarrow> int \<Rightarrow> bool" where
  "allows_mmsis c n \<longleftrightarrow> c_mmsis c \<le> 0 \<or> n \<le> c_mmsis c"

definition box_area :: "bbox \<Rightarrow> real" where
  "box_area b = (b_north b - b_south b) * (b_east b - b_west b)"

definition allows_area :: "claims \<Rightarrow> bbox list \<Rightarrow> bool" where
  "allows_area c boxes \<longleftrightarrow>
     (if c_area c = 0 then True
      else if c_area c < 0 then boxes = []
      else sum_list (map box_area boxes) \<le> c_area c)"

definition may :: "claims \<Rightarrow> string \<Rightarrow> bool" where
  "may c action \<longleftrightarrow>
     (if c_role c = ''admin'' then True
      else if c_role c = ''feeder'' then action = ''publish''
      else if c_role c = ''peer'' \<or> c_role c = ''personal'' then action = ''publish'' \<or> action = ''subscribe''
      else if c_role c = ''partner'' \<or> c_role c = ''anonymous'' then action = ''subscribe''
      else False)"

definition may_raw :: "claims \<Rightarrow> bool" where
  "may_raw c \<longleftrightarrow> c_role c \<in> {''feeder'', ''peer'', ''partner'', ''admin''} \<or> c_feeder c"

definition box_within :: "bbox \<Rightarrow> bbox \<Rightarrow> bool" where
  "box_within b a \<longleftrightarrow> b_south b \<ge> b_south a \<and> b_west b \<ge> b_west a \<and> b_north b \<le> b_north a \<and> b_east b \<le> b_east a"

definition allows_box :: "claims \<Rightarrow> bbox \<Rightarrow> bool" where
  "allows_box c b \<longleftrightarrow> c_bbox c = [] \<or> list_ex (box_within b) (c_bbox c)"

section \<open>Addresses\<close>

type_synonym ip = "128 word"

record net =
  parse_ip :: "string \<Rightarrow> ip option"
  parse_cidr :: "string \<Rightarrow> (ip \<Rightarrow> bool) option"
  ip_string :: "ip \<Rightarrow> string"
  udp_station :: "string \<Rightarrow> string"

definition is_v4 :: "ip \<Rightarrow> bool" where
  "is_v4 a \<longleftrightarrow> drop_bit 32 a = 0xFFFF"

definition mask64 :: "ip \<Rightarrow> ip" where
  "mask64 a = push_bit 64 (drop_bit 64 a)"

definition net_key :: "net \<Rightarrow> string \<Rightarrow> string" where
  "net_key n s =
     (case parse_ip n s of
        None \<Rightarrow> []
      | Some a \<Rightarrow> if is_v4 a then ip_string n a else ip_string n (mask64 a) @ ''/64'')"

definition bound_cidr :: "net \<Rightarrow> string \<Rightarrow> claims \<Rightarrow> bool" where
  "bound_cidr n personal_kid c \<longleftrightarrow>
     c_role c = ''personal'' \<and> length (c_cidr c) = 1 \<and> parse_ip n (c_cidr c ! 0) \<noteq> None \<and>
     c_kid c \<noteq> [] \<and> c_kid c = personal_kid"

definition allows_ip :: "net \<Rightarrow> string \<Rightarrow> claims \<Rightarrow> string \<Rightarrow> bool" where
  "allows_ip n personal_kid c s \<longleftrightarrow>
     c_cidr c = [] \<or> bound_cidr n personal_kid c \<or>
     (case parse_ip n s of
        None \<Rightarrow> False
      | Some a \<Rightarrow> list_ex (\<lambda>x. (case parse_cidr n x of Some inside \<Rightarrow> inside a | None \<Rightarrow> False) \<or>
                             parse_ip n x = Some a) (c_cidr c))"

section \<open>Tokens\<close>

definition token_prefix :: string where "token_prefix = ''ak1.''"

definition sub_char :: "char \<Rightarrow> bool" where
  "sub_char c \<longleftrightarrow> is_digit c \<or> (65 \<le> (of_char c :: nat) \<and> (of_char c :: nat) \<le> 90) \<or>
     (97 \<le> (of_char c :: nat) \<and> (of_char c :: nat) \<le> 122) \<or> c \<in> set ''_.:=/+-''"

definition lower_char :: "char \<Rightarrow> char" where
  "lower_char c = (if 65 \<le> (of_char c :: nat) \<and> (of_char c :: nat) \<le> 90 then char_of (of_char c + 32 :: nat) else c)"

definition valid_sub :: "string \<Rightarrow> bool" where
  "valid_sub s \<longleftrightarrow> 1 \<le> length s \<and> length s \<le> 128 \<and> list_all sub_char s \<and>
     \<not> has_suffix (map lower_char s) ''.png''"

record ('k, 'p) crypto =
  b64 :: "string \<Rightarrow> string"
  unb64 :: "string \<Rightarrow> string option"
  json :: "claims \<Rightarrow> string"
  unjson :: "string \<Rightarrow> claims option"
  ed_sign :: "'k \<Rightarrow> string \<Rightarrow> string"
  ed_verify :: "'p \<Rightarrow> string \<Rightarrow> string \<Rightarrow> bool"

datatype token_error = NeedSubAndRole | BadToken | TokenExpired | TokenRevoked

definition sign_token :: "('k, 'p) crypto \<Rightarrow> 'k \<Rightarrow> claims \<Rightarrow> token_error + string" where
  "sign_token cr priv c =
     (if \<not> valid_sub (c_sub c) \<or> c_role c = [] then Inl NeedSubAndRole
      else let b = b64 cr (json cr c)
           in Inr (token_prefix @ b @ ''.'' @ b64 cr (ed_sign cr priv (token_prefix @ b))))"

record 'p verifier =
  v_keys :: "(string \<times> 'p) list"
  v_revoked :: "string list"

definition check_claims :: "'p verifier \<Rightarrow> time \<Rightarrow> claims \<Rightarrow> token_error + claims" where
  "check_claims v now c =
     (if c_exp c \<noteq> 0 \<and> unix now > c_exp c then Inl TokenExpired
      else if c_sub c \<in> set (v_revoked v) then Inl TokenRevoked
      else Inr c)"

definition verify :: "('k, 'p) crypto \<Rightarrow> 'p verifier \<Rightarrow> string \<Rightarrow> time \<Rightarrow> token_error + claims" where
  "verify cr v token now =
     (if \<not> has_prefix token token_prefix then Inl BadToken
      else case cut_at CHR ''.'' (drop (length token_prefix) token) of
        (b, sig64, found) \<Rightarrow>
          if \<not> found then Inl BadToken
          else case (unb64 cr b, unb64 cr sig64) of
            (Some body, Some sig) \<Rightarrow>
              (case unjson cr body of
                 None \<Rightarrow> Inl BadToken
               | Some c \<Rightarrow>
                   if \<not> valid_sub (c_sub c) then Inl BadToken
                   else case map_of (v_keys v) (c_kid c) of
                     None \<Rightarrow> Inl BadToken
                   | Some pub \<Rightarrow>
                       if ed_verify cr pub (token_prefix @ b) sig then check_claims v now c else Inl BadToken)
          | _ \<Rightarrow> Inl BadToken)"

definition revoked_station :: "'p verifier \<Rightarrow> string \<Rightarrow> bool" where
  "revoked_station v i \<longleftrightarrow> has_prefix i ''station:'' \<and> drop 8 i \<in> set (v_revoked v)"

section \<open>Tiers\<close>

definition anonymous_claims :: "string \<Rightarrow> claims" where
  "anonymous_claims s = no_claims\<lparr>c_sub := ''anon:'' @ s, c_role := ''anonymous'', c_conns := 2, c_rate := 20,
     c_area := 100, c_mmsis := 10\<rparr>"

definition personal_claims :: "string \<Rightarrow> string \<Rightarrow> time \<Rightarrow> claims" where
  "personal_claims kid sub now = no_claims\<lparr>c_kid := kid, c_sub := sub, c_role := ''personal'', c_iat := unix now,
     c_conns := 2, c_rate := 50, c_area := 400, c_mmsis := 50\<rparr>"

definition feeder_min_events24h :: int where "feeder_min_events24h = 1000"
definition addr_max_streams :: int where "addr_max_streams = 32"

definition trim_suffix :: "string \<Rightarrow> string \<Rightarrow> string" where
  "trim_suffix p s = (if has_suffix s p then take (length s - length p) s else s)"

definition owned_stations :: "net \<Rightarrow> claims \<Rightarrow> string list" where
  "owned_stations n c =
     station_source (c_sub c) #
     concat (map (\<lambda>s. case parse_ip n (trim_suffix ''/128'' (trim_suffix ''/32'' s)) of
                        None \<Rightarrow> [] | Some a \<Rightarrow> [udp_station n (ip_string n a)]) (c_udp c @ c_cidr c))"

definition contributed24h :: "net \<Rightarrow> claims \<Rightarrow> time \<Rightarrow> station_stats \<Rightarrow> int" where
  "contributed24h n c now s = events24h (owned_stations n c) now s"

definition effective :: "net \<Rightarrow> claims \<Rightarrow> string \<Rightarrow> time \<Rightarrow> station_stats \<Rightarrow> claims" where
  "effective n c s now st =
     (if c_feeder c \<or> c_role c \<noteq> ''personal'' \<and> c_role c \<noteq> ''anonymous'' then c
      else if (c_role c \<noteq> ''personal'' \<or> contributed24h n c now st < feeder_min_events24h) \<and>
              events24h (net_ids (net_key n s) (udp_station n s) st) now st < feeder_min_events24h then c
      else c\<lparr>c_feeder := True, c_conns := 5, c_rate := 200, c_area := 0, c_mmsis := 200\<rparr>)"

datatype auth_error = TokenError token_error | RoleMayNot string string | NotFromThisAddress

definition authorize_token ::
  "('k, 'p) crypto \<Rightarrow> 'p verifier \<Rightarrow> net \<Rightarrow> string \<Rightarrow> bool \<Rightarrow> string \<Rightarrow> string \<Rightarrow> string \<Rightarrow> time \<Rightarrow> station_stats \<Rightarrow>
   auth_error + claims" where
  "authorize_token cr v n personal_kid allow_anon tok s action now st =
     (case verify cr v tok now of
        Inl e \<Rightarrow> if allow_anon then Inr (no_claims\<lparr>c_sub := ''anon'', c_role := ''admin''\<rparr>) else Inl (TokenError e)
      | Inr c0 \<Rightarrow>
          let c = effective n c0 s now st in
          if \<not> may c action then Inl (RoleMayNot (c_role c) action)
          else if \<not> allows_ip n personal_kid c s then Inl NotFromThisAddress
          else Inr c)"

text \<open>\<open>socketClaims\<close>: no token is anonymous (\<open>None\<close>), a bad one an error.\<close>

definition socket_claims ::
  "('k, 'p) crypto \<Rightarrow> 'p verifier \<Rightarrow> net \<Rightarrow> string \<Rightarrow> bool \<Rightarrow> string \<Rightarrow> string \<Rightarrow> time \<Rightarrow> station_stats \<Rightarrow>
   auth_error + claims option" where
  "socket_claims cr v n personal_kid allow_anon tok s now st =
     (if tok = [] then Inr None
      else case verify cr v tok now of
        Inl e \<Rightarrow> if allow_anon then Inr (Some (no_claims\<lparr>c_sub := ''anon'', c_role := ''admin''\<rparr>)) else Inl (TokenError e)
      | Inr c \<Rightarrow> if \<not> allows_ip n personal_kid c s then Inl NotFromThisAddress
                else Inr (Some (effective n c s now st)))"

definition or_anonymous :: "net \<Rightarrow> bool \<Rightarrow> claims option \<Rightarrow> string \<Rightarrow> time \<Rightarrow> station_stats \<Rightarrow> claims" where
  "or_anonymous n allow_anon cl s now st =
     (case cl of
        Some c \<Rightarrow> c
      | None \<Rightarrow> if allow_anon then no_claims\<lparr>c_sub := ''anon'', c_role := ''admin''\<rparr>
                else effective n (anonymous_claims s) s now st)"

section \<open>Stream slots\<close>

type_synonym conn_counter = "(string \<times> int) list"

definition conn_acquire :: "string \<Rightarrow> int \<Rightarrow> conn_counter \<Rightarrow> conn_counter option" where
  "conn_acquire key mx cc =
     (if mx > 0 \<and> get_or 0 cc key \<ge> mx then None else Some (put key (get_or 0 cc key + 1) cc))"

definition conn_release :: "string \<Rightarrow> conn_counter \<Rightarrow> conn_counter" where
  "conn_release key cc =
     (let m = get_or 0 cc key - 1 in if m = 0 then del key cc else put key m cc)"

record slots =
  sl_subs :: conn_counter
  sl_addrs :: conn_counter

datatype slot_error = TooManyForAddress | TooManyForKey

definition acquire_stream_slots :: "claims \<Rightarrow> string \<Rightarrow> slots \<Rightarrow> slot_error + slots" where
  "acquire_stream_slots c s sl =
     (case conn_acquire s addr_max_streams (sl_addrs sl) of
        None \<Rightarrow> Inl TooManyForAddress
      | Some addrs \<Rightarrow>
          (case conn_acquire (c_sub c) (c_conns c) (sl_subs sl) of
             None \<Rightarrow> Inl (if c_role c = ''anonymous'' then TooManyForAddress else TooManyForKey)
           | Some subs \<Rightarrow> Inr \<lparr>sl_subs = subs, sl_addrs = addrs\<rparr>))"

definition release_stream :: "string \<Rightarrow> string \<Rightarrow> slots \<Rightarrow> slots" where
  "release_stream sub s sl = \<lparr>sl_subs = conn_release sub (sl_subs sl), sl_addrs = conn_release s (sl_addrs sl)\<rparr>"

text \<open>The register frame's upgrade in place: the new sub's slot is taken, then the old one given back.\<close>

definition rekey_stream :: "string \<Rightarrow> claims \<Rightarrow> slots \<Rightarrow> slots option" where
  "rekey_stream old c sl =
     (case conn_acquire (c_sub c) (c_conns c) (sl_subs sl) of
        None \<Rightarrow> None
      | Some subs \<Rightarrow> Some (sl\<lparr>sl_subs := conn_release old subs\<rparr>))"

section \<open>Rates\<close>

record pacer =
  pc_n :: int
  pc_sec :: int
  pc_sent :: int

definition pace_allow :: "time \<Rightarrow> pacer \<Rightarrow> bool \<times> pacer" where
  "pace_allow now p =
     (if pc_n p \<le> 0 then (True, p)
      else let p1 = (if unix now \<noteq> pc_sec p then p\<lparr>pc_sec := unix now, pc_sent := 0\<rparr> else p);
               p2 = p1\<lparr>pc_sent := pc_sent p1 + 1\<rparr>
           in (pc_sent p2 \<le> pc_n p2, p2))"

record window =
  wd_start :: time
  wd_n :: int

type_synonym limiter = "(string \<times> window) list"

definition expired :: "time \<Rightarrow> window \<Rightarrow> bool" where
  "expired now w \<longleftrightarrow> time_sub now (wd_start w) > minute"

definition allow_max :: "time \<Rightarrow> string \<Rightarrow> int \<Rightarrow> limiter \<Rightarrow> bool \<times> limiter" where
  "allow_max now key mx l0 =
     (let l = (if length l0 > 10000 then keep_if (\<lambda>_ w. \<not> expired now w) l0 else l0) in
      case map_of l key of
        None \<Rightarrow> (True, put key \<lparr>wd_start = now, wd_n = 1\<rparr> l)
      | Some w \<Rightarrow>
          if expired now w then (True, put key \<lparr>wd_start = now, wd_n = 1\<rparr> l)
          else (wd_n w + 1 \<le> mx, put key (w\<lparr>wd_n := wd_n w + 1\<rparr>) l))"

definition own_rpm :: "claims option \<Rightarrow> bool \<Rightarrow> int option" where
  "own_rpm c failed = (if failed then None else case c of None \<Rightarrow> None | Some cl \<Rightarrow> c_rpm cl)"

definition connect_key :: "claims option \<Rightarrow> string \<Rightarrow> string" where
  "connect_key c s = (case c of Some cl \<Rightarrow> c_sub cl | None \<Rightarrow> s)"

section \<open>Slots are counted exactly\<close>

text \<open>
  The live streams, the one opened last first: the sub whose slot each holds, the cap it was admitted
  under, and its address. A stream that registers takes its new sub's slot as the latest.
\<close>

record stream =
  st_sub :: string
  st_cap :: int
  st_ip :: string

inductive slots_reach :: "stream list \<Rightarrow> slots \<Rightarrow> bool" where
  start: "slots_reach [] \<lparr>sl_subs = [], sl_addrs = []\<rparr>"
| opened: "slots_reach L sl \<Longrightarrow> acquire_stream_slots c s sl = Inr sl' \<Longrightarrow>
    slots_reach (\<lparr>st_sub = c_sub c, st_cap = c_conns c, st_ip = s\<rparr> # L) sl'"
| closed: "slots_reach (A @ e # B) sl \<Longrightarrow> slots_reach (A @ B) (release_stream (st_sub e) (st_ip e) sl)"
| registered: "slots_reach (A @ e # B) sl \<Longrightarrow> rekey_stream (st_sub e) c sl = Some sl' \<Longrightarrow>
    slots_reach (\<lparr>st_sub = c_sub c, st_cap = c_conns c, st_ip = st_ip e\<rparr> # A @ B) sl'"

definition counts_exactly :: "conn_counter \<Rightarrow> string list \<Rightarrow> bool" where
  "counts_exactly cc ks \<longleftrightarrow> (\<forall>k. map_of cc k = (if count_list ks k = 0 then None else Some (int (count_list ks k))))"

fun caps_kept :: "stream list \<Rightarrow> bool" where
  "caps_kept [] = True"
| "caps_kept (e # L) \<longleftrightarrow>
     (st_cap e \<le> 0 \<or> int (count_list (map st_sub (e # L)) (st_sub e)) \<le> st_cap e) \<and> caps_kept L"

lemma counts_exactly_get: "counts_exactly cc ks \<Longrightarrow> get_or 0 cc k = int (count_list ks k)"
  by (simp add: counts_exactly_def get_or_def)

lemma counts_exactly_acquire:
  assumes "counts_exactly cc ks" and "conn_acquire k mx cc = Some cc'"
  shows "counts_exactly cc' (k # ks)" and "mx \<le> 0 \<or> int (count_list (k # ks) k) \<le> mx"
proof -
  have e: "cc' = put k (get_or 0 cc k + 1) cc" and m: "\<not> (mx > 0 \<and> get_or 0 cc k \<ge> mx)"
    using assms(2) by (auto simp: conn_acquire_def split: if_splits)
  show "counts_exactly cc' (k # ks)"
    using assms(1) unfolding e counts_exactly_get [OF assms(1)] by (auto simp: counts_exactly_def map_of_put)
  show "mx \<le> 0 \<or> int (count_list (k # ks) k) \<le> mx"
    using m unfolding counts_exactly_get [OF assms(1)] by auto
qed

lemma counts_exactly_release:
  assumes "counts_exactly cc (A @ k # B)"
  shows "counts_exactly (conn_release k cc) (A @ B)"
  using assms unfolding conn_release_def counts_exactly_get [OF assms]
  by (auto simp: counts_exactly_def Let_def map_of_put map_of_del)

lemma counts_exactly_cong:
  "counts_exactly cc ks \<Longrightarrow> (\<And>k. count_list ks k = count_list ks' k) \<Longrightarrow> counts_exactly cc ks'"
  by (simp add: counts_exactly_def)

lemma caps_kept_remove: "caps_kept (A @ e # B) \<Longrightarrow> caps_kept (A @ B)"
  by (induction A) (auto split: if_splits)

lemma slots_counted:
  "slots_reach L sl \<Longrightarrow>
   counts_exactly (sl_subs sl) (map st_sub L) \<and> counts_exactly (sl_addrs sl) (map st_ip L) \<and> caps_kept L \<and>
   (\<forall>s. int (count_list (map st_ip L) s) \<le> addr_max_streams)"
proof (induction rule: slots_reach.induct)
  case start
  show ?case by (simp add: counts_exactly_def addr_max_streams_def)
next
  case (opened L sl c s sl')
  obtain addrs subs where a: "conn_acquire s addr_max_streams (sl_addrs sl) = Some addrs"
    and b: "conn_acquire (c_sub c) (c_conns c) (sl_subs sl) = Some subs"
    and e: "sl' = \<lparr>sl_subs = subs, sl_addrs = addrs\<rparr>"
    using opened(2) by (auto simp: acquire_stream_slots_def split: option.splits)
  from opened(3) show ?case
    using counts_exactly_acquire [OF _ a, of "map st_ip L"] counts_exactly_acquire [OF _ b, of "map st_sub L"]
    by (auto simp: e addr_max_streams_def)
next
  case (closed A e B sl)
  have "int (count_list (map st_ip (A @ B)) s) \<le> addr_max_streams" for s
    using closed(2) by (auto dest!: spec [of _ s] split: if_splits)
  then show ?case
    using closed(2) counts_exactly_release [of _ "map st_sub A" "st_sub e" "map st_sub B"]
      counts_exactly_release [of _ "map st_ip A" "st_ip e" "map st_ip B"] caps_kept_remove
    by (auto simp: release_stream_def)
next
  case (registered A e B sl c sl')
  obtain subs where b: "conn_acquire (c_sub c) (c_conns c) (sl_subs sl) = Some subs"
    and e: "sl' = sl\<lparr>sl_subs := conn_release (st_sub e) subs\<rparr>"
    using registered(2) by (auto simp: rekey_stream_def split: option.splits)
  let ?k = "map st_sub (A @ e # B)"
  have 1: "counts_exactly subs (c_sub c # ?k)" "c_conns c \<le> 0 \<or> int (count_list (c_sub c # ?k) (c_sub c)) \<le> c_conns c"
    using registered(3) counts_exactly_acquire [OF _ b] by blast+
  have "counts_exactly (conn_release (st_sub e) subs) ((c_sub c # map st_sub A) @ map st_sub B)"
    by (rule counts_exactly_release) (use 1(1) in simp)
  moreover have "counts_exactly (sl_addrs sl) (st_ip e # map st_ip (A @ B))"
    by (rule counts_exactly_cong [OF registered(3) [THEN conjunct2, THEN conjunct1]]) simp
  moreover have "caps_kept (A @ B)" using registered(3) caps_kept_remove by blast
  moreover have "int (count_list (st_ip e # map st_ip (A @ B)) s) \<le> addr_max_streams" for s
    using registered(3)[THEN conjunct2, THEN conjunct2, THEN conjunct2, rule_format, of s] by (simp split: if_splits)
  ultimately show ?case using 1(2) by (auto simp: e split: if_splits)
qed

text \<open>
  C16. The stream slots are exact: however streams open, close and register, the counter of a sub and of
  an address is the number of live streams that hold it, a key with none has no entry, no address has
  more than \<open>addrMaxStreams\<close>, and every stream was admitted within its claims' cap of the streams
  opened under its sub before it and still live.
\<close>

theorem stream_slots_exact:
  assumes "slots_reach L sl"
  shows "(\<forall>k. map_of (sl_subs sl) k =
            (if count_list (map st_sub L) k = 0 then None else Some (int (count_list (map st_sub L) k)))) \<and>
         (\<forall>s. map_of (sl_addrs sl) s =
            (if count_list (map st_ip L) s = 0 then None else Some (int (count_list (map st_ip L) s)))) \<and>
         (\<forall>s. count_list (map st_ip L) s \<le> 32) \<and>
         (\<forall>A e B. L = A @ e # B \<longrightarrow> 0 < st_cap e \<longrightarrow> int (count_list (map st_sub (e # B)) (st_sub e)) \<le> st_cap e)"
proof -
  note i = slots_counted [OF assms]
  have "caps_kept (A @ e # B) \<Longrightarrow> 0 < st_cap e \<Longrightarrow> int (count_list (map st_sub (e # B)) (st_sub e)) \<le> st_cap e" for A e B
    by (induction A) (auto split: if_splits)
  with i show ?thesis by (auto simp: counts_exactly_def addr_max_streams_def)
qed

definition phone :: string where "phone = ''10.0.0.1''"

lemma sample_slots:
  "slots_reach [\<lparr>st_sub = ''key'', st_cap = 2, st_ip = phone\<rparr>, \<lparr>st_sub = ''anon'', st_cap = 2, st_ip = phone\<rparr>]
     \<lparr>sl_subs = [(''anon'', 1), (''key'', 1)], sl_addrs = [(phone, 2)]\<rparr>"
proof -
  let ?an = "no_claims\<lparr>c_sub := ''anon'', c_conns := 2\<rparr>"
  let ?e = "\<lparr>st_sub = ''anon'', st_cap = 2, st_ip = phone\<rparr>"
  have 1: "slots_reach [?e] \<lparr>sl_subs = [(''anon'', 1)], sl_addrs = [(phone, 1)]\<rparr>"
    using slots_reach.opened [OF slots_reach.start, where c = ?an and s = phone]
    by (simp add: acquire_stream_slots_def conn_acquire_def get_or_def addr_max_streams_def no_claims_def)
  have 2: "slots_reach [?e, ?e] \<lparr>sl_subs = [(''anon'', 2)], sl_addrs = [(phone, 2)]\<rparr>"
    using slots_reach.opened [OF 1, where c = ?an and s = phone]
    by (simp add: acquire_stream_slots_def conn_acquire_def get_or_def addr_max_streams_def no_claims_def)
  show ?thesis
    using slots_reach.registered [where A = "[]" and B = "[?e]" and c = "no_claims\<lparr>c_sub := ''key'', c_conns := 2\<rparr>" and e = ?e] 2
    by (simp add: rekey_stream_def conn_acquire_def conn_release_def get_or_def no_claims_def)
qed

lemma stream_slots_exact_witness:
  "(\<exists>L sl. slots_reach L sl \<and> length L = 2) \<and>
   map_of [(''anon'', 1::int), (''key'', 1)] ''key'' = Some 1 \<and> count_list [phone, phone] phone \<le> 32"
  using stream_slots_exact [OF sample_slots] sample_slots by (auto intro!: exI)

section \<open>Rates are kept\<close>

text \<open>The requests of \<open>k\<close> the limiter grants in a span of time, of a run of requests with their keys and limits.\<close>

fun granted :: "string \<Rightarrow> time \<Rightarrow> time \<Rightarrow> (time \<times> string \<times> int) list \<Rightarrow> limiter \<Rightarrow> nat" where
  "granted k lo hi [] l = 0"
| "granted k lo hi ((t, k', mx) # rs) l =
     (case allow_max t k' mx l of (ok, l') \<Rightarrow>
        (if ok \<and> k' = k \<and> lo \<le> t \<and> t \<le> hi then 1 else 0) + granted k lo hi rs l')"

definition current :: "time \<Rightarrow> string \<Rightarrow> limiter \<Rightarrow> window option" where
  "current t k l = (case map_of l k of None \<Rightarrow> None | Some w \<Rightarrow> if expired t w then None else Some w)"

definition limiter_ok :: "limiter \<Rightarrow> bool" where
  "limiter_ok l \<longleftrightarrow> is_map l \<and> (\<forall>k w. map_of l k = Some w \<longrightarrow> 1 \<le> wd_n w)"

lemma expired_iff: "expired t w \<longleftrightarrow> t - wd_start w > minute"
  by (auto simp: expired_def time_sub_def max_duration_def min_duration_def)

lemma current_purged:
  "is_map l \<Longrightarrow> now \<le> t \<Longrightarrow> current t k (keep_if (\<lambda>_ w. \<not> expired now w) l) = current t k l"
  by (auto simp: current_def map_of_keep_if expired_iff split: option.splits)

lemma allow_max_cases:
  assumes "limiter_ok l" and "allow_max now k mx l = (ok, l')"
  shows "limiter_ok l'"
    and "now \<le> t \<Longrightarrow> k' \<noteq> k \<Longrightarrow> current t k' l' = current t k' l"
    and "k' \<noteq> k \<Longrightarrow> map_of l' k' = None \<or> map_of l' k' = map_of l k'"
    and "current now k l = None \<Longrightarrow> ok \<and> map_of l' k = Some \<lparr>wd_start = now, wd_n = 1\<rparr>"
    and "current now k l = Some w \<Longrightarrow> ok = (wd_n w + 1 \<le> mx) \<and> map_of l' k = Some (w\<lparr>wd_n := wd_n w + 1\<rparr>)"
proof -
  define m where "m = (if length l > 10000 then keep_if (\<lambda>_ w. \<not> expired now w) l else l)"
  have m: "limiter_ok m" "\<And>t k. now \<le> t \<Longrightarrow> current t k m = current t k l"
    using assms(1) current_purged
    by (auto simp: m_def limiter_ok_def map_of_keep_if is_map_keep_if split: option.splits if_splits)
  have e: "(ok, l') = (case map_of m k of
        None \<Rightarrow> (True, put k \<lparr>wd_start = now, wd_n = 1\<rparr> m)
      | Some w \<Rightarrow>
          if expired now w then (True, put k \<lparr>wd_start = now, wd_n = 1\<rparr> m)
          else (wd_n w + 1 \<le> mx, put k (w\<lparr>wd_n := wd_n w + 1\<rparr>) m))"
    using assms(2) unfolding allow_max_def Let_def m_def by (rule sym)
  show "limiter_ok l'"
    using e m(1) by (auto simp: limiter_ok_def map_of_put is_map_put split: option.splits if_splits) fastforce+
  show "now \<le> t \<Longrightarrow> k' \<noteq> k \<Longrightarrow> current t k' l' = current t k' l"
    using e m(2) [of t k'] by (auto simp: current_def map_of_put split: option.splits if_splits)
  have "map_of m k' = None \<or> map_of m k' = map_of l k'"
    using assms(1) by (auto simp: m_def limiter_ok_def map_of_keep_if split: option.splits)
  then show "k' \<noteq> k \<Longrightarrow> map_of l' k' = None \<or> map_of l' k' = map_of l k'"
    using e by (auto simp: map_of_put split: option.splits if_splits)
  show "current now k l = None \<Longrightarrow> ok \<and> map_of l' k = Some \<lparr>wd_start = now, wd_n = 1\<rparr>"
    using e m(2) [of now k] by (auto simp: current_def map_of_put split: option.splits if_splits)
  show "current now k l = Some w \<Longrightarrow> ok = (wd_n w + 1 \<le> mx) \<and> map_of l' k = Some (w\<lparr>wd_n := wd_n w + 1\<rparr>)"
    using e m(2) [of now k] by (auto simp: current_def map_of_put split: option.splits if_splits)
qed


lemma granted_after: "sorted (map fst rs) \<Longrightarrow> (\<forall>r \<in> set rs. hi < fst r) \<Longrightarrow> granted k lo hi rs l = 0"
  by (induction rs arbitrary: l) (auto split: prod.splits)

text \<open>Once a window of \<open>k\<close> has begun in the span, no other begins in it.\<close>

lemma granted_in_window:
  assumes "sorted (map fst rs)" and "hi - lo \<le> minute" and "limiter_ok l"
    and "\<forall>r \<in> set rs. fst (snd r) = k \<longrightarrow> snd (snd r) \<le> mx"
    and "map_of l k = Some w" and "lo \<le> wd_start w"
  shows "int (granted k lo hi rs l) \<le> max 0 (mx - wd_n w)"
  using assms
proof (induction rs arbitrary: l w)
  case Nil
  then show ?case by simp
next
  case (Cons r rs)
  obtain t k' m where r: "r = (t, k', m)" by (cases r)
  obtain ok l' where a: "allow_max t k' m l = (ok, l')" by force
  show ?case
  proof (cases "hi < t")
    case True
    have "\<forall>x \<in> set (r # rs). hi < fst x" using Cons.prems(1) True by (auto simp: r)
    then show ?thesis using granted_after [OF Cons.prems(1)] by simp
  next
    case False
    then have c: "current t k l = Some w" using Cons.prems by (simp add: current_def expired_iff)
    have s: "sorted (map fst rs)" "\<forall>r \<in> set rs. fst (snd r) = k \<longrightarrow> snd (snd r) \<le> mx"
      using Cons.prems(1,4) by auto
    note f = allow_max_cases [OF Cons.prems(3) a]
    show ?thesis
    proof (cases "k' = k")
      case True
      have e: "ok = (wd_n w + 1 \<le> m)" "map_of l' k = Some (w\<lparr>wd_n := wd_n w + 1\<rparr>)"
        using f(5) [of w] c by (simp_all add: True)
      have "m \<le> mx" using Cons.prems(4) by (simp add: r True)
      moreover have "int (granted k lo hi rs l') \<le> max 0 (mx - (wd_n w + 1))"
        using Cons.IH [OF s(1) Cons.prems(2) f(1) s(2) e(2)] Cons.prems(6) by simp
      ultimately show ?thesis using a by (auto simp: r e(1))
    next
      case False
      obtain w' where w': "map_of l' k = Some w'" "w' = w"
        using f(2) [of t k] False c by (auto simp: current_def split: option.splits if_splits)
      show ?thesis
        using Cons.IH [OF s(1) Cons.prems(2) f(1) s(2) w'(1)] Cons.prems(6) a False by (simp add: r w'(2))
    qed
  qed
qed

abbreviation window_left :: "int \<Rightarrow> string \<Rightarrow> limiter \<Rightarrow> int" where
  "window_left mx k l \<equiv> (case map_of l k of None \<Rightarrow> 0 | Some w \<Rightarrow> max 0 (mx - wd_n w))"

lemma granted_from:
  assumes "sorted (map fst rs)" and "hi - lo \<le> minute" and "limiter_ok l"
    and "\<forall>r \<in> set rs. fst (snd r) = k \<longrightarrow> snd (snd r) \<le> mx" and "\<forall>r \<in> set rs. lo \<le> fst r"
  shows "int (granted k lo hi rs l) \<le> max 1 mx + window_left mx k l"
  using assms
proof (induction rs arbitrary: l)
  case Nil
  then show ?case by (auto split: option.splits)
next
  case (Cons r rs)
  obtain t k' m where r: "r = (t, k', m)" by (cases r)
  obtain ok l' where a: "allow_max t k' m l = (ok, l')" by force
  have s: "sorted (map fst rs)" "\<forall>r \<in> set rs. fst (snd r) = k \<longrightarrow> snd (snd r) \<le> mx"
    "\<forall>r \<in> set rs. lo \<le> fst r" and lo: "lo \<le> t"
    using Cons.prems(1,4,5) by (auto simp: r)
  note f = allow_max_cases [OF Cons.prems(3) a]
  note ih = Cons.IH [OF s(1) Cons.prems(2) f(1) s(2,3)]
  have nonneg: "0 \<le> window_left mx k l" by (simp split: option.split)
  consider "hi < t" | "t \<le> hi" "k' = k" "current t k l = None" | w where "k' = k" "current t k l = Some w" | "k' \<noteq> k"
    by (cases "current t k l") force+
  then show ?case
  proof cases
    case 1
    have "\<forall>x \<in> set (r # rs). hi < fst x" using Cons.prems(1) 1 by (auto simp: r)
    then show ?thesis using granted_after [OF Cons.prems(1)] nonneg by simp
  next
    case 2
    have e: "ok" "map_of l' k = Some \<lparr>wd_start = t, wd_n = 1\<rparr>" using f(4) 2 by simp_all
    have "int (granted k lo hi rs l') \<le> max 0 (mx - 1)"
      using granted_in_window [OF s(1) Cons.prems(2) f(1) s(2) e(2)] lo by simp
    then show ?thesis using a nonneg by (auto simp: r e(1))
  next
    case 3
    have "m \<le> mx" using Cons.prems(4) by (simp add: r 3)
    moreover have "map_of l k = Some w" using 3 by (auto simp: current_def split: option.splits if_splits)
    moreover have "ok = (wd_n w + 1 \<le> m)" "map_of l' k = Some (w\<lparr>wd_n := wd_n w + 1\<rparr>)"
      using f(5) [of w] 3 by simp_all
    ultimately show ?thesis using ih a by (auto simp: r 3)
  next
    case 4
    have "window_left mx k l' \<le> window_left mx k l" using f(3) [of k] 4 nonneg by auto
    then show ?thesis using ih a 4 by (auto simp: r)
  qed
qed

text \<open>
  C17. The limiter keeps its rate: over any requests in time order, with their own limits, a key whose
  limit is at most \<open>mx\<close> is granted at most twice \<open>mx\<close> (and at least one) in any minute, whatever the
  other keys ask for and whichever stale windows the purge above ten thousand keys drops.
\<close>

theorem limiter_bound:
  assumes "sorted (map fst rs)" and "hi - lo \<le> minute" and "limiter_ok l"
    and "\<forall>r \<in> set rs. fst (snd r) = k \<longrightarrow> snd (snd r) \<le> mx"
  shows "int (granted k lo hi rs l) \<le> 2 * max 1 mx"
  using assms
proof (induction rs arbitrary: l)
  case Nil
  then show ?case by simp
next
  case (Cons r rs)
  obtain t k' m where r: "r = (t, k', m)" by (cases r)
  obtain ok l' where a: "allow_max t k' m l = (ok, l')" by force
  show ?case
  proof (cases "lo \<le> t")
    case True
    then have "\<forall>x \<in> set (r # rs). lo \<le> fst x" using Cons.prems(1) by (auto simp: r)
    then have "int (granted k lo hi (r # rs) l) \<le> max 1 mx + window_left mx k l"
      by (rule granted_from [OF Cons.prems])
    moreover have "window_left mx k l \<le> max 1 mx"
    proof (cases "map_of l k")
      case (Some w)
      then have "1 \<le> wd_n w" using Cons.prems(3) by (auto simp: limiter_ok_def)
      then show ?thesis by (auto simp: Some max_def)
    qed simp
    ultimately show ?thesis by simp
  next
    case False
    have "int (granted k lo hi rs l') \<le> 2 * max 1 mx"
      using Cons.IH [OF _ Cons.prems(2) allow_max_cases(1) [OF Cons.prems(3) a]] Cons.prems(1,4) by auto
    then show ?thesis using a False by (simp add: r)
  qed
qed

lemma limiter_bound_witness:
  "granted phone 0 minute [(0, phone, 2), (5, phone, 2), (7, phone, 2)] [] = 2 \<and>
   int (granted phone 0 minute [(0, phone, 2), (5, phone, 2), (7, phone, 2)] []) \<le> 2 * max 1 2"
proof -
  have "granted phone 0 minute [(0, phone, 2), (5, phone, 2), (7, phone, 2)] [] = 2"
    by (simp add: allow_max_def expired_iff phone_def)
  with limiter_bound [of "[(0, phone, 2), (5, phone, 2), (7, phone, 2)]" minute 0 "[]" phone 2]
  show ?thesis by (simp add: limiter_ok_def)
qed

text \<open>The pacer lets at most its rate through in any one second of a clock that does not go back.\<close>

fun paced :: "int \<Rightarrow> time list \<Rightarrow> pacer \<Rightarrow> nat" where
  "paced s [] p = 0"
| "paced s (t # ts) p = (case pace_allow t p of (ok, p') \<Rightarrow> (if ok \<and> unix t = s then 1 else 0) + paced s ts p')"

lemma paced_after: "sorted ts \<Longrightarrow> (\<forall>t \<in> set ts. s < unix t) \<Longrightarrow> paced s ts p = 0"
  by (induction ts arbitrary: p) (auto split: prod.splits)

lemma paced_in_second:
  "sorted ts \<Longrightarrow> 0 < pc_n p \<Longrightarrow> pc_sec p = s \<Longrightarrow> \<forall>t \<in> set ts. s \<le> unix t \<Longrightarrow>
   int (paced s ts p) \<le> max 0 (pc_n p - pc_sent p)"
proof (induction ts arbitrary: p)
  case Nil
  then show ?case by simp
next
  case (Cons t ts)
  show ?case
  proof (cases "unix t = s")
    case True
    have "int (paced s ts (p\<lparr>pc_sent := pc_sent p + 1\<rparr>)) \<le> max 0 (pc_n p - (pc_sent p + 1))"
      using Cons.IH [of "p\<lparr>pc_sent := pc_sent p + 1\<rparr>"] Cons.prems by simp
    then show ?thesis using True Cons.prems by (auto simp: pace_allow_def Let_def max_def split: if_splits)
  next
    case False
    then have "\<forall>x \<in> set (t # ts). s < unix x"
      using Cons.prems(1,4) unix_mono by fastforce
    then show ?thesis using paced_after [OF Cons.prems(1)] by simp
  qed
qed

lemma pacer_bound:
  "sorted ts \<Longrightarrow> 0 < pc_n p \<Longrightarrow> 0 \<le> pc_sent p \<Longrightarrow> int (paced s ts p) \<le> pc_n p"
proof (induction ts arbitrary: p)
  case Nil
  then show ?case by simp
next
  case (Cons t ts)
  show ?case
  proof (cases "s \<le> unix t")
    case False
    then show ?thesis
      using Cons.IH [of "snd (pace_allow t p)"] Cons.prems
      by (auto simp: pace_allow_def Let_def split: prod.splits)
  next
    case True
    then have "\<forall>x \<in> set (t # ts). s \<le> unix x" using Cons.prems(1) unix_mono by fastforce
    moreover have "paced s (t # ts) p = paced s (t # ts) (p\<lparr>pc_sec := s, pc_sent := 0\<rparr>)"
      if "unix t = s" "pc_sec p \<noteq> s" using that Cons.prems(2) by (simp add: pace_allow_def)
    moreover have "paced s (t # ts) p = 0" if "s < unix t"
      by (rule paced_after [OF Cons.prems(1)]) (use that Cons.prems(1) unix_mono in fastforce)
    ultimately show ?thesis
      using paced_in_second [OF Cons.prems(1), of p s] Cons.prems True
        paced_in_second [OF Cons.prems(1), of "p\<lparr>pc_sec := s, pc_sent := 0\<rparr>" s]
      by (cases "unix t = s"; cases "pc_sec p = s") auto
  qed
qed

section \<open>Tokens and tiers\<close>

lemma cut_at_Some: "cut_at c s = (a, b, True) \<Longrightarrow> s = a @ c # b"
  unfolding cut_at_def
  by (cases "dropWhile (\<lambda>x. x \<noteq> c) s")
    (auto dest: dropWhile_eq_Cons_conv [THEN iffD1] simp: dropWhile_eq_Cons_conv)

lemma check_claims_Inr [simp]:
  "check_claims v now c0 = Inr c \<longleftrightarrow> c = c0 \<and> (c_exp c = 0 \<or> unix now \<le> c_exp c) \<and> c_sub c \<notin> set (v_revoked v)"
  by (auto simp: check_claims_def)

lemma verify_Inr:
  assumes "verify cr v tok now = Inr c"
  obtains b sig64 sig pub where "tok = token_prefix @ b @ ''.'' @ sig64" and "unb64 cr sig64 = Some sig"
    and "Option.bind (unb64 cr b) (unjson cr) = Some c" and "map_of (v_keys v) (c_kid c) = Some pub"
    and "ed_verify cr pub (token_prefix @ b) sig"
    and "c_exp c = 0 \<or> unix now \<le> c_exp c" and "c_sub c \<notin> set (v_revoked v)" and "valid_sub (c_sub c)"
proof -
  have p: "has_prefix tok token_prefix" using assms by (auto simp: verify_def split: if_splits)
  obtain b sig64 f where c: "cut_at CHR ''.'' (drop (length token_prefix) tok) = (b, sig64, f)"
    by (cases "cut_at CHR ''.'' (drop (length token_prefix) tok)") auto
  have f: "f" using assms p c by (cases f) (auto simp: verify_def)
  obtain body sig where b: "unb64 cr b = Some body" "unb64 cr sig64 = Some sig"
    using assms p c f by (auto simp: verify_def split: option.splits)
  obtain c' where j: "unjson cr body = Some c'"
    using assms p c f b by (auto simp: verify_def split: option.splits)
  obtain pub where k: "map_of (v_keys v) (c_kid c') = Some pub" and s: "valid_sub (c_sub c')"
    using assms p c f b j by (auto simp: verify_def split: option.splits if_splits)
  have e: "ed_verify cr pub (token_prefix @ b) sig" "check_claims v now c' = Inr c"
    using assms p c f b j k s by (auto simp: verify_def split: if_splits)
  have t: "tok = token_prefix @ b @ ''.'' @ sig64"
    using p c f cut_at_Some [of "CHR ''.''" "drop (length token_prefix) tok" b sig64]
    by (auto simp: has_prefix_iff)
  show thesis using that [OF t b(2)] b j k s e by auto
qed

text \<open>
  C15. An authorised request is one its token allows: with \<open>ALLOW_ANON\<close> off, \<open>authorizeToken\<close>
  answers claims only for a token whose text is signed by the key it names, whose claims are neither
  expired nor revoked, whose role may take the action, and which is used from an address it is bound to;
  the claims answered are the signed ones, or these with the feeder tier the senders have earned.
\<close>

theorem authorize_sound:
  assumes "authorize_token cr v n kid False tok s action now st = Inr c"
  shows "\<exists>b sig64 sig pub c0.
           tok = token_prefix @ b @ ''.'' @ sig64 \<and> unb64 cr sig64 = Some sig \<and>
           Option.bind (unb64 cr b) (unjson cr) = Some c0 \<and> map_of (v_keys v) (c_kid c0) = Some pub \<and>
           ed_verify cr pub (token_prefix @ b) sig \<and>
           (c_exp c0 = 0 \<or> unix now \<le> c_exp c0) \<and> c_sub c0 \<notin> set (v_revoked v) \<and>
           c = effective n c0 s now st \<and> may c action \<and> allows_ip n kid c s"
proof -
  obtain c0 where v: "verify cr v tok now = Inr c0"
    and c: "c = effective n c0 s now st" "may c action" "allows_ip n kid c s"
    using assms by (auto simp: authorize_token_def Let_def split: sum.splits if_splits)
  from v show ?thesis by (rule verify_Inr) (use c in blast)
qed

text \<open>
  C18. A minted token verifies: when the encodings round trip, the base64 alphabet has no dot, and the
  signature scheme accepts its own signatures, the token \<open>signToken\<close> makes under a key the verifier
  knows is read back as exactly the claims signed, subject only to their expiry and to revocation.
\<close>

theorem sign_then_verify:
  assumes "sign_token cr priv c = Inr tok"
    and "\<And>s. unb64 cr (b64 cr s) = Some s" and "\<And>s. CHR ''.'' \<notin> set (b64 cr s)"
    and "unjson cr (json cr c) = Some c"
    and "\<And>m. ed_verify cr pub m (ed_sign cr priv m)" and "map_of (v_keys v) (c_kid c) = Some pub"
  shows "verify cr v tok now = check_claims v now c"
proof -
  let ?b = "b64 cr (json cr c)"
  have s: "valid_sub (c_sub c)" and t: "tok = token_prefix @ ?b @ ''.'' @ b64 cr (ed_sign cr priv (token_prefix @ ?b))"
    using assms(1) by (auto simp: sign_token_def Let_def split: if_splits)
  have "cut_at CHR ''.'' (?b @ ''.'' @ b64 cr (ed_sign cr priv (token_prefix @ ?b))) =
      (?b, b64 cr (ed_sign cr priv (token_prefix @ ?b)), True)"
    using cut_at_found [OF assms(3)] by simp
  then show ?thesis
    by (simp add: verify_def t has_prefix_append assms s)
qed

lemma effective_keeps:
  "c_sub (effective n c s now st) = c_sub c" "c_role (effective n c s now st) = c_role c"
  "c_bbox (effective n c s now st) = c_bbox c" "c_cidr (effective n c s now st) = c_cidr c"
  "c_exp (effective n c s now st) = c_exp c" "may (effective n c s now st) = may c"
  by (auto simp: effective_def may_def fun_eq_iff)

lemma effective_earned:
  "c_feeder (effective n c s now st) \<Longrightarrow> c_feeder c \<or>
     (c_role c = ''personal'' \<and> 1000 \<le> contributed24h n c now st) \<or>
     (c_role c \<in> {''personal'', ''anonymous''} \<and>
        1000 \<le> events24h (net_ids (net_key n s) (udp_station n s) st) now st)"
  by (auto simp: effective_def feeder_min_events24h_def split: if_splits)

text \<open>A codec and a signature scheme that do what the two theorems assume, for a concrete token.\<close>

fun esc :: "string \<Rightarrow> string" where
  "esc [] = []"
| "esc (c # s) = (if c = CHR ''.'' then ''ab'' else if c = CHR ''a'' then ''aa'' else [c]) @ esc s"

fun unesc :: "string \<Rightarrow> string" where
  "unesc [] = []"
| "unesc [c] = [c]"
| "unesc (c # d # s) =
     (if c = CHR ''a'' then (if d = CHR ''b'' then CHR ''.'' else CHR ''a'') # unesc s else c # unesc (d # s))"

lemma unesc_Cons: "c \<noteq> CHR ''a'' \<Longrightarrow> unesc (c # s) = c # unesc s"
  by (cases s) auto

lemma unesc_esc [simp]: "unesc (esc s) = s"
  by (induction s) (auto simp: unesc_Cons)

lemma esc_no_dot: "CHR ''.'' \<notin> set (esc s)"
  by (induction s) auto

definition sample_claims :: claims where
  "sample_claims = no_claims\<lparr>c_kid := ''k'', c_sub := ''ps:1'', c_role := ''personal''\<rparr>"

definition sample_crypto :: "(unit, unit) crypto" where
  "sample_crypto = \<lparr>b64 = esc, unb64 = \<lambda>s. Some (unesc s), json = \<lambda>_. ''j'', unjson = \<lambda>_. Some sample_claims,
     ed_sign = \<lambda>_ m. ''s'', ed_verify = \<lambda>_ m s. s = ''s''\<rparr>"

definition sample_verifier :: "unit verifier" where
  "sample_verifier = \<lparr>v_keys = [(''k'', ())], v_revoked = []\<rparr>"

definition sample_net :: net where
  "sample_net = \<lparr>parse_ip = \<lambda>_. Some 1, parse_cidr = \<lambda>_. None, ip_string = \<lambda>_. ''::1'', udp_station = \<lambda>_. ''udp:1''\<rparr>"

lemma sample_token:
  "sign_token sample_crypto () sample_claims = Inr ''ak1.j.s''"
  by (simp add: sign_token_def sample_crypto_def sample_claims_def no_claims_def valid_sub_def sub_char_def
      is_digit_def has_suffix_def has_prefix_def lower_char_def token_prefix_def)

lemma sign_then_verify_witness:
  "verify sample_crypto sample_verifier ''ak1.j.s'' 0 = Inr sample_claims"
proof -
  have "verify sample_crypto sample_verifier ''ak1.j.s'' 0 = check_claims sample_verifier 0 sample_claims"
    by (rule sign_then_verify [OF sample_token, where pub = "()"])
      (simp_all add: sample_crypto_def esc_no_dot sample_verifier_def sample_claims_def)
  then show ?thesis by (simp add: check_claims_def sample_verifier_def sample_claims_def no_claims_def)
qed

lemma sample_effective: "effective sample_net sample_claims ip 0 new_station_stats = sample_claims"
  by (simp add: effective_def contributed24h_def events24h_def events24h_of_def new_station_stats_def
      feeder_min_events24h_def owned_stations_def net_ids_def get_or_def sample_claims_def no_claims_def comp_def)

lemma sample_authorized:
  "authorize_token sample_crypto sample_verifier sample_net [] False ''ak1.j.s'' phone ''publish'' 0 new_station_stats =
     Inr sample_claims"
proof -
  have "verify sample_crypto sample_verifier ''ak1.j.s'' 0 = Inr sample_claims"
    by (simp add: verify_def sample_crypto_def sample_verifier_def token_prefix_def has_prefix_def cut_at_def
        sample_claims_def no_claims_def valid_sub_def sub_char_def is_digit_def has_suffix_def lower_char_def)
  then show ?thesis
    by (simp add: authorize_token_def sample_effective)
      (simp add: may_def allows_ip_def sample_claims_def no_claims_def)
qed

lemma authorize_sound_witness:
  "\<exists>sig64. ''ak1.j.s'' = token_prefix @ ''j'' @ ''.'' @ sig64 \<and> may sample_claims ''publish''"
  using authorize_sound [OF sample_authorized] by (auto simp: token_prefix_def)

section \<open>Requests\<close>

text \<open>
  What a request names itself by: its \<open>Authorization\<close> header, the pair \<open>BasicAuth\<close> reads from it, the
  \<open>key\<close> of its query, its \<open>CF-Connecting-IP\<close> and \<open>X-Forwarded-For\<close> headers, and its peer.
\<close>

record request =
  rq_authorization :: string
  rq_basic :: "(string \<times> string) option"
  rq_key :: string
  rq_cf :: string
  rq_xff :: string
  rq_remote :: string

definition request_token :: "request \<Rightarrow> string" where
  "request_token r =
     (if has_prefix (rq_authorization r) ''Bearer '' then trim_space (drop 7 (rq_authorization r))
      else case rq_basic r of
        Some (u, pw) \<Rightarrow> if has_prefix pw token_prefix then pw
                        else if has_prefix u token_prefix then u else rq_key r
      | None \<Rightarrow> rq_key r)"

definition is_loopback :: "ip option \<Rightarrow> bool" where
  "is_loopback a = (case a of None \<Rightarrow> False
     | Some x \<Rightarrow> if is_v4 x then take_bit 8 (drop_bit 24 x) = 127 else x = 1)"

text \<open>\<open>split_host\<close> is the host of \<open>net.SplitHostPort\<close>, if it does not fail.\<close>

definition client_ip :: "net \<Rightarrow> (string \<Rightarrow> string option) \<Rightarrow> bool \<Rightarrow> request \<Rightarrow> string" where
  "client_ip n split_host trust_cf r =
     (if trust_cf \<and> rq_cf r \<noteq> [] then rq_cf r
      else case split_host (rq_remote r) of
        None \<Rightarrow> rq_remote r
      | Some host \<Rightarrow>
          if rq_xff r \<noteq> [] \<and> is_loopback (parse_ip n host) then
            (let hop = trim_space (rev (takeWhile (\<lambda>c. c \<noteq> CHR '','') (rev (rq_xff r))))
             in if parse_ip n hop \<noteq> None then hop else host)
          else host)"

datatype gate = RateLimited | Refused auth_error | Admitted "claims option"

text \<open>\<open>api\<close>: the token's own rate, or the address's, is charged before the token's error is answered.\<close>

definition api_gate :: "auth_error + claims option \<Rightarrow> string \<Rightarrow> int \<Rightarrow> time \<Rightarrow> limiter \<Rightarrow> gate \<times> limiter" where
  "api_gate res addr http_max now l =
     (case (case own_rpm (case res of Inr c \<Rightarrow> c | Inl _ \<Rightarrow> None) (isl res) of
              Some rpm \<Rightarrow>
                if rpm > 0 then allow_max now (case res of Inr (Some c) \<Rightarrow> c_sub c | _ \<Rightarrow> []) rpm l else (True, l)
            | None \<Rightarrow> allow_max now addr http_max l) of
        (ok, l') \<Rightarrow>
          (if \<not> ok then RateLimited else case res of Inl e \<Rightarrow> Refused e | Inr c \<Rightarrow> Admitted c, l'))"

text \<open>A peer that is not the host itself does not get to name its own address.\<close>

lemma client_ip_unspoofed:
  assumes "split_host (rq_remote r) = Some host" and "\<not> is_loopback (parse_ip n host)"
  shows "client_ip n split_host False r = host"
  using assms by (simp add: client_ip_def)

text \<open>A token that does not verify is charged to its address, and never answered as anonymous.\<close>

lemma api_gate_refuses:
  assumes "api_gate (Inl e) addr mx now l = (g, l')"
  shows "g = RateLimited \<or> g = Refused e" and "l' = snd (allow_max now addr mx l)"
  using assms by (auto simp: api_gate_def own_rpm_def split: prod.splits if_splits)

lemma api_gate_own_rate:
  assumes "c_rpm c = Some rpm"
  shows "fst (api_gate (Inr (Some c)) addr mx now l) =
    (if 0 < rpm \<and> \<not> fst (allow_max now (c_sub c) rpm l) then RateLimited else Admitted (Some c))"
  using assms by (auto simp: api_gate_def own_rpm_def split: prod.splits)

end
