(* ===== verification/Imo.thy ===== *)
theory Imo
  imports Access Cache "HOL-Library.Product_Lexorder"
begin

text \<open>
  Lookup by IMO number, from \<open>server/imo.go\<close>: reading the numbers, resolving them to the vessels
  that report them, and the vessel a request's path names.

  \<open>imo_source\<close> is what \<open>resolveIMOs\<close> reads: the cache, the vessels changed since the last flush and
  those a flush is writing, and the record's answer to a query by IMO (\<open>is_filed\<close>, \<open>None\<close> without a
  record), whose SQL is a parameter.
\<close>

declare map_of_eq_Some_iff [simp del]

section \<open>Reading numbers\<close>

text \<open>\<open>strings.Split\<close> at one byte, and \<open>strconv.ParseUint\<close> in base ten and 32 bits.\<close>

fun split_on :: "char \<Rightarrow> string \<Rightarrow> string list" where
  "split_on c [] = [[]]"
| "split_on c (x # s) = (if x = c then [] # split_on c s
     else case split_on c s of [] \<Rightarrow> [[x]] | f # fs \<Rightarrow> (x # f) # fs)"

definition parse_uint32 :: "string \<Rightarrow> nat option" where
  "parse_uint32 s = (if s \<noteq> [] \<and> list_all is_digit s \<and> undec 0 s < 2 ^ 32 then Some (undec 0 s) else None)"

definition max_mmsis_per_imo :: nat where "max_mmsis_per_imo = 10"
definition imo_active_window :: duration where "imo_active_window = 30 * 24 * hour"

type_synonym imo = "32 word"

definition imo_gate :: "claims \<Rightarrow> bool" where
  "imo_gate c = may_raw c"

definition parse_imo :: "string \<Rightarrow> imo option" where
  "parse_imo s =
     (let t = trim_space s in
      case parse_uint32 t of
        None \<Rightarrow> None
      | Some n \<Rightarrow> if length t \<le> 7 \<and> n \<ge> 1 then Some (of_nat n) else None)"

text \<open>\<open>parseIMOs\<close>: \<open>None\<close> is its refusal, \<open>imoRange\<close>.\<close>

definition parse_imos :: "string \<Rightarrow> imo list option" where
  "parse_imos q =
     (let ns = map parse_imo (split_on CHR '','' q) in if None \<in> set ns then None else Some (map the ns))"

definition check_imos :: "imo list \<Rightarrow> bool" where
  "check_imos imos \<longleftrightarrow> list_all (\<lambda>n. 1 \<le> n \<and> n \<le> 9999999) imos"

section \<open>The vessels that report a number\<close>

datatype find_error = TooManyTerms | StoreFailed string

type_synonym rec_rows = "(mmsi \<times> vessel) list"

record imo_source =
  is_dirty :: "mmsi list"
  is_flushing :: "mmsi list"
  is_cache :: cache
  is_filed :: "(imo list \<Rightarrow> find_error + rec_rows) option"

text \<open>The cache's own answer: the vessels folded since the record last held them, if their number is known.\<close>

definition fresh_rows :: "imo_source \<Rightarrow> rec_rows" where
  "fresh_rows s =
     concat (map (\<lambda>m. case map_of (c_vessels (is_cache s)) m of
                        Some v \<Rightarrow> if v_imo v \<noteq> 0 then [(m, state_of v)] else []
                      | None \<Rightarrow> []) (remdups (is_dirty s @ is_flushing s)))"

definition cached_rows :: "imo_source \<Rightarrow> imo list \<Rightarrow> rec_rows" where
  "cached_rows s imos =
     concat (map (\<lambda>(m, v). if v_imo v \<noteq> 0 \<and> v_imo v \<in> set imos then [(m, state_of v)] else [])
       (c_vessels (is_cache s)))"

definition candidates :: "imo_source \<Rightarrow> imo list \<Rightarrow> find_error + rec_rows" where
  "candidates s imos =
     (case is_filed s of
        None \<Rightarrow> Inr (cached_rows s imos)
      | Some ask \<Rightarrow>
          (case ask imos of
             Inl e \<Rightarrow> Inl e
           | Inr rows \<Rightarrow>
               Inr (filter (\<lambda>r. v_imo (snd r) \<in> set imos) (fresh_rows s) @
                    filter (\<lambda>r. fst r \<notin> fst ` set (fresh_rows s)) rows)))"

text \<open>The order of the answer: the latest heard first, then the lower MMSI.\<close>

definition by_seen :: "rec_rows \<Rightarrow> rec_rows" where
  "by_seen rs = sort_key (\<lambda>(m, v). (- v_seen v, m)) rs"

definition cap_imo :: "mmsi \<times> vessel \<Rightarrow> (imo \<times> rec_rows) list \<times> bool \<Rightarrow> (imo \<times> rec_rows) list \<times> bool" where
  "cap_imo r oc =
     (case oc of (out, over) \<Rightarrow>
        let n = v_imo (snd r) in
        if length (get_or [] out n) < max_mmsis_per_imo then (put n (get_or [] out n @ [r]) out, over)
        else (out, True))"

definition resolve_imos :: "imo_source \<Rightarrow> imo list \<Rightarrow> find_error + (imo \<times> rec_rows) list \<times> bool" where
  "resolve_imos s imos =
     (if imos = [] then Inr ([], False)
      else case candidates s imos of
        Inl e \<Rightarrow> Inl e
      | Inr rs \<Rightarrow> Inr (fold cap_imo (by_seen rs) ([], False)))"

definition sole_vessel :: "rec_rows \<Rightarrow> time \<Rightarrow> (mmsi \<times> vessel) option" where
  "sole_vessel rs now =
     (if length rs = 1 then Some (rs ! 0)
      else let active = filter (\<lambda>r. time_sub now (v_seen (snd r)) \<le> imo_active_window) rs
           in if length active = 1 then Some (active ! 0) else None)"

section \<open>Searches and paths\<close>

definition re_space :: "char \<Rightarrow> bool" where
  "re_space c \<longleftrightarrow> c \<in> {CHR 0x09, CHR 0x0A, CHR 0x0C, CHR 0x0D, CHR '' ''}"

definition imo_prefixed :: "string \<Rightarrow> bool" where
  "imo_prefixed s \<longleftrightarrow> map lower_char (take 3 s) = ''imo''"

text \<open>\<open>imoQueryPattern\<close>: the digits after IMO, if the text is of its shape.\<close>

definition imo_pattern :: "string \<Rightarrow> string option" where
  "imo_pattern s =
     (let d = dropWhile re_space (drop 3 s) in
      if imo_prefixed s \<and> 1 \<le> length d \<and> length d \<le> 7 \<and> list_all is_digit d then Some d else None)"

definition imo_query :: "string \<Rightarrow> imo \<times> bool" where
  "imo_query text =
     (case imo_pattern text of
        Some d \<Rightarrow> (case parse_imo d of Some n \<Rightarrow> (n, True) | None \<Rightarrow> (0, False))
      | None \<Rightarrow>
          if length text = 7 \<and> list_all is_digit text
          then (case parse_imo text of Some n \<Rightarrow> (n, False) | None \<Rightarrow> (0, False))
          else (0, False))"

datatype path_error = ImoRange | NoVesselNumber

definition parse_vessel_path :: "string \<Rightarrow> path_error + mmsi \<times> imo" where
  "parse_vessel_path seg0 =
     (let prefixed = 3 < length seg0 \<and> imo_prefixed seg0;
          seg = (if prefixed then drop 3 seg0 else seg0)
      in if prefixed \<or> length seg = 7 \<and> list_all is_digit seg
         then (case parse_imo seg of None \<Rightarrow> Inl ImoRange | Some n \<Rightarrow> Inr (0, n))
         else (case parse_uint32 seg of None \<Rightarrow> Inl NoVesselNumber | Some n \<Rightarrow> Inr (of_nat n, 0)))"

text \<open>
  \<open>vesselPath\<close>: the vessel a request names and, when it named an IMO, its address by MMSI; or the
  answer the request gets instead. \<open>query\<close> is its parameters without the token, encoded.
\<close>

datatype path_answer =
    PathVessel mmsi string
  | BadPath path_error
  | PathForbidden
  | RecordUnavailable
  | UnknownVessel
  | Candidates "(mmsi \<times> string) list" bool

definition vessel_href :: "string \<Rightarrow> string \<Rightarrow> mmsi \<Rightarrow> string" where
  "vessel_href sfx query m =
     ''/v1/vessels/'' @ dec (unat m) @ sfx @ (if query = [] then [] else ''?'' @ query)"

definition vessel_path :: "imo_source \<Rightarrow> claims \<Rightarrow> string \<Rightarrow> string \<Rightarrow> string \<Rightarrow> time \<Rightarrow> path_answer" where
  "vessel_path s cl seg sfx query now =
     (case parse_vessel_path seg of
        Inl e \<Rightarrow> BadPath e
      | Inr (m, imo) \<Rightarrow>
          if imo = 0 then PathVessel m []
          else if \<not> imo_gate cl then PathForbidden
          else case resolve_imos s [imo] of
            Inl e \<Rightarrow> RecordUnavailable
          | Inr (out, over) \<Rightarrow>
              let rs = get_or [] out imo in
              if rs = [] then UnknownVessel
              else case sole_vessel rs now of
                Some r \<Rightarrow> PathVessel (fst r) (vessel_href sfx query (fst r))
              | None \<Rightarrow> Candidates (map (\<lambda>r. (fst r, vessel_href sfx query (fst r))) rs) over)"

section \<open>Numbers are read in range\<close>

lemma undec_bound: "list_all is_digit s \<Longrightarrow> undec n s < (n + 1) * 10 ^ length s"
proof (induction s arbitrary: n)
  case Nil
  then show ?case by simp
next
  case (Cons c s)
  have "undec (10 * n + (of_char c - 48)) s < (10 * n + (of_char c - 48) + 1) * 10 ^ length s"
    using Cons by simp
  also have "\<dots> \<le> (10 * n + 9 + 1) * 10 ^ length s"
    using Cons.prems by (intro mult_right_mono) (auto simp: is_digit_def)
  also have "\<dots> = (n + 1) * 10 ^ length (c # s)" by (simp add: algebra_simps)
  finally show ?case by simp
qed

lemma parse_imo_range:
  assumes "parse_imo s = Some n"
  shows "1 \<le> n \<and> n \<le> 9999999"
proof -
  obtain k where k: "parse_uint32 (trim_space s) = Some k" "length (trim_space s) \<le> 7" "1 \<le> k" "n = of_nat k"
    using assms by (auto simp: parse_imo_def Let_def split: option.splits if_splits)
  have "k < 10 ^ length (trim_space s)"
    using k(1) undec_bound [of "trim_space s" 0] by (auto simp: parse_uint32_def split: if_splits)
  also have "\<dots> \<le> 10 ^ 7" using k(2) by (intro power_increasing) simp_all
  finally show ?thesis using k(3,4)
    by (simp add: word_le_nat_alt unat_of_nat)
qed

lemma parse_imos_range: "parse_imos q = Some ns \<Longrightarrow> ns \<noteq> [] \<and> check_imos ns"
proof -
  have "split_on c s \<noteq> []" for c s by (induction s) (auto split: list.splits)
  moreover have "None \<notin> set (map parse_imo fs) \<Longrightarrow> list_all (\<lambda>n. 1 \<le> n \<and> n \<le> 9999999) (map the (map parse_imo fs))" for fs
  proof (induction fs)
    case (Cons a fs)
    then show ?case using parse_imo_range [of a] by (cases "parse_imo a") auto
  qed simp
  ultimately show "parse_imos q = Some ns \<Longrightarrow> ns \<noteq> [] \<and> check_imos ns"
    by (auto simp: parse_imos_def check_imos_def Let_def split: if_splits)
qed

lemma dec_nonzero_head: "n < 10 \<Longrightarrow> dec n = [digit_char n]"
  by (subst dec.simps) simp

lemma length_dec: "10 ^ k \<le> n \<Longrightarrow> n < 10 ^ Suc k \<Longrightarrow> length (dec n) = Suc k"
proof (induction k arbitrary: n)
  case 0
  then show ?case by (simp add: dec_nonzero_head)
next
  case (Suc k)
  have "length (dec (n div 10)) = Suc k"
    using Suc.prems by (intro Suc.IH) auto
  moreover have "\<not> n < 10"
  proof -
    have "(10::nat) * 1 \<le> 10 * 10 ^ k" by (rule mult_left_mono) simp_all
    then show ?thesis using Suc.prems(1) unfolding power_Suc by linarith
  qed
  ultimately show ?case by (subst dec.simps) simp
qed

lemma length_dec_le: "n < 10 ^ Suc k \<Longrightarrow> length (dec n) \<le> Suc k"
proof (induction k arbitrary: n)
  case 0
  then show ?case by (simp add: dec_nonzero_head)
next
  case (Suc k)
  have "length (dec (n div 10)) \<le> Suc k" using Suc.prems by (intro Suc.IH) auto
  then show ?case by (subst dec.simps) simp
qed

lemma trim_space_dec: "trim_space (dec n) = dec n"
proof -
  have d: "\<And>c. c \<in> set (dec n) \<Longrightarrow> \<not> is_space c"
    using dec_digits by (force simp: is_digit_def is_space_def)
  have t: "dropWhile is_space s = s" if "\<And>c. c \<in> set s \<Longrightarrow> \<not> is_space c" for s
    using that by (cases s) auto
  show ?thesis using t [of "dec n"] t [of "rev (dec n)"] d by (simp add: trim_space_def)
qed

lemma dec_all_digits: "list_all is_digit (dec n)"
  by (simp add: list_all_iff dec_digits)

lemma parse_imo_dec: "1 \<le> n \<Longrightarrow> n \<le> 9999999 \<Longrightarrow> parse_imo (dec n) = Some (of_nat n)"
  using length_dec_le [of n 6]
  by (simp add: parse_imo_def trim_space_dec parse_uint32_def dec_all_digits)

lemma imo_prefixed_IMO: "imo_prefixed (''IMO'' @ s)"
proof -
  have "lower_char CHR ''I'' = CHR ''i''" "lower_char CHR ''M'' = CHR ''m''" "lower_char CHR ''O'' = CHR ''o''"
    by code_simp+
  then show ?thesis by (simp add: imo_prefixed_def)
qed

lemma digits_not_prefixed: "list_all is_digit s \<Longrightarrow> \<not> imo_prefixed s"
  by (cases s) (auto simp: imo_prefixed_def is_digit_def lower_char_def)

text \<open>
  A vessel's path is read back: the decimal text of an MMSI of nine digits names that MMSI, IMO
  before the decimal text of any IMO number names the IMO, as does a number of seven digits alone, and
  no path names both.
\<close>

theorem vessel_path_roundtrip:
  "(100000000 \<le> m \<and> m < 2 ^ 32 \<longrightarrow> parse_vessel_path (dec m) = Inr (of_nat m, 0)) \<and>
   (1 \<le> n \<and> n \<le> 9999999 \<longrightarrow> parse_vessel_path (''IMO'' @ dec n) = Inr (0, of_nat n)) \<and>
   (1000000 \<le> n \<and> n \<le> 9999999 \<longrightarrow> parse_vessel_path (dec n) = Inr (0, of_nat n))"
proof -
  have "length (dec m) \<noteq> 7" if "100000000 \<le> m"
  proof
    assume "length (dec m) = 7"
    then have "undec 0 (dec m) < 10 ^ 7" using undec_bound [OF dec_all_digits, of 0 m] by simp
    then show False using that by simp
  qed
  then have 1: "parse_vessel_path (dec m) = Inr (of_nat m, 0)" if "100000000 \<le> m" "m < 2 ^ 32"
    using that by (simp add: parse_vessel_path_def digits_not_prefixed dec_all_digits parse_uint32_def)
  have 2: "parse_vessel_path (''IMO'' @ dec n) = Inr (0, of_nat n)" if "1 \<le> n" "n \<le> 9999999"
    using that parse_imo_dec [OF that] imo_prefixed_IMO [of "dec n"]
    by (simp add: parse_vessel_path_def)
  have 3: "parse_vessel_path (dec n) = Inr (0, of_nat n)" if "1000000 \<le> n" "n \<le> 9999999"
    using that parse_imo_dec [of n] length_dec [of 6 n]
    by (simp add: parse_vessel_path_def digits_not_prefixed dec_all_digits)
  show ?thesis using 1 2 3 by blast
qed

section \<open>What a number resolves to\<close>

definition of_imo :: "imo \<Rightarrow> rec_rows \<Rightarrow> rec_rows" where
  "of_imo n rs = filter (\<lambda>r. v_imo (snd r) = n) rs"

lemma cap_imos:
  assumes "\<And>n. get_or [] out n = take 10 (of_imo n pre)"
    and "over \<longleftrightarrow> (\<exists>n. 10 < length (of_imo n pre))"
    and "fold cap_imo rs (out, over) = (out', over')"
  shows "get_or [] out' n = take 10 (of_imo n (pre @ rs)) \<and> (over' \<longleftrightarrow> (\<exists>n. 10 < length (of_imo n (pre @ rs))))"
  using assms
proof (induction rs arbitrary: pre out over)
  case Nil
  then show ?case by simp
next
  case (Cons r rs)
  let ?n = "v_imo (snd r)"
  obtain out1 over1 where c: "cap_imo r (out, over) = (out1, over1)" by force
  have o: "of_imo k (pre @ [r]) = of_imo k pre @ (if k = ?n then [r] else [])" for k
    by (simp add: of_imo_def)
  have len: "length (get_or [] out ?n) = min 10 (length (of_imo ?n pre))" by (simp add: Cons.prems(1))
  have 1: "get_or [] out1 k = take 10 (of_imo k (pre @ [r]))" for k
    using c len Cons.prems(1) [of k]
    by (cases "length (of_imo ?n pre) < 10"; cases "k = ?n")
       (auto simp: cap_imo_def Let_def max_mmsis_per_imo_def o get_or_put split: if_splits)
  have 2: "over1 \<longleftrightarrow> (\<exists>k. 10 < length (of_imo k (pre @ [r])))"
  proof (cases "length (of_imo ?n pre) < 10")
    case True
    then have "over1 = over" using c len by (auto simp: cap_imo_def Let_def max_mmsis_per_imo_def split: if_splits)
    moreover have "10 < length (of_imo k (pre @ [r])) \<longleftrightarrow> 10 < length (of_imo k pre)" for k
      using True by (cases "k = ?n") (auto simp: o)
    ultimately show ?thesis using Cons.prems(2) by simp
  next
    case False
    then have "over1" using c len by (auto simp: cap_imo_def Let_def max_mmsis_per_imo_def split: if_splits)
    moreover have "10 < length (of_imo ?n (pre @ [r]))" using False by (simp add: o)
    ultimately show ?thesis by blast
  qed
  have "fold cap_imo rs (out1, over1) = (out', over')" using Cons.prems(3) c by simp
  from Cons.IH [OF 1 2 this] show ?case by simp
qed

lemma resolve_cands:
  assumes "resolve_imos s imos = Inr (out, over)" and "imos \<noteq> []"
  shows "\<exists>rs. candidates s imos = Inr rs \<and>
    (\<forall>n. get_or [] out n = take 10 (of_imo n (by_seen rs))) \<and>
    (over \<longleftrightarrow> (\<exists>n. 10 < length (of_imo n (by_seen rs)))) \<and>
    mset (by_seen rs) = mset rs \<and> sorted (map (\<lambda>(m, v). (- v_seen v, m)) (by_seen rs))"
proof -
  obtain rs where rs: "candidates s imos = Inr rs" and f: "fold cap_imo (by_seen rs) ([], False) = (out, over)"
    using assms by (auto simp: resolve_imos_def split: sum.splits)
  have "get_or [] [] n = take 10 (of_imo n [])" for n by (simp add: get_or_def of_imo_def)
  from cap_imos [OF this _ f] have "\<forall>n. get_or [] out n = take 10 (of_imo n (by_seen rs))"
    "over \<longleftrightarrow> (\<exists>n. 10 < length (of_imo n (by_seen rs)))" by (simp_all add: of_imo_def)
  then show ?thesis using rs by (auto simp: by_seen_def)
qed


text \<open>
  An IMO resolves to exactly the vessels that report it: of the candidates of the cache and the
  record, the ten heard last, the latest first and the lower MMSI on a tie; and the answer is marked
  cut exactly when some number has more than ten.
\<close>

theorem resolve_imos_exact:
  assumes "resolve_imos s imos = Inr (out, over)" and "imos \<noteq> []"
  shows "\<exists>rs. candidates s imos = Inr rs \<and>
    (\<forall>n. get_or [] out n = take 10 (of_imo n (by_seen rs))) \<and>
    (over \<longleftrightarrow> (\<exists>n. 10 < length (of_imo n (by_seen rs)))) \<and>
    mset (by_seen rs) = mset rs \<and> sorted (map (\<lambda>(m, v). (- v_seen v, m)) (by_seen rs))"
  by (rule resolve_cands [OF assms])

text \<open>A cache of two vessels of one number, and a record with a third.\<close>

definition imo_vessel :: "imo \<Rightarrow> time \<Rightarrow> vessel" where
  "imo_vessel n t = new_vessel\<lparr>v_imo := n, v_seen := t\<rparr>"

definition sample_imos :: imo_source where
  "sample_imos = \<lparr>is_dirty = [2], is_flushing = [],
     is_cache = \<lparr>c_vessels = [(2, imo_vessel 9241061 5), (3, imo_vessel 9241061 9)], c_cells = []\<rparr>,
     is_filed = Some (\<lambda>_. Inr [(2, imo_vessel 9241061 4), (3, imo_vessel 9241061 9)])\<rparr>"

lemma sample_resolved:
  "resolve_imos sample_imos [9241061] =
     Inr ([(9241061, [(3, imo_vessel 9241061 9), (2, imo_vessel 9241061 5)])], False)"
proof -
  have c: "candidates sample_imos [9241061] = Inr [(2, imo_vessel 9241061 5), (3, imo_vessel 9241061 9)]"
    by (simp add: candidates_def sample_imos_def fresh_rows_def imo_vessel_def state_of_def new_vessel_def)
  have b: "by_seen [(2, imo_vessel 9241061 5), (3, imo_vessel 9241061 9)] =
      [(3, imo_vessel 9241061 9), (2, imo_vessel 9241061 5)]"
    by (simp add: by_seen_def imo_vessel_def new_vessel_def)
  show ?thesis by (simp add: resolve_imos_def c b cap_imo_def get_or_def max_mmsis_per_imo_def)
     (simp add: imo_vessel_def get_or_def)
qed

lemma resolve_imos_exact_witness:
  "\<exists>rs. candidates sample_imos [9241061] = Inr rs \<and>
     get_or [] [(9241061, [(3, imo_vessel 9241061 9), (2, imo_vessel 9241061 5)])] (9241061 :: imo) =
       take 10 (of_imo 9241061 (by_seen rs))"
  using resolve_imos_exact [OF sample_resolved] by auto

lemma vessel_path_roundtrip_witness:
  "parse_vessel_path (dec 235000001) = Inr (235000001, 0) \<and>
   parse_vessel_path (''IMO'' @ dec 12) = Inr (0, 12) \<and> parse_vessel_path (dec 9241061) = Inr (0, 9241061)"
  using vessel_path_roundtrip [of 235000001 12] vessel_path_roundtrip [of 235000001 9241061]
  by simp

section \<open>The vessel a request names\<close>

lemma sole_vessel_in:
  assumes "sole_vessel rs now = Some r"
  shows "r \<in> set rs"
proof (cases "length rs = 1")
  case True
  then show ?thesis using assms by (cases rs) (auto simp: sole_vessel_def)
next
  case False
  let ?act = "filter (\<lambda>r. time_sub now (v_seen (snd r)) \<le> imo_active_window) rs"
  have "length ?act = 1" "r = ?act ! 0"
    using assms False by (auto simp: sole_vessel_def Let_def split: if_splits)
  then have "r \<in> set ?act" by (cases ?act) auto
  then show ?thesis by simp
qed

text \<open>Another vessel that reports the number has not been heard for thirty days.\<close>

lemma sole_vessel_alone:
  assumes "sole_vessel rs now = Some r" and "distinct (map fst rs)" and "r' \<in> set rs" and "r' \<noteq> r"
  shows "imo_active_window < time_sub now (v_seen (snd r'))"
proof (rule ccontr)
  assume n: "\<not> imo_active_window < time_sub now (v_seen (snd r'))"
  let ?act = "filter (\<lambda>r. time_sub now (v_seen (snd r)) \<le> imo_active_window) rs"
  have "length rs \<noteq> 1"
    using assms by (auto simp: sole_vessel_def length_Suc_conv)
  then have "length ?act = 1" "?act ! 0 = r"
    using assms(1) by (auto simp: sole_vessel_def Let_def split: if_splits)
  then have "?act = [r]" by (cases ?act) auto
  moreover have "r' \<in> set ?act" using assms(3) n by simp
  ultimately show False using assms(4) by simp
qed

lemma vessel_path_reports:
  assumes "vessel_path s cl seg sfx query now = PathVessel m loc" and "parse_vessel_path seg = Inr (m0, imo)" and "imo \<noteq> 0"
  shows "imo_gate cl \<and> loc = vessel_href sfx query m \<and>
    (\<exists>rs v. candidates s [imo] = Inr rs \<and> (m, v) \<in> set rs \<and> v_imo v = imo)"
proof -
  obtain out over where r: "resolve_imos s [imo] = Inr (out, over)" and g: "imo_gate cl"
    and sole: "\<exists>x. sole_vessel (get_or [] out imo) now = Some x \<and> m = fst x \<and> loc = vessel_href sfx query m"
    using assms by (auto simp: vessel_path_def Let_def split: if_splits sum.splits prod.splits option.splits)
  obtain x where x: "sole_vessel (get_or [] out imo) now = Some x" "m = fst x" "loc = vessel_href sfx query m"
    using sole by blast
  obtain rs where rs: "candidates s [imo] = Inr rs" "get_or [] out imo = take 10 (of_imo imo (by_seen rs))"
    "mset (by_seen rs) = mset rs"
    using resolve_cands [OF r] by auto
  have "x \<in> set (of_imo imo (by_seen rs))" using sole_vessel_in [OF x(1)] rs(2) in_set_takeD by metis
  then have "x \<in> set rs \<and> v_imo (snd x) = imo" using rs(3) by (auto simp: of_imo_def dest: mset_eq_setD)
  then show ?thesis using g x rs(1) by (metis prod.collapse)
qed

end
