(* ===== verification/Filters.thy ===== *)
theory Filters
  imports Imo
begin

text \<open>
  The filters a vessel query carries, from \<open>server/vessels.go\<close>: \<open>vesselFilter\<close>, \<open>ageRules\<close>, \<open>around\<close>
  and the ages, read from the query's parameters and applied to a vessel.

  \<open>get\<close> is \<open>url.Values.Get\<close>, \<open>float_of\<close> the finite number \<open>strconv.ParseFloat\<close> reads (an infinity
  or NaN is refused wherever one is read here) and \<open>duration_of\<close> is \<open>time.ParseDuration\<close>.
\<close>

declare map_of_eq_Some_iff [simp del]

record vessel_filter =
  f_kinds :: "string list option"
  f_class :: string
  f_types :: "(8 word \<times> 8 word) list"
  f_min_sog :: real
  f_has_min_sog :: bool
  f_moving_age :: duration

definition vessel_kinds :: "string list" where
  "vessel_kinds = [''vessel'', ''aton'', ''base'', ''sar'', ''gear'']"

datatype filter_error = BadKind | BadClass | BadType | BadSog | BadMovingAge | BadMaxAge | BadAround

section \<open>Ages\<close>

definition age_all :: duration where "age_all = 2 ^ 63 - 1"

text \<open>\<open>parseMaxAge\<close>: the age and whether the parameter was there, \<open>None\<close> for its refusal.\<close>

definition parse_max_age :: "(string \<Rightarrow> duration option) \<Rightarrow> string \<Rightarrow> (duration \<times> bool) option" where
  "parse_max_age duration_of s =
     (if s = [] then Some (0, False)
      else if s = ''all'' then Some (age_all, True)
      else case (case parse_uint32 s of Some n \<Rightarrow> if n > 0 then Some (int n * second) else None | None \<Rightarrow> None) of
        Some d \<Rightarrow> Some (d, True)
      | None \<Rightarrow>
          (case duration_of s of
             Some d \<Rightarrow> if d > 0 then Some (d, True) else None
           | None \<Rightarrow> None))"

definition since :: "time \<Rightarrow> duration \<Rightarrow> time" where
  "since now age = (if age = 0 then zero_time else now - age)"

definition age_cutoff :: "time \<Rightarrow> duration \<Rightarrow> time" where
  "age_cutoff now age = (if age = age_all then zero_time else now - age)"

section \<open>Reading a filter\<close>

definition parse_uint8 :: "string \<Rightarrow> 8 word option" where
  "parse_uint8 s = (if s \<noteq> [] \<and> list_all is_digit s \<and> undec 0 s < 256 then Some (of_nat (undec 0 s)) else None)"

definition parse_type :: "string \<Rightarrow> (8 word \<times> 8 word) option" where
  "parse_type r =
     (case cut_at CHR ''-'' r of (lo, hi0, found) \<Rightarrow>
        let hi = (if found then hi0 else lo) in
        case (parse_uint8 lo, parse_uint8 hi) of
          (Some a, Some b) \<Rightarrow> if a > b then None else Some (a, b)
        | _ \<Rightarrow> None)"

definition parse_types :: "string \<Rightarrow> (8 word \<times> 8 word) list option" where
  "parse_types q =
     (if q = [] then Some []
      else let ts = map parse_type (split_on CHR '','' q) in
        if None \<in> set ts then None else Some (map the ts))"

definition parse_vessel_filter ::
  "(string \<Rightarrow> real option) \<Rightarrow> (string \<Rightarrow> duration option) \<Rightarrow> (string \<Rightarrow> string) \<Rightarrow> duration \<Rightarrow>
   filter_error + vessel_filter" where
  "parse_vessel_filter float_of duration_of get moving_age =
     (let ks = split_on CHR '','' (get ''kind'');
          cls = get ''class''
      in if get ''kind'' \<noteq> [] \<and> \<not> list_all (\<lambda>k. k \<in> set vessel_kinds) ks then Inl BadKind
         else if cls \<noteq> [] \<and> cls \<noteq> ''A'' \<and> cls \<noteq> ''B'' then Inl BadClass
         else case parse_types (get ''type'') of
           None \<Rightarrow> Inl BadType
         | Some ts \<Rightarrow>
             (case (if get ''min_sog'' = [] then Some (0, False)
                    else case float_of (get ''min_sog'') of
                      Some v \<Rightarrow> if v < 0 then None else Some (v, True) | None \<Rightarrow> None) of
                None \<Rightarrow> Inl BadSog
              | Some (sog, has_sog) \<Rightarrow>
                  (case (if get ''max_age_moving'' = [] then Some moving_age
                         else case parse_max_age duration_of (get ''max_age_moving'') of
                           Some (age, _) \<Rightarrow> Some (if age = age_all then 0 else age) | None \<Rightarrow> None) of
                     None \<Rightarrow> Inl BadMovingAge
                   | Some age \<Rightarrow>
                       Inr \<lparr>f_kinds = (if get ''kind'' = [] then None else Some ks), f_class = cls, f_types = ts,
                            f_min_sog = sog, f_has_min_sog = has_sog, f_moving_age = age\<rparr>)))"

section \<open>Applying it\<close>

definition stationary :: "vessel \<Rightarrow> bool" where
  "stationary v \<longleftrightarrow> v_kind v = ''aton'' \<or> v_kind v = ''base'' \<or> v_sog v < 1 \<or>
     v_nav v = 1 \<or> v_nav v = 5 \<or> v_nav v = 6"

definition filter_match :: "vessel_filter \<Rightarrow> vessel \<Rightarrow> time \<Rightarrow> bool" where
  "filter_match f v now \<longleftrightarrow>
     \<not> ((case f_kinds f of None \<Rightarrow> False | Some ks \<Rightarrow> v_kind v \<notin> set ks) \<or>
        f_class f \<noteq> [] \<and> v_class v \<noteq> f_class f \<or>
        f_has_min_sog f \<and> \<not> (v_sog v < 1023 / 10 \<and> v_sog v \<ge> f_min_sog f) \<or>
        f_moving_age f > 0 \<and> time_sub now (v_seen v) > f_moving_age f \<and> \<not> stationary v) \<and>
     (f_types f = [] \<or> list_ex (\<lambda>(a, b). v_ship_type v \<ge> a \<and> v_ship_type v \<le> b) (f_types f))"

section \<open>Age rules\<close>

definition area_window :: duration where "area_window = 7 * 24 * hour"

record age_rules =
  ar_area_age :: duration
  ar_named_age :: duration
  ar_area :: vessel_filter
  ar_named :: vessel_filter

definition parse_age_rules ::
  "(string \<Rightarrow> real option) \<Rightarrow> (string \<Rightarrow> duration option) \<Rightarrow> (string \<Rightarrow> string) \<Rightarrow> filter_error + age_rules" where
  "parse_age_rules float_of duration_of get =
     (case (parse_vessel_filter float_of duration_of get vessel_ttl,
            parse_vessel_filter float_of duration_of get 0) of
        (Inr area, Inr named) \<Rightarrow>
          (case parse_max_age duration_of (get ''max_age'') of
             None \<Rightarrow> Inl BadMaxAge
           | Some (age0, given) \<Rightarrow>
               let age = (if age0 = age_all then 0 else age0) in
               Inr \<lparr>ar_area_age = (if given then age else area_window), ar_named_age = (if given then age else 0),
                    ar_area = area, ar_named = named\<rparr>)
      | (Inl e, _) \<Rightarrow> Inl e
      | (_, Inl e) \<Rightarrow> Inl e)"

definition age_rule :: "age_rules \<Rightarrow> bool \<Rightarrow> duration \<times> vessel_filter" where
  "age_rule r named = (if named then (ar_named_age r, ar_named r) else (ar_area_age r, ar_area r))"

definition age_match :: "age_rules \<Rightarrow> bool \<Rightarrow> vessel \<Rightarrow> time \<Rightarrow> bool" where
  "age_match r named v now \<longleftrightarrow>
     (case age_rule r named of (age, f) \<Rightarrow>
        (age = 0 \<or> time_sub now (v_seen v) \<le> age) \<and> filter_match f v now)"

definition parse_around :: "(string \<Rightarrow> real option) \<Rightarrow> string \<Rightarrow> filter_error + (real \<times> real) option" where
  "parse_around float_of s =
     (if s = [] then Inr None
      else case map float_of (split_on CHR '','' s) of
        [Some lat, Some lon] \<Rightarrow>
          if - 90 \<le> lat \<and> lat \<le> 90 \<and> - 180 \<le> lon \<and> lon \<le> 180 then Inr (Some (lat, lon)) else Inl BadAround
      | _ \<Rightarrow> Inl BadAround)"

section \<open>What the readers promise\<close>

lemma parse_max_age_positive: "parse_max_age duration_of s = Some (d, True) \<Longrightarrow> 0 < d"
  by (auto simp: parse_max_age_def age_all_def split: if_splits option.splits)

lemma parse_max_age_absent: "parse_max_age duration_of s = Some (d, False) \<longleftrightarrow> s = [] \<and> d = 0"
  by (auto simp: parse_max_age_def split: if_splits option.splits)

lemma the_all_some:
  "None \<notin> set (map f xs) \<Longrightarrow> y \<in> set (map the (map f xs)) \<Longrightarrow> \<exists>x \<in> set xs. f x = Some y"
  by (induction xs) auto

lemma parse_types_ordered:
  assumes "parse_types q = Some ts" and "(a, b) \<in> set ts"
  shows "a \<le> b"
proof -
  obtain s where "parse_type s = Some (a, b)"
    using assms the_all_some [of parse_type "split_on CHR '','' q" "(a, b)"]
    by (auto simp: parse_types_def Let_def simp del: set_map map_map split: if_splits)
  then show ?thesis
    by (auto simp: parse_type_def Let_def not_less split: prod.splits option.splits if_splits)
qed

lemma parse_around_on_globe:
  "parse_around float_of s = Inr (Some (lat, lon)) \<Longrightarrow> - 90 \<le> lat \<and> lat \<le> 90 \<and> - 180 \<le> lon \<and> lon \<le> 180"
  by (auto simp: parse_around_def split: if_splits list.splits option.splits)

end
