(* ===== verification/Heap.thy ===== *)
theory Heap
  imports Prelude "HOL-Library.Multiset"
begin

text \<open>
  Array heaps: Go's \<open>container/heap\<close>, which the record mirror bounds its answers with
  (\<open>server/mirror.go\<close>), and the sifting of \<open>sedHeap\<close> (\<open>server/simplify.go\<close>), which is the same with
  the child picked in another order. An array is a list, \<open>lt\<close> compares its elements, the parent of
  index \<open>j\<close> is \<open>(j - 1) div 2\<close>.
\<close>

definition swap_at :: "'a list \<Rightarrow> nat \<Rightarrow> nat \<Rightarrow> 'a list" where
  "swap_at h i j = h[i := h ! j, j := h ! i]"

lemma length_swap_at [simp]: "length (swap_at h i j) = length h"
  by (simp add: swap_at_def)

lemma mset_swap_at [simp]: "i < length h \<Longrightarrow> j < length h \<Longrightarrow> mset (swap_at h i j) = mset h"
  by (simp add: swap_at_def mset_swap)

lemma nth_swap_at:
  "i < length h \<Longrightarrow> j < length h \<Longrightarrow> k < length h \<Longrightarrow>
   swap_at h i j ! k = (if k = j then h ! i else if k = i then h ! j else h ! k)"
  by (simp add: swap_at_def nth_list_update)

section \<open>The code\<close>

text \<open>The child of \<open>i\<close> that \<open>down\<close> swaps it with, if any: \<open>container/heap\<close>'s choice, then \<open>sedHeap\<close>'s.\<close>

definition go_pick :: "('a \<Rightarrow> 'a \<Rightarrow> bool) \<Rightarrow> 'a list \<Rightarrow> nat \<Rightarrow> nat option" where
  "go_pick lt h i =
     (let j1 = 2 * i + 1 in
      if j1 \<ge> length h then None
      else let j = (if j1 + 1 < length h \<and> lt (h ! (j1 + 1)) (h ! j1) then j1 + 1 else j1)
           in if \<not> lt (h ! j) (h ! i) then None else Some j)"

definition sed_pick :: "('a \<Rightarrow> 'a \<Rightarrow> bool) \<Rightarrow> 'a list \<Rightarrow> nat \<Rightarrow> nat option" where
  "sed_pick lt h k =
     (let l = 2 * k + 1; r = 2 * k + 2;
          least1 = (if l < length h \<and> lt (h ! l) (h ! k) then l else k);
          least = (if r < length h \<and> lt (h ! r) (h ! least1) then r else least1)
      in if least = k then None else Some least)"

lemma go_pick_child: "go_pick lt h i = Some j \<Longrightarrow> i < j \<and> j < length h"
  by (auto simp: go_pick_def Let_def split: if_splits)

lemma sed_pick_child: "sed_pick lt h i = Some j \<Longrightarrow> i < j \<and> j < length h"
  by (auto simp: sed_pick_def Let_def split: if_splits)

function go_down :: "('a \<Rightarrow> 'a \<Rightarrow> bool) \<Rightarrow> 'a list \<Rightarrow> nat \<Rightarrow> 'a list" where
  "go_down lt h i = (case go_pick lt h i of None \<Rightarrow> h | Some j \<Rightarrow> go_down lt (swap_at h i j) j)"
  by pat_completeness auto
termination
  by (relation "measure (\<lambda>(_, h, i). length h - i)") (auto dest: go_pick_child)

declare go_down.simps [simp del]

fun go_up :: "('a \<Rightarrow> 'a \<Rightarrow> bool) \<Rightarrow> 'a list \<Rightarrow> nat \<Rightarrow> 'a list" where
  "go_up lt h j =
     (if j = 0 \<or> \<not> lt (h ! j) (h ! ((j - 1) div 2)) then h
      else go_up lt (swap_at h j ((j - 1) div 2)) ((j - 1) div 2))"

declare go_up.simps [simp del]

definition heap_push :: "('a \<Rightarrow> 'a \<Rightarrow> bool) \<Rightarrow> 'a \<Rightarrow> 'a list \<Rightarrow> 'a list" where
  "heap_push lt x h = go_up lt (h @ [x]) (length h)"

text \<open>\<open>Fix\<close>: down, or up when down did not move the entry.\<close>

definition heap_fix :: "('a \<Rightarrow> 'a \<Rightarrow> bool) \<Rightarrow> 'a list \<Rightarrow> nat \<Rightarrow> 'a list" where
  "heap_fix lt h i = (if go_pick lt h i = None then go_up lt h i else go_down lt h i)"

lemma length_go_down [simp]: "length (go_down lt h i) = length h"
  by (induction lt h i rule: go_down.induct) (subst go_down.simps, auto split: option.splits)

lemma length_go_up [simp]: "length (go_up lt h j) = length h"
  by (induction lt h j rule: go_up.induct) (subst go_up.simps, auto)

lemma mset_go_down: "mset (go_down lt h i) = mset h"
proof (induction lt h i rule: go_down.induct)
  case (1 lt h i)
  then show ?case
    by (subst go_down.simps) (auto split: option.splits dest!: go_pick_child)
qed

lemma mset_go_up: "j < length h \<Longrightarrow> mset (go_up lt h j) = mset h"
proof (induction lt h j rule: go_up.induct)
  case (1 lt h j)
  then show ?case by (subst go_up.simps) auto
qed

lemma mset_heap_push [simp]: "mset (heap_push lt x h) = add_mset x (mset h)"
  by (simp add: heap_push_def mset_go_up)

lemma mset_heap_fix: "i < length h \<Longrightarrow> mset (heap_fix lt h i) = mset h"
  by (simp add: heap_fix_def mset_go_up mset_go_down)

section \<open>The order a heap needs\<close>

locale heap_order =
  fixes lt :: "'a \<Rightarrow> 'a \<Rightarrow> bool"
  assumes asym: "lt a b \<Longrightarrow> \<not> lt b a"
    and not_lt_trans: "\<not> lt b a \<Longrightarrow> \<not> lt c b \<Longrightarrow> \<not> lt c a"
begin

definition le :: "'a \<Rightarrow> 'a \<Rightarrow> bool" where "le a b \<longleftrightarrow> \<not> lt b a"

lemma le_refl [simp]: "le a a" using asym by (auto simp: le_def)
lemma le_trans: "le a b \<Longrightarrow> le b c \<Longrightarrow> le a c" using not_lt_trans by (auto simp: le_def)
lemma le_linear: "le a b \<or> le b a" using asym by (auto simp: le_def)
lemma lt_le: "lt a b \<Longrightarrow> le a b" using asym by (auto simp: le_def)

text \<open>The heap order on the entries whose parents are at \<open>lo\<close> or after, but for the entry \<open>hole\<close>.\<close>

definition ordered_from :: "nat \<Rightarrow> 'a list \<Rightarrow> bool" where
  "ordered_from lo h \<longleftrightarrow>
     (\<forall>j < length h. 0 < j \<longrightarrow> lo \<le> (j - 1) div 2 \<longrightarrow> le (h ! ((j - 1) div 2)) (h ! j))"

definition ordered_but :: "nat \<Rightarrow> nat \<Rightarrow> 'a list \<Rightarrow> bool" where
  "ordered_but lo hole h \<longleftrightarrow>
     (\<forall>j < length h. 0 < j \<longrightarrow> lo \<le> (j - 1) div 2 \<longrightarrow> j \<noteq> hole \<longrightarrow> (j - 1) div 2 \<noteq> hole \<longrightarrow>
        le (h ! ((j - 1) div 2)) (h ! j)) \<and>
     (\<forall>j < length h. 0 < hole \<longrightarrow> lo \<le> (hole - 1) div 2 \<longrightarrow> 0 < j \<longrightarrow> (j - 1) div 2 = hole \<longrightarrow>
        le (h ! ((hole - 1) div 2)) (h ! j))"

definition under_parent :: "nat \<Rightarrow> nat \<Rightarrow> 'a list \<Rightarrow> bool" where
  "under_parent lo k h \<longleftrightarrow> (0 < k \<longrightarrow> lo \<le> (k - 1) div 2 \<longrightarrow> le (h ! ((k - 1) div 2)) (h ! k))"

definition over_children :: "nat \<Rightarrow> 'a list \<Rightarrow> bool" where
  "over_children k h \<longleftrightarrow> (\<forall>j < length h. 0 < j \<longrightarrow> (j - 1) div 2 = k \<longrightarrow> le (h ! k) (h ! j))"

lemma ordered_from_iff:
  assumes "ordered_but lo k h" and "under_parent lo k h" and "over_children k h"
  shows "ordered_from lo h"
  unfolding ordered_from_def
proof (intro allI impI)
  fix j
  assume j: "j < length h" "0 < j" "lo \<le> (j - 1) div 2"
  consider "j = k" | "(j - 1) div 2 = k" | "j \<noteq> k" "(j - 1) div 2 \<noteq> k" by blast
  then show "le (h ! ((j - 1) div 2)) (h ! j)"
  proof cases
    case 1
    then show ?thesis using assms(2) j by (simp add: under_parent_def)
  next
    case 2
    then show ?thesis using assms(3) j by (simp add: over_children_def)
  next
    case 3
    then show ?thesis using assms(1) j by (simp add: ordered_but_def)
  qed
qed

lemma ordered_butD:
  "ordered_but lo k h \<Longrightarrow> j < length h \<Longrightarrow> 0 < j \<Longrightarrow> lo \<le> (j - 1) div 2 \<Longrightarrow> j \<noteq> k \<Longrightarrow> (j - 1) div 2 \<noteq> k \<Longrightarrow>
   le (h ! ((j - 1) div 2)) (h ! j)"
  by (simp add: ordered_but_def)

lemma ordered_but_bridge:
  "ordered_but lo k h \<Longrightarrow> j < length h \<Longrightarrow> 0 < k \<Longrightarrow> lo \<le> (k - 1) div 2 \<Longrightarrow> 0 < j \<Longrightarrow> (j - 1) div 2 = k \<Longrightarrow>
   le (h ! ((k - 1) div 2)) (h ! j)"
  unfolding ordered_but_def by blast

lemma child_cases: "0 < j \<and> (j - 1) div 2 = k \<longleftrightarrow> j = 2 * k + 1 \<or> j = 2 * k + 2" for j k :: nat
  by auto

definition best_child :: "'a list \<Rightarrow> nat \<Rightarrow> nat" where
  "best_child h k =
     (if 2 * k + 2 < length h \<and> lt (h ! (2 * k + 2)) (h ! (2 * k + 1)) then 2 * k + 2 else 2 * k + 1)"

lemma go_pick_best:
  "go_pick lt h k =
     (if 2 * k + 1 < length h \<and> lt (h ! best_child h k) (h ! k) then Some (best_child h k) else None)"
  by (simp add: go_pick_def best_child_def Let_def)

lemma best_child_le:
  assumes "i < length h" and "0 < i" and "(i - 1) div 2 = k"
  shows "le (h ! best_child h k) (h ! i)" and "2 * k + 1 < length h"
proof -
  have i: "i = 2 * k + 1 \<or> i = 2 * k + 2" using assms(2,3) child_cases by blast
  then show "2 * k + 1 < length h" using assms(1) by auto
  show "le (h ! best_child h k) (h ! i)"
  proof (cases "2 * k + 2 < length h \<and> lt (h ! (2 * k + 2)) (h ! (2 * k + 1))")
    case True
    then show ?thesis using i lt_le by (auto simp: best_child_def)
  next
    case False
    then have "best_child h k = 2 * k + 1" by (simp add: best_child_def)
    moreover have "i = 2 * k + 2 \<Longrightarrow> le (h ! (2 * k + 1)) (h ! i)" using False assms(1) by (auto simp: le_def)
    ultimately show ?thesis using i by auto
  qed
qed

lemma go_pick_None:
  assumes "go_pick lt h k = None"
  shows "over_children k h"
  unfolding over_children_def
proof (intro allI impI)
  fix j
  assume j: "j < length h" "0 < j" "(j - 1) div 2 = k"
  have "le (h ! k) (h ! best_child h k)"
    using assms best_child_le(2) [OF j] by (simp add: go_pick_best le_def split: if_splits)
  then show "le (h ! k) (h ! j)" using best_child_le(1) [OF j] by (rule le_trans)
qed

lemma go_pick_Some:
  assumes "go_pick lt h k = Some j"
  shows "j = best_child h k" "0 < j" "(j - 1) div 2 = k" "lt (h ! j) (h ! k)" "k < j" "j < length h"
  using assms go_pick_child [OF assms] by (auto simp: go_pick_best best_child_def split: if_splits)

text \<open>Swapping the entry down moves the hole to the child, and the child's value fits under the parent.\<close>

lemma swap_down:
  assumes ok: "ordered_but lo k h" and lo: "lo \<le> k" and pick: "go_pick lt h k = Some j"
  shows "ordered_but lo j (swap_at h k j)" and "under_parent lo j (swap_at h k j)"
proof -
  note j = go_pick_Some [OF pick]
  have nth: "swap_at h k j ! i = (if i = j then h ! k else if i = k then h ! j else h ! i)" if "i < length h" for i
    using nth_swap_at [of k h j i] that j by simp
  show "under_parent lo j (swap_at h k j)"
    using j(2,3,5,6) lt_le [OF j(4)] by (simp add: under_parent_def nth)
  show "ordered_but lo j (swap_at h k j)"
    unfolding ordered_but_def length_swap_at
  proof (intro conjI allI impI)
    fix i
    assume i: "i < length h" "0 < i" "lo \<le> (i - 1) div 2" "i \<noteq> j" "(i - 1) div 2 \<noteq> j"
    have p: "(i - 1) div 2 < i" using i(2) by simp
    consider "(i - 1) div 2 = k" | "i = k" | "(i - 1) div 2 \<noteq> k" "i \<noteq> k" by blast
    then show "le (swap_at h k j ! ((i - 1) div 2)) (swap_at h k j ! i)"
    proof cases
      case 1
      then show ?thesis using best_child_le(1) [OF i(1,2) 1] i p by (simp add: nth j(1) [symmetric])
    next
      case 2
      then show ?thesis using ordered_but_bridge [OF ok j(6) _ _ j(2,3)] i p by (simp add: nth)
    next
      case 3
      then show ?thesis using ordered_butD [OF ok i(1-3)] i p by (simp add: nth)
    qed
  next
    fix i
    assume i: "i < length h" "0 < j" "lo \<le> (j - 1) div 2" "0 < i" "(i - 1) div 2 = j"
    have "j < i" using i(4,5) by auto
    then show "le (swap_at h k j ! ((j - 1) div 2)) (swap_at h k j ! i)"
      using ordered_butD [OF ok i(1,4)] i lo j(2,3,5,6) by (simp add: nth)
  qed
qed

lemma go_down_orders:
  "ordered_but lo k h \<Longrightarrow> under_parent lo k h \<Longrightarrow> lo \<le> k \<Longrightarrow> ordered_from lo (go_down lt h k)"
proof (induction "length h - k" arbitrary: h k rule: less_induct)
  case less
  show ?case
  proof (cases "go_pick lt h k")
    case None
    then show ?thesis
      using ordered_from_iff [OF less.prems(1,2) go_pick_None [OF None]] by (subst go_down.simps) simp
  next
    case (Some j)
    note j = go_pick_Some [OF Some]
    have "ordered_from lo (go_down lt (swap_at h k j) j)"
      by (rule less.hyps) (use swap_down [OF less.prems(1,3) Some] j less.prems(3) in auto)
    then show ?thesis using Some by (subst go_down.simps) simp
  qed
qed

definition heap :: "'a list \<Rightarrow> bool" where
  "heap h \<longleftrightarrow> ordered_from 0 h"

lemma swap_up:
  assumes ok: "ordered_but 0 k h" "over_children k h" and k: "k < length h" "0 < k"
    and lt: "lt (h ! k) (h ! ((k - 1) div 2))"
  shows "ordered_but 0 ((k - 1) div 2) (swap_at h k ((k - 1) div 2))"
    and "over_children ((k - 1) div 2) (swap_at h k ((k - 1) div 2))"
proof -
  define p where "p = (k - 1) div 2"
  have pk: "p < k" using k(2) by (simp add: p_def)
  have up: "le (h ! k) (h ! p)" using lt_le [OF lt] by (simp add: p_def)
  have nth: "swap_at h k p ! i = (if i = p then h ! k else if i = k then h ! p else h ! i)" if "i < length h" for i
    using nth_swap_at [of k h p i] that k pk by simp
  have sib: "le (h ! p) (h ! i)" if "i < length h" "0 < i" "(i - 1) div 2 = p" "i \<noteq> k" for i
    using ordered_butD [OF ok(1) that(1,2)] that pk by simp
  have "over_children p (swap_at h k p)"
    unfolding over_children_def length_swap_at
  proof (intro allI impI)
    fix i
    assume i: "i < length h" "0 < i" "(i - 1) div 2 = p"
    have "p < i" using i(2,3) by auto
    then show "le (swap_at h k p ! p) (swap_at h k p ! i)"
      using sib [OF i] up le_trans [OF up, of "h ! i"] i pk k by (simp add: nth)
  qed
  then show "over_children ((k - 1) div 2) (swap_at h k ((k - 1) div 2))" by (simp add: p_def)
  have "ordered_but 0 p (swap_at h k p)"
    unfolding ordered_but_def length_swap_at
  proof (intro conjI allI impI)
    fix i
    assume i: "i < length h" "0 < i" "0 \<le> (i - 1) div 2" "i \<noteq> p" "(i - 1) div 2 \<noteq> p"
    have q: "(i - 1) div 2 < i" using i(2) by simp
    have bridge: "(i - 1) div 2 = k \<Longrightarrow> le (h ! p) (h ! i)"
      using ordered_but_bridge [OF ok(1) i(1) k(2) _ i(2)] by (simp add: p_def)
    have "i \<noteq> k" using i(5) by (auto simp: p_def)
    then show "le (swap_at h k p ! ((i - 1) div 2)) (swap_at h k p ! i)"
      using ordered_butD [OF ok(1) i(1-3)] bridge i q
      by (cases "(i - 1) div 2 = k") (simp_all add: nth)
  next
    fix i
    assume i: "i < length h" "0 < p" "0 \<le> (p - 1) div 2" "0 < i" "(i - 1) div 2 = p"
    have g: "(p - 1) div 2 < p" "p < i" using i by auto
    have gp: "le (h ! ((p - 1) div 2)) (h ! p)" using ordered_butD [OF ok(1), of p] g i pk k by simp
    show "le (swap_at h k p ! ((p - 1) div 2)) (swap_at h k p ! i)"
      using gp sib [OF i(1,4,5)] le_trans [OF gp, of "h ! i"] g i pk k by (simp add: nth)
  qed
  then show "ordered_but 0 ((k - 1) div 2) (swap_at h k ((k - 1) div 2))" by (simp add: p_def)
qed

lemma go_up_orders: "ordered_but 0 k h \<Longrightarrow> over_children k h \<Longrightarrow> k < length h \<Longrightarrow> heap (go_up lt h k)"
proof (induction k arbitrary: h rule: less_induct)
  case (less k)
  show ?case
  proof (cases "k = 0 \<or> \<not> lt (h ! k) (h ! ((k - 1) div 2))")
    case True
    then have "under_parent 0 k h" by (auto simp: under_parent_def le_def)
    then show ?thesis using ordered_from_iff [OF less.prems(1)] less.prems(2) True
      by (subst go_up.simps) (simp add: heap_def)
  next
    case False
    have "heap (go_up lt (swap_at h k ((k - 1) div 2)) ((k - 1) div 2))"
      by (rule less.IH) (use swap_up [OF less.prems] False less.prems(3) in auto)
    then show ?thesis using False by (subst go_up.simps) simp
  qed
qed

lemma heap_push_heap:
  assumes "heap h"
  shows "heap (heap_push lt x h)"
proof -
  have "ordered_but 0 (length h) (h @ [x])"
    using assms by (auto simp: heap_def ordered_but_def ordered_from_def nth_append)
  moreover have "over_children (length h) (h @ [x])" by (auto simp: over_children_def)
  ultimately show ?thesis unfolding heap_push_def by (rule go_up_orders) simp
qed

lemma heap_fix_heap:
  assumes "ordered_but 0 k h" and "k < length h"
  shows "heap (heap_fix lt h k)"
proof (cases "go_pick lt h k")
  case None
  then show ?thesis using go_up_orders [OF assms(1) go_pick_None [OF None] assms(2)] by (simp add: heap_fix_def)
next
  case (Some j)
  note j = go_pick_Some [OF Some]
  have "heap (go_down lt (swap_at h k j) j)"
    unfolding heap_def by (rule go_down_orders) (use swap_down [OF assms(1) _ Some] in auto)
  then show ?thesis using Some by (simp add: heap_fix_def) (subst go_down.simps, simp)
qed

text \<open>Whatever an entry is replaced with, \<open>Fix\<close> restores the heap.\<close>

lemma ordered_but_update:
  assumes "heap h"
  shows "ordered_but 0 k (h[k := x])"
  unfolding ordered_but_def length_list_update
proof (intro conjI allI impI)
  fix j
  assume "j < length h" "0 < j" "j \<noteq> k" "(j - 1) div 2 \<noteq> k"
  then show "le (h[k := x] ! ((j - 1) div 2)) (h[k := x] ! j)"
    using assms by (simp add: heap_def ordered_from_def)
next
  fix j
  assume j: "j < length h" "0 < k" "0 < j" "(j - 1) div 2 = k"
  have "le (h ! ((k - 1) div 2)) (h ! k)" "le (h ! k) (h ! j)"
    using assms j by (auto simp: heap_def ordered_from_def)
  moreover have "(k - 1) div 2 < k" "k < j" using j by auto
  ultimately show "le (h[k := x] ! ((k - 1) div 2)) (h[k := x] ! j)" using le_trans by simp
qed

lemma heap_root:
  assumes "heap h" and "i < length h"
  shows "le (h ! 0) (h ! i)"
  using assms(2)
proof (induction i rule: less_induct)
  case (less i)
  show ?case
  proof (cases "i = 0")
    case False
    then have "le (h ! 0) (h ! ((i - 1) div 2))" using less by simp
    moreover have "le (h ! ((i - 1) div 2)) (h ! i)"
      using assms(1) less.prems False by (simp add: heap_def ordered_from_def)
    ultimately show ?thesis by (rule le_trans)
  qed simp
qed

text \<open>The two ways to pick a child agree, so \<open>sedHeap\<close>'s sifting is \<open>container/heap\<close>'s.\<close>

lemma sed_pick_go: "sed_pick lt h k = go_pick lt h k"
proof -
  have right: "lt (h ! (2 * k + 2)) (h ! k) \<Longrightarrow> \<not> lt (h ! (2 * k + 1)) (h ! k) \<Longrightarrow> lt (h ! (2 * k + 2)) (h ! (2 * k + 1))"
    using not_lt_trans by blast
  have both: "lt (h ! (2 * k + 2)) (h ! (2 * k + 1)) \<Longrightarrow> lt (h ! (2 * k + 1)) (h ! k) \<Longrightarrow> lt (h ! (2 * k + 2)) (h ! k)"
    using asym not_lt_trans by blast
  show ?thesis
    using right both by (auto simp: sed_pick_def go_pick_best best_child_def Let_def)
qed

text \<open>Sifting down every parent, last first, makes any array a heap.\<close>

lemma ordered_from_step: "ordered_from (Suc k) h \<Longrightarrow> ordered_from k (go_down lt h k)"
  by (rule go_down_orders) (auto simp: ordered_from_def ordered_but_def under_parent_def)

lemma heap_init:
  "ordered_from k h \<Longrightarrow> heap (fold (\<lambda>k h. go_down lt h k) (rev [0..<k]) h)"
  by (induction k arbitrary: h) (simp_all add: heap_def ordered_from_step)

lemma ordered_from_half: "ordered_from (length h div 2) h"
  by (auto simp: ordered_from_def)

text \<open>With the root replaced by the last entry, one sift down restores the heap.\<close>

lemma heap_pop:
  assumes "heap h" "h \<noteq> []"
  shows "heap (go_down lt (butlast (swap_at h 0 (length h - 1))) 0)"
proof -
  have "ordered_but 0 0 (butlast (swap_at h 0 (length h - 1)))"
    using assms by (auto simp: ordered_but_def heap_def ordered_from_def nth_butlast nth_swap_at)
  then show ?thesis
    unfolding heap_def by (rule go_down_orders) (simp_all add: under_parent_def)
qed

lemma swap_at_butlast:
  assumes "h \<noteq> []"
  shows "mset (butlast (swap_at h 0 (length h - 1))) + {#h ! 0#} = mset h"
proof -
  let ?g = "swap_at h 0 (length h - 1)"
  have g: "?g \<noteq> []" "last ?g = h ! 0"
    using assms by (auto simp: last_conv_nth nth_swap_at simp flip: length_greater_0_conv)
  have "mset ?g = mset (butlast ?g @ [last ?g])"
    using g(1) by simp
  then show ?thesis
    using g assms by simp
qed

end

end
