(* ===== verification/Queries.thy ===== *)
theory Queries
  imports Filters Heap
begin

text \<open>
  The vessel record's queries (\<open>server/store.go\<close>: \<open>recordQuery\<close>, its SQL condition and the text
  search) and the mirror that answers them from memory (\<open>server/mirror.go\<close>).

  A condition is the list of its terms, as \<open>where\<close> joins them with AND; \<open>holds\<close> is what SQLite reads
  in each for a row, with a comparison to NULL not true. The mirror's maps hold pointers to its
  entries; the model's cells and IMOs hold the MMSIs, read through the entries, as in the cache's
  index. Interning strings changes no value and is left out.
\<close>

declare map_of_eq_Some_iff [simp del]

record record_query =
  sel_mmsis :: "mmsi list option"
  sel_imos :: "imo list option"
  sel_boxes :: "bbox list"
  sel_prefix :: string
  sel_contains :: string
  sel_flag :: string
  sel_since :: time
  sel_before :: time
  sel_has_pos :: bool
  sel_by_name :: bool
  sel_filter :: "vessel_filter option"
  sel_now :: time
  sel_limit :: int

definition max_cell_rows :: int where "max_cell_rows = 60"
definition max_cells :: int where "max_cells = 1080"
definition max_boxes :: nat where "max_boxes = 256"
definition max_params :: nat where "max_params = 32766"

section \<open>Text search\<close>

fun join_words :: "string list \<Rightarrow> string" where
  "join_words [] = []"
| "join_words [w] = w"
| "join_words (w # ws) = w @ CHR '' '' # join_words ws"

definition search_char :: "char \<Rightarrow> bool" where
  "search_char c \<longleftrightarrow> (65 \<le> (of_char c :: nat) \<and> (of_char c :: nat) \<le> 90) \<or> is_digit c \<or> c = CHR '' ''"

text \<open>\<open>upper\<close> is \<open>strings.ToUpper\<close>; what survives the filter is ASCII, whose only space is the blank.\<close>

definition search_key :: "(string \<Rightarrow> string) \<Rightarrow> string \<Rightarrow> string" where
  "search_key upper s =
     join_words (filter (\<lambda>w. w \<noteq> []) (split_on CHR '' '' (filter search_char (upper s))))"

definition glob_prefix :: "string \<Rightarrow> string" where
  "glob_prefix p =
     concat (map (\<lambda>c. if c = CHR ''*'' \<or> c = CHR ''?'' \<or> c = CHR ''['' then [CHR ''['', c, CHR '']''] else [c]) p) @ ''*''"

definition mmsi_range :: "string \<Rightarrow> (nat \<times> nat) option" where
  "mmsi_range p =
     (if length p = 0 \<or> length p > 9 then None
      else case parse_uint32 p of
        None \<Rightarrow> None
      | Some n \<Rightarrow> (let scale = 10 ^ (9 - length p) in Some (n * scale, (n + 1) * scale - 1)))"

section \<open>The condition\<close>

datatype cell_term = CellIn "int list" | CellRows "(int \<times> int) list" | AnyCell

datatype cond =
    MmsiIn "mmsi list"
  | ImoIn "imo list"
  | InBoxes "(bbox \<times> cell_term) list"
  | MmsiBetween nat nat
  | Never
  | SearchGlob string
  | SearchHas string
  | FlagIs string
  | SeenFrom int
  | SeenBefore int
  | HasPos
  | KindIn "string list"
  | ClassIs string
  | TypeIn "(8 word \<times> 8 word) list"
  | SogFrom real
  | FreshOrStill int

definition filter_where :: "vessel_filter \<Rightarrow> time \<Rightarrow> cond list" where
  "filter_where f now =
     (case f_kinds f of None \<Rightarrow> [] | Some ks \<Rightarrow> [KindIn ks]) @
     (if f_class f \<noteq> [] then [ClassIs (f_class f)] else []) @
     (if f_types f \<noteq> [] then [TypeIn (f_types f)] else []) @
     (if f_has_min_sog f then [SogFrom (f_min_sog f)] else []) @
     (if f_moving_age f > 0 then [FreshOrStill (unix_ms (now - f_moving_age f))] else [])"

text \<open>The boxes' terms, within what is left of the budget of cells listed one by one.\<close>

fun box_terms :: "bool \<Rightarrow> int \<Rightarrow> bbox list \<Rightarrow> (bbox \<times> cell_term) list" where
  "box_terms bounded budget [] = []"
| "box_terms bounded budget (b # bs) =
     (case cell_row_col (b_south b) (b_west b) of (r0, c0) \<Rightarrow>
      case cell_row_col (b_north b) (b_east b) of (r1, c1) \<Rightarrow>
        let n = (r1 - r0 + 1) * (c1 - c0 + 1) in
        if bounded \<and> n \<le> budget
        then (b, CellIn (concat (map (\<lambda>r. map (\<lambda>c. r * 360 + c) [c0..c1]) [r0..r1]))) # box_terms bounded (budget - n) bs
        else if r1 - r0 < max_cell_rows
        then (b, CellRows (map (\<lambda>r. (r * 360 + c0, r * 360 + c1)) [r0..r1])) # box_terms bounded budget bs
        else (b, AnyCell) # box_terms bounded budget bs)"

definition sel_bounded :: "record_query \<Rightarrow> bool" where
  "sel_bounded q \<longleftrightarrow> sel_before q \<noteq> zero_time \<and> sel_prefix q = [] \<and> sel_contains q = []"

definition prefix_terms :: "(string \<Rightarrow> string) \<Rightarrow> string \<Rightarrow> cond list" where
  "prefix_terms upper p =
     (if p = [] then []
      else case mmsi_range p of
        Some (lo, hi) \<Rightarrow> [MmsiBetween lo hi]
      | None \<Rightarrow> (let key = search_key upper p in if key = [] then [Never] else [SearchGlob (glob_prefix key)]))"

definition contains_terms :: "(string \<Rightarrow> string) \<Rightarrow> string \<Rightarrow> cond list" where
  "contains_terms upper p =
     (if p = [] then [] else let key = search_key upper p in if key = [] then [Never] else [SearchHas key])"

text \<open>
  \<open>where\<close>: \<open>None\<close> for an empty list of MMSIs or IMOs, which matches nothing; otherwise the terms and
  whether the cell index narrows every box.
\<close>

definition where_of :: "(string \<Rightarrow> string) \<Rightarrow> record_query \<Rightarrow> (cond list \<times> bool) option" where
  "where_of upper q =
     (if sel_mmsis q = Some [] \<or> sel_imos q = Some [] then None
      else let bts = box_terms (sel_bounded q) max_cells (sel_boxes q) in
        Some
          ((case sel_mmsis q of None \<Rightarrow> [] | Some ms \<Rightarrow> [MmsiIn ms]) @
           (case sel_imos q of None \<Rightarrow> [] | Some ns \<Rightarrow> [ImoIn ns]) @
           (if sel_boxes q = [] then [] else [InBoxes bts]) @
           prefix_terms upper (sel_prefix q) @
           contains_terms upper (sel_contains q) @
           (if sel_flag q = [] then [] else [FlagIs (sel_flag q)]) @
           (if sel_since q = zero_time then [] else [SeenFrom (unix_ms (sel_since q))]) @
           (if sel_before q = zero_time then [] else [SeenBefore (unix_ms (sel_before q))]) @
           (if sel_has_pos q then [HasPos] else []) @
           (case sel_filter q of None \<Rightarrow> [] | Some f \<Rightarrow> filter_where f (sel_now q)),
           sel_boxes q \<noteq> [] \<and> sel_bounded q \<and> list_all (\<lambda>(b, t). t \<noteq> AnyCell) bts))"

text \<open>A row of the vessels table, as far as conditions read it, and the one \<open>upsert\<close> writes for a vessel.\<close>

record row =
  rw_mmsi :: mmsi
  rw_imo :: imo
  rw_lat :: real
  rw_lon :: real
  rw_cell :: "int option"
  rw_has_pos :: bool
  rw_seen :: int
  rw_kind :: string
  rw_class :: string
  rw_type :: "8 word"
  rw_sog :: real
  rw_nav :: "8 word"
  rw_search :: string
  rw_flag :: string

definition row_of :: "(string \<Rightarrow> string) \<Rightarrow> mmsi \<Rightarrow> vessel \<Rightarrow> row" where
  "row_of upper m v =
     \<lparr>rw_mmsi = m, rw_imo = v_imo v, rw_lat = v_lat v, rw_lon = v_lon v,
      rw_cell = (if v_has_pos v then Some (cell_of (v_lat v) (v_lon v)) else None),
      rw_has_pos = v_has_pos v, rw_seen = unix_ms (v_seen v), rw_kind = v_kind v, rw_class = v_class v,
      rw_type = v_ship_type v, rw_sog = v_sog v, rw_nav = v_nav v,
      rw_search = search_key upper (v_name v), rw_flag = served_flag m (v_kind v)\<rparr>"

fun cell_holds :: "cell_term \<Rightarrow> int option \<Rightarrow> bool" where
  "cell_holds AnyCell c \<longleftrightarrow> True"
| "cell_holds (CellIn ks) c \<longleftrightarrow> (case c of None \<Rightarrow> False | Some k \<Rightarrow> k \<in> set ks)"
| "cell_holds (CellRows rs) c \<longleftrightarrow> (case c of None \<Rightarrow> False | Some k \<Rightarrow> list_ex (\<lambda>(lo, hi). lo \<le> k \<and> k \<le> hi) rs)"

text \<open>\<open>glob\<close> is SQLite's GLOB, the pattern first.\<close>

fun holds :: "(string \<Rightarrow> string \<Rightarrow> bool) \<Rightarrow> cond \<Rightarrow> row \<Rightarrow> bool" where
  "holds glob (MmsiIn ms) r \<longleftrightarrow> rw_mmsi r \<in> set ms"
| "holds glob (ImoIn ns) r \<longleftrightarrow> rw_imo r \<in> set ns"
| "holds glob (InBoxes bts) r \<longleftrightarrow>
     list_ex (\<lambda>(b, t). b_south b \<le> rw_lat r \<and> rw_lat r \<le> b_north b \<and> b_west b \<le> rw_lon r \<and> rw_lon r \<le> b_east b \<and>
                      cell_holds t (rw_cell r)) bts"
| "holds glob (MmsiBetween lo hi) r \<longleftrightarrow> lo \<le> unat (rw_mmsi r) \<and> unat (rw_mmsi r) \<le> hi"
| "holds glob Never r \<longleftrightarrow> False"
| "holds glob (SearchGlob p) r \<longleftrightarrow> glob p (rw_search r)"
| "holds glob (SearchHas p) r \<longleftrightarrow> contains_str (rw_search r) p"
| "holds glob (FlagIs f) r \<longleftrightarrow> rw_flag r = f"
| "holds glob (SeenFrom t) r \<longleftrightarrow> rw_seen r \<ge> t"
| "holds glob (SeenBefore t) r \<longleftrightarrow> rw_seen r < t"
| "holds glob HasPos r \<longleftrightarrow> rw_has_pos r"
| "holds glob (KindIn ks) r \<longleftrightarrow> rw_kind r \<in> set ks"
| "holds glob (ClassIs c) r \<longleftrightarrow> rw_class r = c"
| "holds glob (TypeIn ts) r \<longleftrightarrow> list_ex (\<lambda>(a, b). a \<le> rw_type r \<and> rw_type r \<le> b) ts"
| "holds glob (SogFrom s) r \<longleftrightarrow> rw_sog r \<ge> s \<and> rw_sog r < 1023 / 10"
| "holds glob (FreshOrStill t) r \<longleftrightarrow>
     rw_seen r \<ge> t \<or> rw_kind r = ''aton'' \<or> rw_kind r = ''base'' \<or> rw_sog r < 1 \<or>
     rw_nav r = 1 \<or> rw_nav r = 5 \<or> rw_nav r = 6"

end
