(* ===== verification/Mirror.thy ===== *)
theory Mirror
  imports Queries
begin

text \<open>
  The record mirror, \<open>server/mirror.go\<close>: the vessels of the record in memory, indexed by cell and by
  IMO, and the queries answered from it. The cells and the IMOs keep the MMSIs of the code's pointers.
\<close>

declare map_of_eq_Some_iff [simp del]

record mirror_entry =
  me_v :: vessel
  me_first_seen :: time

record mirror =
  mi_entries :: "(mmsi \<times> mirror_entry) list"
  mi_cells :: "(int \<times> mmsi list) list"
  mi_imos :: "(imo \<times> mmsi list) list"

definition empty_mirror :: mirror where
  "empty_mirror = \<lparr>mi_entries = [], mi_cells = [], mi_imos = []\<rparr>"

section \<open>Filing\<close>

text \<open>Taking an MMSI out of an index, and putting it in; an index keeps no empty set.\<close>

definition unfile_key :: "mmsi \<Rightarrow> 'k \<Rightarrow> ('k \<times> mmsi list) list \<Rightarrow> ('k \<times> mmsi list) list" where
  "unfile_key m k ix =
     (case map_of ix k of
        None \<Rightarrow> ix
      | Some ms \<Rightarrow> (let ms' = removeAll m ms in if ms' = [] then del k ix else put k ms' ix))"

definition file_key :: "mmsi \<Rightarrow> 'k \<Rightarrow> ('k \<times> mmsi list) list \<Rightarrow> ('k \<times> mmsi list) list" where
  "file_key m k ix = put k (List.insert m (get_or [] ix k)) ix"

definition unfile :: "mmsi \<Rightarrow> mirror \<Rightarrow> mirror" where
  "unfile m mi =
     (case map_of (mi_entries mi) m of
        None \<Rightarrow> mi
      | Some old \<Rightarrow>
          mi\<lparr>mi_cells := (if v_has_pos (me_v old) then unfile_key m (v_cell (me_v old)) (mi_cells mi) else mi_cells mi),
             mi_imos := unfile_key m (v_imo (me_v old)) (mi_imos mi)\<rparr>)"

definition file_row :: "mmsi \<times> mirror_entry \<Rightarrow> mirror \<Rightarrow> mirror" where
  "file_row r mi0 =
     (let m = fst r; v0 = me_v (snd r);
          v = (if v_has_pos v0 then v0\<lparr>v_cell := cell_of (v_lat v0) (v_lon v0)\<rparr> else v0);
          mi = unfile m mi0
      in \<lparr>mi_entries = put m ((snd r)\<lparr>me_v := v\<rparr>) (mi_entries mi),
          mi_cells = (if v_has_pos v then file_key m (v_cell v) (mi_cells mi) else mi_cells mi),
          mi_imos = (if v_imo v \<noteq> 0 then file_key m (v_imo v) (mi_imos mi) else mi_imos mi)\<rparr>)"

definition file_rows :: "(mmsi \<times> mirror_entry) list \<Rightarrow> mirror \<Rightarrow> mirror" where
  "file_rows rs mi = fold file_row rs mi"

text \<open>
  \<open>refresh\<close>: the MMSIs just written and those whose last refresh failed, read in chunks of what one
  statement takes; \<open>ask\<close> is the record's answer to a chunk. The second component is \<open>pending\<close>.
\<close>

function refresh_chunks ::
  "(mmsi list \<Rightarrow> find_error + (mmsi \<times> mirror_entry) list) \<Rightarrow> mmsi list \<Rightarrow> mirror \<times> mmsi list \<Rightarrow> mirror \<times> mmsi list" where
  "refresh_chunks ask ms (mi, pending) =
     (if ms = [] then (mi, pending)
      else let chunk = take max_params ms; rest = drop max_params ms in
        case ask chunk of
          Inl e \<Rightarrow> refresh_chunks ask rest (mi, fold List.insert chunk pending)
        | Inr rs \<Rightarrow> refresh_chunks ask rest (file_rows rs mi, pending))"
  by pat_completeness auto
termination
  by (relation "measure (\<lambda>(_, ms, _). length ms)") (auto simp: max_params_def)

declare refresh_chunks.simps [simp del]

definition refresh ::
  "(mmsi list \<Rightarrow> find_error + (mmsi \<times> mirror_entry) list) \<Rightarrow> mmsi list \<Rightarrow> mirror \<times> mmsi list \<Rightarrow> mirror \<times> mmsi list" where
  "refresh ask ms st = refresh_chunks ask (ms @ snd st) (fst st, [])"

section \<open>Queries\<close>

definition answers :: "record_query \<Rightarrow> bool" where
  "answers q \<longleftrightarrow> sel_prefix q = [] \<and> sel_contains q = [] \<and> sel_flag q = [] \<and> \<not> sel_by_name q"

definition within_bounds :: "record_query \<Rightarrow> bool" where
  "within_bounds q \<longleftrightarrow> length (sel_boxes q) \<le> max_boxes \<and>
     length (case sel_mmsis q of None \<Rightarrow> [] | Some ms \<Rightarrow> ms) + length (case sel_imos q of None \<Rightarrow> [] | Some ns \<Rightarrow> ns) \<le> max_params"

definition mirror_match :: "record_query \<Rightarrow> mmsi \<Rightarrow> vessel \<Rightarrow> bool" where
  "mirror_match q m v \<longleftrightarrow>
     \<not> ((case sel_mmsis q of None \<Rightarrow> False | Some ms \<Rightarrow> m \<notin> set ms) \<or>
        (case sel_imos q of None \<Rightarrow> False | Some ns \<Rightarrow> v_imo v \<notin> set ns) \<or>
        sel_has_pos q \<and> \<not> v_has_pos v \<or>
        unix_ms (sel_since q) \<noteq> 0 \<and> unix_ms (v_seen v) < unix_ms (sel_since q) \<or>
        unix_ms (sel_before q) \<noteq> 0 \<and> unix_ms (v_seen v) \<ge> unix_ms (sel_before q) \<or>
        sel_boxes q \<noteq> [] \<and> \<not> (v_has_pos v \<and> in_any (sel_boxes q) (v_lat v) (v_lon v)) \<or>
        (case sel_filter q of None \<Rightarrow> False | Some f \<Rightarrow> \<not> filter_match f v (sel_now q)))"

text \<open>The entries of some MMSIs that match.\<close>

definition visits :: "record_query \<Rightarrow> mirror \<Rightarrow> mmsi list \<Rightarrow> (mmsi \<times> mirror_entry) list" where
  "visits q mi ms =
     concat (map (\<lambda>m. case map_of (mi_entries mi) m of
                        None \<Rightarrow> []
                      | Some e \<Rightarrow> if mirror_match q m (me_v e) then [(m, e)] else []) ms)"

definition each :: "record_query \<Rightarrow> mirror \<Rightarrow> (mmsi \<times> mirror_entry) list" where
  "each q mi =
     (case sel_mmsis q of
        Some ms \<Rightarrow> visits q mi (remdups ms)
      | None \<Rightarrow>
          (case sel_imos q of
             Some ns \<Rightarrow> concat (map (\<lambda>n. visits q mi (get_or [] (mi_imos mi) n)) (remdups ns))
           | None \<Rightarrow>
               if sel_boxes q \<noteq> [] then
                 if sum_list (map box_span (sel_boxes q)) > int (length (mi_cells mi))
                 then concat (map (\<lambda>(k, ms). visits q mi ms) (mi_cells mi))
                 else walk_cells True (\<lambda>k. visits q mi (get_or [] (mi_cells mi) k)) []
                        (concat (map box_cells (sel_boxes q)))
               else visits q mi (map fst (mi_entries mi))))"

type_synonym hit = "mmsi \<times> int \<times> mirror_entry"

definition before :: "hit \<Rightarrow> hit \<Rightarrow> bool" where
  "before a b \<longleftrightarrow> fst (snd a) > fst (snd b) \<or> fst (snd a) = fst (snd b) \<and> fst a < fst b"

definition hit_less :: "hit \<Rightarrow> hit \<Rightarrow> bool" where
  "hit_less a b \<longleftrightarrow> before b a"

definition add_hit :: "int \<Rightarrow> mmsi \<times> mirror_entry \<Rightarrow> hit list \<Rightarrow> hit list" where
  "add_hit limit r hits =
     (let h = (fst r, unix_ms (v_seen (me_v (snd r))), snd r) in
      if limit \<le> 0 \<or> int (length hits) < limit then heap_push hit_less h hits
      else if before h (hits ! 0) then heap_fix hit_less (hits[0 := h]) 0
      else hits)"

definition rank_key :: "hit \<Rightarrow> int \<times> mmsi" where
  "rank_key h = (- fst (snd h), fst h)"

definition mirror_find :: "record_query \<Rightarrow> mirror \<Rightarrow> find_error + (mmsi \<times> vessel \<times> time) list" where
  "mirror_find q mi =
     (if \<not> within_bounds q then Inl TooManyTerms
      else let hits = fold (add_hit (sel_limit q)) (each q mi) [] in
        Inr (map (\<lambda>(m, _, e). (m, state_of (me_v e), me_first_seen e)) (sort_key rank_key hits)))"

definition mirror_count :: "record_query \<Rightarrow> mirror \<Rightarrow> find_error + nat" where
  "mirror_count q mi = (if \<not> within_bounds q then Inl TooManyTerms else Inr (length (each q mi)))"

definition mirror_positions :: "record_query \<Rightarrow> mirror \<Rightarrow> find_error + (mmsi \<times> real \<times> real \<times> time) list" where
  "mirror_positions q mi =
     (if \<not> within_bounds q then Inl TooManyTerms
      else Inr (map (\<lambda>(m, e). (m, v_lat (me_v e), v_lon (me_v e), v_pos_at (me_v e))) (each q mi)))"

definition record_windows :: "(string \<times> duration) list" where
  "record_windows = [(''last_24h'', 24 * hour), (''last_7d'', 7 * 24 * hour), (''last_30d'', 30 * 24 * hour)]"

record record_counts =
  rc_total :: nat
  rc_heard :: "(string \<times> nat) list"
  rc_new :: "(string \<times> nat) list"

definition mirror_counts :: "time \<Rightarrow> mirror \<Rightarrow> record_counts" where
  "mirror_counts now mi =
     \<lparr>rc_total = length (mi_entries mi),
      rc_heard = map (\<lambda>(k, age). (k, length (filter (\<lambda>(_, e). unix_ms (v_seen (me_v e)) \<ge> unix_ms (now - age)) (mi_entries mi))))
                   record_windows,
      rc_new = map (\<lambda>(k, age). (k, length (filter (\<lambda>(_, e). unix_ms (me_first_seen e) \<ge> unix_ms (now - age)) (mi_entries mi))))
                 record_windows\<rparr>"

definition count_first_seen :: "time \<Rightarrow> mirror \<Rightarrow> nat" where
  "count_first_seen t mi = length (filter (\<lambda>(_, e). unix_ms (me_first_seen e) \<ge> unix_ms t) (mi_entries mi))"

definition mirror_kind :: "mmsi \<Rightarrow> mirror \<Rightarrow> string" where
  "mirror_kind m mi = (case map_of (mi_entries mi) m of None \<Rightarrow> [] | Some e \<Rightarrow> v_kind (me_v e))"

text \<open>\<open>nearestRecords\<close>: the matches nearest a point, by the cache's position where it is the newer.\<close>

definition nearest_mmsis :: "cache \<Rightarrow> real \<times> real \<Rightarrow> int \<Rightarrow> (mmsi \<times> real \<times> real \<times> time) list \<Rightarrow> mmsi list" where
  "nearest_mmsis c around limit pos =
     (let place = (\<lambda>(m, lat, lon, at0). case map_of (c_vessels c) m of
            Some v \<Rightarrow> if v_has_pos v \<and> v_pos_at v > at0 then (v_lat v, v_lon v) else (lat, lon)
          | None \<Rightarrow> (lat, lon));
          ranked = sort_key (\<lambda>p. case place p of (lat, lon) \<Rightarrow> nm (fst around) (snd around) lat lon) pos
      in map fst (take (nat limit) ranked))"

definition nearest_records ::
  "cache \<Rightarrow> real \<times> real \<Rightarrow> record_query \<Rightarrow> mirror \<Rightarrow> find_error + (mmsi \<times> vessel \<times> time) list" where
  "nearest_records c around q mi =
     (case mirror_positions (q\<lparr>sel_limit := 0\<rparr>) mi of
        Inl e \<Rightarrow> Inl e
      | Inr pos \<Rightarrow>
          mirror_find (q\<lparr>sel_limit := 0, sel_mmsis := Some (nearest_mmsis c around (sel_limit q) pos)\<rparr>) mi)"

section \<open>The invariant\<close>

definition index_ok :: "('k \<times> mmsi list) list \<Rightarrow> bool" where
  "index_ok ix \<longleftrightarrow> is_map ix \<and> (\<forall>k ms. map_of ix k = Some ms \<longrightarrow> distinct ms \<and> ms \<noteq> [])"

definition mirror_ok :: "mirror \<Rightarrow> bool" where
  "mirror_ok mi \<longleftrightarrow> is_map (mi_entries mi) \<and> index_ok (mi_cells mi) \<and> index_ok (mi_imos mi) \<and>
     (\<forall>k m. m \<in> set (get_or [] (mi_cells mi) k) \<longleftrightarrow>
        (\<exists>e. map_of (mi_entries mi) m = Some e \<and> v_has_pos (me_v e) \<and> v_cell (me_v e) = k)) \<and>
     (\<forall>n m. m \<in> set (get_or [] (mi_imos mi) n) \<longleftrightarrow>
        (\<exists>e. map_of (mi_entries mi) m = Some e \<and> v_imo (me_v e) = n \<and> n \<noteq> 0)) \<and>
     (\<forall>m e. map_of (mi_entries mi) m = Some e \<longrightarrow> v_has_pos (me_v e) \<longrightarrow>
        v_cell (me_v e) = cell_of (v_lat (me_v e)) (v_lon (me_v e)))"

lemma index_ok_get: "index_ok ix \<Longrightarrow> distinct (get_or [] ix k)"
  by (auto simp: index_ok_def get_or_def split: option.split)

lemma unfile_key_ok:
  assumes "index_ok ix"
  shows "index_ok (unfile_key m k ix)"
    and "x \<in> set (get_or [] (unfile_key m k ix) j) \<longleftrightarrow> x \<in> set (get_or [] ix j) \<and> \<not> (x = m \<and> j = k)"
proof -
  show "index_ok (unfile_key m k ix)"
    using assms by (auto simp: unfile_key_def index_ok_def Let_def is_map_put is_map_del map_of_put map_of_del
        distinct_removeAll split: option.splits if_splits)
  show "x \<in> set (get_or [] (unfile_key m k ix) j) \<longleftrightarrow> x \<in> set (get_or [] ix j) \<and> \<not> (x = m \<and> j = k)"
    by (cases "map_of ix k"; cases "j = k"; cases "removeAll m (get_or [] ix k) = []")
      (auto simp: unfile_key_def Let_def get_or_def map_of_put map_of_del removeAll_filter_not_eq filter_empty_conv
        split: option.splits)
qed

lemma file_key_ok:
  assumes "index_ok ix"
  shows "index_ok (file_key m k ix)"
    and "x \<in> set (get_or [] (file_key m k ix) j) \<longleftrightarrow> x \<in> set (get_or [] ix j) \<or> (x = m \<and> j = k)"
proof -
  have "List.insert m ms \<noteq> []" for ms by (metis insert_not_empty set_empty2 set_insert)
  then show "index_ok (file_key m k ix)"
    using assms index_ok_get [OF assms, of k]
    by (auto simp: file_key_def index_ok_def is_map_put map_of_put split: if_splits)
  show "x \<in> set (get_or [] (file_key m k ix) j) \<longleftrightarrow> x \<in> set (get_or [] ix j) \<or> (x = m \<and> j = k)"
    by (auto simp: file_key_def get_or_def map_of_put)
qed

lemma mirror_cells:
  "mirror_ok mi \<Longrightarrow> x \<in> set (get_or [] (mi_cells mi) k) \<longleftrightarrow>
     (\<exists>e. map_of (mi_entries mi) x = Some e \<and> v_has_pos (me_v e) \<and> v_cell (me_v e) = k)"
  unfolding mirror_ok_def by blast

lemma mirror_imos:
  "mirror_ok mi \<Longrightarrow> x \<in> set (get_or [] (mi_imos mi) n) \<longleftrightarrow>
     (\<exists>e. map_of (mi_entries mi) x = Some e \<and> v_imo (me_v e) = n \<and> n \<noteq> 0)"
  unfolding mirror_ok_def by blast

lemma mirror_placed:
  "mirror_ok mi \<Longrightarrow> map_of (mi_entries mi) x = Some e \<Longrightarrow> v_has_pos (me_v e) \<Longrightarrow>
     v_cell (me_v e) = cell_of (v_lat (me_v e)) (v_lon (me_v e))"
  unfolding mirror_ok_def by blast

lemma empty_mirror_ok: "mirror_ok empty_mirror"
  by (simp add: mirror_ok_def empty_mirror_def index_ok_def get_or_def)

lemma unfile_ok:
  assumes "mirror_ok mi"
  shows "mi_entries (unfile m mi) = mi_entries mi"
    and "index_ok (mi_cells (unfile m mi))" and "index_ok (mi_imos (unfile m mi))"
    and "x \<in> set (get_or [] (mi_cells (unfile m mi)) k) \<longleftrightarrow> x \<noteq> m \<and> x \<in> set (get_or [] (mi_cells mi) k)"
    and "x \<in> set (get_or [] (mi_imos (unfile m mi)) n) \<longleftrightarrow> x \<noteq> m \<and> x \<in> set (get_or [] (mi_imos mi) n)"
proof -
  note ce = mirror_cells [OF assms] and im = mirror_imos [OF assms]
  have ix: "index_ok (mi_cells mi)" "index_ok (mi_imos mi)" using assms by (simp_all add: mirror_ok_def)
  show "mi_entries (unfile m mi) = mi_entries mi" by (simp add: unfile_def split: option.split)
  show "index_ok (mi_cells (unfile m mi))" "index_ok (mi_imos (unfile m mi))"
    using ix unfile_key_ok(1) by (auto simp: unfile_def split: option.split)
  show "x \<in> set (get_or [] (mi_cells (unfile m mi)) k) \<longleftrightarrow> x \<noteq> m \<and> x \<in> set (get_or [] (mi_cells mi) k)"
    using ce [of m k] by (auto simp: unfile_def unfile_key_ok(2) [OF ix(1)] split: option.split)
  show "x \<in> set (get_or [] (mi_imos (unfile m mi)) n) \<longleftrightarrow> x \<noteq> m \<and> x \<in> set (get_or [] (mi_imos mi) n)"
    using im [of m n] by (auto simp: unfile_def unfile_key_ok(2) [OF ix(2)] split: option.split)
qed

lemma file_row_ok:
  assumes "mirror_ok mi"
  shows "mirror_ok (file_row (m, e) mi)"
    and "\<exists>k. map_of (mi_entries (file_row (m, e) mi)) x =
      (if x = m then Some (e\<lparr>me_v := (me_v e)\<lparr>v_cell := k\<rparr>\<rparr>) else map_of (mi_entries mi) x)"
proof -
  note u = unfile_ok [OF assms, where m = m]
  note ce = mirror_cells [OF assms] and im = mirror_imos [OF assms] and co = mirror_placed [OF assms]
  have mp: "is_map (mi_entries mi)" using assms by (simp add: mirror_ok_def)
  let ?v = "if v_has_pos (me_v e) then (me_v e)\<lparr>v_cell := cell_of (v_lat (me_v e)) (v_lon (me_v e))\<rparr> else me_v e"
  have 1: "mi_entries (file_row (m, e) mi) = put m (e\<lparr>me_v := ?v\<rparr>) (mi_entries mi)"
    by (simp add: file_row_def Let_def u(1))
  have 2: "mi_cells (file_row (m, e) mi) =
      (if v_has_pos ?v then file_key m (v_cell ?v) (mi_cells (unfile m mi)) else mi_cells (unfile m mi))"
    by (simp add: file_row_def Let_def)
  have 3: "mi_imos (file_row (m, e) mi) =
      (if v_imo ?v \<noteq> 0 then file_key m (v_imo ?v) (mi_imos (unfile m mi)) else mi_imos (unfile m mi))"
    by (simp add: file_row_def Let_def)
  have a: "x \<in> set (get_or [] (mi_cells (file_row (m, e) mi)) k) \<longleftrightarrow>
      (\<exists>e'. map_of (mi_entries (file_row (m, e) mi)) x = Some e' \<and> v_has_pos (me_v e') \<and> v_cell (me_v e') = k)" for x k
    unfolding 1 2 by (auto simp: map_of_put file_key_ok(2) [OF u(2)] u(4) ce)
  have b: "x \<in> set (get_or [] (mi_imos (file_row (m, e) mi)) n) \<longleftrightarrow>
      (\<exists>e'. map_of (mi_entries (file_row (m, e) mi)) x = Some e' \<and> v_imo (me_v e') = n \<and> n \<noteq> 0)" for x n
    unfolding 1 3 by (auto simp: map_of_put file_key_ok(2) [OF u(3)] u(5) im)
  have c: "index_ok (mi_cells (file_row (m, e) mi))" "index_ok (mi_imos (file_row (m, e) mi))"
    unfolding 2 3 using u(2,3) file_key_ok(1) by auto
  have d: "is_map (mi_entries (file_row (m, e) mi))" unfolding 1 using mp by (rule is_map_put)
  have f: "v_cell (me_v e') = cell_of (v_lat (me_v e')) (v_lon (me_v e'))"
    if "map_of (mi_entries (file_row (m, e) mi)) x = Some e'" "v_has_pos (me_v e')" for x e'
    using that co unfolding 1 by (auto simp: map_of_put split: if_splits)
  show "mirror_ok (file_row (m, e) mi)"
    unfolding mirror_ok_def using a b c d f by blast
  have "?v = (me_v e)\<lparr>v_cell := v_cell ?v\<rparr>" by simp
  then show "\<exists>k. map_of (mi_entries (file_row (m, e) mi)) x =
      (if x = m then Some (e\<lparr>me_v := (me_v e)\<lparr>v_cell := k\<rparr>\<rparr>) else map_of (mi_entries mi) x)"
    unfolding 1 by (intro exI [of _ "v_cell ?v"]) (simp add: map_of_put)
qed

lemma file_rows_ok: "mirror_ok mi \<Longrightarrow> mirror_ok (file_rows rs mi)"
  unfolding file_rows_def by (induction rs arbitrary: mi) (auto simp: file_row_ok(1))

lemma refresh_ok: "mirror_ok (fst st) \<Longrightarrow> mirror_ok (fst (refresh ask ms st))"
proof -
  have "mirror_ok mi \<Longrightarrow> mirror_ok (fst (refresh_chunks ask ms (mi, p)))" for ms mi p
  proof (induction "length ms" arbitrary: ms mi p rule: less_induct)
    case less
    show ?case
      using less.prems less.hyps [of "drop max_params ms"] file_rows_ok
      by (subst refresh_chunks.simps) (auto simp: Let_def max_params_def split: sum.split)
  qed
  then show "mirror_ok (fst (refresh ask ms st))" if "mirror_ok (fst st)" using that by (simp add: refresh_def)
qed

section \<open>A query visits what it matches\<close>

lemma visits_set: "(m, e) \<in> set (visits q mi ms) \<longleftrightarrow>
    m \<in> set ms \<and> map_of (mi_entries mi) m = Some e \<and> mirror_match q m (me_v e)"
  by (auto simp: visits_def split: option.splits if_splits)

lemma visits_distinct: "distinct ms \<Longrightarrow> distinct (map fst (visits q mi ms))"
proof (induction ms)
  case Nil
  then show ?case by (simp add: visits_def)
next
  case (Cons m ms)
  have e: "visits q mi (m # ms) = visits q mi [m] @ visits q mi ms" by (simp add: visits_def)
  have "fst ` set (visits q mi ms) \<subseteq> set ms" by (auto simp: visits_set)
  moreover have "map fst (visits q mi [m]) \<in> {[], [m]}" by (auto simp: visits_def split: option.split)
  ultimately show ?case using Cons unfolding e by auto
qed

lemma distinct_concat_visits:
  assumes "distinct ks" and "\<And>k. distinct (f k)" and "\<And>j k x. x \<in> set (f j) \<Longrightarrow> x \<in> set (f k) \<Longrightarrow> j = k"
  shows "distinct (map fst (concat (map (\<lambda>k. visits q mi (f k)) ks)))"
  using assms(1)
proof (induction ks)
  case (Cons k ks)
  have sub: "fst ` set (visits q mi (f j)) \<subseteq> set (f j)" for j by (auto simp: visits_set)
  have "fst ` set (visits q mi (f k)) \<inter> fst ` (\<Union>j \<in> set ks. set (visits q mi (f j))) = {}"
  proof (rule equals0I)
    fix x assume x: "x \<in> fst ` set (visits q mi (f k)) \<inter> fst ` (\<Union>j \<in> set ks. set (visits q mi (f j)))"
    then obtain j where j: "j \<in> set ks" "x \<in> fst ` set (visits q mi (f j))" by blast
    have "k = j" using x j(2) sub by (intro assms(3) [of x]) blast+
    then show False using j(1) Cons.prems by simp
  qed
  then show ?case using Cons visits_distinct [OF assms(2)] by simp
qed simp

lemma each_visits:
  assumes ok: "mirror_ok mi" and zero: "\<And>ns. sel_imos q = Some ns \<Longrightarrow> 0 \<notin> set ns"
  shows "distinct (map fst (each q mi)) \<and>
    ((m, e) \<in> set (each q mi) \<longleftrightarrow> map_of (mi_entries mi) m = Some e \<and> mirror_match q m (me_v e))"
proof -
  have mp: "is_map (mi_entries mi)" "index_ok (mi_cells mi)" "index_ok (mi_imos mi)"
    using ok by (simp_all add: mirror_ok_def)
  note ce = mirror_cells [OF ok] and im = mirror_imos [OF ok] and co = mirror_placed [OF ok]
  show ?thesis
  proof (cases "sel_mmsis q")
    case (Some ms)
    then show ?thesis by (auto simp: each_def visits_set visits_distinct mirror_match_def)
  next
    case no_mmsis: None
    show ?thesis
    proof (cases "sel_imos q")
      case (Some ns)
      have "distinct (map fst (each q mi))"
        unfolding each_def no_mmsis Some option.case
        by (rule distinct_concat_visits) (auto simp: index_ok_get [OF mp(3)] im)
      moreover have "(m, e) \<in> set (each q mi) \<longleftrightarrow> map_of (mi_entries mi) m = Some e \<and> mirror_match q m (me_v e)"
        using zero [OF Some] by (auto simp: each_def no_mmsis Some visits_set im mirror_match_def)
      ultimately show ?thesis by blast
    next
      case no_imos: None
      show ?thesis
      proof (cases "sel_boxes q = []")
        case True
        then show ?thesis using mp(1)
          by (auto simp: each_def no_mmsis no_imos visits_set visits_distinct intro: map_of_SomeD dest: map_of_SomeD)
            (metis fst_conv image_eqI map_of_SomeD)
      next
        case boxes: False
        let ?hits = "\<lambda>k. visits q mi (get_or [] (mi_cells mi) k)"
        have match_box: "v_has_pos (me_v e) \<and> in_any (sel_boxes q) (v_lat (me_v e)) (v_lon (me_v e))"
          if "mirror_match q m (me_v e)" for m e
          using that boxes by (auto simp: mirror_match_def)
        show ?thesis
        proof (cases "sum_list (map box_span (sel_boxes q)) > int (length (mi_cells mi))")
          case True
          have im2: "is_map (mi_cells mi)" using mp(2) by (simp add: index_ok_def)
          have "each q mi = concat (map (\<lambda>(k, ms). visits q mi ms) (mi_cells mi))"
            using True boxes by (simp add: each_def no_mmsis no_imos)
          also have "map (\<lambda>(k, ms). visits q mi ms) (mi_cells mi) = map ?hits (map fst (mi_cells mi))"
            unfolding map_map
          proof (rule map_cong [OF refl])
            fix x assume "x \<in> set (mi_cells mi)"
            then have "map_of (mi_cells mi) (fst x) = Some (snd x)" using im2 by (simp add: map_of_in_set)
            then show "(case x of (k, ms) \<Rightarrow> visits q mi ms) = (?hits \<circ> fst) x"
              by (simp add: get_or_def split_def)
          qed
          finally have e: "each q mi = concat (map ?hits (map fst (mi_cells mi)))" .
          have "distinct (map fst (each q mi))"
            unfolding e using im2 by (intro distinct_concat_visits) (auto simp: index_ok_get [OF mp(2)] ce)
          moreover have "v_cell (me_v e) \<in> fst ` set (mi_cells mi)"
            if "map_of (mi_entries mi) m = Some e" "v_has_pos (me_v e)" for m e
          proof -
            have "m \<in> set (get_or [] (mi_cells mi) (v_cell (me_v e)))" using ce that by blast
            then show ?thesis
              by (cases "map_of (mi_cells mi) (v_cell (me_v e))")
                (auto simp: get_or_def intro: image_eqI [OF _ map_of_SomeD])
          qed
          ultimately show ?thesis
            unfolding e using match_box by (fastforce simp: visits_set ce)
        next
          case False
          then have e: "each q mi = walk_cells True ?hits [] (concat (map box_cells (sel_boxes q)))"
            using boxes by (simp add: each_def no_mmsis no_imos)
          have "distinct (map fst (each q mi))"
            unfolding e
            by (rule walk_distinct [of fst ?hits True "[]", THEN conjunct1])
              (auto simp: visits_distinct index_ok_get [OF mp(2)] visits_set ce)
          moreover have "set (each q mi) = \<Union> (set ` ?hits ` set (concat (map box_cells (sel_boxes q))))"
            using walk_set [of True ?hits "[]"] unfolding e by simp
          moreover have "v_cell (me_v e) \<in> set (concat (map box_cells (sel_boxes q)))"
            if "map_of (mi_entries mi) m = Some e" "mirror_match q m (me_v e)" for m e
            using match_box [OF that(2)] degree_grid.cover_any co that by metis
          ultimately show ?thesis using match_box [of m e] by (auto simp: visits_set ce)
        qed
      qed
    qed
  qed
qed


section \<open>The bounded heap keeps the best\<close>

interpretation hits: heap_order hit_less
  by unfold_locales (auto simp: hit_less_def before_def)

lemma hit_less_key: "hit_less a b \<longleftrightarrow> rank_key b < rank_key a"
  by (auto simp: hit_less_def before_def rank_key_def)

lemma hits_le_key: "hits.le a b \<longleftrightarrow> rank_key b \<le> rank_key a"
  by (simp add: hits.le_def hit_less_key not_less)

definition hit_of :: "mmsi \<times> mirror_entry \<Rightarrow> hit" where
  "hit_of r = (fst r, unix_ms (v_seen (me_v (snd r))), snd r)"

text \<open>What is left out ranks after everything kept, and something is left out only past the limit.\<close>

definition best_of :: "int \<Rightarrow> hit list \<Rightarrow> hit list \<Rightarrow> bool" where
  "best_of limit all kept \<longleftrightarrow> hits.heap kept \<and>
     (\<exists>gone. mset all = mset kept + mset gone \<and>
        (\<forall>g \<in> set gone. \<forall>h \<in> set kept. rank_key h \<le> rank_key g) \<and>
        (gone \<noteq> [] \<longrightarrow> 0 < limit \<and> int (length kept) = limit) \<and>
        (0 < limit \<longrightarrow> int (length kept) \<le> limit))"

lemma best_of_add:
  assumes "best_of limit all kept"
  shows "best_of limit (all @ [hit_of r]) (add_hit limit r kept)"
proof -
  obtain gone where g: "mset all = mset kept + mset gone"
      "\<forall>g \<in> set gone. \<forall>h \<in> set kept. rank_key h \<le> rank_key g"
      "gone \<noteq> [] \<longrightarrow> 0 < limit \<and> int (length kept) = limit" "0 < limit \<longrightarrow> int (length kept) \<le> limit"
    and hp: "hits.heap kept"
    using assms by (auto simp: best_of_def)
  let ?h = "hit_of r"
  consider "limit \<le> 0 \<or> int (length kept) < limit"
    | "0 < limit" "int (length kept) = limit" "before ?h (kept ! 0)"
    | "0 < limit" "int (length kept) = limit" "\<not> before ?h (kept ! 0)"
    using g(4) by force
  then show ?thesis
  proof cases
    case 1
    then have e: "add_hit limit r kept = heap_push hit_less ?h kept" by (auto simp: add_hit_def hit_of_def Let_def)
    have none: "gone = []" using 1 g(3) by auto
    have "length (heap_push hit_less ?h kept) = Suc (length kept)"
      by (metis mset_heap_push size_add_mset size_mset)
    then show ?thesis unfolding e best_of_def
      using hits.heap_push_heap [OF hp, of ?h] g(1) none 1 by (auto intro!: exI [of _ "[]"])
  next
    case 2
    then have e: "add_hit limit r kept = heap_fix hit_less (kept[0 := ?h]) 0" by (auto simp: add_hit_def hit_of_def Let_def)
    have ne: "kept \<noteq> []" using 2 by auto
    have root: "rank_key h \<le> rank_key (kept ! 0)" if "h \<in> set kept" for h
      using that hits.heap_root [OF hp] by (auto simp: in_set_conv_nth hits_le_key)
    have new: "rank_key ?h \<le> rank_key (kept ! 0)" using 2(3) by (auto simp: before_def rank_key_def)
    have m: "mset (heap_fix hit_less (kept[0 := ?h]) 0) = add_mset ?h (mset kept - {#kept ! 0#})"
      using ne by (simp add: mset_heap_fix mset_update)
    have "set (heap_fix hit_less (kept[0 := ?h]) 0) \<subseteq> insert ?h (set kept)"
      using m by (metis insert_mono mset_subset_eq_insertD set_mset_add_mset_insert set_mset_mono set_mset_mset diff_subset_eq_self)
    moreover have "mset (all @ [?h]) = mset (heap_fix hit_less (kept[0 := ?h]) 0) + mset (kept ! 0 # gone)"
      using ne by (simp add: m g(1))
    moreover have "length (heap_fix hit_less (kept[0 := ?h]) 0) = length kept"
      by (metis length_list_update mset_heap_fix ne length_greater_0_conv size_mset)
    moreover have "rank_key h \<le> rank_key x" if "x \<in> set (kept ! 0 # gone)" "h \<in> insert ?h (set kept)" for x h
    proof -
      have h: "rank_key h \<le> rank_key (kept ! 0)" using that(2) root [of h] new by (cases "h = ?h") simp_all
      have "rank_key (kept ! 0) \<le> rank_key x"
      proof (cases "x = kept ! 0")
        case False
        then have "x \<in> set gone" using that(1) by simp
        then show ?thesis using g(2) nth_mem [of 0 kept] ne by simp
      qed simp
      with h show ?thesis by (rule order_trans)
    qed
    ultimately have ge: "\<forall>g \<in> set (kept ! 0 # gone). \<forall>h \<in> set (heap_fix hit_less (kept[0 := ?h]) 0). rank_key h \<le> rank_key g"
      and ms: "mset (all @ [?h]) = mset (heap_fix hit_less (kept[0 := ?h]) 0) + mset (kept ! 0 # gone)"
      and ln: "length (heap_fix hit_less (kept[0 := ?h]) 0) = length kept" by blast+
    show ?thesis unfolding e best_of_def
      using hits.heap_fix_heap [OF hits.ordered_but_update [OF hp], of 0 ?h] ne 2 ln
      by (intro conjI exI [of _ "kept ! 0 # gone"] ms ge) simp_all
  next
    case 3
    then have e: "add_hit limit r kept = kept" by (auto simp: add_hit_def hit_of_def Let_def)
    have root: "rank_key h \<le> rank_key (kept ! 0)" if "h \<in> set kept" for h
      using that hits.heap_root [OF hp] by (auto simp: in_set_conv_nth hits_le_key)
    have new: "rank_key (kept ! 0) \<le> rank_key ?h" using 3(3) by (auto simp: before_def rank_key_def)
    have ge: "\<forall>g \<in> set (?h # gone). \<forall>h \<in> set kept. rank_key h \<le> rank_key g"
      using g(2) order_trans [OF root new] by simp
    show ?thesis unfolding e best_of_def
      using hp g(1) 3 by (intro conjI exI [of _ "?h # gone"] ge) simp_all
  qed
qed

lemma best_of_fold: "best_of limit all kept \<Longrightarrow> best_of limit (all @ map hit_of rs) (fold (add_hit limit) rs kept)"
proof (induction rs arbitrary: all kept)
  case (Cons r rs)
  then show ?case using Cons.IH [OF best_of_add [OF Cons.prems]] by simp
qed simp

lemma best_of_start: "best_of limit [] []"
  by (auto simp: best_of_def hits.heap_def hits.ordered_from_def)

text \<open>With no two hits alike in rank, the kept hits in order are the start of all of them in order.\<close>

lemma best_of_sorted:
  assumes "best_of limit all kept" and "inj_on rank_key (set all)"
  shows "sort_key rank_key kept = (if limit \<le> 0 then id else take (nat limit)) (sort_key rank_key all)"
proof -
  obtain gone where g: "mset all = mset kept + mset gone"
      "\<forall>g \<in> set gone. \<forall>h \<in> set kept. rank_key h \<le> rank_key g"
      "gone \<noteq> [] \<longrightarrow> 0 < limit \<and> int (length kept) = limit" "0 < limit \<longrightarrow> int (length kept) \<le> limit"
    using assms(1) by (auto simp: best_of_def)
  have "sort_key rank_key all = sort_key rank_key kept @ sort_key rank_key gone"
    by (rule sort_key_inj_key_eq) (use g assms(2) in \<open>auto simp: sorted_append\<close>)
  then show ?thesis using g(3,4) by (cases "gone = []") auto
qed

text \<open>What the record answers: the rows that match, the latest heard first by the millisecond.\<close>

definition ranked_matches :: "record_query \<Rightarrow> mirror \<Rightarrow> hit list" where
  "ranked_matches q mi =
     sort_key rank_key (map hit_of (filter (\<lambda>(m, e). mirror_match q m (me_v e)) (mi_entries mi)))"

lemma each_mset:
  assumes "mirror_ok mi" and "\<And>ns. sel_imos q = Some ns \<Longrightarrow> 0 \<notin> set ns"
  shows "mset (each q mi) = mset (filter (\<lambda>(m, e). mirror_match q m (me_v e)) (mi_entries mi))"
proof -
  note ev = each_visits [OF assms]
  have mp: "is_map (mi_entries mi)" using assms(1) by (simp add: mirror_ok_def)
  have "distinct (each q mi)" using ev by (simp add: distinct_map)
  moreover have "distinct (filter (\<lambda>(m, e). mirror_match q m (me_v e)) (mi_entries mi))"
    using mp by (simp add: distinct_map)
  moreover have "set (each q mi) = set (filter (\<lambda>(m, e). mirror_match q m (me_v e)) (mi_entries mi))"
    using ev map_of_in_set [OF mp] by auto
  ultimately show ?thesis using set_eq_iff_mset_eq_distinct by blast
qed

lemma hit_keys_inj:
  assumes "is_map es"
  shows "inj_on rank_key (hit_of ` set es)"
proof (rule inj_onI)
  fix a b assume ab: "a \<in> hit_of ` set es" "b \<in> hit_of ` set es" "rank_key a = rank_key b"
  then obtain r s where rs: "r \<in> set es" "a = hit_of r" "s \<in> set es" "b = hit_of s" by blast
  then have "fst r = fst s" using ab(3) by (simp add: rank_key_def hit_of_def)
  then have "r = s" using rs assms by (metis eq_key_imp_eq_value prod.collapse)
  then show "a = b" using rs by simp
qed

lemma mirror_find_ranked:
  assumes "mirror_ok mi" and "within_bounds q" and "\<And>ns. sel_imos q = Some ns \<Longrightarrow> 0 \<notin> set ns"
  shows "mirror_find q mi = Inr (map (\<lambda>(m, _, e). (m, state_of (me_v e), me_first_seen e))
    ((if sel_limit q \<le> 0 then id else take (nat (sel_limit q))) (ranked_matches q mi)))"
proof -
  let ?es = "filter (\<lambda>(m, e). mirror_match q m (me_v e)) (mi_entries mi)"
  have mp: "is_map (mi_entries mi)" using assms(1) by (simp add: mirror_ok_def)
  have ms: "mset (map hit_of (each q mi)) = mset (map hit_of ?es)" using each_mset [OF assms(1,3)] by simp
  then have st: "set (map hit_of (each q mi)) = set (map hit_of ?es)" by (rule mset_eq_setD)
  have inj: "inj_on rank_key (set (map hit_of (each q mi)))"
    unfolding st by (rule inj_on_subset [OF hit_keys_inj [OF mp]]) auto
  have "sort_key rank_key (map hit_of (each q mi)) = ranked_matches q mi"
    unfolding ranked_matches_def by (rule sort_key_inj_key_eq) (use ms inj in simp_all)
  moreover have "best_of (sel_limit q) (map hit_of (each q mi)) (fold (add_hit (sel_limit q)) (each q mi) [])"
    using best_of_fold [OF best_of_start] by simp
  ultimately show ?thesis
    using best_of_sorted [OF _ inj] assms(2) by (simp add: mirror_find_def Let_def)
qed

text \<open>A mirror as the code builds it, by filing and refreshing.\<close>

inductive mirror_reach :: "mirror \<Rightarrow> bool" where
  loaded: "mirror_reach (file_rows rs empty_mirror)"
| refreshed: "mirror_reach mi \<Longrightarrow> mirror_reach (fst (refresh ask ms (mi, pending)))"

lemma mirror_reach_ok: "mirror_reach mi \<Longrightarrow> mirror_ok mi"
  by (induction rule: mirror_reach.induct) (simp_all add: file_rows_ok empty_mirror_ok refresh_ok)

text \<open>
  C19. The mirror answers a query as the record orders it: after any loads and refreshes, failed ones
  included, \<open>find\<close> returns exactly the filed vessels that match, the latest heard first by the
  millisecond and the lower MMSI on a tie, cut at the limit; whichever index the query walks,
  however its boxes overlap, and though the limit is kept in a heap without sorting every match.
\<close>

theorem mirror_find_exact:
  assumes "mirror_reach mi" and "within_bounds q" and "\<And>ns. sel_imos q = Some ns \<Longrightarrow> 0 \<notin> set ns"
  shows "mirror_find q mi = Inr (map (\<lambda>(m, _, e). (m, state_of (me_v e), me_first_seen e))
    ((if sel_limit q \<le> 0 then id else take (nat (sel_limit q))) (ranked_matches q mi)))"
  by (rule mirror_find_ranked [OF mirror_reach_ok [OF assms(1)] assms(2,3)])

definition any_query :: record_query where
  "any_query = \<lparr>sel_mmsis = None, sel_imos = None, sel_boxes = [], sel_prefix = [], sel_contains = [], sel_flag = [],
     sel_since = zero_time, sel_before = zero_time, sel_has_pos = False, sel_by_name = False, sel_filter = None,
     sel_now = 0, sel_limit = 0\<rparr>"

definition heard_at :: "time \<Rightarrow> mirror_entry" where
  "heard_at t = \<lparr>me_v = new_vessel\<lparr>v_seen := t\<rparr>, me_first_seen = 0\<rparr>"

definition sample_mirror :: mirror where
  "sample_mirror = file_rows [(3, heard_at 5000000), (2, heard_at 9000000), (7, heard_at 5000001)] empty_mirror"

lemma mirror_find_exact_witness:
  "mirror_find (any_query\<lparr>sel_limit := 2\<rparr>) sample_mirror =
     Inr (map (\<lambda>(m, _, e). (m, state_of (me_v e), me_first_seen e))
       (take 2 (ranked_matches (any_query\<lparr>sel_limit := 2\<rparr>) sample_mirror)))"
  using mirror_find_exact [of sample_mirror "any_query\<lparr>sel_limit := 2\<rparr>"] mirror_reach.loaded
  by (simp add: sample_mirror_def within_bounds_def any_query_def max_boxes_def)

lemma mirror_count_exact:
  assumes "mirror_ok mi" and "within_bounds q" and "\<And>ns. sel_imos q = Some ns \<Longrightarrow> 0 \<notin> set ns"
  shows "mirror_count q mi = Inr (length (filter (\<lambda>(m, e). mirror_match q m (me_v e)) (mi_entries mi)))"
  using each_mset [OF assms(1,3)] assms(2) by (simp add: mirror_count_def mset_eq_length)

section \<open>The terms of a box\<close>

lemma box_terms_boxes: "map fst (box_terms bounded budget bs) = bs"
  by (induction bounded budget bs rule: box_terms.induct) (auto simp: Let_def split: prod.splits)

lemma cell_in_rows:
  assumes "k \<in> set (box_cells b)" and "cell_row_col (b_south b) (b_west b) = (r0, c0)"
    and "cell_row_col (b_north b) (b_east b) = (r1, c1)"
  shows "list_ex (\<lambda>(lo, hi). lo \<le> k \<and> k \<le> hi) (map (\<lambda>r. (r * 360 + c0, r * 360 + c1)) [r0..r1])"
proof -
  have "\<exists>x. r0 \<le> x \<and> x \<le> r1 \<and> c0 + x * 360 \<le> k \<and> k \<le> c1 + x * 360"
    using assms by (auto simp: box_cells_def)
  then obtain x where x: "r0 \<le> x" "x \<le> r1" "c0 + x * 360 \<le> k" "k \<le> c1 + x * 360" by blast
  show ?thesis
    unfolding list_ex_iff by (rule bexI [of _ "(x * 360 + c0, x * 360 + c1)"]) (use x in auto)
qed

text \<open>Whatever cells a term lists, it lists the cell of every position in its box.\<close>

lemma box_terms_cover:
  "(b, t) \<in> set (box_terms bounded budget bs) \<Longrightarrow> box_contains b lat lon \<Longrightarrow> cell_holds t (Some (cell_of lat lon))"
proof (induction bounded budget bs rule: box_terms.induct)
  case (1 bounded budget)
  then show ?case by simp
next
  case (2 bounded budget b' bs)
  obtain r0 c0 r1 c1 where rc: "cell_row_col (b_south b') (b_west b') = (r0, c0)"
    "cell_row_col (b_north b') (b_east b') = (r1, c1)" by fastforce
  have cells: "concat (map (\<lambda>r. map (\<lambda>c. r * 360 + c) [c0..c1]) [r0..r1]) = box_cells b'"
    by (simp add: box_cells_def rc)
  have here: "cell_of lat lon \<in> set (box_cells b')" if "box_contains b' lat lon"
    using that by (rule box_cells_cover)
  note rows = cell_in_rows [OF here rc]
  show ?case
    using 2 rows here
    by (auto simp: rc Let_def cells[symmetric] list_ex_iff simp del: set_concat set_map split: if_splits)
qed

lemma box_terms_in_any:
  "list_ex (\<lambda>(b, t). box_contains b lat lon \<and> cell_holds t (Some (cell_of lat lon))) (box_terms bounded budget bs) \<longleftrightarrow>
   in_any bs lat lon"
proof
  assume "in_any bs lat lon"
  then obtain b where "b \<in> set (map fst (box_terms bounded budget bs))" "box_contains b lat lon"
    by (auto simp: in_any_iff box_terms_boxes)
  then show "list_ex (\<lambda>(b, t). box_contains b lat lon \<and> cell_holds t (Some (cell_of lat lon))) (box_terms bounded budget bs)"
    using box_terms_cover by (fastforce simp: list_ex_iff)
next
  assume "list_ex (\<lambda>(b, t). box_contains b lat lon \<and> cell_holds t (Some (cell_of lat lon))) (box_terms bounded budget bs)"
  then obtain b where "b \<in> set (map fst (box_terms bounded budget bs))" "box_contains b lat lon"
    by (fastforce simp: list_ex_iff)
  then show "in_any bs lat lon" by (auto simp: in_any_iff box_terms_boxes)
qed

section \<open>The filter's terms\<close>

text \<open>
  The record keeps milliseconds. A report older than the filter's cut-off by less than one is the
  only one the filter and its terms can differ on.
\<close>

definition apart :: "vessel_filter \<Rightarrow> vessel \<Rightarrow> time \<Rightarrow> bool" where
  "apart f v now \<longleftrightarrow> 0 < f_moving_age f \<longrightarrow>
     f_moving_age f < max_duration \<and> v_seen v \<noteq> zero_time \<and> now - f_moving_age f \<noteq> zero_time \<and>
     (v_seen v < now - f_moving_age f \<longrightarrow> unix_milli (v_seen v) < unix_milli (now - f_moving_age f))"

lemma fresh_term:
  assumes "apart f v now" and "0 < f_moving_age f"
  shows "unix_ms (now - f_moving_age f) \<le> unix_ms (v_seen v) \<longleftrightarrow> \<not> f_moving_age f < time_sub now (v_seen v)"
proof -
  have a: "f_moving_age f < max_duration" "v_seen v \<noteq> zero_time" "now - f_moving_age f \<noteq> zero_time"
    "v_seen v < now - f_moving_age f \<Longrightarrow> unix_milli (v_seen v) < unix_milli (now - f_moving_age f)"
    using assms by (simp_all add: apart_def)
  have s: "f_moving_age f < time_sub now (v_seen v) \<longleftrightarrow> v_seen v < now - f_moving_age f"
    using a(1) assms(2) by (auto simp: time_sub_def min_duration_def)
  show ?thesis
    using a unix_milli_mono [of "now - f_moving_age f" "v_seen v"]
    by (cases "v_seen v < now - f_moving_age f") (auto simp: s unix_ms_def)
qed

lemma filter_where_holds:
  assumes "apart f v now"
  shows "list_all (\<lambda>c. holds glob c (row_of upper m v)) (filter_where f now) \<longleftrightarrow> filter_match f v now"
  using fresh_term [OF assms]
  by (auto simp: filter_where_def filter_match_def row_of_def stationary_def split: option.split)


lemma boxes_holds:
  assumes "v_has_pos v"
  shows "holds glob (InBoxes (box_terms bounded budget bs)) (row_of upper m v) \<longleftrightarrow> in_any bs (v_lat v) (v_lon v)"
  using box_terms_in_any [of "v_lat v" "v_lon v" bounded budget bs] assms
  by (simp add: row_of_def box_contains_def split_def)

lemma mirror_match_terms:
  "mirror_match q m v \<longleftrightarrow>
     (case sel_mmsis q of None \<Rightarrow> True | Some ms \<Rightarrow> m \<in> set ms) \<and>
     (case sel_imos q of None \<Rightarrow> True | Some ns \<Rightarrow> v_imo v \<in> set ns) \<and>
     (sel_boxes q \<noteq> [] \<longrightarrow> v_has_pos v \<and> in_any (sel_boxes q) (v_lat v) (v_lon v)) \<and>
     (unix_ms (sel_since q) \<noteq> 0 \<longrightarrow> unix_ms (sel_since q) \<le> unix_ms (v_seen v)) \<and>
     (unix_ms (sel_before q) \<noteq> 0 \<longrightarrow> unix_ms (v_seen v) < unix_ms (sel_before q)) \<and>
     (sel_has_pos q \<longrightarrow> v_has_pos v) \<and>
     (case sel_filter q of None \<Rightarrow> True | Some f \<Rightarrow> filter_match f v (sel_now q))"
proof -
  have neg: "\<not> (case o1 of None \<Rightarrow> False | Some x \<Rightarrow> \<not> P x) \<longleftrightarrow> (case o1 of None \<Rightarrow> True | Some x \<Rightarrow> P x)"
    for o1 :: "'x option" and P by (cases o1) auto
  show ?thesis unfolding mirror_match_def de_Morgan_disj neg not_le not_less by (simp only: not_less [symmetric]) blast
qed

text \<open>
  The mirror and SQLite select the same vessels: for a query the mirror may answer, the SQL
  condition \<open>where\<close> builds holds of the row \<open>upsert\<close> writes for a vessel exactly when the mirror's
  \<open>match\<close> holds of the vessel, however the cell index is spelled out for the boxes, and a query that
  has no condition matches nothing. It asks that boxes come with \<open>hasPos\<close>, as all the program's do,
  that neither time bound is the first millisecond of 1970, and that the vessel is not within the
  millisecond before the filter's cut-off.
\<close>

theorem where_is_match:
  assumes "answers q" and "sel_boxes q \<noteq> [] \<longrightarrow> sel_has_pos q"
    and "unix_ms (sel_since q) = 0 \<longrightarrow> sel_since q = zero_time"
    and "unix_ms (sel_before q) = 0 \<longrightarrow> sel_before q = zero_time"
    and "\<forall>f. sel_filter q = Some f \<longrightarrow> apart f v (sel_now q)"
  shows "(case where_of upper q of
            None \<Rightarrow> False
          | Some (ts, _) \<Rightarrow> list_all (\<lambda>c. holds glob c (row_of upper m v)) ts) \<longleftrightarrow> mirror_match q m v"
proof (cases "sel_mmsis q = Some [] \<or> sel_imos q = Some []")
  case True
  then show ?thesis by (auto simp: where_of_def mirror_match_def)
next
  case False
  have zero: "unix_ms zero_time = 0" by (simp add: unix_ms_def)
  have fl: "list_all (\<lambda>c. holds glob c (row_of upper m v)) (case sel_filter q of None \<Rightarrow> [] | Some f \<Rightarrow> filter_where f (sel_now q)) \<longleftrightarrow>
      (case sel_filter q of None \<Rightarrow> True | Some f \<Rightarrow> filter_match f v (sel_now q))"
    using assms(5) filter_where_holds by (simp split: option.split)
  have bx: "v_has_pos v \<Longrightarrow> list_all (\<lambda>c. holds glob c (row_of upper m v))
        (if sel_boxes q = [] then [] else [InBoxes (box_terms (sel_bounded q) max_cells (sel_boxes q))]) \<longleftrightarrow>
      (sel_boxes q \<noteq> [] \<longrightarrow> in_any (sel_boxes q) (v_lat v) (v_lon v))"
    using boxes_holds by simp
  have w: "(case where_of upper q of None \<Rightarrow> False
          | Some (ts, _) \<Rightarrow> list_all (\<lambda>c. holds glob c (row_of upper m v)) ts) \<longleftrightarrow>
      (case sel_mmsis q of None \<Rightarrow> True | Some ms \<Rightarrow> m \<in> set ms) \<and>
      (case sel_imos q of None \<Rightarrow> True | Some ns \<Rightarrow> v_imo v \<in> set ns) \<and>
      list_all (\<lambda>c. holds glob c (row_of upper m v))
        (if sel_boxes q = [] then [] else [InBoxes (box_terms (sel_bounded q) max_cells (sel_boxes q))]) \<and>
      (sel_since q \<noteq> zero_time \<longrightarrow> unix_ms (sel_since q) \<le> unix_ms (v_seen v)) \<and>
      (sel_before q \<noteq> zero_time \<longrightarrow> unix_ms (v_seen v) < unix_ms (sel_before q)) \<and>
      (sel_has_pos q \<longrightarrow> v_has_pos v) \<and>
      (case sel_filter q of None \<Rightarrow> True | Some f \<Rightarrow> filter_match f v (sel_now q))"
    using False assms(1)
    by (simp add: where_of_def Let_def answers_def prefix_terms_def contains_terms_def fl [symmetric] del: holds.simps(3))
      (simp add: row_of_def split: option.split)
  show ?thesis
  proof (cases "v_has_pos v")
    case True
    show ?thesis unfolding w mirror_match_terms bx [OF True] using assms(3,4) zero True by metis
  next
    case False
    then show ?thesis unfolding w mirror_match_terms using assms(2,3,4) zero by (cases "sel_boxes q = []") auto
  qed
qed


definition sample_select :: record_query where
  "sample_select = any_query\<lparr>sel_boxes := [\<lparr>b_south = 50, b_west = 0, b_north = 51, b_east = 2\<rparr>], sel_has_pos := True,
     sel_filter := Some \<lparr>f_kinds = Some [''vessel''], f_class = [], f_types = [], f_min_sog = 0, f_has_min_sog = False,
       f_moving_age = hour\<rparr>, sel_now := 2 * hour\<rparr>"

definition sample_ship :: vessel where
  "sample_ship = new_vessel\<lparr>v_has_pos := True, v_lat := 505 / 10, v_lon := 1, v_sog := 7, v_seen := hour + minute\<rparr>"

lemma where_is_match_witness:
  "mirror_match sample_select 5 sample_ship \<and>
   (case where_of id sample_select of
      None \<Rightarrow> False
    | Some (ts, _) \<Rightarrow> list_all (\<lambda>c. holds (\<lambda>_ _. False) c (row_of id 5 sample_ship)) ts)"
proof -
  have "mirror_match sample_select 5 sample_ship"
    by (simp add: mirror_match_def sample_select_def sample_ship_def any_query_def new_vessel_def unix_ms_def
        zero_time_def box_contains_def filter_match_def time_sub_def max_duration_def min_duration_def)
  moreover have "(case where_of id sample_select of
      None \<Rightarrow> False
    | Some (ts, _) \<Rightarrow> list_all (\<lambda>c. holds (\<lambda>_ _. False) c (row_of id 5 sample_ship)) ts) \<longleftrightarrow>
    mirror_match sample_select 5 sample_ship"
    by (rule where_is_match)
      (simp_all add: sample_select_def any_query_def answers_def unix_ms_def apart_def sample_ship_def new_vessel_def
        zero_time_def max_duration_def)
  ultimately show ?thesis by simp
qed

section \<open>MMSI prefixes\<close>

text \<open>The nine digits an MMSI is written with.\<close>

fun digits_of :: "nat \<Rightarrow> nat \<Rightarrow> string" where
  "digits_of 0 n = []"
| "digits_of (Suc k) n = digits_of k (n div 10) @ [digit_char (n mod 10)]"

lemma length_digits_of [simp]: "length (digits_of k n) = k"
  by (induction k arbitrary: n) auto

lemma take_digits_of: "j \<le> k \<Longrightarrow> take j (digits_of k n) = digits_of j (n div 10 ^ (k - j))"
proof (induction k arbitrary: n)
  case (Suc k)
  show ?case
  proof (cases "j = Suc k")
    case False
    then have "take j (digits_of (Suc k) n) = digits_of j (n div 10 div 10 ^ (k - j))" using Suc by simp
    also have "n div 10 div 10 ^ (k - j) = n div 10 ^ (Suc k - j)"
      using False Suc.prems by (simp add: Suc_diff_le div_mult2_eq)
    finally show ?thesis .
  qed simp
qed simp

lemma undec_digits_of: "n < 10 ^ k \<Longrightarrow> undec 0 (digits_of k n) = n"
  by (induction k arbitrary: n) (auto simp: undec_append)

lemma digits_of_undec: "list_all is_digit s \<Longrightarrow> digits_of (length s) (undec 0 s) = s"
proof (induction s rule: rev_induct)
  case (snoc c s)
  have c: "48 \<le> (of_char c :: nat)" "(of_char c :: nat) \<le> 57" using snoc.prems by (auto simp: is_digit_def)
  then have "undec 0 (s @ [c]) = 10 * undec 0 s + (of_char c - 48)" "of_char c - 48 < (10 :: nat)"
    by (simp_all add: undec_append)
  moreover have "digit_char (of_char c - 48) = c" using c by (simp add: digit_char_def)
  ultimately show ?case using snoc by simp
qed simp

text \<open>
  A search by digits finds the MMSIs that start with them: the range \<open>mmsiRange\<close> gives holds
  exactly the numbers below a thousand million whose nine digits, leading zeros included, begin with
  the digits searched for, and every text of one to nine digits has one.
\<close>

theorem mmsi_range_exact:
  assumes "m < 10 ^ 9"
  shows "(case mmsi_range p of
            Some (lo, hi) \<Rightarrow> lo \<le> m \<and> m \<le> hi \<longleftrightarrow> has_prefix (digits_of 9 m) p
          | None \<Rightarrow> \<not> (1 \<le> length p \<and> length p \<le> 9 \<and> list_all is_digit p))"
proof (cases "1 \<le> length p \<and> length p \<le> 9 \<and> list_all is_digit p")
  case False
  then have "mmsi_range p = None"
    by (auto simp: mmsi_range_def parse_uint32_def Let_def Suc_le_eq)
  then show ?thesis using False by simp
next
  case True
  let ?n = "undec 0 p" and ?s = "10 ^ (9 - length p) :: nat"
  have b: "?n < 10 ^ length p" using undec_bound [of p 0] True by simp
  also have "\<dots> \<le> 10 ^ 9" using True by (intro power_increasing) simp_all
  finally have "?n < 2 ^ 32" by simp
  then have r: "mmsi_range p = Some (?n * ?s, (?n + 1) * ?s - 1)"
    using True by (auto simp: mmsi_range_def parse_uint32_def Let_def)
  have "?n * ?s \<le> m \<and> m \<le> (?n + 1) * ?s - 1 \<longleftrightarrow> m div ?s = ?n"
  proof -
    have le_pred: "0 < x \<Longrightarrow> m \<le> x - 1 \<longleftrightarrow> m < x" for x :: nat by auto
    have "0 < ?s" "0 < (?n + 1) * ?s" by simp_all
    then have "m \<le> (?n + 1) * ?s - 1 \<longleftrightarrow> m < (?n + 1) * ?s" by (intro le_pred)
    also have "\<dots> \<longleftrightarrow> m div ?s < ?n + 1" by (simp add: div_less_iff_less_mult)
    finally show ?thesis using less_eq_div_iff_mult_less_eq [of ?s ?n m] by auto
  qed
  also have "\<dots> \<longleftrightarrow> digits_of (length p) (m div ?s) = p"
  proof
    assume "m div ?s = ?n"
    then show "digits_of (length p) (m div ?s) = p" using digits_of_undec True by simp
  next
    assume d: "digits_of (length p) (m div ?s) = p"
    have "10 ^ 9 = 10 ^ length p * ?s" using True by (simp flip: power_add)
    then have "m div ?s < 10 ^ length p" using assms by (simp add: div_less_iff_less_mult)
    then show "m div ?s = ?n" using undec_digits_of [of "m div ?s" "length p"] d by simp
  qed
  also have "\<dots> \<longleftrightarrow> has_prefix (digits_of 9 m) p"
    using take_digits_of [of "length p" 9 m] True by (simp add: has_prefix_def)
  finally show ?thesis by (simp add: r)
qed

lemma mmsi_range_exact_witness:
  "mmsi_range ''00'' = Some (0, 9999999) \<and> (2320000 \<le> (9999999::nat) \<longleftrightarrow> has_prefix (digits_of 9 2320000) ''00'')"
proof -
  have "mmsi_range ''00'' = Some (0, 9999999)"
    by (simp add: mmsi_range_def parse_uint32_def is_digit_def)
  with mmsi_range_exact [of 2320000 "''00''"] show ?thesis by simp
qed

end
