(* ===== verification/Subscriptions.thy ===== *)
theory Subscriptions
  imports Imo
begin

text \<open>
  Stream subscriptions, from \<open>server/stream.go\<close>: reading one from a query (\<open>parseSub\<close>), from a
  \<open>/v1\<close> frame (\<open>serveV1\<close>'s subscribe) and from the aisstream protocol (\<open>parseV0Sub\<close>), and
  matching events against it. \<open>scan4\<close> is \<open>fmt.Sscanf\<close> with four floats; what it reads is finite.
\<close>

declare map_of_eq_Some_iff [simp del]

definition norm_box :: "real \<Rightarrow> real \<Rightarrow> real \<Rightarrow> real \<Rightarrow> bbox" where
  "norm_box a b c d = \<lparr>b_south = min a c, b_west = min b d, b_north = max a c, b_east = max b d\<rparr>"

definition box_in_range :: "bbox \<Rightarrow> bool" where
  "box_in_range b \<longleftrightarrow> \<not> (b_south b < - 90 \<or> b_north b > 90 \<or> b_west b < - 180 \<or> b_east b > 180)"

section \<open>The aisstream protocol\<close>

record v0_sub =
  w_api_key :: string
  w_bounding_boxes :: "real list list list"
  w_filters_ship_mmsi :: "string list"
  w_filter_message_types :: "string list"

record v0_filter =
  o_boxes :: "bbox list"
  o_mmsi :: "mmsi list option"
  o_types :: "string list option"

datatype v0_error = BadKey | Malformed | BoxDenied | MmsisDenied

fun v0_boxes :: "claims \<Rightarrow> real list list list \<Rightarrow> v0_error + bbox list" where
  "v0_boxes cl [] = Inr []"
| "v0_boxes cl (box # rest) =
     (case box of
        [[a, b], [c, d]] \<Rightarrow>
          (let x = norm_box a b c d in
           if \<not> box_in_range x then Inl Malformed
           else if \<not> allows_box cl x then Inl BoxDenied
           else case v0_boxes cl rest of Inl e \<Rightarrow> Inl e | Inr xs \<Rightarrow> Inr (x # xs))
      | _ \<Rightarrow> Inl Malformed)"

definition v0_mmsi :: "string \<Rightarrow> mmsi option" where
  "v0_mmsi s = (case parse_uint32 s of None \<Rightarrow> None | Some n \<Rightarrow> if length s \<noteq> 9 then None else Some (of_nat n))"

definition v0_rest :: "claims \<Rightarrow> v0_sub \<Rightarrow> bbox list \<Rightarrow> v0_error + v0_filter" where
  "v0_rest cl s boxes =
     (if w_filters_ship_mmsi s = [] \<and> \<not> allows_area cl boxes then Inl BoxDenied
      else if \<not> allows_mmsis cl (int (length (w_filters_ship_mmsi s))) then Inl MmsisDenied
      else let ms = map v0_mmsi (w_filters_ship_mmsi s) in
        if None \<in> set ms \<or> \<not> distinct (w_filter_message_types s) then Inl Malformed
        else Inr \<lparr>o_boxes = boxes, o_mmsi = (if ms = [] then None else Some (map the ms)),
                  o_types = (if w_filter_message_types s = [] then None else Some (w_filter_message_types s))\<rparr>)"

text \<open>\<open>None\<close> is a frame that is not JSON of this shape.\<close>

definition parse_v0_sub ::
  "('k, 'p) crypto \<Rightarrow> 'p verifier \<Rightarrow> net \<Rightarrow> string \<Rightarrow> bool \<Rightarrow> v0_sub option \<Rightarrow> string \<Rightarrow> time \<Rightarrow> station_stats \<Rightarrow>
   v0_error + v0_filter \<times> claims" where
  "parse_v0_sub cr v n personal_kid allow_anon data ip now st =
     (case data of
        None \<Rightarrow> Inl Malformed
      | Some s \<Rightarrow>
          if w_api_key s = [] then Inl BadKey
          else case (case verify cr v (w_api_key s) now of
                       Inr c \<Rightarrow> Some c
                     | Inl e \<Rightarrow> if allow_anon then Some (no_claims\<lparr>c_sub := ''anon'', c_role := ''admin''\<rparr>) else None) of
            None \<Rightarrow> Inl BadKey
          | Some c0 \<Rightarrow>
              let c = effective n c0 ip now st in
              if \<not> may c ''subscribe'' \<or> \<not> allows_ip n personal_kid c ip then Inl BadKey
              else if w_bounding_boxes s = [] \<or> 50 < length (w_filters_ship_mmsi s) \<and> c_mmsis c \<le> 50 then Inl Malformed
              else case v0_boxes c (w_bounding_boxes s) of
                Inl e \<Rightarrow> Inl e
              | Inr boxes \<Rightarrow> (case v0_rest c s boxes of Inl e \<Rightarrow> Inl e | Inr f \<Rightarrow> Inr (f, c)))"

definition v0_match :: "v0_filter \<Rightarrow> event \<Rightarrow> bool" where
  "v0_match f ev \<longleftrightarrow>
     \<not> ((case o_mmsi f of None \<Rightarrow> False | Some ms \<Rightarrow> ev_mmsi ev \<notin> set ms) \<or>
        (case o_types f of None \<Rightarrow> False | Some ts \<Rightarrow> ev_type ev \<notin> set ts) \<or> \<not> ev_has_pos ev) \<and>
     list_ex (\<lambda>b. box_contains b (ev_lat ev) (ev_lon ev)) (o_boxes f)"

section \<open>Matching\<close>

text \<open>\<open>joins\<close>: a static report of a followed IMO adds its vessel, up to the cap.\<close>

definition joins :: "v1_sub \<Rightarrow> event \<Rightarrow> bool \<times> v1_sub" where
  "joins s ev =
     (case s_imo s of
        None \<Rightarrow> (False, s)
      | Some counts \<Rightarrow>
          (case ev_packet ev of
             ShipStaticData _ _ _ _ imo _ _ _ _ _ \<Rightarrow>
               (case map_of counts imo of
                  None \<Rightarrow> (False, s)
                | Some n \<Rightarrow>
                    if n \<ge> max_mmsis_per_imo then (False, s)
                    else (True, s\<lparr>s_imo := Some (put imo (n + 1) counts), s_joined := List.insert (ev_mmsi ev) (s_joined s)\<rparr>))
           | _ \<Rightarrow> (False, s)))"

definition v1_match :: "v1_sub \<Rightarrow> event \<Rightarrow> bool \<times> v1_sub" where
  "v1_match s ev =
     (if s_everything s \<or> ev_mmsi ev \<in> set (s_mmsi s) \<or> ev_mmsi ev \<in> set (s_joined s) then (True, s)
      else case joins s ev of
        (True, s') \<Rightarrow> (True, s')
      | (False, s') \<Rightarrow> (ev_has_pos ev \<and> list_ex (\<lambda>b. box_contains b (ev_lat ev) (ev_lon ev)) (s_boxes s), s'))"

fun v1_matches :: "v1_sub \<Rightarrow> event list \<Rightarrow> bool list \<times> v1_sub" where
  "v1_matches s [] = ([], s)"
| "v1_matches s (ev # evs) =
     (case v1_match s ev of (b, s') \<Rightarrow> case v1_matches s' evs of (bs, s'') \<Rightarrow> (b # bs, s''))"

section \<open>Following IMOs\<close>

definition follow_imos :: "imo_source \<Rightarrow> v1_sub \<Rightarrow> imo list \<Rightarrow> find_error + v1_sub" where
  "follow_imos src s imos =
     (if imos = [] then Inr s
      else case resolve_imos src imos of
        Inl e \<Rightarrow> Inl e
      | Inr (out, over) \<Rightarrow>
          Inr (s\<lparr>s_cut := over, s_imo := Some (fold (\<lambda>n. put n (length (get_or [] out n))) imos []),
                 s_mmsi := fold (\<lambda>n ms. fold List.insert (map fst (get_or [] out n)) ms) imos (s_mmsi s)\<rparr>))"

section \<open>Reading a subscription\<close>

datatype sub_error =
    BboxSyntax
  | BboxRange
  | BboxDenied
  | MmsiSyntax
  | ImoSyntax
  | ImoTier
  | ImoEmpty
  | BboxRequired
  | TooManyVessels bool
  | FollowFailed find_error

definition sub_status :: "sub_error \<Rightarrow> nat" where
  "sub_status e = (case e of ImoTier \<Rightarrow> 403 | FollowFailed (StoreFailed _) \<Rightarrow> 500 | _ \<Rightarrow> 400)"

fun parse_boxes :: "(string \<Rightarrow> (real \<times> real \<times> real \<times> real) option) \<Rightarrow> claims \<Rightarrow> string list \<Rightarrow> sub_error + bbox list" where
  "parse_boxes scan4 cl [] = Inr []"
| "parse_boxes scan4 cl (q # qs) =
     (case scan4 q of
        None \<Rightarrow> Inl BboxSyntax
      | Some (a, b, c, d) \<Rightarrow>
          let x = norm_box a b c d in
          if \<not> box_in_range x then Inl BboxRange
          else if \<not> allows_box cl x then Inl BboxDenied
          else case parse_boxes scan4 cl qs of Inl e \<Rightarrow> Inl e | Inr xs \<Rightarrow> Inr (x # xs))"

definition parse_mmsis :: "string \<Rightarrow> mmsi list option" where
  "parse_mmsis q =
     (if q = [] then Some []
      else let ms = map (\<lambda>f. parse_uint32 (trim_space f)) (split_on CHR '','' q) in
        if None \<in> set ms then None else Some (remdups (map (of_nat \<circ> the) ms)))"

definition empty_sub :: v1_sub where
  "empty_sub = \<lparr>s_everything = False, s_boxes = [], s_mmsi = [], s_imo = None, s_joined = [], s_cut = False\<rparr>"

text \<open>
  \<open>bboxes\<close>, \<open>mmsi\<close> and \<open>imo\<close> are the query's values of those names. Sorting and compacting the
  IMOs leaves each once.
\<close>

definition parse_sub ::
  "(string \<Rightarrow> (real \<times> real \<times> real \<times> real) option) \<Rightarrow> imo_source \<Rightarrow> claims \<Rightarrow> string list \<Rightarrow> string \<Rightarrow> string list \<Rightarrow> bool \<Rightarrow>
   sub_error + v1_sub" where
  "parse_sub scan4 src cl bboxes mmsi imo need_filter =
     (case parse_boxes scan4 cl bboxes of
        Inl e \<Rightarrow> Inl e
      | Inr boxes \<Rightarrow>
          (case parse_mmsis mmsi of
             None \<Rightarrow> Inl MmsiSyntax
           | Some ms \<Rightarrow>
               if None \<in> set (map parse_imos imo) then Inl ImoSyntax
               else let given = concat (map (the \<circ> parse_imos) imo);
                        imos = remdups (sort given);
                        everything = (boxes = [] \<and> ms = [] \<and> imos = []) in
                 if given \<noteq> [] \<and> \<not> imo_gate cl then Inl ImoTier
                 else if everything \<and> c_area cl \<noteq> 0 \<and> need_filter then Inl BboxRequired
                 else if \<not> allows_area cl boxes then Inl BboxDenied
                 else if \<not> allows_mmsis cl (int (length ms + length imos)) then Inl (TooManyVessels (imos \<noteq> []))
                 else case follow_imos src (empty_sub\<lparr>s_everything := everything, s_boxes := boxes, s_mmsi := ms\<rparr>) imos of
                   Inl e \<Rightarrow> Inl (FollowFailed e)
                 | Inr s \<Rightarrow> Inr s))"

text \<open>The subscribe frame of the socket; \<open>None\<close> is a frame without \<open>imo\<close>.\<close>

definition ws_subscribe ::
  "imo_source \<Rightarrow> claims \<Rightarrow> bbox list \<Rightarrow> mmsi list \<Rightarrow> imo list option \<Rightarrow> sub_error + v1_sub" where
  "ws_subscribe src cl b mmsi imo =
     (let given = (case imo of None \<Rightarrow> [] | Some ns \<Rightarrow> ns);
          imos = remdups (sort given);
          everything = (b = [] \<and> mmsi = [] \<and> given = []) in
      if everything \<and> c_area cl \<noteq> 0 \<or> b \<noteq> [] \<and> \<not> allows_area cl b \<or> \<not> list_all (allows_box cl) b then Inl BboxDenied
      else if imo = Some [] then Inl ImoEmpty
      else if imos \<noteq> [] \<and> \<not> imo_gate cl then Inl ImoTier
      else if imos \<noteq> [] \<and> \<not> check_imos imos then Inl ImoSyntax
      else if \<not> allows_mmsis cl (int (length mmsi + length imos)) then Inl (TooManyVessels (imos \<noteq> []))
      else case follow_imos src (empty_sub\<lparr>s_everything := everything, s_boxes := b, s_mmsi := remdups mmsi\<rparr>) imos of
        Inl e \<Rightarrow> Inl (FollowFailed e)
      | Inr s \<Rightarrow> Inr s)"

section \<open>What the client is told\<close>

record v1_limits =
  l_conns :: int
  l_rate :: int
  l_area :: real
  l_mmsis :: int
  l_bbox :: "bbox list"
  l_publish :: bool
  l_publish_per_min :: int
  l_publish_frame :: int
  l_connects_per_min :: int

record v1_welcome =
  wl_sub :: string
  wl_role :: string
  wl_feeder :: bool
  wl_limits :: v1_limits

definition max_publish_frame :: int where "max_publish_frame = 1000"

definition welcome_for :: "int \<Rightarrow> int \<Rightarrow> claims \<Rightarrow> bool \<Rightarrow> v1_welcome" where
  "welcome_for connects publishes cl can_publish =
     \<lparr>wl_sub = c_sub cl, wl_role = c_role cl, wl_feeder = c_feeder cl,
      wl_limits = \<lparr>l_conns = c_conns cl, l_rate = c_rate cl, l_area = c_area cl, l_mmsis = c_mmsis cl, l_bbox = c_bbox cl,
        l_publish = can_publish, l_publish_per_min = (if can_publish then publishes else 0),
        l_publish_frame = (if can_publish then max_publish_frame else 0), l_connects_per_min = connects\<rparr>\<rparr>"

definition channel_string :: "char \<Rightarrow> string" where
  "channel_string c = (if c = CHR 0x00 then [] else [c])"

section \<open>Publishing\<close>

text \<open>
  The publish frame: the lines handed to \<open>Ingest\<close> before the frame's cap or the key's rate stops it,
  and whether it was stopped.
\<close>

fun publish_lines :: "nat \<Rightarrow> time \<Rightarrow> string \<Rightarrow> int \<Rightarrow> string list \<Rightarrow> limiter \<Rightarrow> string list \<times> bool \<times> limiter" where
  "publish_lines n now sub mx [] l = ([], False, l)"
| "publish_lines n now sub mx (line # ls) l =
     (if int n \<ge> max_publish_frame then ([], True, l)
      else case allow_max now sub mx l of (ok, l1) \<Rightarrow>
        if \<not> ok then ([], True, l1)
        else case publish_lines (n + 1) now sub mx ls l1 of (out, stopped, l2) \<Rightarrow> (line # out, stopped, l2))"

lemma publish_lines_bound:
  "publish_lines n now sub mx ls l = (out, stopped, l') \<Longrightarrow> int n \<le> max_publish_frame \<Longrightarrow>
   int (n + length out) \<le> max_publish_frame \<and> out = take (length out) ls \<and> (stopped \<longleftrightarrow> length out < length ls)"
  by (induction n now sub mx ls l arbitrary: out stopped l' rule: publish_lines.induct)
    (fastforce split: if_splits prod.splits)+

section \<open>A subscription stays within its claims\<close>

definition upright :: "bbox \<Rightarrow> bool" where
  "upright b \<longleftrightarrow> b_south b \<le> b_north b \<and> b_west b \<le> b_east b"

lemma norm_box_upright [simp]: "upright (norm_box a b c d)"
  by (auto simp: upright_def norm_box_def min_def max_def)

lemma box_area_nonneg: "upright b \<Longrightarrow> 0 \<le> box_area b"
  by (simp add: upright_def box_area_def)

lemma parse_boxes_ok:
  "parse_boxes scan4 cl qs = Inr bs \<Longrightarrow> b \<in> set bs \<Longrightarrow> upright b \<and> box_in_range b \<and> allows_box cl b"
  by (induction scan4 cl qs arbitrary: bs rule: parse_boxes.induct)
    (auto simp: Let_def split: option.splits prod.splits if_splits sum.splits)

lemma v0_boxes_ok:
  "v0_boxes cl qs = Inr bs \<Longrightarrow> b \<in> set bs \<Longrightarrow> upright b \<and> box_in_range b \<and> allows_box cl b"
  by (induction cl qs arbitrary: bs rule: v0_boxes.induct)
    (auto simp: Let_def split: list.splits if_splits sum.splits)

lemma area_of_some:
  assumes "\<forall>b \<in> set bs. upright b"
  shows "sum_list (map box_area (filter P bs)) \<le> sum_list (map box_area bs)"
  using assms by (induction bs) (use box_area_nonneg in \<open>auto intro: add_increasing\<close>)

lemma allows_area_of_some:
  assumes "allows_area cl bs" and "\<forall>b \<in> set bs. upright b" and "0 < c_area cl"
  shows "sum_list (map box_area (filter P bs)) \<le> c_area cl"
  using assms area_of_some [of bs P] by (simp add: allows_area_def)

lemma follow_imos_frame:
  "follow_imos src s imos = Inr s' \<Longrightarrow> s_boxes s' = s_boxes s \<and> s_everything s' = s_everything s \<and> s_joined s' = s_joined s"
  by (auto simp: follow_imos_def split: if_splits sum.splits)

lemma parse_sub_Inr:
  assumes "parse_sub scan4 src cl bboxes mmsi imo need = Inr s"
  obtains ms imos where "parse_boxes scan4 cl bboxes = Inr (s_boxes s)" and "parse_mmsis mmsi = Some ms"
    and "allows_area cl (s_boxes s)" and "allows_mmsis cl (int (length ms + length (imos :: imo list)))"
    and "imos \<noteq> [] \<Longrightarrow> imo_gate cl" and "s_everything s \<longleftrightarrow> s_boxes s = [] \<and> ms = [] \<and> imos = []"
    and "s_everything s \<Longrightarrow> need \<Longrightarrow> c_area cl = 0"
proof -
  obtain boxes where b: "parse_boxes scan4 cl bboxes = Inr boxes"
    using assms by (auto simp: parse_sub_def split: sum.splits)
  obtain ms where m: "parse_mmsis mmsi = Some ms"
    using assms b by (auto simp: parse_sub_def split: option.splits)
  have n: "None \<notin> set (map parse_imos imo)"
    using assms b m by (simp add: parse_sub_def split: if_splits)
  define given where "given = concat (map (the \<circ> parse_imos) imo)"
  define imos where "imos = remdups (sort given)"
  define every where "every = (boxes = [] \<and> ms = [] \<and> imos = [])"
  have e: "imos = [] \<longleftrightarrow> given = []" by (metis imos_def remdups_eq_nil_iff set_empty set_sort)
  have p: "(if given \<noteq> [] \<and> \<not> imo_gate cl then Inl ImoTier
      else if every \<and> c_area cl \<noteq> 0 \<and> need then Inl BboxRequired
      else if \<not> allows_area cl boxes then Inl BboxDenied
      else if \<not> allows_mmsis cl (int (length ms + length imos)) then Inl (TooManyVessels (imos \<noteq> []))
      else case follow_imos src (empty_sub\<lparr>s_everything := every, s_boxes := boxes, s_mmsi := ms\<rparr>) imos of
        Inl e \<Rightarrow> Inl (FollowFailed e) | Inr s \<Rightarrow> Inr s) = Inr s"
    using assms n unfolding parse_sub_def b m sum.case option.case Let_def given_def imos_def every_def by (simp only: if_False)
  then have f: "follow_imos src (empty_sub\<lparr>s_everything := every, s_boxes := boxes, s_mmsi := ms\<rparr>) imos = Inr s"
    and g: "given \<noteq> [] \<longrightarrow> imo_gate cl" "every \<longrightarrow> need \<longrightarrow> c_area cl = 0" "allows_area cl boxes"
      "allows_mmsis cl (int (length ms + length imos))"
    by (auto split: if_splits sum.splits)
  show thesis
    using that [of ms imos] follow_imos_frame [OF f] b m g e by (auto simp: every_def empty_sub_def)
qed


text \<open>The socket's frame has no such bound: a box given inside out subtracts its area from the total.\<close>

definition world :: bbox where "world = \<lparr>b_south = - 90, b_west = - 180, b_north = 90, b_east = 180\<rparr>"
definition inside_out :: bbox where "inside_out = \<lparr>b_south = 90, b_west = - 180, b_north = - 90, b_east = 180\<rparr>"

lemma ws_area_bypass:
  "\<exists>s. ws_subscribe src (anonymous_claims ip) [world, inside_out] [] None = Inr s \<and> world \<in> set (s_boxes s) \<and>
       c_area (anonymous_claims ip) < box_area world"
  by (simp add: ws_subscribe_def anonymous_claims_def no_claims_def allows_area_def box_area_def world_def inside_out_def
      allows_box_def allows_mmsis_def follow_imos_def empty_sub_def)

section \<open>Vessels that join by IMO\<close>

lemma sum_put_succ:
  "is_map m \<Longrightarrow> map_of m k = Some n \<Longrightarrow> sum_list (map snd (put k (Suc n) m)) = Suc (sum_list (map snd m))"
  by (induction m) (auto split: if_splits)

definition counts_ok :: "nat \<Rightarrow> v1_sub \<Rightarrow> bool" where
  "counts_ok len s \<longleftrightarrow>
     (\<exists>counts. s_imo s = Some counts \<and> is_map counts \<and> length counts = len \<and> (\<forall>n c. map_of counts n = Some c \<longrightarrow> c \<le> 10) \<and>
        length (s_joined s) \<le> sum_list (map snd counts))"

lemma joins_cases:
  assumes "joins s ev = (b, s')" and "s_imo s = Some counts"
  shows "s' = s \<or> (\<exists>imo n. map_of counts imo = Some n \<and> n < 10 \<and>
      s' = s\<lparr>s_imo := Some (put imo (Suc n) counts), s_joined := List.insert (ev_mmsi ev) (s_joined s)\<rparr>)"
proof (cases "\<exists>h d nm t imo cs ds dr e dm n. ev_packet ev = ShipStaticData h d nm t imo cs ds dr e dm \<and>
    map_of counts imo = Some n \<and> n < 10")
  case True
  then obtain imo n where p: "map_of counts imo = Some n" "n < 10" "joins s ev =
      (True, s\<lparr>s_imo := Some (put imo (Suc n) counts), s_joined := List.insert (ev_mmsi ev) (s_joined s)\<rparr>)"
    using assms(2) by (auto simp: joins_def max_mmsis_per_imo_def)
  have "s' = s\<lparr>s_imo := Some (put imo (Suc n) counts), s_joined := List.insert (ev_mmsi ev) (s_joined s)\<rparr>"
    using p(3) assms(1) by simp
  with p(1,2) show ?thesis by (intro disjI2 exI conjI)
next
  case False
  then have "s' = s"
    using assms by (cases "ev_packet ev") (auto simp: joins_def max_mmsis_per_imo_def split: option.splits if_splits)
  then show ?thesis by blast
qed

lemma counts_ok_match:
  assumes "counts_ok len s" and "v1_match s ev = (b, s')"
  shows "counts_ok len s'" and "set (s_joined s) \<subseteq> set (s_joined s')"
proof -
  obtain counts where c: "s_imo s = Some counts" "is_map counts" "length counts = len" "\<forall>n c. map_of counts n = Some c \<longrightarrow> c \<le> 10"
    "length (s_joined s) \<le> sum_list (map snd counts)"
    using assms(1) by (auto simp: counts_ok_def)
  have "s' = s \<or> (\<exists>imo n. map_of counts imo = Some n \<and> n < 10 \<and>
      s' = s\<lparr>s_imo := Some (put imo (Suc n) counts), s_joined := List.insert (ev_mmsi ev) (s_joined s)\<rparr>)"
    using assms(2) joins_cases [OF _ c(1), of ev] by (auto simp: v1_match_def split: if_splits prod.splits bool.splits)
  then consider "s' = s" | imo n where "map_of counts imo = Some n" "n < 10"
      "s' = s\<lparr>s_imo := Some (put imo (Suc n) counts), s_joined := List.insert (ev_mmsi ev) (s_joined s)\<rparr>"
    by blast
  then have "counts_ok len s' \<and> set (s_joined s) \<subseteq> set (s_joined s')"
  proof cases
    case 1
    then show ?thesis using assms(1) by simp
  next
    case 2
    have "length (List.insert (ev_mmsi ev) (s_joined s)) \<le> Suc (length (s_joined s))" by (simp add: List.insert_def)
    then show ?thesis
      using c 2 sum_put_succ [OF c(2) 2(1)]
      by (auto simp: counts_ok_def is_map_put map_of_put length_put)
  qed
  then show "counts_ok len s'" "set (s_joined s) \<subseteq> set (s_joined s')" by blast+
qed

lemma counts_ok_matches:
  "counts_ok len s \<Longrightarrow> v1_matches s evs = (bs, s') \<Longrightarrow> counts_ok len s' \<and> set (s_joined s) \<subseteq> set (s_joined s')"
proof (induction s evs arbitrary: bs s' rule: v1_matches.induct)
  case (2 s ev evs)
  obtain b s1 where 1: "v1_match s ev = (b, s1)" by force
  obtain bs1 where r: "v1_matches s1 evs = (bs1, s')" using 2(3) 1 by (auto split: prod.splits)
  note m = counts_ok_match [OF 2(2) 1]
  show ?case using 2(1) [OF 1 [symmetric] m(1) r] m(2) by blast
qed simp

lemma sum_snd_le: "is_map m \<Longrightarrow> (\<forall>n c. map_of m n = Some c \<longrightarrow> c \<le> (10::nat)) \<Longrightarrow> sum_list (map snd m) \<le> 10 * length m"
proof (induction m)
  case (Cons e m)
  obtain k c where e: "e = (k, c)" by (cases e)
  have "map_of m k = None" using Cons.prems(1) by (simp add: e map_of_eq_None_iff)
  then have "map_of m n = Some c' \<Longrightarrow> map_of (e # m) n = Some c'" for n c' by (auto simp: e)
  then have "\<forall>n c. map_of m n = Some c \<longrightarrow> c \<le> 10" using Cons.prems(2) by blast
  moreover have "c \<le> 10" using Cons.prems(2) by (auto simp: e split: if_splits)
  ultimately show ?case using Cons.IH Cons.prems(1) by (simp add: e)
qed simp

lemma follow_counts:
  assumes "follow_imos src s0 imos = Inr s" and "imos \<noteq> []" and "distinct imos" and "s_joined s0 = []"
  shows "counts_ok (length imos) s"
proof -
  obtain out over where r: "resolve_imos src imos = Inr (out, over)"
    and s: "s_imo s = Some (fold (\<lambda>n. put n (length (get_or [] out n))) imos [])" "s_joined s = []"
    using assms by (auto simp: follow_imos_def split: sum.splits)
  have ten: "length (get_or [] out n) \<le> 10" for n using resolve_cands [OF r assms(2)] by auto
  have "is_map (fold (\<lambda>n. put n (length (get_or [] out n))) ns m) \<and>
      length (fold (\<lambda>n. put n (length (get_or [] out n))) ns m) = length m + length ns \<and>
      (\<forall>n c. map_of (fold (\<lambda>n. put n (length (get_or [] out n))) ns m) n = Some c \<longrightarrow> c \<le> 10)"
    if "distinct ns" "is_map m" "\<forall>n \<in> set ns. map_of m n = None" "\<forall>n c. map_of m n = Some c \<longrightarrow> c \<le> 10" for ns m
    using that
  proof (induction ns arbitrary: m)
    case (Cons n ns)
    have "\<forall>x \<in> set ns. map_of (put n (length (get_or [] out n)) m) x = None"
      using Cons.prems by (auto simp: map_of_put)
    moreover have "\<forall>x c. map_of (put n (length (get_or [] out n)) m) x = Some c \<longrightarrow> c \<le> 10"
      using Cons.prems(4) ten by (auto simp: map_of_put)
    ultimately show ?case
      using Cons.IH [of "put n (length (get_or [] out n)) m"] Cons.prems by (simp add: is_map_put length_put)
  qed simp
  from this [of imos "[]"] show ?thesis using assms(3) by (simp add: counts_ok_def s)
qed

text \<open>
  Following an IMO stays bounded on a stream: whatever events come after the subscription, at most
  ten vessels are followed for each IMO asked for, those found at the start included, so at most ten
  times as many join as were asked for; and a vessel that has joined is matched from then on.
\<close>

theorem followed_vessels_bounded:
  assumes "follow_imos src s0 imos = Inr s" and "imos \<noteq> []" and "distinct imos" and "s_joined s0 = []"
    and "v1_matches s evs = (bs, s')"
  shows "(\<forall>n c. map_of (the (s_imo s')) n = Some c \<longrightarrow> c \<le> 10) \<and> length (s_joined s') \<le> 10 * length imos \<and>
    (\<forall>ev. ev_mmsi ev \<in> set (s_joined s') \<longrightarrow> v1_match s' ev = (True, s'))"
proof -
  have ok: "counts_ok (length imos) s'"
    using counts_ok_matches [OF follow_counts [OF assms(1-4)] assms(5)] by blast
  then obtain counts where c: "s_imo s' = Some counts" "is_map counts" "length counts = length imos"
    "\<forall>n c. map_of counts n = Some c \<longrightarrow> c \<le> 10" "length (s_joined s') \<le> sum_list (map snd counts)"
    by (auto simp: counts_ok_def)
  have "length (s_joined s') \<le> 10 * length imos" using c(5) sum_snd_le [OF c(2,4)] c(3) by simp
  then show ?thesis using c by (simp add: v1_match_def)
qed


section \<open>Concrete subscriptions\<close>

definition corner_scan :: "string \<Rightarrow> (real \<times> real \<times> real \<times> real) option" where
  "corner_scan q = (if q = ''5,5,0,0'' then Some (5, 5, 0, 0) else None)"

lemma sample_query:
  "parse_sub corner_scan sample_imos (anonymous_claims phone) [''5,5,0,0''] [] [] True =
     Inr (empty_sub\<lparr>s_boxes := [\<lparr>b_south = 0, b_west = 0, b_north = 5, b_east = 5\<rparr>]\<rparr>)"
  by (simp add: parse_sub_def corner_scan_def norm_box_def box_in_range_def allows_box_def anonymous_claims_def
      no_claims_def parse_mmsis_def allows_area_def box_area_def allows_mmsis_def follow_imos_def empty_sub_def)


definition followed_sub :: v1_sub where
  "followed_sub = empty_sub\<lparr>s_imo := Some [(9241061, 2)], s_mmsi := [2, 3]\<rparr>"

lemma sample_followed: "follow_imos sample_imos empty_sub [9241061] = Inr followed_sub"
  by (simp add: follow_imos_def sample_resolved get_or_def empty_sub_def followed_sub_def)

definition static_from :: "mmsi \<Rightarrow> imo \<Rightarrow> event" where
  "static_from m n = (new_event 0 0 [] [] CHR ''A'' []
      (ShipStaticData \<lparr>h_message_id = 5, h_user_id = m\<rparr> True [] 0 n [] [] 0 no_eta no_dimension) [])\<lparr>ev_mmsi := m\<rparr>"

lemma sample_joined:
  "v1_matches followed_sub [static_from 77 9241061] =
     ([True], followed_sub\<lparr>s_imo := Some [(9241061, 3)], s_joined := [77]\<rparr>)"
  by (simp add: v1_match_def joins_def followed_sub_def empty_sub_def static_from_def new_event_def max_mmsis_per_imo_def)

lemma followed_vessels_bounded_witness:
  "v1_match (followed_sub\<lparr>s_imo := Some [(9241061, 3)], s_joined := [77]\<rparr>) (static_from 77 0) =
     (True, followed_sub\<lparr>s_imo := Some [(9241061, 3)], s_joined := [77]\<rparr>)"
proof -
  have "ev_mmsi (static_from 77 0) \<in> set (s_joined (followed_sub\<lparr>s_imo := Some [(9241061, 3)], s_joined := [77]\<rparr>))"
    by (simp add: static_from_def)
  then show ?thesis
    using followed_vessels_bounded [OF sample_followed _ _ _ sample_joined] by (simp add: empty_sub_def)
qed

end
