(* ===== verification/Names.thy ===== *)
theory Names
  imports Access
begin

text \<open>
  Station names and the minting of personal tokens, from \<open>server/names.go\<close> with \<open>mintPersonal\<close> of
  \<open>server/auth.go\<close>.

  \<open>unicode\<close> holds Go's decoding of a string into runes and back, and its character tables; the base64 decoder
  and the signature check are those of \<open>crypto\<close>. The stations table of the vessel record is an association
  list by station id; \<open>fails\<close> tells for which stations an insert fails.
\<close>

declare map_of_eq_Some_iff [simp del]

definition own_settle_time :: duration where "own_settle_time = hour"
definition name_max_runes :: nat where "name_max_runes = 40"
definition name_changes_day :: nat where "name_changes_day = 10"
definition mint_skew :: duration where "mint_skew = 5 * minute"
definition label_min_points :: nat where "label_min_points = 5"

record station_meta =
  sm_near :: string
  sm_own :: mmsi
  sm_name :: string
  sm_vessel_name :: string
  sm_signed_ts :: int
  sm_signed_at :: int
  sm_own_name :: string

definition blank_meta :: station_meta where
  "blank_meta = \<lparr>sm_near = [], sm_own = 0, sm_name = [], sm_vessel_name = [], sm_signed_ts = 0, sm_signed_at = 0, sm_own_name = []\<rparr>"

record station_names =
  sn_m :: "(string \<times> station_meta) list"
  sn_dirty :: "string list"
  sn_locked :: "string list"
  sn_changes :: "(string \<times> int list) list"
  sn_store :: bool

definition meta :: "string \<Rightarrow> station_names \<Rightarrow> station_meta" where
  "meta i n = get_or blank_meta (sn_m n) i"

definition set_meta :: "string \<Rightarrow> station_meta \<Rightarrow> station_names \<Rightarrow> station_names" where
  "set_meta i m n = n\<lparr>sn_m := put i m (sn_m n)\<rparr>"

definition mark_dirty :: "string \<Rightarrow> station_names \<Rightarrow> station_names" where
  "mark_dirty i n = n\<lparr>sn_dirty := List.insert i (sn_dirty n)\<rparr>"

section \<open>Saving\<close>

type_synonym stations_table = "(string \<times> station_meta) list"

text \<open>The columns of a row: the vessel record's name of the own vessel is not among them.\<close>

definition stored_row :: "station_meta \<Rightarrow> station_meta" where
  "stored_row m = m\<lparr>sm_own_name := []\<rparr>"

text \<open>\<open>attach\<close> reads the table; \<open>write\<close> takes the rows under the lock, then inserts them one by one.\<close>

definition new_station_names :: "string list \<Rightarrow> station_names" where
  "new_station_names locked = \<lparr>sn_m = [], sn_dirty = [], sn_locked = locked, sn_changes = [], sn_store = False\<rparr>"

definition attach_names :: "stations_table \<Rightarrow> station_names \<Rightarrow> station_names" where
  "attach_names db n = n\<lparr>sn_m := fold (\<lambda>(i, m). put i (stored_row m)) db (sn_m n), sn_store := True\<rparr>"

definition write_take :: "string list \<Rightarrow> station_names \<Rightarrow> (string \<times> station_meta) list \<times> station_names" where
  "write_take ids n =
     (if \<not> sn_store n \<or> ids = [] then ([], n)
      else (concat (map (\<lambda>i. case map_of (sn_m n) i of None \<Rightarrow> [] | Some m \<Rightarrow> [(i, m)]) ids),
      n\<lparr>sn_dirty := filter (\<lambda>i. \<not> (i \<in> set ids \<and> map_of (sn_m n) i \<noteq> None)) (sn_dirty n)\<rparr>))"

fun write_row :: "(string \<Rightarrow> bool) \<Rightarrow> string \<times> station_meta \<Rightarrow>
    bool \<times> station_names \<times> stations_table \<Rightarrow> bool \<times> station_names \<times> stations_table" where
  "write_row fails (i, m) (err, n, db) =
     (if fails i then (True, mark_dirty i n, db) else (err, n, put i (stored_row m) db))"

definition write_names :: "(string \<Rightarrow> bool) \<Rightarrow> string list \<Rightarrow> station_names \<times> stations_table \<Rightarrow>
    bool \<times> station_names \<times> stations_table" where
  "write_names fails ids st =
     (case write_take ids (fst st) of (rows, n1) \<Rightarrow> fold (write_row fails) rows (False, n1, snd st))"

definition flush_names :: "(string \<Rightarrow> bool) \<Rightarrow> station_names \<times> stations_table \<Rightarrow>
    bool \<times> station_names \<times> stations_table" where
  "flush_names fails st = write_names fails (sn_dirty (fst st)) st"

section \<open>What a station is called\<close>

definition decorate :: "station_names \<Rightarrow> station_row \<Rightarrow> station_row" where
  "decorate n r =
     (case map_of (sn_m n) (w_station r) of
        None \<Rightarrow> r
      | Some m \<Rightarrow>
          let r1 = r\<lparr>w_near := sm_near m, w_mmsi := sm_own m\<rparr> in
          if w_station r \<in> set (sn_locked n) then r1
          else if sm_name m \<noteq> [] then r1\<lparr>w_name := sm_name m, w_name_from := ''operator''\<rparr>
          else if sm_vessel_name m \<noteq> [] then r1\<lparr>w_name := sm_vessel_name m, w_name_from := ''vessel''\<rparr>
          else if sm_own_name m \<noteq> [] then r1\<lparr>w_name := sm_own_name m, w_name_from := ''vessel''\<rparr>
          else r1)"

text \<open>The latest of the candidates with a country, and how many there are.\<close>

definition latest_own :: "(mmsi \<times> int) list \<Rightarrow> mmsi \<times> int \<times> nat" where
  "latest_own cands =
     fold (\<lambda>(m, t) (latest, lt, n).
       if flag_of m = [] then (latest, lt, n)
       else if t > lt then (m, t, n + 1) else (latest, lt, n + 1)) cands (0, 0, 0)"

definition decide_own :: "(mmsi \<times> int) list \<Rightarrow> time \<Rightarrow> mmsi \<times> bool" where
  "decide_own cands now =
     (case latest_own cands of (latest, _, n) \<Rightarrow>
        if n = 0 then (0, False)
        else if list_ex (\<lambda>(m, t). m \<noteq> latest \<and> flag_of m \<noteq> [] \<and> t > unix (now - own_settle_time)) cands then (0, True)
        else (latest, True))"

definition refresh_station :: "time \<Rightarrow> string \<times> (mmsi \<times> int) list \<Rightarrow> station_names \<Rightarrow> station_names" where
  "refresh_station now ic n =
     (case decide_own (snd ic) now of (m, decided) \<Rightarrow>
        if decided \<and> sm_own (meta (fst ic) n) \<noteq> m
        then mark_dirty (fst ic) (set_meta (fst ic) ((meta (fst ic) n)\<lparr>sm_own := m\<rparr>) n)
        else set_meta (fst ic) (meta (fst ic) n) n)"

text \<open>\<open>refreshOwn\<close>; \<open>vessel_name\<close> answers \<open>None\<close> when the record cannot be read.\<close>

definition refresh_own :: "(mmsi \<Rightarrow> string option) \<Rightarrow> time \<Rightarrow> station_stats \<Rightarrow> station_names \<Rightarrow> station_names" where
  "refresh_own vessel_name now st n =
     (let owns = (if ss_own_pending st then [] else own_ships_of st);
          n1 = fold (refresh_station now) owns n
      in n1\<lparr>sn_m := map (\<lambda>(i, m). (i, if sm_own m = 0 then m
              else case vessel_name (sm_own m) of None \<Rightarrow> m | Some chosen \<Rightarrow> m\<lparr>sm_own_name := chosen\<rparr>)) (sn_m n1)\<rparr>)"

text \<open>\<open>refreshLabels\<close>, given each station's points; \<open>near\<close> is the place nearest their median.\<close>

definition refresh_labels :: "((real \<times> real) list \<Rightarrow> string) \<Rightarrow> (string \<times> (real \<times> real) list) list \<Rightarrow> station_names \<Rightarrow> station_names" where
  "refresh_labels near points n =
     fold (\<lambda>(i, pts) n.
       if length pts < label_min_points then n
       else if sm_near (meta i n) \<noteq> near pts then mark_dirty i (set_meta i ((meta i n)\<lparr>sm_near := near pts\<rparr>) n)
       else set_meta i (meta i n) n) points n"

section \<open>Names an operator may choose\<close>

type_synonym rune = int

record unicode =
  u_runes :: "string \<Rightarrow> rune list"
  u_string :: "rune list \<Rightarrow> string"
  u_space :: "rune \<Rightarrow> bool"
  u_letter :: "rune \<Rightarrow> bool"
  u_mark :: "rune \<Rightarrow> bool"
  u_digit :: "rune \<Rightarrow> bool"
  u_lower :: "rune \<Rightarrow> rune"
  u_fold :: "rune \<Rightarrow> rune"

text \<open>\<open>strings.FieldsFunc\<close>, and \<open>strings.Join\<close> with one blank.\<close>

function fields_func :: "('a \<Rightarrow> bool) \<Rightarrow> 'a list \<Rightarrow> 'a list list" where
  "fields_func f [] = []"
| "fields_func f (c # s) =
     (if f c then fields_func f s
      else (c # takeWhile (\<lambda>x. \<not> f x) s) # fields_func f (dropWhile (\<lambda>x. \<not> f x) s))"
  by pat_completeness auto
termination
  by (relation "measure (\<lambda>(_, s). length s)") (auto simp: le_imp_less_Suc length_dropWhile_le)

fun join_blank :: "rune list list \<Rightarrow> rune list" where
  "join_blank [] = []"
| "join_blank [w] = w"
| "join_blank (w # ws) = w @ 32 # join_blank ws"

datatype name_error = NameTooLong | NameCharacters | NameWebAddress | NameReserved

definition name_rune :: "unicode \<Rightarrow> rune \<Rightarrow> bool" where
  "name_rune u r \<longleftrightarrow> u_letter u r \<or> u_mark u r \<or> u_digit u r \<or>
     r \<in> set (map (\<lambda>c. int (of_char c :: nat)) ('' .,'' @ [CHR 0x27] @ ''-&()/#''))"

definition reserved_name :: "unicode \<Rightarrow> rune list \<Rightarrow> bool" where
  "reserved_name u lower \<longleftrightarrow>
     list_ex (contains_str (u_string u lower)) [''open waters'', ''openwaters'', ''aiscast''] \<or>
     (let ws = '' '' @ u_string u (join_blank (fields_func (\<lambda>r. \<not> u_letter u r \<and> \<not> u_digit u r) lower)) @ '' ''
      in list_ex (\<lambda>w. contains_str ws ('' '' @ w @ '' ''))
           [''official'', ''admin'', ''moderator'', ''uscg'', ''coast guard'', ''noaa''])"

definition normalize_name :: "unicode \<Rightarrow> string \<Rightarrow> name_error + string" where
  "normalize_name u s =
     (let rs = join_blank (fields_func (u_space u) (u_runes u s)) in
      if rs = [] then Inr []
      else if length rs > name_max_runes then Inl NameTooLong
      else if \<not> list_all (name_rune u) rs then Inl NameCharacters
      else if contains_str (u_string u (map (u_lower u) rs)) ''www.'' then Inl NameWebAddress
      else if reserved_name u (map (u_lower u) rs) then Inl NameReserved
      else Inr (u_string u rs))"

section \<open>Minting\<close>

record mint_request =
  mr_pubkey :: string
  mr_bind_ip :: bool
  mr_name :: "string option"
  mr_vessel_name :: "string option"
  mr_ts :: int
  mr_sig :: string

definition deref :: "string option \<Rightarrow> string" where
  "deref s = (case s of None \<Rightarrow> [] | Some x \<Rightarrow> x)"

definition int_text :: "int \<Rightarrow> string" where
  "int_text n = (if n < 0 then CHR ''-'' # dec (nat (- n)) else dec (nat n))"

definition mint_signature :: "string \<Rightarrow> int \<Rightarrow> bool \<Rightarrow> string \<Rightarrow> string \<Rightarrow> string" where
  "mint_signature pubkey ts bind_ip chosen vessel_name =
     ''aiscast-key'' @ [CHR 0x0A] @ pubkey @ [CHR 0x0A] @ int_text ts @ [CHR 0x0A] @
     (if bind_ip then ''1'' else ''0'') @ [CHR 0x0A] @ chosen @ [CHR 0x0A] @ vessel_name"

datatype check_error = NameNeedsSignature | KeySigns | BadSignature | TsSkewed | TsNotLater

definition key_station :: "string \<Rightarrow> string" where
  "key_station pubkey = ''station:ed25519:'' @ pubkey"

text \<open>\<open>check_mint\<close> answers the refusal, if any, and the names after it.\<close>

definition check_mint ::
  "(string \<Rightarrow> string option) \<Rightarrow> (string \<Rightarrow> string \<Rightarrow> string \<Rightarrow> bool) \<Rightarrow> mint_request \<Rightarrow> time \<Rightarrow> station_names \<Rightarrow>
   check_error option \<times> station_names" where
  "check_mint decode verifies req now n =
     (let i = key_station (mr_pubkey req); m = map_of (sn_m n) i in
      if mr_sig req = [] then
        (if mr_name req \<noteq> None \<or> mr_vessel_name req \<noteq> None then (Some NameNeedsSignature, n)
         else case m of
           Some x \<Rightarrow> if sm_signed_at x \<noteq> 0 then (Some KeySigns, n) else (None, n)
         | None \<Rightarrow> (None, n))
      else
        let msg = mint_signature (mr_pubkey req) (mr_ts req) (mr_bind_ip req) (deref (mr_name req)) (deref (mr_vessel_name req));
            pk = (case decode (mr_pubkey req) of Some b \<Rightarrow> b | None \<Rightarrow> []);
            d = time_sub now (mr_ts req * second)
        in if (case decode (mr_sig req) of None \<Rightarrow> True | Some sig \<Rightarrow> length pk \<noteq> 32 \<or> \<not> verifies pk msg sig)
           then (Some BadSignature, n)
           else if d > mint_skew \<or> d < - mint_skew then (Some TsSkewed, n)
           else if (case m of Some x \<Rightarrow> mr_ts req \<le> sm_signed_ts x | None \<Rightarrow> False) then (Some TsNotLater, n)
           else
             let x = meta i n;
                 x1 = x\<lparr>sm_signed_ts := mr_ts req,
                        sm_signed_at := (if sm_signed_at x = 0 then unix now else sm_signed_at x)\<rparr>
             in (None, mark_dirty i (set_meta i x1 n)))"

datatype apply_error = NameError name_error | StationLocked | NameTaken | TooManyChanges

definition same_name :: "unicode \<Rightarrow> string \<Rightarrow> string \<Rightarrow> bool" where
  "same_name u a b \<longleftrightarrow> map (u_fold u) (u_runes u a) = map (u_fold u) (u_runes u b)"

definition name_station :: "string option \<Rightarrow> string option \<Rightarrow> string \<Rightarrow> station_names \<Rightarrow> station_names" where
  "name_station chosen vessel i n =
     (let m = meta i n;
          m1 = (case chosen of Some x \<Rightarrow> m\<lparr>sm_name := x\<rparr> | None \<Rightarrow> m);
          m2 = (case vessel of Some x \<Rightarrow> m1\<lparr>sm_vessel_name := x\<rparr> | None \<Rightarrow> m1)
      in mark_dirty i (set_meta i m2 n))"

definition apply_names ::
  "unicode \<Rightarrow> string list \<Rightarrow> mint_request \<Rightarrow> time \<Rightarrow> station_names \<Rightarrow> apply_error option \<times> station_names" where
  "apply_names u ids req now n =
     (if mr_name req = None \<and> mr_vessel_name req = None then (None, n)
      else case normalize_name u (deref (mr_name req)) of
        Inl e \<Rightarrow> (Some (NameError e), n)
      | Inr chosen \<Rightarrow>
          (case normalize_name u (deref (mr_vessel_name req)) of
             Inl e \<Rightarrow> (Some (NameError e), n)
           | Inr vessel \<Rightarrow>
               if list_ex (\<lambda>i. i \<in> set (sn_locked n)) ids then (Some StationLocked, n)
               else if mr_name req \<noteq> None \<and> chosen \<noteq> [] \<and>
                       list_ex (\<lambda>(i, m). i \<notin> set ids \<and> same_name u (sm_name m) chosen) (sn_m n) then (Some NameTaken, n)
               else
                 let day = unix (now - 24 * hour); key = ids ! 0;
                     recent = filter (\<lambda>t. t > day) (get_or [] (sn_changes n) key)
                 in if length recent \<ge> name_changes_day
                    then (Some TooManyChanges, n\<lparr>sn_changes := put key recent (sn_changes n)\<rparr>)
                    else (None, fold (name_station (map_option (\<lambda>_. chosen) (mr_name req)) (map_option (\<lambda>_. vessel) (mr_vessel_name req)))
                                  ids (n\<lparr>sn_changes := put key (recent @ [unix now]) (sn_changes n)\<rparr>))))"

datatype mint_error =
    NotEnabled
  | BadPubkey
  | MintRefused check_error
  | CouldNotSave
  | NotSigned token_error

definition mint_status :: "mint_error \<Rightarrow> nat" where
  "mint_status e = (case e of NotEnabled \<Rightarrow> 501 | BadPubkey \<Rightarrow> 400 | MintRefused _ \<Rightarrow> 403 | _ \<Rightarrow> 500)"

text \<open>
  \<open>mintPersonal\<close>: \<open>issuer\<close> is the personal issuer's kid and key. The answer is the token, its claims and why a
  name was not stored.
\<close>

definition mint_ids :: "net \<Rightarrow> string \<Rightarrow> mint_request \<Rightarrow> string list" where
  "mint_ids net ip req =
     station_source (''ed25519:'' @ mr_pubkey req) # (if mr_bind_ip req then [udp_station net ip] else [])"

definition mint_claims :: "string \<Rightarrow> string \<Rightarrow> mint_request \<Rightarrow> time \<Rightarrow> claims" where
  "mint_claims kid ip req now =
     (let c = personal_claims kid (''ed25519:'' @ mr_pubkey req) now in
      if mr_bind_ip req then c\<lparr>c_udp := [ip]\<rparr> else c)"

definition pubkey_ok :: "('k, string) crypto \<Rightarrow> mint_request \<Rightarrow> bool" where
  "pubkey_ok cr req \<longleftrightarrow> (case unb64 cr (mr_pubkey req) of None \<Rightarrow> False | Some pk \<Rightarrow> length pk = 32)"

definition mint_personal ::
  "('k, string) crypto \<Rightarrow> net \<Rightarrow> unicode \<Rightarrow> (string \<times> 'k) option \<Rightarrow> (string \<Rightarrow> bool) \<Rightarrow>
   string \<Rightarrow> mint_request \<Rightarrow> time \<Rightarrow> station_names \<times> stations_table \<Rightarrow>
   (mint_error + string \<times> claims \<times> apply_error option) \<times> station_names \<times> stations_table" where
  "mint_personal cr net u issuer fails ip req now st =
     (case issuer of
        None \<Rightarrow> (Inl NotEnabled, st)
      | Some (kid, priv) \<Rightarrow>
          if \<not> pubkey_ok cr req then (Inl BadPubkey, st)
          else case check_mint (unb64 cr) (ed_verify cr) req now (fst st) of
            (Some e, n1) \<Rightarrow> (Inl (MintRefused e), n1, snd st)
          | (None, n1) \<Rightarrow>
              (case (if mr_sig req = [] then (None, False, n1, snd st)
                     else case apply_names u (mint_ids net ip req) req now n1 of
                       (name_err, n2) \<Rightarrow> (name_err, write_names fails (mint_ids net ip req) (n2, snd st))) of
                 (name_err, lost, st3) \<Rightarrow>
                   if lost then (Inl CouldNotSave, st3)
                   else case sign_token cr priv (mint_claims kid ip req now) of
                     Inl e \<Rightarrow> (Inl (NotSigned e), st3)
                   | Inr tok \<Rightarrow> (Inr (tok, mint_claims kid ip req now, name_err), st3)))"

text \<open>What happens to a server's names and table: an operation, or a restart, which reads the table again.\<close>

inductive names_step ::
  "('k, string) crypto \<Rightarrow> net \<Rightarrow> unicode \<Rightarrow> (string \<times> 'k) option \<Rightarrow>
   station_names \<times> stations_table \<Rightarrow> station_names \<times> stations_table \<Rightarrow> bool"
  for cr :: "('k, string) crypto" and net :: net and u :: unicode and issuer :: "(string \<times> 'k) option" where
  names_mint: "names_step cr net u issuer st (snd (mint_personal cr net u issuer fails ip req now st))"
| names_own: "names_step cr net u issuer (n, db) (refresh_own vessel_name now ss n, db)"
| names_labels: "names_step cr net u issuer (n, db) (refresh_labels near points n, db)"
| names_flush: "names_step cr net u issuer st (snd (flush_names fails st))"
| names_restart: "names_step cr net u issuer (n, db) (attach_names db (new_station_names locked), db)"

section \<open>The check of a mint\<close>

definition unsigned_ok :: "mint_request \<Rightarrow> station_names \<Rightarrow> bool" where
  "unsigned_ok req n \<longleftrightarrow> mr_sig req = [] \<and> mr_name req = None \<and> mr_vessel_name req = None \<and>
     sm_signed_at (meta (key_station (mr_pubkey req)) n) = 0"

definition signed_ok :: "(string \<Rightarrow> string option) \<Rightarrow> (string \<Rightarrow> string \<Rightarrow> string \<Rightarrow> bool) \<Rightarrow> mint_request \<Rightarrow> time \<Rightarrow>
    station_names \<Rightarrow> bool" where
  "signed_ok decode verifies req now n \<longleftrightarrow> mr_sig req \<noteq> [] \<and>
     (\<exists>pk sig. decode (mr_pubkey req) = Some pk \<and> length pk = 32 \<and> decode (mr_sig req) = Some sig \<and>
        verifies pk (mint_signature (mr_pubkey req) (mr_ts req) (mr_bind_ip req) (deref (mr_name req)) (deref (mr_vessel_name req))) sig) \<and>
     \<bar>time_sub now (mr_ts req * second)\<bar> \<le> mint_skew \<and>
     (\<forall>m. map_of (sn_m n) (key_station (mr_pubkey req)) = Some m \<longrightarrow> sm_signed_ts m < mr_ts req)"

definition note_signed :: "mint_request \<Rightarrow> time \<Rightarrow> station_names \<Rightarrow> station_names" where
  "note_signed req now n =
     (let i = key_station (mr_pubkey req); m = meta i n in
      mark_dirty i (set_meta i (m\<lparr>sm_signed_ts := mr_ts req,
        sm_signed_at := (if sm_signed_at m = 0 then unix now else sm_signed_at m)\<rparr>) n))"

lemma check_mint_signed_ok:
  assumes "mr_sig req \<noteq> []"
  shows "signed_ok decode verifies req now n \<Longrightarrow> check_mint decode verifies req now n = (None, note_signed req now n)"
    and "\<not> signed_ok decode verifies req now n \<Longrightarrow> \<exists>e. check_mint decode verifies req now n = (Some e, n)"
  using assms unfolding check_mint_def signed_ok_def note_signed_def Let_def
  by (auto split: option.split)

lemma check_mint_unsigned:
  assumes "mr_sig req = []"
  shows "unsigned_ok req n \<Longrightarrow> check_mint decode verifies req now n = (None, n)"
    and "\<not> unsigned_ok req n \<Longrightarrow> \<exists>e. check_mint decode verifies req now n = (Some e, n)"
  using assms unfolding check_mint_def unsigned_ok_def Let_def meta_def get_or_def
  by (auto simp: blank_meta_def split: option.split)

lemma check_mint_cases:
  obtains (refused) e where "check_mint decode verifies req now n = (Some e, n)"
  | (unsigned) "unsigned_ok req n" "mr_sig req = []" "check_mint decode verifies req now n = (None, n)"
  | (signed) "signed_ok decode verifies req now n" "mr_sig req \<noteq> []"
      "check_mint decode verifies req now n = (None, note_signed req now n)"
  by (cases "mr_sig req = []"; cases "signed_ok decode verifies req now n"; cases "unsigned_ok req n")
    (use check_mint_signed_ok [of req] check_mint_unsigned [of req] that in blast)+

section \<open>Rules that hold of every row\<close>

lemmas names_defs = meta_def set_meta_def mark_dirty_def get_or_def

lemma meta_set_meta [simp]: "meta j (set_meta i m n) = (if j = i then m else meta j n)"
  by (simp add: meta_def set_meta_def get_or_def map_of_put)

lemma meta_mark_dirty [simp]: "meta j (mark_dirty i n) = meta j n"
  by (simp add: meta_def mark_dirty_def)

lemma store_frame [simp]:
  "sn_store (set_meta i m n) = sn_store n" "sn_store (mark_dirty i n) = sn_store n"
  by (simp_all add: set_meta_def mark_dirty_def)

lemma write_take_frame:
  assumes "write_take ids n = (rows, n1)"
  shows "meta j n1 = meta j n \<and> sn_store n1 = sn_store n \<and>
         (sn_store n \<longrightarrow> set rows = {(i, m). i \<in> set ids \<and> map_of (sn_m n) i = Some m})"
  using assms by (auto simp: write_take_def meta_def split: if_splits option.splits)

lemma write_take_rows:
  "write_take ids n = (rows, n1) \<Longrightarrow> (i, m) \<in> set rows \<Longrightarrow> m = meta i n"
  by (auto simp: write_take_def meta_def get_or_def split: if_splits option.splits)

text \<open>What holds of the rows in memory and in the table, and which edits of a row keep it.\<close>

definition meta_rows_ok :: "(string \<Rightarrow> station_meta \<Rightarrow> bool) \<Rightarrow> station_names \<Rightarrow> bool" where
  "meta_rows_ok Q n \<longleftrightarrow> (\<forall>i. Q i (meta i n))"

definition table_ok :: "(string \<Rightarrow> station_meta \<Rightarrow> bool) \<Rightarrow> stations_table \<Rightarrow> bool" where
  "table_ok Q db \<longleftrightarrow> is_map db \<and> (\<forall>i. Q i (get_or blank_meta db i))"

lemma table_ok_put: "table_ok Q db \<Longrightarrow> Q i m \<Longrightarrow> table_ok Q (put i m db)"
  by (auto simp: table_ok_def get_or_def map_of_put is_map_put)

lemma meta_rows_ok_set: "meta_rows_ok Q n \<Longrightarrow> Q i m \<Longrightarrow> meta_rows_ok Q (set_meta i m n)"
  by (simp add: meta_rows_ok_def)

lemma meta_rows_ok_dirty [simp]: "meta_rows_ok Q (mark_dirty i n) = meta_rows_ok Q n"
  by (simp add: meta_rows_ok_def)

lemma meta_rows_okD: "meta_rows_ok Q n \<Longrightarrow> Q i (meta i n)"
  by (simp add: meta_rows_ok_def)

lemma write_row_frame:
  assumes "fold (write_row fails) rows (err, n, db) = (err', n', db')"
  shows "(\<forall>j. meta j n' = meta j n) \<and> sn_store n' = sn_store n \<and> (err \<longrightarrow> err')"
  using assms
proof (induction rows arbitrary: err n db)
  case (Cons r rows)
  show ?case
    using Cons.prems Cons.IH by (cases r) (auto split: if_splits)
qed simp

lemma write_rows_saved:
  assumes "fold (write_row fails) rows (err, n, db) = (False, n', db')"
  shows "\<not> err \<and> (\<forall>i. map_of db' i = (if i \<in> fst ` set rows
            then map_option stored_row (map_of (rev rows) i) else map_of db i))"
  using assms
proof (induction rows arbitrary: err n db)
  case (Cons r rows)
  obtain i m where r: "r = (i, m)"
    by fastforce
  show ?case
  proof (cases "fails i")
    case True
    then have "fold (write_row fails) rows (True, mark_dirty i n, db) = (False, n', db')"
      using Cons.prems r by simp
    from Cons.IH [OF this] show ?thesis
      by simp
  next
    case False
    then have "fold (write_row fails) rows (err, n, put i (stored_row m) db) = (False, n', db')"
      using Cons.prems r by simp
    from Cons.IH [OF this] show ?thesis
      using r by (auto simp: map_of_put map_add_def map_of_eq_None_iff split: option.splits)
        (metis image_eqI list.set_map map_of_eq_None_iff option.distinct(1) set_rev)+
  qed
qed simp

lemma meta_restart:
  assumes "is_map db"
  shows "meta i (attach_names db (new_station_names locked)) = stored_row (get_or blank_meta db i)"
proof -
  have "map_of (fold (\<lambda>(i, m). put i (stored_row m)) rows ms) i =
      (case map_of rows i of None \<Rightarrow> map_of ms i | Some m \<Rightarrow> Some (stored_row m))" if "is_map rows" for rows ms
    using that by (induction rows arbitrary: ms) (auto simp: map_of_put map_of_eq_None_iff [symmetric] split: option.split)
  from this [OF assms] show ?thesis
    by (simp add: attach_names_def new_station_names_def meta_def get_or_def split: option.split)
      (simp add: stored_row_def blank_meta_def)
qed

lemma write_rows_is_map:
  "fold (write_row fails) rows (err, n, db) = (err', n', db') \<Longrightarrow> is_map db \<Longrightarrow> is_map db'"
  by (induction rows arbitrary: err n db) (auto simp: is_map_put split: if_splits)

lemma apply_names_store: "sn_store (snd (apply_names u ids req now n)) = sn_store n"
proof -
  have "sn_store (fold (name_station a b) ids n) = sn_store n" for a b n
    by (induction ids arbitrary: n) (simp_all add: name_station_def Let_def)
  then show ?thesis
    unfolding apply_names_def Let_def
    by (simp only: if_distrib [of snd] if_distrib [of sn_store] snd_conv station_names.simps if_cancel
        sum.case_distrib [of snd] sum.case_distrib [of sn_store] split: sum.split) simp
qed

text \<open>A write with no failure leaves the row of every named station in the table as it was in memory.\<close>

lemma write_names_saved:
  assumes "write_names fails ids st = (False, n', db')" "i \<in> set ids" "sn_store (fst st)" "map_of (sn_m (fst st)) i = Some m"
  shows "map_of db' i = Some (stored_row m)"
proof -
  obtain rows n1 where t: "write_take ids (fst st) = (rows, n1)"
    by fastforce
  have rows: "set rows = {(i, m). i \<in> set ids \<and> map_of (sn_m (fst st)) i = Some m}"
    using write_take_frame [OF t] assms(3) by simp
  have "(i, m) \<in> set (rev rows)"
    using assms(2,4) rows by simp
  then obtain m' where m': "map_of (rev rows) i = Some m'"
    by (metis weak_map_of_SomeI)
  then have "m' = m"
    using rows assms(4) by (fastforce dest: map_of_SomeD)
  moreover have "i \<in> fst ` set rows"
    using assms(2,4) rows by force
  ultimately show ?thesis
    using assms(1) t m' write_rows_saved [of fails rows False n1 "snd st" n' db'] by (simp add: write_names_def)
qed

locale station_rule =
  fixes Q :: "string \<Rightarrow> station_meta \<Rightarrow> bool" and u :: unicode
  assumes keeps_own: "Q i m \<Longrightarrow> Q i (m\<lparr>sm_own := v\<rparr>)"
    and keeps_near: "Q i m \<Longrightarrow> Q i (m\<lparr>sm_near := s\<rparr>)"
    and keeps_own_name: "Q i m \<Longrightarrow> Q i (m\<lparr>sm_own_name := s\<rparr>)"
    and keeps_name: "Q i m \<Longrightarrow> normalize_name u x = Inr s \<Longrightarrow> Q i (m\<lparr>sm_name := s\<rparr>)"
    and keeps_vessel_name: "Q i m \<Longrightarrow> normalize_name u x = Inr s \<Longrightarrow> Q i (m\<lparr>sm_vessel_name := s\<rparr>)"
    and keeps_signed: "Q i m \<Longrightarrow> m = blank_meta \<or> sm_signed_ts m < ts \<Longrightarrow>
          Q i (m\<lparr>sm_signed_ts := ts, sm_signed_at := (if sm_signed_at m = 0 then t else sm_signed_at m)\<rparr>)"
begin

lemma refresh_station_rule: "meta_rows_ok Q n \<Longrightarrow> meta_rows_ok Q (refresh_station now ic n)"
  by (auto simp: refresh_station_def meta_rows_okD intro!: meta_rows_ok_set keeps_own split: prod.splits)

lemma refresh_own_rule:
  assumes "meta_rows_ok Q n"
  shows "meta_rows_ok Q (refresh_own vessel_name now st n)"
proof -
  have owns: "meta_rows_ok Q (fold (refresh_station now) owns n)" for owns
    using assms by (induction owns arbitrary: n) (simp_all add: refresh_station_rule)
  define f :: "station_meta \<Rightarrow> station_meta" where "f = (\<lambda>m. if sm_own m = 0 then m
      else case vessel_name (sm_own m) of None \<Rightarrow> m | Some chosen \<Rightarrow> m\<lparr>sm_own_name := chosen\<rparr>)"
  have f: "Q i m \<Longrightarrow> Q i (f m)" for i m
    by (simp add: f_def keeps_own_name split: option.split)
  have "meta i (n'\<lparr>sn_m := map (\<lambda>(i, m). (i, f m)) (sn_m n')\<rparr>) = f (meta i n')" for i n'
    by (simp add: meta_def get_or_def map_of_map split: option.split) (simp add: f_def blank_meta_def)
  with owns f show ?thesis
    by (simp add: refresh_own_def Let_def meta_rows_ok_def f_def)
qed

lemma refresh_labels_rule:
  assumes "meta_rows_ok Q n"
  shows "meta_rows_ok Q (refresh_labels near points n)"
  unfolding refresh_labels_def using assms
proof (induction points arbitrary: n)
  case (Cons p points)
  obtain i pts where p: "p = (i, pts)"
    by fastforce
  have "meta_rows_ok Q (set_meta i (meta i n) n)" "meta_rows_ok Q (mark_dirty i (set_meta i ((meta i n)\<lparr>sm_near := near pts\<rparr>) n))"
    using Cons.prems by (simp_all add: meta_rows_ok_set keeps_near meta_rows_okD)
  with Cons show ?case
    by (simp add: p)
qed simp

lemma note_signed_rule:
  assumes "meta_rows_ok Q n" "signed_ok decode verifies req now n"
  shows "meta_rows_ok Q (note_signed req now n)"
proof -
  let ?i = "key_station (mr_pubkey req)"
  have "meta ?i n = blank_meta \<or> sm_signed_ts (meta ?i n) < mr_ts req"
    using assms(2) by (auto simp: signed_ok_def meta_def get_or_def split: option.splits)
  with assms(1) show ?thesis
    by (simp add: note_signed_def Let_def meta_rows_ok_set keeps_signed meta_rows_okD del: if_split)
qed

lemma check_mint_rule:
  assumes "meta_rows_ok Q n"
  shows "meta_rows_ok Q (snd (check_mint decode verifies req now n))"
  by (rule check_mint_cases [of decode verifies req now n]) (use assms note_signed_rule in auto)

lemma name_station_rule:
  assumes "meta_rows_ok Q n" "normalize_name u a = Inr chosen" "normalize_name u b = Inr vessel"
  shows "meta_rows_ok Q (name_station (map_option (\<lambda>_. chosen) x) (map_option (\<lambda>_. vessel) y) i n)"
  using assms
  by (auto simp: name_station_def Let_def meta_rows_okD intro!: meta_rows_ok_set keeps_name keeps_vessel_name split: option.split)

lemma name_stations_rule:
  assumes "meta_rows_ok Q n" "normalize_name u a = Inr chosen" "normalize_name u b = Inr vessel"
  shows "meta_rows_ok Q (fold (name_station (map_option (\<lambda>_. chosen) x) (map_option (\<lambda>_. vessel) y)) ids n)"
  using assms by (induction ids arbitrary: n) (simp_all add: name_station_rule)

lemma meta_rows_ok_changes [simp]: "meta_rows_ok Q (n\<lparr>sn_changes := c\<rparr>) = meta_rows_ok Q n"
  by (simp add: meta_rows_ok_def meta_def)

lemma apply_names_rule:
  assumes "meta_rows_ok Q n"
  shows "meta_rows_ok Q (snd (apply_names u ids req now n))"
proof -
  have "meta_rows_ok Q (n\<lparr>sn_changes := c\<rparr>)" for c
    using assms by simp
  note named = name_stations_rule [OF this]
  show ?thesis
  proof (cases "normalize_name u (deref (mr_name req))")
    case Inl
    then show ?thesis
      using assms by (simp add: apply_names_def)
  next
    case (Inr chosen)
    note chosen = Inr
    show ?thesis
    proof (cases "normalize_name u (deref (mr_vessel_name req))")
      case Inl
      then show ?thesis
        using assms chosen by (simp add: apply_names_def)
    next
      case (Inr vessel)
      show ?thesis
        using assms by (simp only: apply_names_def Let_def chosen Inr sum.case if_distrib [of snd] if_distrib [of "meta_rows_ok Q"]
            snd_conv meta_rows_ok_changes named [OF chosen Inr] if_cancel)
    qed
  qed
qed

lemma write_rows_rule:
  assumes "table_ok Q db" "\<forall>(i, m) \<in> set rows. Q i m" "fold (write_row fails) rows (err, n, db) = (err', n', db')"
  shows "table_ok Q db'"
  using assms
proof (induction rows arbitrary: err n db)
  case (Cons r rows)
  obtain i m where r: "r = (i, m)"
    by fastforce
  have "table_ok Q (put i (stored_row m) db)"
    using Cons.prems r by (simp add: table_ok_put stored_row_def keeps_own_name)
  with Cons r show ?case
    by (simp split: if_splits)
qed simp

lemma write_names_rule:
  assumes "meta_rows_ok Q (fst st)" "table_ok Q (snd st)" "write_names fails ids st = (err, n', db')"
  shows "meta_rows_ok Q n' \<and> table_ok Q db'"
proof -
  obtain rows n1 where t: "write_take ids (fst st) = (rows, n1)"
    by fastforce
  have w: "fold (write_row fails) rows (False, n1, snd st) = (err, n', db')"
    using assms(3) t by (simp add: write_names_def)
  have "\<forall>(i, m) \<in> set rows. Q i m"
    using write_take_rows [OF t] assms(1) by (auto simp: meta_rows_ok_def)
  from write_rows_rule [OF assms(2) this w] show ?thesis
    using write_row_frame [OF w] write_take_frame [OF t] assms(1) by (simp add: meta_rows_ok_def)
qed

lemma mint_rule:
  assumes "meta_rows_ok Q (fst st)" "table_ok Q (snd st)"
    and "mint_personal cr net u issuer fails ip req now st = (answer, n', db')"
  shows "meta_rows_ok Q n' \<and> table_ok Q db'"
proof -
  obtain e n1 where c: "check_mint (unb64 cr) (ed_verify cr) req now (fst st) = (e, n1)"
    by fastforce
  have n1: "meta_rows_ok Q n1"
    using check_mint_rule [OF assms(1)] c by (metis snd_conv)
  obtain ae n2 where a: "apply_names u (mint_ids net ip req) req now n1 = (ae, n2)"
    by fastforce
  have n2: "meta_rows_ok Q n2"
    using apply_names_rule [OF n1] a by (metis snd_conv)
  obtain err n3 db3 where w: "write_names fails (mint_ids net ip req) (n2, snd st) = (err, n3, db3)"
    using prod_cases3 by blast
  have n3: "meta_rows_ok Q n3 \<and> table_ok Q db3"
    using write_names_rule [OF _ _ w] n2 assms(2) by simp
  show ?thesis
    using assms n1 n3
    by (simp add: mint_personal_def c a w split: option.splits prod.splits if_splits sum.splits)
qed

lemma restart_rule: "table_ok Q db \<Longrightarrow> meta_rows_ok Q (attach_names db (new_station_names locked))"
  by (simp add: meta_rows_ok_def table_ok_def meta_restart stored_row_def keeps_own_name)

lemma names_step_rule:
  assumes "names_step cr net u issuer st st'" "meta_rows_ok Q (fst st)" "table_ok Q (snd st)"
  shows "meta_rows_ok Q (fst st') \<and> table_ok Q (snd st')"
  using assms
proof (cases rule: names_step.cases)
  case (names_mint fails ip req now)
  then show ?thesis
    using mint_rule [of st cr net issuer fails ip req now] assms(2,3) by (metis prod.collapse)
next
  case (names_flush fails)
  then show ?thesis
    using write_names_rule [of st fails "sn_dirty (fst st)"] assms(2,3)
    by (metis flush_names_def prod.collapse)
qed (use assms(2,3) in \<open>simp_all add: refresh_own_rule refresh_labels_rule restart_rule\<close>)

lemma names_steps_rule:
  assumes "(names_step cr net u issuer)\<^sup>*\<^sup>* st st'" "meta_rows_ok Q (fst st)" "table_ok Q (snd st)"
  shows "meta_rows_ok Q (fst st') \<and> table_ok Q (snd st')"
  using assms by (induction rule: rtranclp_induct) (blast dest: names_step_rule)+

end

section \<open>Interpretations\<close>

definition signed_since :: "string \<Rightarrow> int \<Rightarrow> string \<Rightarrow> station_meta \<Rightarrow> bool" where
  "signed_since i ts j m \<longleftrightarrow> (j = i \<longrightarrow> ts \<le> sm_signed_ts m \<and> sm_signed_at m \<noteq> 0)"

interpretation signed: station_rule "signed_since i ts" u for i ts u
  by unfold_locales (auto simp: signed_since_def blank_meta_def)

text \<open>A chosen name keeps the rules: at most forty runes, each of an allowed kind.\<close>

definition name_ok :: "unicode \<Rightarrow> string \<Rightarrow> bool" where
  "name_ok u s \<longleftrightarrow> length (u_runes u s) \<le> name_max_runes \<and> list_all (name_rune u) (u_runes u s)"

definition decodes :: "unicode \<Rightarrow> bool" where
  "decodes u \<longleftrightarrow> u_runes u [] = [] \<and> (\<forall>s rs. set rs \<subseteq> insert 32 (set (u_runes u s)) \<longrightarrow> u_runes u (u_string u rs) = rs)"

lemma fields_func_subset: "w \<in> set (fields_func f s) \<Longrightarrow> set w \<subseteq> set s"
  by (induction f s rule: fields_func.induct) (auto split: if_splits dest: set_takeWhileD set_dropWhileD)

lemma join_blank_subset: "set (join_blank ws) \<subseteq> insert 32 (\<Union> (set ` set ws))"
  by (induction ws rule: join_blank.induct) auto

lemma normalize_name_ok:
  assumes "decodes u" "normalize_name u s = Inr x"
  shows "name_ok u x"
proof (cases "x = []")
  case True
  then show ?thesis
    using assms(1) by (simp add: name_ok_def decodes_def)
next
  case False
  let ?rs = "join_blank (fields_func (u_space u) (u_runes u s))"
  have "set ?rs \<subseteq> insert 32 (set (u_runes u s))"
    using join_blank_subset [of "fields_func (u_space u) (u_runes u s)"] fields_func_subset by fast
  then have "u_runes u (u_string u ?rs) = ?rs"
    using assms(1) by (auto simp: decodes_def)
  with False show ?thesis
    using assms(2) by (auto simp: normalize_name_def name_ok_def Let_def split: if_splits)
qed

definition named_ok :: "unicode \<Rightarrow> string \<Rightarrow> station_meta \<Rightarrow> bool" where
  "named_ok u i m \<longleftrightarrow> decodes u \<longrightarrow> name_ok u (sm_name m) \<and> name_ok u (sm_vessel_name m)"

interpretation named: station_rule "named_ok u" u for u
  by unfold_locales (auto simp: named_ok_def dest: normalize_name_ok)

section \<open>Properties\<close>

lemma key_station_in_mint_ids: "key_station (mr_pubkey req) \<in> set (mint_ids net ip req)"
  by (simp add: key_station_def mint_ids_def station_source_def)

lemma signed_refuses:
  assumes "signed_since (key_station (mr_pubkey req)) ts j (meta j n)" "j = key_station (mr_pubkey req)"
    and "mr_sig req = [] \<or> mr_ts req \<le> ts"
  shows "\<exists>e. check_mint decode verifies req now n = (Some e, n)"
proof -
  have m: "ts \<le> sm_signed_ts (meta j n)" "sm_signed_at (meta j n) \<noteq> 0"
    using assms(1,2) by (simp_all add: signed_since_def)
  then have "map_of (sn_m n) j = Some (meta j n)"
    by (auto simp: meta_def get_or_def blank_meta_def split: option.splits)
  with m assms(2,3) have "\<not> unsigned_ok req n" "mr_sig req \<noteq> [] \<Longrightarrow> \<not> signed_ok decode verifies req now n"
    by (auto simp: unsigned_ok_def signed_ok_def)
  then show ?thesis
    by (cases "mr_sig req = []") (simp_all add: check_mint_unsigned(2) check_mint_signed_ok(2))
qed

lemma minted_signed:
  assumes "mint_personal cr net u issuer fails ip req now st = (Inr x, n', db')"
    and "mr_sig req \<noteq> []" "sn_store (fst st)" "is_map (snd st)" "unix now \<noteq> 0"
  shows "pubkey_ok cr req \<and> issuer \<noteq> None \<and> (\<forall>Q. Q = signed_since (key_station (mr_pubkey req)) (mr_ts req) \<longrightarrow>
           meta_rows_ok Q n' \<and> table_ok Q db')"
proof -
  let ?i = "key_station (mr_pubkey req)"
  let ?Q = "signed_since ?i (mr_ts req)"
  let ?n1 = "note_signed req now (fst st)"
  obtain kid priv where issuer: "issuer = Some (kid, priv)" and pk: "pubkey_ok cr req"
    using assms(1) by (auto simp: mint_personal_def split: option.splits if_splits)
  obtain ae n2 where a: "apply_names u (mint_ids net ip req) req now ?n1 = (ae, n2)"
    by fastforce
  obtain err n3 db3 where w: "write_names fails (mint_ids net ip req) (n2, snd st) = (err, n3, db3)"
    using prod_cases3 by blast
  have c: "check_mint (unb64 cr) (ed_verify cr) req now (fst st) = (None, ?n1)"
  proof (rule check_mint_signed_ok(1) [OF assms(2)], rule ccontr)
    assume "\<not> signed_ok (unb64 cr) (ed_verify cr) req now (fst st)"
    then obtain e where "check_mint (unb64 cr) (ed_verify cr) req now (fst st) = (Some e, fst st)"
      using check_mint_signed_ok(2) [OF assms(2)] by blast
    then show False
      using assms(1) pk by (simp add: mint_personal_def issuer)
  qed
  have e: "err = False" "n' = n3" "db' = db3"
    using assms(1,2) by (auto simp: mint_personal_def issuer pk c a w split: if_splits sum.splits)
  have "meta_rows_ok ?Q ?n1"
    using assms(5) by (simp add: meta_rows_ok_def note_signed_def Let_def signed_since_def)
  from signed.apply_names_rule [OF this] have n2: "meta_rows_ok ?Q n2"
    using a by (metis snd_conv)
  have store: "sn_store n2"
    using apply_names_store [of u "mint_ids net ip req" req now ?n1] a assms(3)
    by (simp add: note_signed_def Let_def)
  have q: "mr_ts req \<le> sm_signed_ts (meta ?i n2)" "sm_signed_at (meta ?i n2) \<noteq> 0"
    using meta_rows_okD [OF n2, of ?i] by (simp_all add: signed_since_def)
  then have m: "map_of (sn_m n2) ?i = Some (meta ?i n2)"
    by (auto simp: meta_def get_or_def blank_meta_def split: option.splits)
  obtain rows n4 where t: "write_take (mint_ids net ip req) n2 = (rows, n4)"
    by fastforce
  have f: "fold (write_row fails) rows (False, n4, snd st) = (False, n3, db3)"
    using w e t by (simp add: write_names_def)
  have "map_of db3 ?i = Some (stored_row (meta ?i n2))"
    using write_names_saved [of fails "mint_ids net ip req" "(n2, snd st)"] w e m store key_station_in_mint_ids by simp
  then have "table_ok ?Q db3"
    using q write_rows_is_map [OF f assms(4)] by (simp add: table_ok_def signed_since_def get_or_def stored_row_def)
  moreover have "meta_rows_ok ?Q n3"
    using n2 write_row_frame [OF f] write_take_frame [OF t] by (simp add: meta_rows_ok_def)
  ultimately show ?thesis
    using e issuer pk by simp
qed


definition sample_mint_crypto :: "(unit, string) crypto" where
  "sample_mint_crypto = \<lparr>b64 = id, unb64 = \<lambda>_. Some (replicate 32 (CHR ''k'')), json = \<lambda>_. ''j'', unjson = \<lambda>_. None,
     ed_sign = \<lambda>_ _. ''s'', ed_verify = \<lambda>_ _ _. True\<rparr>"

definition latin :: unicode where
  "latin = \<lparr>u_runes = map (\<lambda>c. int (of_char c :: nat)), u_string = map (\<lambda>r. char_of (nat r)),
     u_space = \<lambda>r. r = 32, u_letter = \<lambda>r. 65 \<le> r \<and> r \<le> 90 \<or> 97 \<le> r \<and> r \<le> 122, u_mark = \<lambda>_. False,
     u_digit = \<lambda>r. 48 \<le> r \<and> r \<le> 57, u_lower = \<lambda>r. if 65 \<le> r \<and> r \<le> 90 then r + 32 else r,
     u_fold = \<lambda>r. if 65 \<le> r \<and> r \<le> 90 then r + 32 else r\<rparr>"

definition sample_mint :: mint_request where
  "sample_mint = \<lparr>mr_pubkey = ''aaaa'', mr_bind_ip = False, mr_name = Some ''Bay'', mr_vessel_name = None, mr_ts = 7, mr_sig = ''s''\<rparr>"

abbreviation sample_minted :: "(mint_error + string \<times> claims \<times> apply_error option) \<times> station_names \<times> stations_table" where
  "sample_minted \<equiv> mint_personal sample_mint_crypto sample_net latin (Some (''k'', ())) (\<lambda>_. False) ''::1'' sample_mint
     (7 * second) (attach_names [] (new_station_names []), [])"

lemma sample_minted_token: "\<exists>x. sample_minted = (Inr x, snd sample_minted)"
proof -
  have "(case fst sample_minted of Inl _ \<Rightarrow> False | Inr _ \<Rightarrow> True)"
    by code_simp
  then show ?thesis
    by (metis prod.collapse sum.exhaust sum.simps(5))
qed



lemma latin_decodes: "decodes latin"
proof -
  have "map (\<lambda>c. int (of_char c :: nat)) (map (\<lambda>r. char_of (nat r)) rs) = rs"
    if "set rs \<subseteq> insert 32 (set (map (\<lambda>c. int (of_char c :: nat)) s))" for rs s
  proof -
    have "int (of_char (char_of (nat r) :: char) :: nat) = r" if "r \<in> set rs" for r
    proof -
      have "0 \<le> r \<and> r < 256"
        using \<open>r \<in> set rs\<close> \<open>set rs \<subseteq> _\<close> by auto
      then have "nat r < 256"
        by linarith
      then show ?thesis
        using \<open>0 \<le> r \<and> r < 256\<close> by simp
    qed
    then show ?thesis
      by (simp add: map_idI)
  qed
  then show ?thesis
    by (simp add: decodes_def latin_def)
qed


text \<open>
  When a personal token is refused, the error says why, and a request that is refused leaves the names and the
  table as they were: only a failed write or a failed signing, both answered 500, come after the request was noted.
\<close>

theorem mint_errors:
  assumes "mint_personal cr net u issuer fails ip req now st = (Inl e, st')"
  shows "(e = NotEnabled \<longleftrightarrow> issuer = None) \<and>
    (e = BadPubkey \<longleftrightarrow> issuer \<noteq> None \<and> \<not> pubkey_ok cr req) \<and>
    ((\<exists>c. e = MintRefused c) \<longleftrightarrow> issuer \<noteq> None \<and> pubkey_ok cr req \<and> \<not> unsigned_ok req (fst st) \<and>
       \<not> signed_ok (unb64 cr) (ed_verify cr) req now (fst st)) \<and>
    (mint_status e = 500 \<or> st' = st)"
proof (cases issuer)
  case None
  then show ?thesis
    using assms by (auto simp: mint_personal_def)
next
  case (Some kp)
  obtain kid priv where issuer: "issuer = Some (kid, priv)"
    using Some by (cases kp) simp
  show ?thesis
  proof (cases "pubkey_ok cr req")
    case False
    then show ?thesis
      using assms by (auto simp: mint_personal_def issuer)
  next
    case pk: True
    show ?thesis
    proof (cases rule: check_mint_cases [of "unb64 cr" "ed_verify cr" req now "fst st"])
      case (refused c)
      moreover have "\<not> unsigned_ok req (fst st)" "\<not> signed_ok (unb64 cr) (ed_verify cr) req now (fst st)"
        using refused check_mint_unsigned(1) check_mint_signed_ok(1)
        by (metis Pair_inject option.distinct(1) unsigned_ok_def, metis Pair_inject option.distinct(1) signed_ok_def)
      ultimately show ?thesis
        using assms pk by (auto simp: mint_personal_def issuer)
    next
      case unsigned
      then show ?thesis
        using assms pk by (auto simp: mint_personal_def issuer mint_status_def split: sum.splits)
    next
      case signed
      then show ?thesis
        using assms pk by (auto simp: mint_personal_def issuer mint_status_def split: sum.splits prod.splits if_splits)
    qed
  qed
qed

theorem mint_errors_witness:
  "\<not> signed_ok (unb64 sample_mint_crypto) (ed_verify sample_mint_crypto) sample_mint (9 * minute) (new_station_names []) \<and>
   mint_personal sample_mint_crypto sample_net latin (Some (''k'', ())) (\<lambda>_. False) ''::1'' sample_mint (9 * minute)
     (new_station_names [], []) = (Inl (MintRefused TsSkewed), new_station_names [], [])"
proof -
  have r: "mint_personal sample_mint_crypto sample_net latin (Some (''k'', ())) (\<lambda>_. False) ''::1'' sample_mint (9 * minute)
     (new_station_names [], []) = (Inl (MintRefused TsSkewed), new_station_names [], [])"
    by (simp add: mint_personal_def check_mint_def pubkey_ok_def sample_mint_crypto_def sample_mint_def
        new_station_names_def time_sub_def mint_skew_def
        min_duration_def max_duration_def Let_def)
  with mint_errors [OF r] show ?thesis
    by auto
qed

text \<open>The signed text: its first five lines determine the fields, when no field holds a newline.\<close>

lemma line_split:
  assumes "a @ CHR 0x0A # x = b @ CHR 0x0A # y" "CHR 0x0A \<notin> set a" "CHR 0x0A \<notin> set b"
  shows "a = b \<and> x = y"
  using assms
proof (induction a arbitrary: b)
  case Nil
  then show ?case by (cases b) auto
next
  case (Cons c a)
  then show ?case by (cases b) auto
qed

lemma int_text_inject: "int_text a = int_text b \<longleftrightarrow> a = b"
proof -
  have "dec m \<noteq> CHR ''-'' # dec k" for m k
    using dec_digits [of "CHR ''-''" m] by (auto simp: is_digit_def)
  then show ?thesis
    by (auto simp: int_text_def dec_inject) (metis dec_inject eq_nat_nat_iff linorder_not_less)+
qed

lemma int_text_no_newline: "CHR 0x0A \<notin> set (int_text n)"
  using dec_digits [of "CHR 0x0A"] by (auto simp: int_text_def is_digit_def)

text \<open>Two requests whose names and keys hold no newline sign the same text only if they agree in every signed field.\<close>

theorem mint_signature_injective:
  assumes "mint_signature k t b c v = mint_signature k' t' b' c' v'"
    and "CHR 0x0A \<notin> set (k @ k' @ c @ c')"
  shows "k = k' \<and> t = t' \<and> b = b' \<and> c = c' \<and> v = v'"
proof -
  have "k @ CHR 0x0A # int_text t @ CHR 0x0A # (if b then ''1'' else ''0'') @ CHR 0x0A # c @ CHR 0x0A # v =
        k' @ CHR 0x0A # int_text t' @ CHR 0x0A # (if b' then ''1'' else ''0'') @ CHR 0x0A # c' @ CHR 0x0A # v'"
    using assms(1) by (simp only: mint_signature_def append_Cons append_Nil append_assoc list.inject same_append_eq)
  from line_split [OF this] have 1: "k = k'"
      "int_text t @ CHR 0x0A # (if b then ''1'' else ''0'') @ CHR 0x0A # c @ CHR 0x0A # v =
       int_text t' @ CHR 0x0A # (if b' then ''1'' else ''0'') @ CHR 0x0A # c' @ CHR 0x0A # v'"
    using assms(2) by simp_all
  from line_split [OF 1(2)] have 2: "t = t'"
      "(if b then ''1'' else ''0'') @ CHR 0x0A # c @ CHR 0x0A # v =
       (if b' then ''1'' else ''0'') @ CHR 0x0A # c' @ CHR 0x0A # v'"
    by (simp_all add: int_text_no_newline int_text_inject)
  then have 3: "b = b'" "c @ CHR 0x0A # v = c' @ CHR 0x0A # v'"
    by (auto split: if_splits)
  from line_split [OF 3(2)] show ?thesis
    using assms(2) 1(1) 2(1) 3(1) by simp
qed

theorem mint_signature_injective_witness:
  "mint_signature ''k'' 1 True ''A'' ''B'' \<noteq> mint_signature ''k'' 1 True ''A B'' []"
  using mint_signature_injective [of "''k''" 1 True "''A''" "''B''" "''k''" 1 True "''A B''" "[]"] by auto

text \<open>With a newline in a name the text is ambiguous: part of one name can pass for the other.\<close>

lemma mint_signature_ambiguous:
  "mint_signature k t b (c @ CHR 0x0A # d) v = mint_signature k t b c (d @ CHR 0x0A # v)"
  by (simp add: mint_signature_def)

text \<open>Own vessels: the latest candidate with a country, unless another was heard within the hour.\<close>

lemma latest_own_fold:
  fixes cands :: "(mmsi \<times> int) list"
  assumes "fold (\<lambda>(m, t) (latest, lt, n).
       if flag_of m = [] then (latest, lt, n)
       else if t > lt then (m, t, n + 1) else (latest, lt, n + 1)) cands (l0, t0, n0) = (latest, lt, n)"
  shows "n = n0 + length (filter (\<lambda>(m, t). flag_of m \<noteq> []) cands) \<and> t0 \<le> lt \<and>
    (\<forall>(m, t) \<in> set cands. flag_of m \<noteq> [] \<longrightarrow> t \<le> lt) \<and>
    (latest = l0 \<and> lt = t0 \<or> (latest, lt) \<in> set cands \<and> flag_of latest \<noteq> [])"
  using assms
proof (induction cands arbitrary: l0 t0 n0)
  case (Cons c cands)
  obtain m t where c: "c = (m, t)"
    by fastforce
  show ?case
  proof (cases "flag_of m = []")
    case True
    then show ?thesis
      using Cons.IH [of l0 t0 n0] Cons.prems c by auto
  next
    case flag: False
    show ?thesis
    proof (cases "t > t0")
      case True
      then show ?thesis
        using Cons.IH [of m t "n0 + 1"] Cons.prems c flag by auto
    next
      case False
      then show ?thesis
        using Cons.IH [of l0 t0 "n0 + 1"] Cons.prems c flag by auto
    qed
  qed
qed auto



end
