(* ===== verification/Simplify.thy ===== *)
theory Simplify
  imports Tracks Heap
begin

text \<open>
  Track simplification by shape, from \<open>server/simplify.go\<close>: the heap of positions that knows where each
  position sits, the loop that drops positions from the bottom, and the shape that is answered. A distance is a
  real number, and a rank is one or \<open>Inf\<close>; \<open>sed\<close> is the synchronized distance of a position from the
  line between two others.
\<close>

declare map_of_eq_Some_iff [simp del]

definition shape_tolerance :: real where "shape_tolerance = 15"
definition meters_per_unit :: real where "meters_per_unit = 111320 / 600000"

section \<open>The heap of positions\<close>

record sed_heap =
  sh_order :: "nat list"
  sh_d :: "real list"
  sh_at :: "int list"

definition pos_less :: "real list \<Rightarrow> nat \<Rightarrow> nat \<Rightarrow> bool" where
  "pos_less d i j \<longleftrightarrow> d ! i < d ! j \<or> d ! i = d ! j \<and> i < j"

definition sed_swap :: "nat \<Rightarrow> nat \<Rightarrow> sed_heap \<Rightarrow> sed_heap" where
  "sed_swap a b h =
     (let ord = swap_at (sh_order h) a b in
      h\<lparr>sh_order := ord, sh_at := (sh_at h)[ord ! a := int a, ord ! b := int b]\<rparr>)"

text \<open>\<open>down\<close> reports whether the entry moved.\<close>

function sed_down_from :: "nat \<Rightarrow> nat \<Rightarrow> sed_heap \<Rightarrow> bool \<times> sed_heap" where
  "sed_down_from start k h =
     (case sed_pick (pos_less (sh_d h)) (sh_order h) k of
        None \<Rightarrow> (k \<noteq> start, h)
      | Some least \<Rightarrow> sed_down_from start least (sed_swap k least h))"
  by pat_completeness auto
termination
  by (relation "measure (\<lambda>(_, k, h). length (sh_order h) - k)") (auto simp: sed_swap_def Let_def dest: sed_pick_child)

declare sed_down_from.simps [simp del]

definition sed_down :: "nat \<Rightarrow> sed_heap \<Rightarrow> bool \<times> sed_heap" where
  "sed_down k h = sed_down_from k k h"

fun sed_up :: "nat \<Rightarrow> sed_heap \<Rightarrow> sed_heap" where
  "sed_up k h =
     (if k = 0 \<or> \<not> pos_less (sh_d h) (sh_order h ! k) (sh_order h ! ((k - 1) div 2)) then h
      else sed_up ((k - 1) div 2) (sed_swap k ((k - 1) div 2) h))"

declare sed_up.simps [simp del]

definition sed_fix :: "nat \<Rightarrow> sed_heap \<Rightarrow> sed_heap" where
  "sed_fix k h = (case sed_down k h of (moved, h') \<Rightarrow> if moved then h' else sed_up k h')"

definition sed_init :: "sed_heap \<Rightarrow> sed_heap" where
  "sed_init h = fold (\<lambda>k h. snd (sed_down k h)) (rev [0..<length (sh_order h) div 2]) h"

definition sed_pop :: "sed_heap \<Rightarrow> nat \<times> sed_heap" where
  "sed_pop h =
     (let top = sh_order h ! 0;
          h1 = sed_swap 0 (length (sh_order h) - 1) h;
          h2 = h1\<lparr>sh_order := butlast (sh_order h1), sh_at := (sh_at h1)[top := - 1]\<rparr>
      in (top, snd (sed_down 0 h2)))"

section \<open>Ranks\<close>

datatype rank = Fin real | Inf

fun rank_gt :: "rank \<Rightarrow> rank \<Rightarrow> bool" where
  "rank_gt Inf (Fin _) \<longleftrightarrow> True"
| "rank_gt Inf Inf \<longleftrightarrow> False"
| "rank_gt (Fin a) (Fin b) \<longleftrightarrow> a > b"
| "rank_gt (Fin _) Inf \<longleftrightarrow> False"

record rank_state =
  rk_heap :: sed_heap
  rk_prev :: "int list"
  rk_next :: "int list"
  rk_rank :: "rank list"
  rk_floor :: real

type_synonym sed = "nat \<Rightarrow> nat \<Rightarrow> nat \<Rightarrow> real"

definition is_end :: "nat \<Rightarrow> nat list \<Rightarrow> nat \<Rightarrow> bool" where
  "is_end n seg i \<longleftrightarrow> i = 0 \<or> i = n - 1 \<or> seg ! (i - 1) \<noteq> seg ! i \<or> seg ! (i + 1) \<noteq> seg ! i"

text \<open>The loop that fills the arrays: an end ranks \<open>Inf\<close>, any other position joins the heap.\<close>

definition rank_enter :: "sed \<Rightarrow> nat \<Rightarrow> nat list \<Rightarrow> nat \<Rightarrow> rank_state \<Rightarrow> rank_state" where
  "rank_enter sed n seg i st =
     (let st1 = st\<lparr>rk_prev := (rk_prev st)[i := int i - 1], rk_next := (rk_next st)[i := int i + 1]\<rparr>; h = rk_heap st in
      if is_end n seg i
      then st1\<lparr>rk_heap := h\<lparr>sh_at := (sh_at h)[i := - 1]\<rparr>, rk_rank := (rk_rank st)[i := Inf]\<rparr>
      else st1\<lparr>rk_heap := h\<lparr>sh_d := (sh_d h)[i := sed (i - 1) (i + 1) i],
                           sh_at := (sh_at h)[i := int (length (sh_order h))], sh_order := sh_order h @ [i]\<rparr>\<rparr>)"

definition rank_start :: "sed \<Rightarrow> nat \<Rightarrow> nat list \<Rightarrow> rank_state" where
  "rank_start sed n seg =
     (let st = fold (rank_enter sed n seg) [0..<n]
          \<lparr>rk_heap = \<lparr>sh_order = [], sh_d = replicate n 0, sh_at = replicate n 0\<rparr>,
           rk_prev = replicate n 0, rk_next = replicate n 0, rk_rank = replicate n (Fin 0), rk_floor = 0\<rparr>
      in st\<lparr>rk_heap := sed_init (rk_heap st)\<rparr>)"

text \<open>A neighbor of a dropped position, still in the heap, is measured again and moved in place.\<close>

definition rank_again :: "sed \<Rightarrow> nat \<Rightarrow> rank_state \<Rightarrow> rank_state" where
  "rank_again sed j st =
     (let h = rk_heap st in
      if sh_at h ! j \<ge> 0
      then st\<lparr>rk_heap := sed_fix (nat (sh_at h ! j))
             (h\<lparr>sh_d := (sh_d h)[j := sed (nat (rk_prev st ! j)) (nat (rk_next st ! j)) j]\<rparr>)\<rparr>
      else st)"

definition rank_drop :: "sed \<Rightarrow> rank_state \<Rightarrow> rank_state" where
  "rank_drop sed st =
     (case sed_pop (rk_heap st) of (i, h) \<Rightarrow>
        let fl = max (rk_floor st) (sh_d h ! i); p = rk_prev st ! i; q = rk_next st ! i in
        rank_again sed (nat q) (rank_again sed (nat p)
          (st\<lparr>rk_heap := h, rk_floor := fl, rk_rank := (rk_rank st)[i := Fin fl],
             rk_next := (rk_next st)[nat p := q], rk_prev := (rk_prev st)[nat q := p]\<rparr>)))"

lemma length_sed_swap [simp]: "length (sh_order (sed_swap a b h)) = length (sh_order h)"
  by (simp add: sed_swap_def Let_def)

lemma length_sed_down_from [simp]: "length (sh_order (snd (sed_down_from s k h))) = length (sh_order h)"
  by (induction s k h rule: sed_down_from.induct) (subst sed_down_from.simps, auto split: option.splits)

lemma length_sed_up [simp]: "length (sh_order (sed_up k h)) = length (sh_order h)"
  by (induction k h rule: sed_up.induct) (subst sed_up.simps, auto)

lemma length_sed_fix [simp]: "length (sh_order (sed_fix k h)) = length (sh_order h)"
  using length_sed_down_from [of k k h] by (cases "sed_down_from k k h") (auto simp: sed_fix_def sed_down_def)

lemma length_sed_pop: "sed_pop h = (i, h') \<Longrightarrow> length (sh_order h') = length (sh_order h) - 1"
  by (auto simp: sed_pop_def Let_def sed_down_def)

lemma length_rank_again [simp]: "length (sh_order (rk_heap (rank_again sed j st))) = length (sh_order (rk_heap st))"
  by (simp add: rank_again_def Let_def)

lemma length_rank_drop [simp]:
  "length (sh_order (rk_heap (rank_drop sed st))) = length (sh_order (rk_heap st)) - 1"
  using length_sed_pop by (simp add: rank_drop_def Let_def split: prod.split)

function rank_loop :: "sed \<Rightarrow> rank_state \<Rightarrow> rank_state" where
  "rank_loop sed st = (if sh_order (rk_heap st) = [] then st else rank_loop sed (rank_drop sed st))"
  by pat_completeness auto
termination
  by (relation "measure (\<lambda>(_, st). length (sh_order (rk_heap st)))") auto

declare rank_loop.simps [simp del]

definition rank_with :: "sed \<Rightarrow> nat \<Rightarrow> nat list \<Rightarrow> rank list" where
  "rank_with sed n seg = rk_rank (rank_loop sed (rank_start sed n seg))"

text \<open>Meters east and north of the first position, and seconds after it.\<close>

definition east :: "track_point list \<Rightarrow> nat \<Rightarrow> real" where
  "east pts i = of_int (wrap32 (pt_lon6 (pts ! i) - pt_lon6 (pts ! 0))) * meters_per_unit *
     cos (of_int (pt_lat6 (pts ! 0)) / 600000 * pi / 180)"

definition north :: "track_point list \<Rightarrow> nat \<Rightarrow> real" where
  "north pts i = of_int (wrap32 (pt_lat6 (pts ! i) - pt_lat6 (pts ! 0))) * meters_per_unit"

definition seconds_after :: "track_point list \<Rightarrow> nat \<Rightarrow> real" where
  "seconds_after pts i = of_int (time_sub (pt_ts (pts ! i)) (pt_ts (pts ! 0))) / 1000000000"

definition sed_of :: "track_point list \<Rightarrow> sed" where
  "sed_of pts a b p =
     (let x = east pts; y = north pts; t = seconds_after pts; dt = t b - t a;
          f = (if dt > 0 then (t p - t a) / dt else 0);
          dx = x p - x a - f * (x b - x a); dy = y p - y a - f * (y b - y a)
      in sqrt (dx * dx + dy * dy))"

definition rank_positions :: "track_point list \<Rightarrow> nat list \<Rightarrow> rank list" where
  "rank_positions pts seg = rank_with (sed_of pts) (length pts) seg"

section \<open>The shape answered\<close>

record shape =
  sp_points :: "track_point list"
  sp_more :: bool
  sp_simplified :: bool
  sp_breaks :: "nat list"
  sp_tolerance :: real

fun seg_from :: "duration \<Rightarrow> nat \<Rightarrow> track_point \<Rightarrow> track_point list \<Rightarrow> nat list" where
  "seg_from silence s a [] = []"
| "seg_from silence s a (b # pts) =
     (let s' = (if time_sub (pt_ts b) (pt_ts a) > silence then s + 1 else s) in s' # seg_from silence s' b pts)"

definition segments :: "track_point list \<Rightarrow> duration \<Rightarrow> nat list" where
  "segments pts silence = (case pts of [] \<Rightarrow> [] | a # rest \<Rightarrow> 0 # seg_from silence 0 a rest)"

fun insert_rank :: "rank \<Rightarrow> rank list \<Rightarrow> rank list" where
  "insert_rank r [] = [r]"
| "insert_rank r (s # rs) = (if rank_gt s r then s # insert_rank r rs else r # s # rs)"

text \<open>\<open>slices.SortFunc\<close>, greatest first.\<close>

definition sort_ranks :: "rank list \<Rightarrow> rank list" where
  "sort_ranks rs = foldr insert_rank rs []"

definition fin_max :: "rank list \<Rightarrow> real" where
  "fin_max rs = fold (\<lambda>r t. case r of Fin x \<Rightarrow> max t x | Inf \<Rightarrow> t) rs 0"

definition keep_over :: "rank list \<Rightarrow> real \<Rightarrow> nat list" where
  "keep_over rk tol = filter (\<lambda>i. rank_gt (rk ! i) (Fin tol)) [0..<length rk]"

definition spread_ends :: "rank list \<Rightarrow> nat \<Rightarrow> nat list" where
  "spread_ends rk limit =
     (let ends = filter (\<lambda>i. rk ! i = Inf) [0..<length rk]
      in map (\<lambda>k. ends ! (k * (length ends - 1) div max (limit - 1) 1)) [0..<limit])"

definition keep_positions :: "rank list \<Rightarrow> nat \<Rightarrow> nat list \<times> real \<times> bool" where
  "keep_positions rk limit =
     (let kept = length (keep_over rk shape_tolerance) in
      if kept > limit
      then (case sort_ranks rk ! limit of
              Inf \<Rightarrow> (spread_ends rk limit, max (fin_max rk) shape_tolerance, True)
            | Fin tol \<Rightarrow> (keep_over rk tol, tol, True))
      else (keep_over rk shape_tolerance, shape_tolerance, False))"

definition breaks_of :: "nat list \<Rightarrow> nat list \<Rightarrow> nat list" where
  "breaks_of seg keep = filter (\<lambda>k. 0 < k \<and> seg ! (keep ! k) \<noteq> seg ! (keep ! (k - 1))) [0..<length keep]"

definition simplify :: "track_point list \<Rightarrow> duration \<Rightarrow> nat \<Rightarrow> shape" where
  "simplify pts silence limit =
     (let seg = segments pts silence in
      case keep_positions (rank_positions pts seg) limit of (keep, tol, cut_short) \<Rightarrow>
        \<lparr>sp_points = map (\<lambda>i. pts ! i) keep, sp_more = cut_short, sp_simplified = True,
         sp_breaks = breaks_of seg keep, sp_tolerance = tol\<rparr>)"

section \<open>The heap of positions is a heap\<close>

interpretation pos: heap_order "pos_less d" for d
  by unfold_locales (auto simp: pos_less_def)

lemma le_pos: "pos.le d i j \<longleftrightarrow> d ! i < d ! j \<or> d ! i = d ! j \<and> i \<le> j"
  unfolding pos.le_def by (auto simp: pos_less_def)

definition at_ok :: "nat \<Rightarrow> sed_heap \<Rightarrow> bool" where
  "at_ok n h \<longleftrightarrow> length (sh_d h) = n \<and> length (sh_at h) = n \<and> distinct (sh_order h) \<and> set (sh_order h) \<subseteq> {..<n} \<and>
     (\<forall>k < length (sh_order h). sh_at h ! (sh_order h ! k) = int k) \<and>
     (\<forall>i < n. i \<notin> set (sh_order h) \<longrightarrow> sh_at h ! i = - 1)"

lemma at_ok_swap:
  assumes "at_ok n h" "a < length (sh_order h)" "b < length (sh_order h)"
  shows "at_ok n (sed_swap a b h)"
proof -
  let ?o = "sh_order h" and ?g = "swap_at (sh_order h) a b"
  have m: "mset ?g = mset ?o"
    using assms by simp
  have d: "distinct ?g" "set ?g = set ?o"
    using m assms(1) by (metis at_ok_def mset_eq_imp_distinct_iff, metis m mset_eq_setD)
  have lt: "?o ! k < n" if "k < length ?o" for k
    using assms(1) that nth_mem [of k ?o] unfolding at_ok_def by blast
  have g: "?g ! a = ?o ! b" "?g ! b = ?o ! a"
    using assms by (simp_all add: nth_swap_at)
  have "(sh_at h)[?g ! a := int a, ?g ! b := int b] ! (?g ! k) = int k" if k: "k < length ?o" for k
  proof -
    have "?o ! k = ?o ! j \<longleftrightarrow> k = j" "?o ! j = ?o ! k \<longleftrightarrow> j = k" if "j < length ?o" for j
      using assms(1) k that by (auto simp: at_ok_def nth_eq_iff_index_eq)
    then show ?thesis
      using assms k lt by (auto simp: at_ok_def nth_swap_at nth_list_update)
  qed
  moreover have "(sh_at h)[?g ! a := int a, ?g ! b := int b] ! i = - 1" if "i < n" "i \<notin> set ?o" for i
  proof -
    have "i \<noteq> ?o ! a" "i \<noteq> ?o ! b"
      using assms(2,3) that(2) nth_mem by metis+
    then show ?thesis
      using assms(1) that g by (simp add: at_ok_def)
  qed
  ultimately show ?thesis
    using assms(1) d by (simp add: at_ok_def sed_swap_def Let_def)
qed

lemma sed_swap_fields [simp]:
  "sh_order (sed_swap a b h) = swap_at (sh_order h) a b" "sh_d (sed_swap a b h) = sh_d h"
  by (simp_all add: sed_swap_def Let_def)

lemma sed_down_from_spec:
  "at_ok n h \<Longrightarrow> start \<le> k \<Longrightarrow> sed_down_from start k h = (moved, h') \<Longrightarrow>
   at_ok n h' \<and> sh_d h' = sh_d h \<and> sh_order h' = go_down (pos_less (sh_d h)) (sh_order h) k \<and>
   (moved \<longleftrightarrow> start < k \<or> go_pick (pos_less (sh_d h)) (sh_order h) k \<noteq> None)"
proof (induction start k h rule: sed_down_from.induct)
  case (1 start k h)
  show ?case
  proof (cases "go_pick (pos_less (sh_d h)) (sh_order h) k")
    case None
    then show ?thesis
      using "1.prems" by (subst go_down.simps, subst (asm) sed_down_from.simps) (auto simp: pos.sed_pick_go)
  next
    case (Some j)
    have j: "k < j" "j < length (sh_order h)"
      using go_pick_child [OF Some] by auto
    have "sed_down_from start j (sed_swap k j h) = (moved, h')"
      using "1.prems"(3) Some by (subst (asm) sed_down_from.simps) (simp add: pos.sed_pick_go)
    then show ?thesis
      using "1.IH" [unfolded pos.sed_pick_go, OF Some] at_ok_swap [OF "1.prems"(1), of k j] j "1.prems"(2) Some
      by (subst go_down.simps) auto
  qed
qed

lemma sed_up_spec:
  "at_ok n h \<Longrightarrow> k < length (sh_order h) \<Longrightarrow>
   at_ok n (sed_up k h) \<and> sh_d (sed_up k h) = sh_d h \<and> sh_order (sed_up k h) = go_up (pos_less (sh_d h)) (sh_order h) k"
proof (induction k h rule: sed_up.induct)
  case (1 k h)
  show ?case
  proof (cases "k = 0 \<or> \<not> pos_less (sh_d h) (sh_order h ! k) (sh_order h ! ((k - 1) div 2))")
    case True
    then show ?thesis
      using "1.prems" by (subst (1 2 3) sed_up.simps, subst go_up.simps) simp
  next
    case False
    have "at_ok n (sed_swap k ((k - 1) div 2) h)"
      using "1.prems" by (intro at_ok_swap) auto
    from "1.IH" [OF False this] show ?thesis
      using "1.prems" False by (subst (1 2 3) sed_up.simps, subst go_up.simps) auto
  qed
qed

lemma sed_fix_spec:
  assumes "at_ok n h" "k < length (sh_order h)"
  shows "at_ok n (sed_fix k h) \<and> sh_d (sed_fix k h) = sh_d h \<and> sh_order (sed_fix k h) = heap_fix (pos_less (sh_d h)) (sh_order h) k"
proof -
  obtain moved h' where m: "sed_down_from k k h = (moved, h')"
    by fastforce
  note d = sed_down_from_spec [OF assms(1) order_refl m]
  show ?thesis
  proof (cases moved)
    case True
    then obtain j where "go_pick (pos_less (sh_d h)) (sh_order h) k = Some j"
      using d by auto
    then show ?thesis
      using d m True by (simp add: sed_fix_def sed_down_def heap_fix_def)
  next
    case False
    then have "sh_order h' = sh_order h" "go_pick (pos_less (sh_d h)) (sh_order h) k = None"
      using d by (auto simp: go_down.simps [of _ _ k])
    then show ?thesis
      using d m False sed_up_spec [of n h' k] assms(2) by (simp add: sed_fix_def sed_down_def heap_fix_def)
  qed
qed

text \<open>The whole of what the loop relies on.\<close>

definition heap_ok :: "nat \<Rightarrow> sed_heap \<Rightarrow> bool" where
  "heap_ok n h \<longleftrightarrow> at_ok n h \<and> pos.heap (sh_d h) (sh_order h)"

lemma heap_order_cong:
  assumes "at_ok n h" "k < length (sh_order h)" "sh_order h ! k = j"
    and "pos.heap (sh_d h) (sh_order h)"
  shows "pos.ordered_but ((sh_d h)[j := x]) 0 k (sh_order h)"
proof -
  let ?d = "sh_d h" and ?e = "(sh_d h)[j := x]" and ?o = "sh_order h"
  have same: "?e ! (?o ! i) = ?d ! (?o ! i)" if "i < length ?o" "i \<noteq> k" for i
    using assms(1-3) that by (auto simp: at_ok_def nth_eq_iff_index_eq nth_list_update)
  have ok: "pos.ordered_but ?d 0 k ?o"
    using pos.ordered_but_update [OF assms(4), of k "?o ! k"] by simp
  have le: "pos.le ?e (?o ! a) (?o ! b) \<longleftrightarrow> pos.le ?d (?o ! a) (?o ! b)"
    if "a < length ?o" "b < length ?o" "a \<noteq> k" "b \<noteq> k" for a b
    using same that by (simp add: le_pos)
  show ?thesis
    unfolding pos.ordered_but_def
  proof (intro conjI allI impI)
    fix i
    assume i: "i < length ?o" "0 < i" "0 \<le> (i - 1) div 2" "i \<noteq> k" "(i - 1) div 2 \<noteq> k"
    then show "pos.le ?e (?o ! ((i - 1) div 2)) (?o ! i)"
      using pos.ordered_butD [OF ok i] le by simp
  next
    fix i
    assume i: "i < length ?o" "0 < k" "0 \<le> (k - 1) div 2" "0 < i" "(i - 1) div 2 = k"
    have "(k - 1) div 2 < k" "k < i"
      using i by auto
    then show "pos.le ?e (?o ! ((k - 1) div 2)) (?o ! i)"
      using pos.ordered_but_bridge [OF ok i(1,2,3,4,5)] le i by simp
  qed
qed

lemma sed_fix_ok:
  assumes "heap_ok n h" "j < n" "j \<in> set (sh_order h)"
  shows "heap_ok n (sed_fix (nat (sh_at h ! j)) (h\<lparr>sh_d := (sh_d h)[j := x]\<rparr>)) \<and>
    sh_d (sed_fix (nat (sh_at h ! j)) (h\<lparr>sh_d := (sh_d h)[j := x]\<rparr>)) = (sh_d h)[j := x] \<and>
    set (sh_order (sed_fix (nat (sh_at h ! j)) (h\<lparr>sh_d := (sh_d h)[j := x]\<rparr>))) = set (sh_order h)"
proof -
  obtain k where k: "k < length (sh_order h)" "sh_order h ! k = j"
    using assms(3) by (metis in_set_conv_nth)
  let ?h = "h\<lparr>sh_d := (sh_d h)[j := x]\<rparr>"
  have ok: "at_ok n h" "pos.heap (sh_d h) (sh_order h)"
    using assms(1) by (simp_all add: heap_ok_def)
  have at: "nat (sh_at h ! j) = k"
    using ok(1) k by (auto simp: at_ok_def)
  have "at_ok n ?h"
    using ok(1) by (simp add: at_ok_def)
  note f = sed_fix_spec [OF this, of k]
  have "pos.heap (sh_d ?h) (heap_fix (pos_less (sh_d ?h)) (sh_order h) k)"
    using pos.heap_fix_heap heap_order_cong [OF ok(1) k ok(2)] k(1) by simp
  then show ?thesis
    using f k(1) mset_eq_setD [OF mset_heap_fix [OF k(1)]] by (simp add: at heap_ok_def)
qed

lemma sed_pop_ok:
  assumes "heap_ok n h" "sh_order h \<noteq> []" "sed_pop h = (i, h')"
  shows "i \<in> set (sh_order h) \<and> (\<forall>j \<in> set (sh_order h). pos.le (sh_d h) i j) \<and> heap_ok n h' \<and> sh_d h' = sh_d h \<and>
    set (sh_order h') = set (sh_order h) - {i}"
proof -
  let ?o = "sh_order h" and ?l = "length (sh_order h) - 1"
  let ?h1 = "sed_swap 0 ?l h"
  let ?h2 = "?h1\<lparr>sh_order := butlast (sh_order ?h1), sh_at := (sh_at ?h1)[?o ! 0 := - 1]\<rparr>"
  have ok: "at_ok n h" "pos.heap (sh_d h) ?o" and l: "0 < length ?o" "?l < length ?o"
    using assms(1,2) by (simp_all add: heap_ok_def)
  have i: "i = ?o ! 0"
    using assms(3) by (simp add: sed_pop_def Let_def)
  have "\<forall>j \<in> set ?o. pos.le (sh_d h) i j"
    using pos.heap_root [OF ok(2)] i by (auto simp: in_set_conv_nth)
  moreover have m: "mset (butlast (swap_at ?o 0 ?l)) + {#i#} = mset ?o"
    using pos.swap_at_butlast [OF assms(2)] i by simp
  then have d: "distinct (butlast (swap_at ?o 0 ?l)) \<and> set (butlast (swap_at ?o 0 ?l)) = set ?o - {i} \<and> i \<in> set ?o"
    using ok(1) unfolding at_ok_def
    by (metis Diff_insert_absorb add_mset_add_single distinct.simps(2) list.simps(15) mset.simps(2) mset_eq_imp_distinct_iff
        mset_eq_setD insertI1)
  have h1: "at_ok n ?h1"
    using at_ok_swap [OF ok(1) l] .
  have len: "length (butlast (swap_at ?o 0 ?l)) = ?l"
    by simp
  have "at_ok n ?h2"
  proof -
    have "sh_at ?h2 ! (sh_order ?h2 ! k) = int k" if "k < ?l" for k
    proof -
      have "sh_order ?h2 ! k = sh_order ?h1 ! k" "sh_order ?h2 ! k \<noteq> i"
        using that d nth_mem [of k "butlast (swap_at ?o 0 ?l)"] by (auto simp: nth_butlast)
      then show ?thesis
        using h1 that i by (simp add: at_ok_def nth_list_update)
    qed
    moreover have "sh_at ?h2 ! j = - 1" if "j < n" "j \<notin> set (sh_order ?h2)" for j
      using h1 that d i mset_eq_setD [OF mset_swap_at [OF l]] by (auto simp: at_ok_def nth_list_update)
    ultimately show ?thesis
      using h1 d ok(1) by (auto simp: at_ok_def)
  qed
  moreover obtain mv h3 where h3: "sed_down_from 0 0 ?h2 = (mv, h3)"
    by fastforce
  ultimately have s: "at_ok n h3 \<and> sh_d h3 = sh_d h \<and> sh_order h3 = go_down (pos_less (sh_d h)) (butlast (swap_at ?o 0 ?l)) 0"
    using sed_down_from_spec [OF _ order_refl h3] by fastforce
  have "h' = h3"
    using assms(3) arg_cong [OF h3, of snd] by (auto simp: sed_pop_def Let_def sed_down_def)
  moreover have "set (sh_order h3) = set ?o - {i}"
    using s d mset_eq_setD [OF mset_go_down] by metis
  moreover have "pos.heap (sh_d h) (sh_order h3)"
    using pos.heap_pop [OF ok(2) assms(2)] s by simp
  ultimately show ?thesis
    using s d \<open>\<forall>j \<in> set ?o. pos.le (sh_d h) i j\<close> by (simp add: heap_ok_def)
qed

lemma sed_init_ok:
  assumes "at_ok n h"
  shows "heap_ok n (sed_init h) \<and> sh_d (sed_init h) = sh_d h \<and> set (sh_order (sed_init h)) = set (sh_order h)"
proof -
  have "at_ok n (fold (\<lambda>k h. snd (sed_down k h)) ks h) \<and> sh_d (fold (\<lambda>k h. snd (sed_down k h)) ks h) = sh_d h \<and>
      sh_order (fold (\<lambda>k h. snd (sed_down k h)) ks h) = fold (\<lambda>k xs. go_down (pos_less (sh_d h)) xs k) ks (sh_order h)"
    if "at_ok n h" for ks h
    using that
  proof (induction ks arbitrary: h)
    case (Cons k ks)
    obtain mv h' where d: "sed_down_from k k h = (mv, h')"
      by fastforce
    show ?case
      using Cons.IH [of h'] sed_down_from_spec [OF Cons.prems order_refl d] d by (simp add: sed_down_def)
  qed simp
  from this [OF assms] have f: "at_ok n (sed_init h) \<and> sh_d (sed_init h) = sh_d h \<and>
      sh_order (sed_init h) = fold (\<lambda>k xs. go_down (pos_less (sh_d h)) xs k) (rev [0..<length (sh_order h) div 2]) (sh_order h)"
    by (simp add: sed_init_def)
  moreover have "mset (fold (\<lambda>k xs. go_down lt xs k) ks xs) = mset xs" for lt :: "nat \<Rightarrow> nat \<Rightarrow> bool" and ks xs
    by (induction ks arbitrary: xs) (simp_all add: mset_go_down)
  ultimately show ?thesis
    using pos.heap_init [OF pos.ordered_from_half] mset_eq_setD by (metis heap_ok_def)
qed

section \<open>Dropping from the bottom, without the heap\<close>

text \<open>
  The same in the plain way: of the candidates still standing, drop the one nearest the line between its
  standing neighbors, the earlier one on a tie. \<open>A\<close> lists the standing positions, \<open>C\<close> those that may go.
\<close>

definition left_of :: "nat list \<Rightarrow> nat \<Rightarrow> nat" where
  "left_of A i = Max (set (filter (\<lambda>j. j < i) A))"

definition right_of :: "nat list \<Rightarrow> nat \<Rightarrow> nat" where
  "right_of A i = Min (set (filter (\<lambda>j. i < j) A))"

definition off_line :: "sed \<Rightarrow> nat list \<Rightarrow> nat \<Rightarrow> real" where
  "off_line sed A i = sed (left_of A i) (right_of A i) i"

definition nearest :: "sed \<Rightarrow> nat list \<Rightarrow> nat list \<Rightarrow> nat" where
  "nearest sed A C =
     fold (\<lambda>j i. if off_line sed A j < off_line sed A i \<or> off_line sed A j = off_line sed A i \<and> j < i then j else i)
       (tl C) (C ! 0)"

lemma nearest_in:
  assumes "C \<noteq> []"
  shows "nearest sed A C \<in> set C \<and> (\<forall>j \<in> set C. off_line sed A (nearest sed A C) < off_line sed A j \<or>
           off_line sed A (nearest sed A C) = off_line sed A j \<and> nearest sed A C \<le> j)"
proof -
  let ?f = "off_line sed A"
  let ?step = "\<lambda>j i. if ?f j < ?f i \<or> ?f j = ?f i \<and> j < i then j else i"
  have "fold ?step js i \<in> insert i (set js) \<and>
      (\<forall>j \<in> insert i (set js). ?f (fold ?step js i) < ?f j \<or> ?f (fold ?step js i) = ?f j \<and> fold ?step js i \<le> j)" for js i
  proof (induction js arbitrary: i)
    case (Cons j js)
    then show ?case
      using Cons.IH [of "?step j i"] by (auto split: if_splits; fastforce)
  qed simp
  from this [of "tl C" "C ! 0"] assms show ?thesis
    by (cases C) (simp_all add: nearest_def)
qed

function greedy :: "sed \<Rightarrow> nat list \<Rightarrow> nat list \<Rightarrow> real \<Rightarrow> rank list \<Rightarrow> rank list" where
  "greedy sed A C fl rk =
     (if C = [] then rk
      else let i = nearest sed A C; f = max fl (off_line sed A i) in
        greedy sed (filter (\<lambda>j. j \<noteq> i) A) (filter (\<lambda>j. j \<noteq> i) C) f (rk[i := Fin f]))"
  by pat_completeness auto
termination
proof (relation "measure (\<lambda>(_, _, C, _, _). length C)")
  fix sed A and C :: "nat list" and fl :: real and rk :: "rank list" and i f
  assume "C \<noteq> []" "i = nearest sed A C"
  then have "length (filter (\<lambda>j. j \<noteq> i) C) < length C"
    using nearest_in by (intro length_filter_less) auto
  then show "((sed, filter (\<lambda>j. j \<noteq> i) A, filter (\<lambda>j. j \<noteq> i) C, f, rk[i := Fin f]), (sed, A, C, fl, rk))
      \<in> measure (\<lambda>(_, _, C, _, _). length C)"
    by simp
qed simp

declare greedy.simps [simp del]

definition greedy_ranks :: "sed \<Rightarrow> nat \<Rightarrow> nat list \<Rightarrow> rank list" where
  "greedy_ranks sed n seg =
     greedy sed [0..<n] (filter (\<lambda>i. \<not> is_end n seg i) [0..<n]) 0 (map (\<lambda>i. if is_end n seg i then Inf else Fin 0) [0..<n])"

section \<open>Neighbors\<close>

lemma left_of_eq: "j \<in> set A \<Longrightarrow> j < i \<Longrightarrow> (\<And>k. k \<in> set A \<Longrightarrow> k < i \<Longrightarrow> k \<le> j) \<Longrightarrow> left_of A i = j"
  by (auto simp: left_of_def intro!: Max_eqI)

lemma right_of_eq: "j \<in> set A \<Longrightarrow> i < j \<Longrightarrow> (\<And>k. k \<in> set A \<Longrightarrow> i < k \<Longrightarrow> j \<le> k) \<Longrightarrow> right_of A i = j"
  by (auto simp: right_of_def intro!: Min_eqI)

lemma left_of_in:
  assumes "j \<in> set A" "j < i"
  shows "left_of A i \<in> set A \<and> left_of A i < i \<and> j \<le> left_of A i"
proof -
  have "left_of A i \<in> set (filter (\<lambda>j. j < i) A)"
    unfolding left_of_def using assms by (intro Max_in) auto
  then show ?thesis
    using assms by (auto simp: left_of_def intro!: Max_ge)
qed

lemma right_of_in:
  assumes "j \<in> set A" "i < j"
  shows "right_of A i \<in> set A \<and> i < right_of A i \<and> right_of A i \<le> j"
proof -
  have "right_of A i \<in> set (filter (\<lambda>j. i < j) A)"
    unfolding right_of_def using assms by (intro Min_in) auto
  then show ?thesis
    using assms by (auto simp: right_of_def intro!: Min_le)
qed

definition inner :: "nat list \<Rightarrow> nat \<Rightarrow> bool" where
  "inner A i \<longleftrightarrow> i \<in> set A \<and> (\<exists>j \<in> set A. j < i) \<and> (\<exists>j \<in> set A. i < j)"

text \<open>What is next to what after an inner position is dropped.\<close>

lemma left_of_drop:
  assumes "inner A i" "x \<in> set A" "x \<noteq> i" "\<exists>j \<in> set A. j < x \<and> j \<noteq> i"
  shows "left_of (filter (\<lambda>j. j \<noteq> i) A) x = (if x = right_of A i then left_of A i else left_of A x)"
proof (cases "x = right_of A i")
  case True
  obtain j k where j: "j \<in> set A" "j < i" and k: "k \<in> set A" "i < k"
    using assms(1) by (auto simp: inner_def)
  have "left_of (filter (\<lambda>j. j \<noteq> i) A) x = left_of A i"
  proof (rule left_of_eq)
    show "left_of A i \<in> set (filter (\<lambda>j. j \<noteq> i) A)" "left_of A i < x"
      using left_of_in [OF j] right_of_in [OF k] True by auto
    fix y
    assume "y \<in> set (filter (\<lambda>j. j \<noteq> i) A)" "y < x"
    then have "y < i"
      using right_of_in [of y A i] True by (auto simp: not_less intro: ccontr [of "y < i"])
    then show "y \<le> left_of A i"
      using left_of_in [of y A i] \<open>y \<in> _\<close> by auto
  qed
  then show ?thesis
    using True by simp
next
  case False
  obtain j where j: "j \<in> set A" "j < x" "j \<noteq> i"
    using assms(4) by blast
  have l: "left_of A x \<in> set A \<and> left_of A x < x \<and> j \<le> left_of A x"
    using left_of_in [OF j(1,2)] .
  have "left_of A x \<noteq> i"
  proof
    assume e: "left_of A x = i"
    have "right_of A i = x"
    proof (rule right_of_eq)
      show "x \<in> set A" "i < x"
        using assms(2) l e by auto
      fix y
      assume "y \<in> set A" "i < y"
      then show "x \<le> y"
        using left_of_in [of y A x] e by (meson not_less)
    qed
    with False show False
      by simp
  qed
  then have "left_of (filter (\<lambda>j. j \<noteq> i) A) x = left_of A x"
    using l left_of_in [of _ A x] by (intro left_of_eq) auto
  with False show ?thesis
    by simp
qed

lemma right_of_drop:
  assumes "inner A i" "x \<in> set A" "x \<noteq> i" "\<exists>j \<in> set A. x < j \<and> j \<noteq> i"
  shows "right_of (filter (\<lambda>j. j \<noteq> i) A) x = (if x = left_of A i then right_of A i else right_of A x)"
proof (cases "x = left_of A i")
  case True
  obtain j k where j: "j \<in> set A" "j < i" and k: "k \<in> set A" "i < k"
    using assms(1) by (auto simp: inner_def)
  have "right_of (filter (\<lambda>j. j \<noteq> i) A) x = right_of A i"
  proof (rule right_of_eq)
    show "right_of A i \<in> set (filter (\<lambda>j. j \<noteq> i) A)" "x < right_of A i"
      using left_of_in [OF j] right_of_in [OF k] True by auto
    fix y
    assume "y \<in> set (filter (\<lambda>j. j \<noteq> i) A)" "x < y"
    then have "i < y"
      using left_of_in [of y A i] True by (auto simp: not_less intro: ccontr [of "i < y"])
    then show "right_of A i \<le> y"
      using right_of_in [of y A i] \<open>y \<in> _\<close> by auto
  qed
  then show ?thesis
    using True by simp
next
  case False
  obtain j where j: "j \<in> set A" "x < j" "j \<noteq> i"
    using assms(4) by blast
  have l: "right_of A x \<in> set A \<and> x < right_of A x \<and> right_of A x \<le> j"
    using right_of_in [OF j(1,2)] .
  have "right_of A x \<noteq> i"
  proof
    assume e: "right_of A x = i"
    have "left_of A i = x"
    proof (rule left_of_eq)
      show "x \<in> set A" "x < i"
        using assms(2) l e by auto
      fix y
      assume "y \<in> set A" "y < i"
      then show "y \<le> x"
        using right_of_in [of y A x] e by (meson not_less)
    qed
    with False show False
      by simp
  qed
  then have "right_of (filter (\<lambda>j. j \<noteq> i) A) x = right_of A x"
    using l right_of_in [of _ A x] by (intro right_of_eq) auto
  with False show ?thesis
    by simp
qed

section \<open>The loop keeps the plain loop's state\<close>

lemma rank_again_spec:
  assumes "heap_ok n (rk_heap st)" "j < n"
  shows "heap_ok n (rk_heap (rank_again sed j st)) \<and>
    sh_d (rk_heap (rank_again sed j st)) = (if j \<in> set (sh_order (rk_heap st))
      then (sh_d (rk_heap st))[j := sed (nat (rk_prev st ! j)) (nat (rk_next st ! j)) j] else sh_d (rk_heap st)) \<and>
    set (sh_order (rk_heap (rank_again sed j st))) = set (sh_order (rk_heap st)) \<and>
    rk_prev (rank_again sed j st) = rk_prev st \<and> rk_next (rank_again sed j st) = rk_next st \<and>
    rk_rank (rank_again sed j st) = rk_rank st \<and> rk_floor (rank_again sed j st) = rk_floor st"
proof -
  have "sh_at (rk_heap st) ! j \<ge> 0 \<longleftrightarrow> j \<in> set (sh_order (rk_heap st))"
    using assms unfolding heap_ok_def at_ok_def by (cases "j \<in> set (sh_order (rk_heap st))") (auto simp: in_set_conv_nth)
  then show ?thesis
    using sed_fix_ok [OF assms] by (simp add: rank_again_def Let_def assms(1))
qed

definition links_ok :: "nat \<Rightarrow> nat list \<Rightarrow> rank_state \<Rightarrow> bool" where
  "links_ok n A st \<longleftrightarrow> length (rk_prev st) = n \<and> length (rk_next st) = n \<and>
     (\<forall>x \<in> set A. (\<exists>j \<in> set A. j < x) \<longrightarrow> rk_prev st ! x = int (left_of A x)) \<and>
     (\<forall>x \<in> set A. (\<exists>j \<in> set A. x < j) \<longrightarrow> rk_next st ! x = int (right_of A x))"

definition loop_ok :: "sed \<Rightarrow> nat \<Rightarrow> nat list \<Rightarrow> nat list \<Rightarrow> rank_state \<Rightarrow> bool" where
  "loop_ok sed n A C st \<longleftrightarrow> heap_ok n (rk_heap st) \<and> set (sh_order (rk_heap st)) = set C \<and> set A \<subseteq> {..<n} \<and>
     (\<forall>i \<in> set C. i \<in> set A \<and> 0 < i \<and> i < n - 1) \<and> (0 < n \<longrightarrow> 0 \<in> set A \<and> n - 1 \<in> set A) \<and>
     links_ok n A st \<and> (\<forall>i \<in> set C. sh_d (rk_heap st) ! i = off_line sed A i)"

lemma links_drop:
  assumes "links_ok n A st" "inner A i" "set A \<subseteq> {..<n}"
  shows "links_ok n (filter (\<lambda>j. j \<noteq> i) A)
    (st\<lparr>rk_next := (rk_next st)[left_of A i := int (right_of A i)], rk_prev := (rk_prev st)[right_of A i := int (left_of A i)]\<rparr>)"
proof -
  obtain j k where j: "j \<in> set A" "j < i" and k: "k \<in> set A" "i < k"
    using assms(2) by (auto simp: inner_def)
  have lt: "left_of A i < n" "right_of A i < n"
    using left_of_in [OF j] right_of_in [OF k] assms(3) by auto
  have "(rk_prev st)[right_of A i := int (left_of A i)] ! x = int (left_of (filter (\<lambda>j. j \<noteq> i) A) x)"
    if "x \<in> set A" "x \<noteq> i" "\<exists>j \<in> set A. j < x \<and> j \<noteq> i" for x
    using left_of_drop [OF assms(2) that] that assms(1) lt by (auto simp: links_ok_def nth_list_update)
  moreover have "(rk_next st)[left_of A i := int (right_of A i)] ! x = int (right_of (filter (\<lambda>j. j \<noteq> i) A) x)"
    if "x \<in> set A" "x \<noteq> i" "\<exists>j \<in> set A. x < j \<and> j \<noteq> i" for x
    using right_of_drop [OF assms(2) that] that assms(1) lt by (auto simp: links_ok_def nth_list_update)
  ultimately show ?thesis
    using assms(1) by (auto simp: links_ok_def)
qed

lemma loop_step:
  assumes ok: "loop_ok sed n A C st" and ne: "C \<noteq> []"
  defines "i \<equiv> nearest sed A C"
  shows "loop_ok sed n (filter (\<lambda>j. j \<noteq> i) A) (filter (\<lambda>j. j \<noteq> i) C) (rank_drop sed st) \<and>
    rk_floor (rank_drop sed st) = max (rk_floor st) (off_line sed A i) \<and>
    rk_rank (rank_drop sed st) = (rk_rank st)[i := Fin (max (rk_floor st) (off_line sed A i))]"
proof -
  let ?h = "rk_heap st" and ?A = "filter (\<lambda>j. j \<noteq> i) A" and ?C = "filter (\<lambda>j. j \<noteq> i) C"
  let ?p = "left_of A i" and ?q = "right_of A i"
  have hp: "heap_ok n ?h" "set (sh_order ?h) = set C"
    using ok by (simp_all add: loop_ok_def)
  have nz: "0 < n" "0 \<in> set A" "n - 1 \<in> set A"
    using ok ne unfolding loop_ok_def by (cases C; fastforce)+
  have C: "x \<in> set A \<and> 0 < x \<and> x < n - 1" if "x \<in> set C" for x
    using ok that by (simp add: loop_ok_def)
  have inner: "inner A x" if "x \<in> set C" for x
    using C [OF that] nz by (auto simp: inner_def)
  note least = nearest_in [OF ne, of sed A, folded i_def]
  obtain i' h' where pop: "sed_pop ?h = (i', h')"
    by fastforce
  have o: "sh_order ?h \<noteq> []"
    using hp(2) ne by auto
  note pop' = sed_pop_ok [OF hp(1) o pop]
  have d: "sh_d ?h ! x = off_line sed A x" if "x \<in> set C" for x
    using ok that by (simp add: loop_ok_def)
  have "pos.le (sh_d ?h) i' i" "i' \<in> set C"
    using pop' least hp(2) by auto
  with least d have i': "i' = i"
    by (fastforce simp: le_pos)
  have iC: "i \<in> set C" "i < n"
    using least C nz by fastforce+
  have links: "rk_prev st ! i = int ?p" "rk_next st ! i = int ?q"
    using ok C [OF iC(1)] nz unfolding loop_ok_def links_ok_def by blast+
  have pq: "?p \<in> set A" "?p < i" "?q \<in> set A" "i < ?q"
    using left_of_in [of 0 A i] right_of_in [of "n - 1" A i] C [OF iC(1)] nz by auto
  have lt: "?p < n" "?q < n"
    using pq ok by (auto simp: loop_ok_def)
  let ?fl = "max (rk_floor st) (off_line sed A i)"
  let ?s0 = "st\<lparr>rk_heap := h', rk_floor := ?fl, rk_rank := (rk_rank st)[i := Fin ?fl],
             rk_next := (rk_next st)[?p := int ?q], rk_prev := (rk_prev st)[?q := int ?p]\<rparr>"
  let ?s1 = "rank_again sed ?p ?s0" and ?s2 = "rank_again sed ?q (rank_again sed ?p ?s0)"
  have drop: "rank_drop sed st = ?s2"
    using pop pop' d [OF iC(1)] links i' by (simp add: rank_drop_def Let_def)
  have h0: "heap_ok n (rk_heap ?s0)" "set (sh_order (rk_heap ?s0)) = set ?C" "sh_d (rk_heap ?s0) = sh_d ?h"
    using pop' hp(2) i' by auto
  note s1 = rank_again_spec [OF h0(1) lt(1), of sed]
  note s2 = rank_again_spec [OF conjunct1 [OF s1] lt(2), of sed]
  have l0: "links_ok n ?A ?s0"
    using links_drop [of n A st i] ok inner [OF iC(1)] by (simp add: loop_ok_def links_ok_def)
  have again: "sed (nat (rk_prev ?s0 ! x)) (nat (rk_next ?s0 ! x)) x = off_line sed ?A x" if "x \<in> set ?C" for x
  proof -
    have "x \<in> set ?A" "0 \<in> set ?A" "n - 1 \<in> set ?A" "0 < x" "x < n - 1"
      using that C nz C [OF iC(1)] by auto
    then have "rk_prev ?s0 ! x = int (left_of ?A x)" "rk_next ?s0 ! x = int (right_of ?A x)"
      using l0 unfolding links_ok_def by blast+
    then show ?thesis
      by (simp add: off_line_def)
  qed
  have len: "length (sh_d ?h) = n"
    using hp(1) by (simp add: heap_ok_def at_ok_def)
  have same: "off_line sed ?A x = off_line sed A x" if "x \<in> set ?C" "x \<noteq> ?p" "x \<noteq> ?q" for x
  proof -
    have "x \<in> set A" "x \<noteq> i" "\<exists>j \<in> set A. j < x \<and> j \<noteq> i" "\<exists>j \<in> set A. x < j \<and> j \<noteq> i"
      using that C nz C [OF iC(1)] by auto
    then show ?thesis
      using left_of_drop [OF inner [OF iC(1)], of x] right_of_drop [OF inner [OF iC(1)], of x] that
      by (simp add: off_line_def)
  qed
  have d1: "sh_d (rk_heap ?s1) = (if ?p \<in> set ?C then (sh_d ?h)[?p := off_line sed ?A ?p] else sh_d ?h)"
    using s1 h0(2,3) again [of ?p] by metis
  have "rk_prev ?s1 = rk_prev ?s0" "rk_next ?s1 = rk_next ?s0" "set (sh_order (rk_heap ?s1)) = set ?C"
    using s1 h0(2) by metis+
  then have d2: "sh_d (rk_heap ?s2) = (if ?q \<in> set ?C then (sh_d (rk_heap ?s1))[?q := off_line sed ?A ?q] else sh_d (rk_heap ?s1))"
    using s2 again [of ?q] by metis
  have "sh_d (rk_heap ?s2) ! x = off_line sed ?A x" if x: "x \<in> set ?C" for x
    using same [OF x] x lt len d pq d1 d2 by (cases "x = ?q"; cases "x = ?p") simp_all
  moreover have "links_ok n ?A ?s2"
    using l0 s1 s2 by (simp add: links_ok_def)
  ultimately show ?thesis
    using s1 s2 h0 ok C nz C [OF iC(1)] by (simp add: drop loop_ok_def) auto
qed

lemma loop_greedy:
  "loop_ok sed n A C st \<Longrightarrow> rk_rank (rank_loop sed st) = greedy sed A C (rk_floor st) (rk_rank st)"
proof (induction "length C" arbitrary: A C st rule: less_induct)
  case less
  have empty: "sh_order (rk_heap st) = [] \<longleftrightarrow> C = []"
    using less.prems by (metis loop_ok_def set_empty)
  show ?case
  proof (cases "C = []")
    case True
    then show ?thesis
      using empty by (simp add: rank_loop.simps [of sed st] greedy.simps [of sed A "[]"])
  next
    case False
    let ?i = "nearest sed A C"
    note step = loop_step [OF less.prems False]
    have "length (filter (\<lambda>j. j \<noteq> ?i) C) < length C"
      using nearest_in [OF False] by (intro length_filter_less) auto
    from less.hyps [OF this conjunct1 [OF step]] show ?thesis
      using step False empty
      by (simp add: rank_loop.simps [of sed st] greedy.simps [of sed A C] Let_def)
  qed
qed

section \<open>The arrays as the loop starts\<close>

lemma rank_enter_fields:
  "rk_prev (rank_enter sed n seg i st) = (rk_prev st)[i := int i - 1]"
  "rk_next (rank_enter sed n seg i st) = (rk_next st)[i := int i + 1]"
  "rk_floor (rank_enter sed n seg i st) = rk_floor st"
  "rk_rank (rank_enter sed n seg i st) = (if is_end n seg i then (rk_rank st)[i := Inf] else rk_rank st)"
  "sh_order (rk_heap (rank_enter sed n seg i st)) = sh_order (rk_heap st) @ (if is_end n seg i then [] else [i])"
  "sh_d (rk_heap (rank_enter sed n seg i st)) =
     (if is_end n seg i then sh_d (rk_heap st) else (sh_d (rk_heap st))[i := sed (i - 1) (i + 1) i])"
  "sh_at (rk_heap (rank_enter sed n seg i st)) =
     (sh_at (rk_heap st))[i := if is_end n seg i then - 1 else int (length (sh_order (rk_heap st)))]"
  by (simp_all add: rank_enter_def Let_def)

definition blank_rank :: "nat \<Rightarrow> rank_state" where
  "blank_rank n = \<lparr>rk_heap = \<lparr>sh_order = [], sh_d = replicate n 0, sh_at = replicate n 0\<rparr>,
     rk_prev = replicate n 0, rk_next = replicate n 0, rk_rank = replicate n (Fin 0), rk_floor = 0\<rparr>"

definition entered :: "sed \<Rightarrow> nat \<Rightarrow> nat list \<Rightarrow> nat \<Rightarrow> rank_state \<Rightarrow> bool" where
  "entered sed n seg k st \<longleftrightarrow>
     (length (rk_prev st) = n \<and> length (rk_next st) = n \<and> length (rk_rank st) = n \<and> rk_floor st = 0 \<and>
      length (sh_d (rk_heap st)) = n \<and> length (sh_at (rk_heap st)) = n \<and>
      sh_order (rk_heap st) = filter (\<lambda>i. \<not> is_end n seg i) [0..<k]) \<and>
     (\<forall>i < n. rk_rank st ! i = (if i < k \<and> is_end n seg i then Inf else Fin 0)) \<and>
     (\<forall>i < k. rk_prev st ! i = int i - 1 \<and> rk_next st ! i = int i + 1 \<and>
        (if is_end n seg i then sh_at (rk_heap st) ! i = - 1
         else sh_d (rk_heap st) ! i = sed (i - 1) (i + 1) i \<and>
              sh_at (rk_heap st) ! i = int (length (filter (\<lambda>i. \<not> is_end n seg i) [0..<i]))))"

lemma entered_step: "entered sed n seg k st \<Longrightarrow> k < n \<Longrightarrow> entered sed n seg (Suc k) (rank_enter sed n seg k st)"
  unfolding entered_def rank_enter_fields by (auto simp: nth_list_update less_Suc_eq)

lemma entered_all: "k \<le> n \<Longrightarrow> entered sed n seg k (fold (rank_enter sed n seg) [0..<k] (blank_rank n))"
proof (induction k)
  case 0
  then show ?case
    by (simp add: entered_def blank_rank_def)
next
  case (Suc k)
  then show ?case
    using entered_step [of sed n seg k] by simp
qed

lemma filter_upt_nth:
  assumes "k < length (filter P [0..<n])" "filter P [0..<n] ! k = i"
  shows "length (filter P [0..<i]) = k"
proof -
  have i: "P i" "i < n"
    using nth_mem [OF assms(1)] assms(2) by auto
  have "[0..<n] = [0..<i] @ i # [Suc i..<n]"
    using i(2) upt_add_eq_append [of 0 i "n - i"] upt_conv_Cons [of i n] by simp
  then have f: "filter P [0..<n] = filter P [0..<i] @ i # filter P [Suc i..<n]"
    using i(1) by simp
  have "filter P [0..<n] ! length (filter P [0..<i]) = i" "length (filter P [0..<i]) < length (filter P [0..<n])"
    by (simp_all add: f nth_append)
  then show ?thesis
    using assms by (metis distinct_filter distinct_upt nth_eq_iff_index_eq)
qed

lemma entered_at_ok:
  assumes "entered sed n seg n st"
  shows "at_ok n (rk_heap st)"
proof -
  have "sh_at (rk_heap st) ! (sh_order (rk_heap st) ! k) = int k" if "k < length (sh_order (rk_heap st))" for k
  proof -
    let ?i = "sh_order (rk_heap st) ! k"
    have "?i < n" "\<not> is_end n seg ?i"
      using nth_mem [OF that] assms by (auto simp: entered_def)
    then show ?thesis
      using assms that filter_upt_nth [of k "\<lambda>i. \<not> is_end n seg i" n ?i] by (simp add: entered_def)
  qed
  then show ?thesis
    using assms by (auto simp: at_ok_def entered_def)
qed

lemma rank_start_ok:
  "loop_ok sed n [0..<n] (filter (\<lambda>i. \<not> is_end n seg i) [0..<n]) (rank_start sed n seg) \<and> rk_floor (rank_start sed n seg) = 0 \<and>
   rk_rank (rank_start sed n seg) = map (\<lambda>i. if is_end n seg i then Inf else Fin 0) [0..<n]"
proof -
  let ?st = "fold (rank_enter sed n seg) [0..<n] (blank_rank n)"
  have start: "rank_start sed n seg = ?st\<lparr>rk_heap := sed_init (rk_heap ?st)\<rparr>"
    by (simp only: rank_start_def blank_rank_def Let_def)
  have e: "entered sed n seg n ?st"
    by (rule entered_all) simp
  note init = sed_init_ok [OF entered_at_ok [OF e]]
  have l: "left_of [0..<n] x = x - 1" if "j < x" "x < n" for j x
    using that by (intro left_of_eq) auto
  have r: "right_of [0..<n] x = x + 1" if "x < j" "j < n" for j x
    using that by (intro right_of_eq) auto
  have "off_line sed [0..<n] i = sed (i - 1) (i + 1) i" if "0 < i" "i < n - 1" for i
    using that l [of 0 i] r [of i "n - 1"] by (simp add: off_line_def)
  moreover have "0 < i \<and> i < n - 1" if "\<not> is_end n seg i" "i < n" for i
    using that by (auto simp: is_end_def)
  ultimately have "\<forall>i \<in> set (filter (\<lambda>i. \<not> is_end n seg i) [0..<n]). i \<in> set [0..<n] \<and> 0 < i \<and> i < n - 1 \<and>
      sh_d (rk_heap ?st) ! i = off_line sed [0..<n] i"
    using e by (auto simp: entered_def)
  moreover have "links_ok n [0..<n] ?st"
    using e l r by (auto simp: links_ok_def entered_def)
  moreover have "rk_rank ?st = map (\<lambda>i. if is_end n seg i then Inf else Fin 0) [0..<n]"
    using e by (intro nth_equalityI) (auto simp: entered_def)
  ultimately show ?thesis
    using init e by (auto simp: start loop_ok_def links_ok_def entered_def)
qed

text \<open>
  C24. Ranking with the heap gives every position the rank that dropping positions one at a time gives it, each time
  looking at all that still stand: the positions' places in the heap, their neighbors and their distances stay
  right throughout.
\<close>

theorem rank_positions_greedy:
  "rank_positions pts seg = greedy_ranks (sed_of pts) (length pts) seg"
proof -
  note ok = rank_start_ok [of "sed_of pts" "length pts" seg]
  show ?thesis
    unfolding rank_positions_def rank_with_def greedy_ranks_def
    by (simp only: loop_greedy [OF conjunct1 [OF ok]] conjunct2 [OF ok])
qed

section \<open>The positions kept\<close>

lemma length_greedy: "length (greedy sed A C fl rk) = length rk"
  by (induction sed A C fl rk rule: greedy.induct) (subst greedy.simps, simp add: Let_def)

lemma length_ranks [simp]: "length (rank_positions pts seg) = length pts"
  by (simp add: loop_greedy [OF conjunct1 [OF rank_start_ok]] rank_positions_def rank_with_def length_greedy
      conjunct2 [OF rank_start_ok])

lemma rank_gt_trans: "\<not> rank_gt b a \<Longrightarrow> \<not> rank_gt c b \<Longrightarrow> \<not> rank_gt c a"
  by (cases a; cases b; cases c) auto

lemma rank_gt_asym: "rank_gt a b \<Longrightarrow> \<not> rank_gt b a"
  by (cases a; cases b) auto

lemma rank_gt_irrefl [simp]: "\<not> rank_gt a a"
  by (cases a) auto

lemma sort_ranks_sorted: "sorted_wrt (\<lambda>a b. \<not> rank_gt b a) (sort_ranks rs)"
proof -
  have set: "set (insert_rank r rs) = insert r (set rs)" for r rs
    by (induction rs) auto
  have "sorted_wrt (\<lambda>a b. \<not> rank_gt b a) rs \<Longrightarrow> sorted_wrt (\<lambda>a b. \<not> rank_gt b a) (insert_rank r rs)" for r rs
    by (induction rs) (auto simp: set dest: rank_gt_asym rank_gt_trans)
  then show ?thesis
    unfolding sort_ranks_def by (induction rs) auto
qed

lemma mset_sort_ranks: "mset (sort_ranks rs) = mset rs"
proof -
  have "mset (insert_rank r rs) = add_mset r (mset rs)" for r rs
    by (induction rs) auto
  then show ?thesis
    unfolding sort_ranks_def by (induction rs) auto
qed

text \<open>At most \<open>m\<close> ranks are past the one at index \<open>m\<close>, and if that is \<open>Inf\<close>, more than \<open>m\<close> are.\<close>

lemma sorted_at:
  assumes "m < length rs" "sort_ranks rs ! m = x"
  shows "length (filter (\<lambda>r. rank_gt r x) rs) \<le> m" and "x = Inf \<Longrightarrow> m < length (filter (\<lambda>r. r = Inf) rs)"
proof -
  let ?s = "sort_ranks rs"
  have len: "length ?s = length rs"
    using mset_eq_length [OF mset_sort_ranks] .
  have count: "length (filter P rs) = length (filter P (take m ?s)) + length (filter P (drop m ?s))" for P
    by (metis append_take_drop_id filter_append length_append mset_eq_length mset_filter mset_sort_ranks)
  have "\<not> rank_gt r x" if "r \<in> set (drop m ?s)" for r
  proof -
    obtain j where "j < length (drop m ?s)" "drop m ?s ! j = r"
      using \<open>r \<in> set (drop m ?s)\<close> by (metis in_set_conv_nth)
    then obtain k where "m \<le> k" "k < length ?s" "?s ! k = r"
      using assms(1) len by (intro that [of "m + j"]) simp_all
    then show ?thesis
      using sorted_wrt_nth_less [OF sort_ranks_sorted, of m k rs] assms by (cases "k = m") auto
  qed
  then have "filter (\<lambda>r. rank_gt r x) (drop m ?s) = []"
    by (simp add: filter_empty_conv)
  then show "length (filter (\<lambda>r. rank_gt r x) rs) \<le> m"
    using length_filter_le [of "\<lambda>r. rank_gt r x" "take m ?s"] by (simp add: count)
  assume x: "x = Inf"
  have "r = Inf" if "r \<in> set (take (Suc m) ?s)" for r
  proof -
    obtain k where "k < length (take (Suc m) ?s)" "take (Suc m) ?s ! k = r"
      using \<open>r \<in> set (take (Suc m) ?s)\<close> by (metis in_set_conv_nth)
    then have k: "k \<le> m" "?s ! k = r"
      by simp_all
    then have "\<not> rank_gt Inf r"
      using sorted_wrt_nth_less [OF sort_ranks_sorted, of k m rs] assms x len by (cases "k = m") auto
    then show ?thesis
      by (cases r) auto
  qed
  then have "filter (\<lambda>r. r = Inf) (take (Suc m) ?s) = take (Suc m) ?s"
    by (simp add: filter_id_conv)
  then have "length (filter (\<lambda>r. r = Inf) ?s) \<ge> Suc m"
    using assms(1) len by (metis (no_types, lifting) Suc_leI append_take_drop_id filter_append le_add1 length_append length_take min.absorb2)
  then show "m < length (filter (\<lambda>r. r = Inf) rs)"
    by (metis Suc_le_lessD mset_eq_length mset_filter mset_sort_ranks)
qed

lemma length_filter_index: "length (filter (\<lambda>i. P (xs ! i)) [0..<length xs]) = length (filter P xs)"
proof -
  have "filter P xs = map (\<lambda>i. xs ! i) (filter (\<lambda>i. P (xs ! i)) [0..<length xs])"
    by (metis (no_types, lifting) comp_apply filter_cong filter_map map_nth)
  then show ?thesis
    by simp
qed

lemma spread_increasing:
  fixes m L :: nat
  assumes "m \<le> L" "0 < m" "a < b"
  shows "a * L div m < b * L div m"
proof -
  have "a * L + m \<le> Suc a * L"
    using assms(1) by simp
  also have "\<dots> \<le> b * L"
    using assms(3) by (intro mult_right_mono) simp_all
  finally have "(a * L + m) div m \<le> b * L div m"
    by (rule div_le_mono)
  then show ?thesis
    using assms(2) by simp
qed

lemma spread_bound:
  fixes m L k :: nat
  assumes "k \<le> m" "0 < m"
  shows "k * L div m \<le> L"
proof -
  have "k * L div m \<le> m * L div m"
    using assms(1) by (intro div_le_mono mult_right_mono) simp_all
  then show ?thesis
    using assms(2) by simp
qed

lemma spread_ends_spec:
  assumes "0 < limit" "limit < length (filter (\<lambda>r. r = Inf) rk)"
  shows "sorted_wrt (<) (spread_ends rk limit) \<and> length (spread_ends rk limit) = limit \<and>
    set (spread_ends rk limit) \<subseteq> {i. i < length rk \<and> rk ! i = Inf}"
proof -
  let ?ends = "filter (\<lambda>i. rk ! i = Inf) [0..<length rk]"
  let ?L = "length ?ends - 1" and ?m = "max (limit - 1) 1"
  have "limit < length ?ends"
    using assms(2) length_filter_index [of "\<lambda>r. r = Inf" rk] by simp
  then have L: "limit \<le> ?L" "0 < length ?ends"
    by linarith+
  have inc: "a * ?L div ?m < b * ?L div ?m" if "a < b" for a b
    using L assms(1) that by (intro spread_increasing) auto
  have in_range: "k * ?L div ?m < length ?ends" if "k < limit" for k
  proof -
    have "k * ?L div ?m \<le> ?L"
      using that by (intro spread_bound) auto
    also have "\<dots> < length ?ends"
      using L(2) by linarith
    finally show ?thesis .
  qed
  have "sorted_wrt (<) ?ends"
    by (simp add: sorted_wrt_filter)
  then have "?ends ! (a * ?L div ?m) < ?ends ! (b * ?L div ?m)" if "a < b" "b < limit" for a b
    using inc [OF that(1)] in_range [OF that(2)] sorted_wrt_nth_less by blast
  then have "sorted_wrt (<) (map (\<lambda>k. ?ends ! (k * ?L div ?m)) [0..<limit])"
    by (simp add: sorted_wrt_iff_nth_less)
  moreover have "set (map (\<lambda>k. ?ends ! (k * ?L div ?m)) [0..<limit]) \<subseteq> set ?ends"
    using nth_mem [OF in_range] by auto
  ultimately show ?thesis
    by (auto simp: spread_ends_def Let_def)
qed

lemma fin_max_ge: "Fin x \<in> set rk \<Longrightarrow> x \<le> fin_max rk"
proof -
  let ?f = "\<lambda>r t. case r of Fin x \<Rightarrow> max t x | Inf \<Rightarrow> t"
  have mono: "t \<le> fold ?f rk t" for t :: real and rk
    by (induction rk arbitrary: t) (auto split: rank.split intro: order_trans [OF max.cobounded1])
  have "Fin x \<in> set rk \<Longrightarrow> x \<le> fold ?f rk t" for t
  proof (induction rk arbitrary: t)
    case (Cons r rk)
    then show ?case
      using mono [of "max t x" rk] by (cases "r = Fin x") auto
  qed simp
  then show "Fin x \<in> set rk \<Longrightarrow> x \<le> fin_max rk"
    by (simp add: fin_max_def)
qed

lemma keep_positions_spec:
  assumes "0 < limit" "keep_positions rk limit = (keep, tol, m)"
  shows "sorted_wrt (<) keep \<and> length keep \<le> limit \<and> set keep \<subseteq> {i. i < length rk \<and> rank_gt (rk ! i) (Fin shape_tolerance)} \<and>
    shape_tolerance \<le> tol \<and> (\<forall>i < length rk. i \<notin> set keep \<longrightarrow> (m \<and> rk ! i = Inf) \<or> \<not> rank_gt (rk ! i) (Fin tol)) \<and>
    (m \<or> tol = shape_tolerance)"
proof (cases "length (keep_over rk shape_tolerance) > limit")
  case False
  then show ?thesis
    using assms by (auto simp: keep_positions_def keep_over_def sorted_wrt_filter)
next
  case True
  have over: "length (keep_over rk x) = length (filter (\<lambda>r. rank_gt r (Fin x)) rk)" for x
    unfolding keep_over_def by (rule length_filter_index)
  have len: "limit < length rk"
    using True over length_filter_le less_le_trans by metis
  show ?thesis
  proof (cases "sort_ranks rk ! limit")
    case Inf
    then have k: "keep = spread_ends rk limit" "tol = max (fin_max rk) shape_tolerance" m
      using assms(2) True by (auto simp: keep_positions_def)
    have "rk ! i = Inf \<or> \<not> rank_gt (rk ! i) (Fin tol)" if "i < length rk" for i
    proof (cases "rk ! i")
      case (Fin x)
      then have "x \<le> fin_max rk"
        using fin_max_ge nth_mem [OF that] by simp
      then show ?thesis
        using Fin by (simp add: k(2))
    qed simp
    moreover have "set keep \<subseteq> {i. i < length rk \<and> rank_gt (rk ! i) (Fin shape_tolerance)}"
      using spread_ends_spec [OF assms(1) sorted_at(2) [OF len Inf refl]] by (auto simp: k(1))
    ultimately show ?thesis
      using spread_ends_spec [OF assms(1) sorted_at(2) [OF len Inf refl]] k by simp
  next
    case (Fin x)
    have "shape_tolerance \<le> x"
    proof (rule ccontr)
      assume "\<not> shape_tolerance \<le> x"
      then have "\<And>r. rank_gt r (Fin shape_tolerance) \<Longrightarrow> rank_gt r (Fin x)"
        by (auto elim!: rank_gt.elims)
      then have "length (filter (\<lambda>r. rank_gt r (Fin shape_tolerance)) rk) \<le> length (filter (\<lambda>r. rank_gt r (Fin x)) rk)"
        by (induction rk) auto
      then show False
        using sorted_at(1) [OF len Fin] True over by simp
    qed
    moreover have "rank_gt r (Fin shape_tolerance)" if "rank_gt r (Fin x)" for r
      using that calculation by (auto elim!: rank_gt.elims)
    ultimately show ?thesis
      using assms True Fin sorted_at(1) [OF len Fin] over [of x]
      by (auto simp: keep_positions_def keep_over_def sorted_wrt_filter)
  qed
qed

text \<open>A rank is \<open>Inf\<close> exactly at the ends of segments.\<close>

lemma greedy_Inf:
  "i < length rk \<Longrightarrow> i \<notin> set C \<Longrightarrow> greedy sed A C fl rk ! i = rk ! i"
proof (induction sed A C fl rk rule: greedy.induct)
  case (1 sed A C fl rk)
  show ?case
  proof (cases "C = []")
    case False
    then have "nearest sed A C \<noteq> i"
      using nearest_in [OF False] 1(3) by blast
    then show ?thesis
      using 1 False by (subst greedy.simps) (simp add: Let_def)
  qed (simp add: greedy.simps [of sed A "[]"])
qed

lemma greedy_Fin:
  "set C \<subseteq> {..<length rk} \<Longrightarrow> i \<in> set C \<Longrightarrow> greedy sed A C fl rk ! i \<noteq> Inf"
proof (induction sed A C fl rk rule: greedy.induct)
  case (1 sed A C fl rk)
  let ?n = "nearest sed A C"
  let ?f = "max fl (off_line sed A ?n)"
  have ne: "C \<noteq> []"
    using "1.prems" by auto
  have step: "greedy sed A C fl rk = greedy sed (filter (\<lambda>j. j \<noteq> ?n) A) (filter (\<lambda>j. j \<noteq> ?n) C) ?f (rk[?n := Fin ?f])"
    using ne by (subst greedy.simps) (simp add: Let_def)
  show ?case
  proof (cases "i = ?n")
    case True
    then have "greedy sed A C fl rk ! i = rk[?n := Fin ?f] ! i"
      unfolding step using "1.prems" by (intro greedy_Inf) auto
    then show ?thesis
      using True "1.prems" by auto
  next
    case False
    then show ?thesis
      unfolding step using "1.prems" "1.IH" [OF ne refl refl] by auto
  qed
qed

lemma rank_Inf_iff:
  assumes "i < length pts"
  shows "rank_positions pts seg ! i = Inf \<longleftrightarrow> is_end (length pts) seg i"
proof -
  have "rank_positions pts seg = greedy_ranks (sed_of pts) (length pts) seg"
    by (simp add: rank_positions_def rank_with_def greedy_ranks_def loop_greedy [OF conjunct1 [OF rank_start_ok]]
        conjunct2 [OF rank_start_ok])
  then show ?thesis
    using assms greedy_Fin [of "filter (\<lambda>i. \<not> is_end (length pts) seg i) [0..<length pts]"
        "map (\<lambda>i. if is_end (length pts) seg i then Inf else Fin 0) [0..<length pts]" i]
      greedy_Inf [of i _ "filter (\<lambda>i. \<not> is_end (length pts) seg i) [0..<length pts]"]
    by (cases "is_end (length pts) seg i") (auto simp: greedy_ranks_def)
qed

text \<open>
  A simplified track is at most the limit's worth of the positions, in their order. Each one kept is the end of
  a stretch or ranks past fifteen meters; none left out ranks past the tolerance reported, unless it is the end of
  one of more stretches than the limit holds; and the tolerance is fifteen meters when nothing had to be left out.
\<close>

theorem simplify_kept:
  assumes "0 < limit"
  shows "\<exists>keep. sp_points (simplify pts silence limit) = map (\<lambda>i. pts ! i) keep \<and> sorted_wrt (<) keep \<and> length keep \<le> limit \<and>
    (\<forall>i \<in> set keep. i < length pts \<and> (is_end (length pts) (segments pts silence) i \<or>
       rank_gt (rank_positions pts (segments pts silence) ! i) (Fin shape_tolerance))) \<and>
    (\<forall>i < length pts. i \<notin> set keep \<longrightarrow>
       (sp_more (simplify pts silence limit) \<and> is_end (length pts) (segments pts silence) i) \<or>
       \<not> rank_gt (rank_positions pts (segments pts silence) ! i) (Fin (sp_tolerance (simplify pts silence limit)))) \<and>
    (sp_more (simplify pts silence limit) \<or> sp_tolerance (simplify pts silence limit) = shape_tolerance)"
proof -
  let ?rk = "rank_positions pts (segments pts silence)"
  obtain keep tol m where k: "keep_positions ?rk limit = (keep, tol, m)"
    using prod_cases3 by blast
  have s: "sp_points (simplify pts silence limit) = map (\<lambda>i. pts ! i) keep" "sp_tolerance (simplify pts silence limit) = tol"
      "sp_more (simplify pts silence limit) = m"
    by (simp_all add: simplify_def Let_def k)
  note spec = keep_positions_spec [OF assms k]
  have "\<forall>i < length pts. i \<notin> set keep \<longrightarrow> (m \<and> is_end (length pts) (segments pts silence) i) \<or> \<not> rank_gt (?rk ! i) (Fin tol)"
    using spec rank_Inf_iff [of _ pts "segments pts silence"] by auto
  moreover have "\<forall>i \<in> set keep. i < length pts \<and> (is_end (length pts) (segments pts silence) i \<or> rank_gt (?rk ! i) (Fin shape_tolerance))"
    using spec by auto
  ultimately show ?thesis
    using spec unfolding s by blast
qed

theorem simplify_kept_witness:
  "length (sp_points (simplify [sample_point 0 0 0, sample_point 60000000000 100 0, sample_point 120000000000 200 0] hour 2)) \<le> 2"
  using simplify_kept [of 2 "[sample_point 0 0 0, sample_point 60000000000 100 0, sample_point 120000000000 200 0]" hour] by auto

text \<open>
  The tolerance bounds how far a position lay from its neighbors' line when it was dropped, not how far it lies
  from the line answered: on this leg along a meridian every inner position ranks within fifteen meters, so only
  the ends are kept, and the third position is more than sixteen meters from the line between them.
\<close>

definition bent_leg :: "track_point list" where
  "bent_leg = [sample_point 0 0 0, sample_point 60000000000 44 0, sample_point 120000000000 88 0,
     sample_point 180000000000 80 0, sample_point 240000000000 0 0]"

lemma sample_point_ts [simp]: "pt_ts (sample_point t a d) = t"
  by (simp add: sample_point_def new_track_point_def)

lemma bent_leg_sed:
  assumes "a < 5" "b < 5" "p < 5" "a < b"
  shows "sed_of bent_leg a b p = meters_per_unit * \<bar>[0, 44, 88, 80, 0] ! p - [0, 44, 88, 80, 0] ! a -
     (real p - real a) / (real b - real a) * ([0, 44, 88, 80, 0] ! b - [0, 44, 88, 80, 0] ! a)\<bar>"
proof -
  have e: "east bent_leg i = 0" if "i < 5" for i
    using that by (auto simp: east_def bent_leg_def sample_point_def less_Suc_eq numeral_eq_Suc wrap32_def)
  define v :: "nat \<Rightarrow> real" where "v i = [0, 44, 88, 80, 0] ! i" for i
  have n: "north bent_leg i = meters_per_unit * v i" if "i < 5" for i
    using that by (auto simp: north_def bent_leg_def sample_point_def less_Suc_eq eval_nat_numeral wrap32_def v_def)
  have t: "seconds_after bent_leg i = 60 * real i" if "i < 5" for i
    using that by (auto simp: seconds_after_def bent_leg_def less_Suc_eq eval_nat_numeral time_sub_def
        min_duration_def max_duration_def)
  define c where "c = (real p - real a) / (real b - real a)"
  have f: "(60 * real p - 60 * real a) / (60 * real b - 60 * real a) = c"
    unfolding c_def by (metis mult_divide_mult_cancel_left right_diff_distrib zero_neq_numeral)
  have y: "meters_per_unit * u - meters_per_unit * v - c * (meters_per_unit * w - meters_per_unit * v) =
      meters_per_unit * (u - v - c * (w - v))" for u v w c :: real
    by (simp add: algebra_simps)
  have m: "0 \<le> meters_per_unit"
    by (simp add: meters_per_unit_def)
  have "sed_of bent_leg a b p = meters_per_unit * \<bar>v p - v a - c * (v b - v a)\<bar>"
    using assms m unfolding sed_of_def Let_def by (simp add: e n t f y abs_mult real_sqrt_abs2)
  then show ?thesis
    by (simp only: v_def c_def)
qed

lemma bent_leg_off:
  "off_line (sed_of bent_leg) [0, 1, 2, 3, 4] 1 = 0"
  "off_line (sed_of bent_leg) [0, 1, 2, 3, 4] 2 = meters_per_unit * 26"
  "off_line (sed_of bent_leg) [0, 1, 2, 3, 4] 3 = meters_per_unit * 36"
  "off_line (sed_of bent_leg) [0, 2, 3, 4] 2 = meters_per_unit * (104 / 3)"
  "off_line (sed_of bent_leg) [0, 2, 3, 4] 3 = meters_per_unit * 36"
  "off_line (sed_of bent_leg) [0, 3, 4] 3 = meters_per_unit * 80"
  by (simp_all add: off_line_def left_of_def right_of_def bent_leg_sed)

lemma bent_leg_ranks:
  "rank_positions bent_leg (segments bent_leg hour) =
    [Inf, Fin 0, Fin (meters_per_unit * (104 / 3)), Fin (meters_per_unit * 80), Inf]"
proof -
  have seg: "segments bent_leg hour = [0, 0, 0, 0, 0]"
    by (simp add: segments_def bent_leg_def time_sub_def min_duration_def max_duration_def)
  have ends: "filter (\<lambda>i. \<not> is_end 5 [0, 0, 0, 0, 0] i) [0, 1, 2, 3, 4] = [1, 2, 3]"
    "map (\<lambda>i. if is_end 5 [0, 0, 0, 0, 0] i then Inf else Fin 0) [0, 1, 2, 3, 4] = [Inf, Fin 0, Fin 0, Fin 0, Inf]" "[0..<5] = [0, 1, 2, 3, 4]"
    by (simp_all add: is_end_def upt_conv_Cons)
  have m: "0 < meters_per_unit"
    by (simp add: meters_per_unit_def)
  have near: "nearest (sed_of bent_leg) [0, 1, 2, 3, 4] [1, 2, 3] = 1" "nearest (sed_of bent_leg) [0, 2, 3, 4] [2, 3] = 2"
      "nearest (sed_of bent_leg) [0, 3, 4] [3] = 3"
    using m by (simp_all add: nearest_def bent_leg_off [unfolded One_nat_def])
  have len: "length bent_leg = 5"
    by (simp add: bent_leg_def)
  have step: "greedy sed A C fl rk = (let i = nearest sed A C; f = max fl (off_line sed A i) in
        greedy sed (filter (\<lambda>j. j \<noteq> i) A) (filter (\<lambda>j. j \<noteq> i) C) f (rk[i := Fin f]))" if "C \<noteq> []" for sed A C fl rk
    using that by (subst greedy.simps) simp
  have "greedy (sed_of bent_leg) [0, 1, 2, 3, 4] [1, 2, 3] 0 [Inf, Fin 0, Fin 0, Fin 0, Inf] =
      greedy (sed_of bent_leg) [0, 2, 3, 4] [2, 3] 0 [Inf, Fin 0, Fin 0, Fin 0, Inf]"
    by (subst step, simp) (simp only: Let_def near bent_leg_off, simp)
  also have "\<dots> = greedy (sed_of bent_leg) [0, 3, 4] [3] (meters_per_unit * (104 / 3))
      [Inf, Fin 0, Fin (meters_per_unit * (104 / 3)), Fin 0, Inf]"
    using m by (subst step, simp) (simp only: Let_def near bent_leg_off, simp add: max_def)
  also have "\<dots> = [Inf, Fin 0, Fin (meters_per_unit * (104 / 3)), Fin (meters_per_unit * 80), Inf]"
    using m by (subst step, simp) (simp only: Let_def near bent_leg_off, simp add: max_def greedy.simps [of _ _ "[]"])
  finally show ?thesis
    unfolding rank_positions_def rank_with_def seg len
    by (simp only: loop_greedy [OF conjunct1 [OF rank_start_ok]] conjunct2 [OF rank_start_ok] ends)
qed

lemma tolerance_not_a_bound:
  "sp_points (simplify bent_leg hour 100) = [bent_leg ! 0, bent_leg ! 4] \<and> sp_tolerance (simplify bent_leg hour 100) = 15 \<and>
   sed_of bent_leg 0 4 2 > 16"
proof -
  have "keep_over [Inf, Fin 0, Fin (meters_per_unit * (104 / 3)), Fin (meters_per_unit * 80), Inf] 15 = [0, 4]"
    by (simp add: keep_over_def meters_per_unit_def upt_conv_Cons)
  then show ?thesis
    by (simp add: simplify_def bent_leg_ranks keep_positions_def shape_tolerance_def bent_leg_sed)
      (simp add: meters_per_unit_def)
qed

end
