(* ===== verification/Licenses.thy ===== *)
theory Licenses
  imports Packets
begin

text \<open>
  Licenses and credits by source, from \<open>server/archive.go\<close>, and the credits an answer gives
  (\<open>noteAttribution\<close>, \<open>server/vessels.go\<close>).
\<close>

declare map_of_eq_Some_iff [simp del]

definition licenses :: "(string \<times> string) list" where
  "licenses = [(''kystverket'', ''NLOD-2.0''), (''barentswatch'', ''NLOD-2.0''), (''digitraffic'', ''CC-BY-4.0''),
     (''aisstream'', ''aisstream-io-terms''), (''aishub'', ''aishub-terms''), (''station'', ''CC0-1.0''), (''udp'', ''CC0-1.0''),
     (''mmsi'', ''CC0-1.0''), (''marinecadastre'', ''us-public-domain''), (''dma'', ''DK-PSI''), (''http'', ''CC0-1.0''),
     (''v1'', ''CC0-1.0'')]"

definition own_credit :: string where
  "own_credit = ''Open Waters AIS (https://openwaters.io/ais/)''"

definition attributions :: "(string \<times> string) list" where
  "attributions =
     [(''kystverket'', ''Contains data under the Norwegian licence for Open Government data (NLOD) distributed by the Norwegian Coastal Administration.''),
      (''barentswatch'', ''Data delivered by BarentsWatch. Contains data under the Norwegian licence for Open Government data (NLOD) distributed by the Norwegian Coastal Administration.''),
      (''digitraffic'', ''Source: Fintraffic / digitraffic.fi, license CC 4.0 BY''),
      (''aishub'', ''AISHub (https://www.aishub.net)''),
      (''aisstream'', ''aisstream.io''),
      (''marinecadastre'', ''U.S. Coast Guard Nationwide AIS, via MarineCadastre.gov (NOAA and BOEM).''),
      (''dma'', ''Danish Maritime Authority.'')]"

text \<open>The full name first, then what comes before its first colon, when there is one past the first character.\<close>

definition by_source :: "(string \<times> string) list \<Rightarrow> string \<Rightarrow> string \<Rightarrow> string" where
  "by_source m source dflt =
     (if get_or [] m source \<noteq> [] then get_or [] m source
      else case cut_at CHR '':'' source of (kind, _, found) \<Rightarrow>
        if found \<and> kind \<noteq> [] \<and> get_or [] m kind \<noteq> [] then get_or [] m kind else dflt)"

definition license_of :: "string \<Rightarrow> string" where
  "license_of source = by_source licenses source ''unspecified''"

definition attribution_of :: "string \<Rightarrow> string" where
  "attribution_of source =
     (let extra = by_source attributions source [] in
      if extra \<noteq> [] then own_credit @ ''. '' @ extra else own_credit)"

definition note_attribution :: "string \<Rightarrow> (string \<times> string) list \<Rightarrow> (string \<times> string) list" where
  "note_attribution source m =
     (let k = source_kind source in if get_or [] m k = [] then put k (attribution_of source) m else m)"

lemma own_credit_nonempty: "own_credit \<noteq> []"
  by (simp add: own_credit_def)

lemma attribution_own: "has_prefix (attribution_of source) own_credit"
  by (simp add: attribution_of_def Let_def has_prefix_def)

lemma get_or_of_map: "get_or d m k = v \<Longrightarrow> v \<noteq> d \<Longrightarrow> map_of m k = Some v"
  by (auto simp: get_or_def split: option.splits)

text \<open>Whatever was credited stays credited, and every source noted has its kind credited.\<close>

lemma note_attribution_get:
  "get_or [] (note_attribution source m) k =
     (if k = source_kind source \<and> get_or [] m k = [] then attribution_of source else get_or [] m k)"
  by (auto simp: note_attribution_def Let_def get_or_def map_of_put)

lemma attribution_nonempty: "attribution_of source \<noteq> []"
  using own_credit_nonempty by (simp add: attribution_of_def Let_def)

lemma noted_all:
  "s \<in> set sources \<Longrightarrow> get_or [] (fold note_attribution sources m) (source_kind s) \<noteq> []"
proof (induction sources arbitrary: m)
  case (Cons t sources)
  have keep: "get_or [] m k \<noteq> [] \<Longrightarrow> get_or [] (fold note_attribution ss m) k \<noteq> []" for ss m k
    by (induction ss arbitrary: m) (simp_all add: note_attribution_get)
  show ?case
  proof (cases "s = t")
    case True
    have "get_or [] (note_attribution t m) (source_kind t) \<noteq> []"
      using attribution_nonempty by (simp add: note_attribution_get)
    then show ?thesis
      using keep True by simp
  next
    case False
    then show ?thesis
      using Cons by simp
  qed
qed simp

end
