(* ===== verification/Trackapi.thy ===== *)
theory Trackapi
  imports Simplify Imo Names Licenses
begin

text \<open>
  Track requests, from \<open>server/track_api.go\<close>, with the reader behind them, \<open>chTable\<close> and \<open>history\<close> of
  \<open>server/clickhouse.go\<close>. \<open>parse_time\<close> and \<open>duration_of\<close> are Go's readers of RFC 3339 times and of
  durations. A query of the database is what it selects from the rows of its view or table.
\<close>

declare map_of_eq_Some_iff [simp del]

definition track_window :: duration where "track_window = 48 * hour"
definition track_default_span :: duration where "track_default_span = 24 * hour"
definition track_default_limit :: int where "track_default_limit = 1000"
definition track_max_span :: duration where "track_max_span = 366 * 24 * hour"
definition ch_fine_span :: duration where "ch_fine_span = 31 * 24 * hour"
definition shape_rows :: nat where "shape_rows = 50000"

lemmas track_spans = track_window_def track_default_span_def track_default_limit_def track_max_span_def
  ch_fine_span_def shape_rows_def

section \<open>What a tier may read\<close>

definition low_tier :: "claims \<Rightarrow> bool" where
  "low_tier cl \<longleftrightarrow> (c_role cl = ''anonymous'' \<or> c_role cl = ''personal'') \<and> \<not> c_feeder cl"

definition track_limit :: "claims \<Rightarrow> int" where
  "track_limit cl = (if low_tier cl then 1000 else 5000)"

definition round_up :: "duration \<Rightarrow> duration \<Rightarrow> duration" where
  "round_up d w = (d + w - 1) sdiv w * w"

definition track_step :: "claims \<Rightarrow> time \<Rightarrow> duration \<Rightarrow> time \<Rightarrow> duration" where
  "track_step cl frm interval now =
     (if \<not> low_tier cl \<or> \<not> frm < now - track_window - minute then interval
      else max (round_up (min interval track_max_span) minute) minute)"

section \<open>The range asked for\<close>

datatype range_error = BadTo | BadFrom | FromNotBefore | TooLong

definition clamp_time :: "time \<Rightarrow> time \<Rightarrow> time \<Rightarrow> time" where
  "clamp_time t lo hi = (if t < lo then lo else if t > hi then hi else t)"

definition parse_track_range :: "(string \<Rightarrow> time option) \<Rightarrow> string \<Rightarrow> string \<Rightarrow> time \<Rightarrow> range_error + time \<times> time" where
  "parse_track_range parse_time from_s to_s now =
     (case (if to_s = [] then Some now else parse_time to_s) of
        None \<Rightarrow> Inl BadTo
      | Some till \<Rightarrow>
          (case (if from_s = [] then Some (till - track_default_span) else parse_time from_s) of
             None \<Rightarrow> Inl BadFrom
           | Some frm \<Rightarrow>
               if \<not> frm < till then Inl FromNotBefore
               else let till1 = clamp_time till zero_time now in
                 if time_sub till1 frm > track_max_span then Inl TooLong
                 else Inr (clamp_time frm zero_time now, till1)))"

text \<open>\<open>strconv.Atoi\<close>.\<close>

definition atoi :: "string \<Rightarrow> int option" where
  "atoi s =
     (let neg = has_prefix s ''-''; d = (if neg \<or> has_prefix s ''+'' then drop 1 s else s);
          n = (if neg then - int (undec 0 d) else int (undec 0 d))
      in if d \<noteq> [] \<and> list_all is_digit d \<and> - (2 ^ 63) \<le> n \<and> n < 2 ^ 63 then Some n else None)"

section \<open>The reader\<close>

text \<open>The rows of the positions view for a vessel and a range, and of positions_1m with each row's slot.\<close>

record track_tables =
  tt_view :: "mmsi \<Rightarrow> time \<Rightarrow> time \<Rightarrow> track_point list"
  tt_minutes :: "mmsi \<Rightarrow> (time \<times> track_point) list"

definition ch_table :: "time \<Rightarrow> time \<Rightarrow> duration \<Rightarrow> time \<Rightarrow> duration" where
  "ch_table frm till step now =
     (if (step < minute \<or> time_sub now frm \<le> track_window) \<and> time_sub till frm \<le> ch_fine_span then 0 else minute)"

definition milliseconds :: "duration \<Rightarrow> int" where
  "milliseconds d = d sdiv 1000000"

text \<open>\<open>argMin(row, ts)\<close> of each group of rows with the same \<open>intDiv\<close> of their milliseconds.\<close>

definition step_bucket :: "int \<Rightarrow> track_point \<Rightarrow> int" where
  "step_bucket ms pt = unix_milli (pt_ts pt) sdiv ms"

fun arg_min_ts :: "track_point \<Rightarrow> track_point list \<Rightarrow> track_point" where
  "arg_min_ts p [] = p"
| "arg_min_ts p (q # ps) = arg_min_ts (if pt_ts q < pt_ts p then q else p) ps"

fun group_first :: "int \<Rightarrow> track_point list \<Rightarrow> track_point list" where
  "group_first ms [] = []"
| "group_first ms (p # ps) =
     arg_min_ts p (filter (\<lambda>q. step_bucket ms q = step_bucket ms p) ps) #
     group_first ms (filter (\<lambda>q. step_bucket ms q \<noteq> step_bucket ms p) ps)"

text \<open>\<open>ORDER BY ts DESC LIMIT n\<close>, then the rows reversed.\<close>

definition newest_rows :: "nat \<Rightarrow> track_point list \<Rightarrow> track_point list" where
  "newest_rows n ps = rev (take n (rev (sort_key pt_ts ps)))"

definition history :: "track_tables \<Rightarrow> mmsi \<Rightarrow> time \<Rightarrow> time \<Rightarrow> duration \<Rightarrow> nat \<Rightarrow> time \<Rightarrow> track_point list" where
  "history tt m frm till step0 limit now =
     (let step = (if step0 < 1000000 then 0 else step0); window = ch_table frm till step now in
      newest_rows (limit + 1)
        (if window > 0 then
           group_first (milliseconds (if step smod window = 0 then max step window else window))
             (map snd (filter (\<lambda>(slot, p). truncate_time frm (30 * minute) \<le> slot \<and> slot \<le> till \<and> frm \<le> pt_ts p \<and> pt_ts p \<le> till)
                (tt_minutes tt m)))
         else if step > 0 then group_first (milliseconds step) (tt_view tt m frm till)
         else tt_view tt m frm till))"

section \<open>Tracks\<close>

definition no_shape :: shape where
  "no_shape = \<lparr>sp_points = [], sp_more = False, sp_simplified = False, sp_breaks = [], sp_tolerance = 0\<rparr>"

datatype track_error = NoTracks | ReadFailed

text \<open>The reader answers \<open>None\<close> when the query fails; there is none while ClickHouse has not answered.\<close>

type_synonym track_reader = "(mmsi \<Rightarrow> time \<Rightarrow> time \<Rightarrow> duration \<Rightarrow> nat \<Rightarrow> time \<Rightarrow> track_point list option) option"

definition answered_step :: "track_reader \<Rightarrow> time \<Rightarrow> time \<Rightarrow> duration \<Rightarrow> time \<Rightarrow> duration" where
  "answered_step r frm till interval now =
     (if r = None then interval else max interval (ch_table frm till interval now))"

definition shape_read :: "time \<Rightarrow> time \<Rightarrow> time \<Rightarrow> duration \<times> duration" where
  "shape_read frm till now =
     (if time_sub now frm \<le> track_window then
        let s = time_sub till frm sdiv int shape_rows; step = (if s < second then 0 else round_up s second)
        in (step, 30 * minute + step)
      else let step = round_up (max minute (time_sub till frm sdiv int shape_rows)) minute
        in (step, hour + step))"

definition track_shape :: "track_reader \<Rightarrow> mmsi \<Rightarrow> time \<Rightarrow> time \<Rightarrow> nat \<Rightarrow> time \<Rightarrow> track_error + shape \<times> duration" where
  "track_shape r m frm till limit now =
     (case r of None \<Rightarrow> Inl NoTracks
      | Some read \<Rightarrow>
          (case shape_read frm till now of (step, silence) \<Rightarrow>
             if \<not> valid_mmsi m then Inr (no_shape, step)
             else case read m frm till step shape_rows now of
               None \<Rightarrow> Inl ReadFailed
             | Some points \<Rightarrow>
                 let dense = length points > shape_rows;
                     s = simplify (despike (if dense then drop 1 points else points)) silence limit
                 in Inr (s\<lparr>sp_more := sp_more s \<or> dense\<rparr>, step)))"

text \<open>Each position in the step_bucket of its own time: the first of every run of positions that share one.\<close>

fun thin_from :: "int \<Rightarrow> int \<Rightarrow> track_point list \<Rightarrow> track_point list" where
  "thin_from ms b [] = []"
| "thin_from ms b (p # ps) = (if step_bucket ms p \<noteq> b then p # thin_from ms (step_bucket ms p) ps else thin_from ms b ps)"

definition thin :: "duration \<Rightarrow> track_point list \<Rightarrow> track_point list" where
  "thin interval ps = (if milliseconds interval > 0 then thin_from (milliseconds interval) (- 1) ps else ps)"

definition track_points :: "track_reader \<Rightarrow> mmsi \<Rightarrow> time \<Rightarrow> time \<Rightarrow> duration \<Rightarrow> nat \<Rightarrow> time \<Rightarrow> track_error + shape" where
  "track_points r m frm till interval limit now =
     (case r of None \<Rightarrow> Inl NoTracks
      | Some read \<Rightarrow>
          if \<not> valid_mmsi m then Inr no_shape
          else case read m frm till interval limit now of
            None \<Rightarrow> Inl ReadFailed
          | Some points \<Rightarrow>
              let ps = despike (thin interval points) in
              if length ps > limit \<or> length points > limit
              then Inr (no_shape\<lparr>sp_points := drop (length ps - limit) ps, sp_more := True\<rparr>)
              else Inr (no_shape\<lparr>sp_points := ps\<rparr>))"

section \<open>A request\<close>

record track_request =
  tr_mmsi :: mmsi
  tr_from :: time
  tr_to :: time
  tr_interval :: duration
  tr_shape :: bool
  tr_limit :: int

datatype request_error = RangeError range_error | BadLimit | BadInterval

definition parse_interval :: "(string \<Rightarrow> duration option) \<Rightarrow> string \<Rightarrow> duration option" where
  "parse_interval duration_of s =
     (case parse_uint32 s of Some secs \<Rightarrow> Some (int secs * second)
      | None \<Rightarrow> (case duration_of s of Some d \<Rightarrow> if d \<ge> 0 then Some d else None | None \<Rightarrow> None))"

definition parse_track_request ::
  "(string \<Rightarrow> time option) \<Rightarrow> (string \<Rightarrow> duration option) \<Rightarrow> track_reader \<Rightarrow> (string \<Rightarrow> string) \<Rightarrow> claims \<Rightarrow> mmsi \<Rightarrow> time \<Rightarrow>
   request_error + track_request" where
  "parse_track_request parse_time duration_of r get cl m now =
     (case parse_track_range parse_time (get ''from'') (get ''to'') now of
        Inl e \<Rightarrow> Inl (RangeError e)
      | Inr (frm, till) \<Rightarrow>
          let most = track_limit cl in
          (case (if get ''limit'' = [] then Some (min track_default_limit most)
                 else case atoi (get ''limit'') of None \<Rightarrow> None | Some n \<Rightarrow> if n < 1 then None else Some (min n most)) of
             None \<Rightarrow> Inl BadLimit
           | Some limit \<Rightarrow>
               let q = \<lparr>tr_mmsi = m, tr_from = frm, tr_to = till, tr_interval = 0, tr_shape = False, tr_limit = limit\<rparr> in
               if get ''interval'' = [] then Inr (q\<lparr>tr_shape := True\<rparr>)
               else case parse_interval duration_of (get ''interval'') of
                 None \<Rightarrow> Inl BadInterval
               | Some interval \<Rightarrow>
                   Inr (q\<lparr>tr_interval := answered_step r frm till (track_step cl frm interval now) now\<rparr>)))"

text \<open>The source kinds to credit, in the order they first delivered a point.\<close>

definition point_sources :: "track_point list \<Rightarrow> string list" where
  "point_sources ps =
     fold (\<lambda>p sources. if pt_source p \<noteq> [] \<and> pt_source p \<notin> set sources then sources @ [pt_source p] else sources) ps []"

text \<open>\<open>vesselName\<close>, given the cache and the vessel record, which answers \<open>None\<close> when it cannot be read.\<close>

definition vessel_name ::
  "(mmsi \<times> vessel) list \<Rightarrow> (mmsi \<Rightarrow> vessel option option) option \<Rightarrow> mmsi \<Rightarrow> (string \<times> bool) option" where
  "vessel_name cache record m =
     (case (case map_of cache m of Some v \<Rightarrow> (v_name v, True) | None \<Rightarrow> ([], False)) of
        (name, known) \<Rightarrow>
          (case (if name = [] then record else None) of
             None \<Rightarrow> Some (trim_space name, known)
           | Some get \<Rightarrow>
               (case get m of
                  None \<Rightarrow> None
                | Some None \<Rightarrow> Some (trim_space name, known)
                | Some (Some v) \<Rightarrow> Some (trim_space (v_name v), True))))"

section \<open>Division toward zero\<close>

lemma sdiv_nonneg: "0 < c \<Longrightarrow> 0 \<le> a \<Longrightarrow> a sdiv c = a div (c :: int)"
  by (auto simp: signed_divide_int_def sgn_if)

lemma sdiv_neg: "0 < c \<Longrightarrow> a < 0 \<Longrightarrow> a sdiv c = - ((- a) div (c :: int))"
  by (auto simp: signed_divide_int_def sgn_if)

lemma sdiv_mono:
  fixes a b c :: int
  assumes "0 < c" "a \<le> b"
  shows "a sdiv c \<le> b sdiv c"
proof -
  consider "0 \<le> a" | "a < 0" "0 \<le> b" | "b < 0"
    by linarith
  then show ?thesis
  proof cases
    case 1
    then show ?thesis
      using assms by (simp add: sdiv_nonneg zdiv_mono1)
  next
    case 2
    then have "0 \<le> (- a) div c" "0 \<le> b div c"
      using assms by (simp_all add: pos_imp_zdiv_nonneg_iff)
    then show ?thesis
      using 2 assms by (simp add: sdiv_nonneg sdiv_neg)
  next
    case 3
    then have "(- b) div c \<le> (- a) div c"
      using assms by (intro zdiv_mono1) auto
    then show ?thesis
      using 3 assms by (simp add: sdiv_neg)
  qed
qed

lemma sdiv_sdiv:
  fixes a b c :: int
  assumes "0 < b" "0 < c"
  shows "a sdiv (b * c) = a sdiv b sdiv c"
proof (cases "0 \<le> a")
  case True
  then show ?thesis
    using assms by (simp add: sdiv_nonneg zdiv_zmult2_eq pos_imp_zdiv_nonneg_iff)
next
  case False
  have "0 \<le> (- a) div b"
    using False assms by (simp add: pos_imp_zdiv_nonneg_iff)
  moreover have "(- a) div (b * c) = (- a) div b div c"
    using assms by (simp add: zdiv_zmult2_eq)
  ultimately show ?thesis
  proof (cases "(- a) div b = 0")
    case True
    then show ?thesis
      using \<open>(- a) div (b * c) = _\<close> False assms sdiv_neg [of "b * c" a] sdiv_neg [of b a] by simp
  next
    case pos: False
    then have "- ((- a) div b) < 0"
      using \<open>0 \<le> (- a) div b\<close> by linarith
    then show ?thesis
      using \<open>(- a) div (b * c) = _\<close> False assms sdiv_neg [of "b * c" a] sdiv_neg [of b a] sdiv_neg [of c "- ((- a) div b)"]
      by simp
  qed
qed

lemma round_up_minute: "\<exists>k. round_up d minute = k * minute"
  by (auto simp: round_up_def)

lemma round_up_bounds:
  assumes "0 \<le> d" "0 < w"
  shows "d \<le> round_up d w \<and> round_up d w < d + w"
proof -
  have e: "round_up d w = (d + w - 1) div w * w"
    using assms by (simp add: round_up_def sdiv_nonneg)
  have "(d + w - 1) div w * w + (d + w - 1) mod w = d + w - 1"
    by (rule div_mult_mod_eq)
  moreover have "0 \<le> (d + w - 1) mod w" "(d + w - 1) mod w < w"
    using assms(2) by simp_all
  ultimately show ?thesis
    unfolding e by linarith
qed

section \<open>Thinning\<close>

lemma step_bucket_mono: "0 < ms \<Longrightarrow> pt_ts p \<le> pt_ts q \<Longrightarrow> step_bucket ms p \<le> step_bucket ms q"
  by (simp add: step_bucket_def unix_milli_def sdiv_mono zdiv_mono1)

lemma thin_from_sorted:
  assumes "0 < ms" "sorted (map pt_ts ps)"
  shows "sorted_wrt (\<lambda>a b. step_bucket ms a < step_bucket ms b) (thin_from ms b ps) \<and> set (thin_from ms b ps) \<subseteq> set ps \<and>
    ((\<forall>p \<in> set ps. b \<le> step_bucket ms p) \<longrightarrow> (\<forall>p \<in> set (thin_from ms b ps). b < step_bucket ms p))"
  using assms(2)
proof (induction ps arbitrary: b)
  case (Cons p ps)
  have s: "sorted (map pt_ts ps)" "\<forall>q \<in> set ps. step_bucket ms p \<le> step_bucket ms q"
    using Cons.prems step_bucket_mono [OF assms(1)] by auto
  show ?case
  proof (cases "step_bucket ms p = b")
    case True
    then show ?thesis
      using Cons.IH [OF s(1), of b] by auto
  next
    case False
    note IH = Cons.IH [OF s(1), of "step_bucket ms p"]
    have up: "\<forall>q \<in> set (thin_from ms (step_bucket ms p) ps). step_bucket ms p < step_bucket ms q"
      using IH s(2) by blast
    have "sorted_wrt (\<lambda>a b. step_bucket ms a < step_bucket ms b) (p # thin_from ms (step_bucket ms p) ps)"
      using IH up by simp
    moreover have "b < step_bucket ms q" if "b \<le> step_bucket ms p" "q \<in> insert p (set (thin_from ms (step_bucket ms p) ps))" for q
      using that up False by fastforce
    ultimately show ?thesis
      using IH False by auto
  qed
qed simp

lemma subseq_subset: "subseq xs ys \<Longrightarrow> set xs \<subseteq> set ys"
  by (auto dest: list_emb_set)

lemma sorted_wrt_subseq: "subseq xs ys \<Longrightarrow> sorted_wrt P ys \<Longrightarrow> sorted_wrt P xs"
proof (induction rule: list_emb.induct)
  case (list_emb_Cons2 x y xs ys)
  then show ?case
    using subseq_subset [of xs ys] by auto
qed auto

lemma newest_rows_sorted: "sorted (map pt_ts (newest_rows n ps)) \<and> length (newest_rows n ps) \<le> n \<and> set (newest_rows n ps) \<subseteq> set ps"
proof -
  have e: "newest_rows n ps = drop (length ps - n) (sort_key pt_ts ps)"
    by (simp add: newest_rows_def take_rev)
  have "sorted (map pt_ts (drop (length ps - n) (sort_key pt_ts ps)))"
    unfolding drop_map [symmetric] by (rule sorted_wrt_drop) simp
  then show ?thesis
    unfolding e using set_drop_subset [of "length ps - n" "sort_key pt_ts ps"] by auto
qed

lemma arg_min_ts_in: "arg_min_ts p ps \<in> insert p (set ps)"
  by (induction p ps rule: arg_min_ts.induct) auto

lemma group_first_subset: "set (group_first ms ps) \<subseteq> set ps"
proof (induction ms ps rule: group_first.induct)
  case (2 ms p ps)
  then show ?case
    using arg_min_ts_in [of p "filter (\<lambda>q. step_bucket ms q = step_bucket ms p) ps"] by auto
qed simp

lemma history_rows:
  "sorted (map pt_ts (history tt m frm till step limit now)) \<and> length (history tt m frm till step limit now) \<le> limit + 1 \<and>
   set (history tt m frm till step limit now) \<subseteq> set (tt_view tt m frm till) \<union>
     {p. frm \<le> pt_ts p \<and> pt_ts p \<le> till \<and> p \<in> snd ` set (tt_minutes tt m)}"
proof -
  let ?step = "if step < 1000000 then 0 else step"
  let ?w = "ch_table frm till ?step now"
  let ?rows = "map snd (filter (\<lambda>(slot, p). truncate_time frm (30 * minute) \<le> slot \<and> slot \<le> till \<and> frm \<le> pt_ts p \<and> pt_ts p \<le> till)
      (tt_minutes tt m))"
  let ?ms = "milliseconds (if ?step smod ?w = 0 then max ?step ?w else ?w)"
  let ?x = "if ?w > 0 then group_first ?ms ?rows
    else if ?step > 0 then group_first (milliseconds ?step) (tt_view tt m frm till) else tt_view tt m frm till"
  have h: "history tt m frm till step limit now = newest_rows (limit + 1) ?x"
    by (simp only: history_def Let_def)
  have "set ?rows \<subseteq> {p. frm \<le> pt_ts p \<and> pt_ts p \<le> till \<and> p \<in> snd ` set (tt_minutes tt m)}"
    by force
  then have "set ?x \<subseteq> set (tt_view tt m frm till) \<union> {p. frm \<le> pt_ts p \<and> pt_ts p \<le> till \<and> p \<in> snd ` set (tt_minutes tt m)}"
    using group_first_subset [of ?ms ?rows] group_first_subset [of "milliseconds ?step" "tt_view tt m frm till"]
    by (cases "?w > 0"; cases "?step > 0") (simp_all only: if_True if_False, blast+)
  then show ?thesis
    using newest_rows_sorted [of "limit + 1" ?x] unfolding h by blast
qed

definition reader :: "track_tables \<Rightarrow> track_reader" where
  "reader tt = Some (\<lambda>m frm till step limit now. Some (history tt m frm till step limit now))"

lemma subseq_despike: "subseq (despike ps) ps"
  unfolding despike_def using despike_loop_sublist [of "[]" 0 False ps] by simp

lemma track_points_sorted:
  assumes "track_points (reader tt) m frm till interval limit now = Inr s" "0 < milliseconds interval"
  shows "length (sp_points s) \<le> limit \<and>
    sorted_wrt (\<lambda>a b. step_bucket (milliseconds interval) a < step_bucket (milliseconds interval) b) (sp_points s) \<and>
    set (sp_points s) \<subseteq> set (history tt m frm till interval limit now)"
proof (cases "valid_mmsi m")
  case False
  then show ?thesis
    using assms(1) by (auto simp: track_points_def reader_def no_shape_def)
next
  case True
  let ?h = "history tt m frm till interval limit now"
  let ?ps = "despike (thin interval ?h)"
  have s: "sp_points s = (if length ?ps > limit \<or> length ?h > limit then drop (length ?ps - limit) ?ps else ?ps)"
    using assms(1) True by (auto simp: track_points_def reader_def Let_def no_shape_def split: if_splits)
  have t: "sorted_wrt (\<lambda>a b. step_bucket (milliseconds interval) a < step_bucket (milliseconds interval) b) (thin interval ?h)"
      "set (thin interval ?h) \<subseteq> set ?h"
    using thin_from_sorted [OF assms(2), of ?h] history_rows assms(2) by (auto simp: thin_def)
  then have "sorted_wrt (\<lambda>a b. step_bucket (milliseconds interval) a < step_bucket (milliseconds interval) b) ?ps"
    using sorted_wrt_subseq [OF subseq_despike] by blast
  moreover have "set ?ps \<subseteq> set ?h"
    using subseq_despike t(2) by (meson order_trans subseq_subset)
  ultimately show ?thesis
    using s set_drop_subset by (auto intro: sorted_wrt_drop split: if_splits dest: in_set_dropD)
qed

lemma bucket_minutes:
  assumes "0 < k" "step_bucket (k * 60000) a < step_bucket (k * 60000) b"
  shows "step_bucket 60000 a < step_bucket 60000 b"
proof (rule ccontr)
  assume "\<not> step_bucket 60000 a < step_bucket 60000 b"
  then have "step_bucket 60000 b sdiv k \<le> step_bucket 60000 a sdiv k"
    using assms(1) by (intro sdiv_mono) simp_all
  then show False
    using assms sdiv_sdiv [of 60000 k] by (simp add: step_bucket_def mult.commute)
qed

text \<open>What the parser promises of the range and of the step.\<close>

lemma clamp_time_bounds: "lo \<le> hi \<Longrightarrow> lo \<le> clamp_time t lo hi \<and> clamp_time t lo hi \<le> hi"
  by (simp add: clamp_time_def)

lemma parse_track_request_Inr:
  assumes "parse_track_request parse_time duration_of r get cl m now = Inr q"
  shows "parse_track_range parse_time (get ''from'') (get ''to'') now = Inr (tr_from q, tr_to q) \<and> tr_mmsi q = m \<and>
    tr_limit q \<le> track_limit cl \<and> 1 \<le> tr_limit q \<and>
    (\<not> tr_shape q \<longrightarrow> (\<exists>interval. parse_interval duration_of (get ''interval'') = Some interval \<and>
       tr_interval q = answered_step r (tr_from q) (tr_to q) (track_step cl (tr_from q) interval now) now))"
proof -
  obtain frm till where range: "parse_track_range parse_time (get ''from'') (get ''to'') now = Inr (frm, till)"
    using assms by (auto simp: parse_track_request_def split: sum.splits)
  obtain limit where limit: "(if get ''limit'' = [] then Some (min track_default_limit (track_limit cl))
                 else case atoi (get ''limit'') of None \<Rightarrow> None | Some n \<Rightarrow> if n < 1 then None else Some (min n (track_limit cl))) = Some limit"
    using assms unfolding parse_track_request_def range by (auto simp: Let_def split: option.splits)
  have l: "limit \<le> track_limit cl" "1 \<le> limit"
    using limit by (auto simp: track_limit_def track_default_limit_def split: if_splits option.splits)
  show ?thesis
    using assms l unfolding parse_track_request_def range by (auto simp: Let_def limit range split: if_splits option.splits)
qed

lemma track_step_low:
  assumes "low_tier cl" "frm < now - track_window - minute" "0 \<le> interval"
  shows "\<exists>k > 0. track_step cl frm interval now = k * minute \<and> min interval track_max_span \<le> k * minute"
proof -
  obtain k where k: "round_up (min interval track_max_span) minute = k * minute"
    using round_up_minute by blast
  have b: "min interval track_max_span \<le> k * minute"
    using round_up_bounds [of "min interval track_max_span" minute] assms(3) k by (simp add: track_max_span_def)
  have "track_step cl frm interval now = max (k * minute) minute"
    using assms k by (simp add: track_step_def)
  also have "\<dots> = max k 1 * minute"
    by simp
  finally show ?thesis
    using b by (intro exI [of _ "max k 1"]) auto
qed

lemma parse_interval_nonneg: "parse_interval duration_of s = Some d \<Longrightarrow> 0 \<le> d"
  by (auto simp: parse_interval_def split: option.splits if_splits)

text \<open>
  C25. An anonymous or personal request by interval that reaches past the last 48 hours gets at most a thousand
  positions, no two of them in the same minute, oldest first: whatever step it asks for, whatever the tables hold.
\<close>

theorem old_tracks_by_the_minute:
  assumes "low_tier cl" "parse_track_request parse_time duration_of (reader tt) get cl m now = Inr q" "\<not> tr_shape q"
    and "tr_from q < now - track_window - minute"
    and "track_points (reader tt) (tr_mmsi q) (tr_from q) (tr_to q) (tr_interval q) (nat (tr_limit q)) now = Inr s"
  shows "length (sp_points s) \<le> 1000 \<and> sorted_wrt (\<lambda>a b. step_bucket 60000 a < step_bucket 60000 b) (sp_points s)"
proof -
  note p = parse_track_request_Inr [OF assms(2)]
  obtain interval where i: "parse_interval duration_of (get ''interval'') = Some interval"
      "tr_interval q = answered_step (reader tt) (tr_from q) (tr_to q) (track_step cl (tr_from q) interval now) now"
    using p assms(3) by blast
  obtain k where k: "0 < k" "track_step cl (tr_from q) interval now = k * minute"
    using track_step_low [OF assms(1,4) parse_interval_nonneg [OF i(1)]] by blast
  have "tr_interval q = k * minute"
    using i(2) k by (auto simp: answered_step_def reader_def ch_table_def)
  then have ms: "milliseconds (tr_interval q) = k * 60000"
    using k(1) by (simp add: milliseconds_def sdiv_nonneg)
  have t: "length (sp_points s) \<le> nat (tr_limit q)"
      "sorted_wrt (\<lambda>a b. step_bucket (k * 60000) a < step_bucket (k * 60000) b) (sp_points s)"
    using track_points_sorted [OF assms(5)] ms k(1) by simp_all
  have "tr_limit q \<le> 1000"
    using p assms(1) by (simp add: track_limit_def)
  moreover have "sorted_wrt (\<lambda>a b. step_bucket 60000 a < step_bucket 60000 b) (sp_points s)"
    using t(2) bucket_minutes [OF k(1)] by (rule sorted_wrt_mono_rel [rotated])
  ultimately show ?thesis
    using t(1) by linarith
qed

text \<open>
  A range that is accepted lies between the zero time and now, in order, and spans at most 366 days; one that is
  refused has an unreadable end, ends that are not in order, or a span, cut at now, of more than 366 days.
\<close>

theorem track_range_exact:
  assumes "zero_time \<le> now"
  shows "case parse_track_range parse_time from_s to_s now of
      Inr (frm, till) \<Rightarrow> zero_time \<le> frm \<and> frm \<le> till \<and> till \<le> now \<and> till - frm \<le> track_max_span
    | Inl e \<Rightarrow> e = BadTo \<and> to_s \<noteq> [] \<and> parse_time to_s = None \<or> e = BadFrom \<and> from_s \<noteq> [] \<and> parse_time from_s = None \<or>
        (\<exists>frm till. (from_s = [] \<and> frm = till - track_default_span \<or> parse_time from_s = Some frm) \<and>
           (to_s = [] \<and> till = now \<or> parse_time to_s = Some till) \<and>
           (e = FromNotBefore \<and> till \<le> frm \<or> e = TooLong \<and> clamp_time till zero_time now - frm > track_max_span))"
proof (cases "if to_s = [] then Some now else parse_time to_s")
  case None
  then show ?thesis
    by (auto simp: parse_track_range_def split: if_splits)
next
  case till: (Some till)
  show ?thesis
  proof (cases "if from_s = [] then Some (till - track_default_span) else parse_time from_s")
    case None
    then show ?thesis
      using till by (auto simp: parse_track_range_def split: if_splits)
  next
    case frm: (Some frm)
    have ends: "(from_s = [] \<and> frm = till - track_default_span \<or> parse_time from_s = Some frm) \<and>
           (to_s = [] \<and> till = now \<or> parse_time to_s = Some till)"
      using till frm by (auto split: if_splits)
    let ?t = "clamp_time till zero_time now"
    have r: "parse_track_range parse_time from_s to_s now = (if \<not> frm < till then Inl FromNotBefore
        else if time_sub ?t frm > track_max_span then Inl TooLong else Inr (clamp_time frm zero_time now, ?t))"
      using till frm by (simp add: parse_track_range_def Let_def)
    have sub: "time_sub ?t frm > track_max_span \<longleftrightarrow> ?t - frm > track_max_span"
      by (auto simp: time_sub_def track_max_span_def min_duration_def max_duration_def)
    show ?thesis
    proof (cases "frm < till \<and> \<not> time_sub ?t frm > track_max_span")
      case True
      then have "?t - frm \<le> track_max_span"
        using sub by linarith
      then show ?thesis
        using True assms r by (auto simp: clamp_time_def track_max_span_def)
    next
      case False
      define e where "e = (if \<not> frm < till then FromNotBefore else TooLong)"
      have e: "parse_track_range parse_time from_s to_s now = Inl e"
        using False r by (auto simp: e_def)
      have "e = FromNotBefore \<and> till \<le> frm \<or> e = TooLong \<and> ?t - frm > track_max_span"
        using False sub by (auto simp: e_def)
      with ends show ?thesis
        unfolding e sum.case by blast
    qed
  qed
qed

theorem track_range_exact_witness:
  "parse_track_range (\<lambda>_. None) [] [] 0 = Inr (- track_default_span, 0)"
proof -
  have "case parse_track_range (\<lambda>_. None) [] [] 0 of
      Inr (frm, till) \<Rightarrow> zero_time \<le> frm \<and> frm \<le> till \<and> till \<le> 0 \<and> till - frm \<le> track_max_span
    | Inl e \<Rightarrow> True"
    using track_range_exact [where now = 0 and parse_time = "\<lambda>_. None" and from_s = "[]" and to_s = "[]"]
    by (auto simp: zero_time_def split: sum.splits)
  then show ?thesis
    by (simp add: parse_track_range_def track_spans clamp_time_def time_sub_def zero_time_def min_duration_def max_duration_def)
qed

definition sample_tables :: track_tables where
  "sample_tables = \<lparr>tt_view = \<lambda>_ _ _. [],
     tt_minutes = \<lambda>_. [(0, sample_point 1000000000 0 0), (0, sample_point 2000000000 100 0)]\<rparr>"

definition sample_query :: "string \<Rightarrow> string" where
  "sample_query k = (if k = ''interval'' then ''1'' else if k = ''from'' then ''a'' else if k = ''to'' then ''b'' else [])"

definition sample_times :: "string \<Rightarrow> time option" where
  "sample_times s = (if s = ''a'' then Some 0 else Some (10 * minute))"

definition sample_track_request :: track_request where
  "sample_track_request = \<lparr>tr_mmsi = 257000001, tr_from = 0, tr_to = 10 * minute, tr_interval = minute, tr_shape = False, tr_limit = 1000\<rparr>"

lemma sample_request:
  "parse_track_request sample_times (\<lambda>_. None) (reader sample_tables) sample_query (no_claims\<lparr>c_role := ''anonymous''\<rparr>) 257000001 (72 * hour)
    = Inr sample_track_request"
  by (simp add: parse_track_request_def parse_track_range_def sample_query_def sample_times_def clamp_time_def time_sub_def
      zero_time_def min_duration_def max_duration_def track_spans track_limit_def low_tier_def no_claims_def parse_interval_def
      parse_uint32_def is_digit_def answered_step_def reader_def track_step_def round_up_def ch_table_def sample_track_request_def
      sdiv_nonneg Let_def)

theorem old_tracks_by_the_minute_witness:
  "\<exists>s. track_points (reader sample_tables) 257000001 0 (10 * minute) minute 1000 (72 * hour) = Inr s \<and> length (sp_points s) \<le> 1000 \<and>
     sorted_wrt (\<lambda>a b. step_bucket 60000 a < step_bucket 60000 b) (sp_points s)"
proof -
  have "\<exists>s. track_points (reader sample_tables) 257000001 0 (10 * minute) minute 1000 (72 * hour) = Inr s"
    by (simp add: track_points_def reader_def Let_def)
  then obtain s where s: "track_points (reader sample_tables) 257000001 0 (10 * minute) minute 1000 (72 * hour) = Inr s"
    by blast
  have "length (sp_points s) \<le> 1000 \<and> sorted_wrt (\<lambda>a b. step_bucket 60000 a < step_bucket 60000 b) (sp_points s)"
    by (rule old_tracks_by_the_minute [OF _ sample_request])
      (use s in \<open>simp_all add: sample_track_request_def low_tier_def no_claims_def track_spans\<close>)
  then show ?thesis
    using s by blast
qed

lemma div_le_bound:
  fixes a b s :: int
  assumes "0 < b" "a div b \<le> s"
  shows "a < (s + 1) * b"
proof -
  have "a div b * b \<le> s * b"
    using assms by (intro mult_right_mono) auto
  moreover have "a div b * b + a mod b = a" "a mod b < b"
    using assms(1) by simp_all
  ultimately show ?thesis
    unfolding distrib_right by linarith
qed

text \<open>A simplified track groups its range into at most some fifty thousand steps.\<close>

lemma shape_read_groups:
  assumes "shape_read frm till now = (step, silence)" "0 < step" "frm \<le> till"
  shows "time_sub till frm < (step + 1) * int shape_rows"
proof -
  let ?d = "time_sub till frm"
  have d: "0 \<le> ?d"
    using assms(3) by (simp add: time_sub_def min_duration_def max_duration_def)
  let ?s = "?d sdiv int shape_rows"
  have e: "?s = ?d div 50000"
    using d by (simp add: sdiv_nonneg shape_rows_def)
  have "0 \<le> ?s"
    using d by (simp add: e pos_imp_zdiv_nonneg_iff)
  then have "?s \<le> step"
    using assms(1,2) round_up_bounds [of ?s second] round_up_bounds [of "max minute ?s" minute]
    by (auto simp: shape_read_def Let_def split: if_splits)
  then have "?d div 50000 \<le> step"
    by (simp only: e)
  then have "?d < (step + 1) * 50000"
    by (rule div_le_bound [rotated]) simp
  then show ?thesis
    by (simp add: shape_rows_def)
qed

section \<open>Answers\<close>

text \<open>The coordinates and motion of a position; what AIS marks not available is \<open>None\<close>.\<close>

definition lat_lon :: "track_point \<Rightarrow> real \<times> real" where
  "lat_lon p = (of_int (pt_lat6 p) / 600000, of_int (pt_lon6 p) / 600000)"

record point_motion =
  mo_sog :: "real option"
  mo_cog :: "real option"
  mo_heading :: "16 word option"
  mo_nav :: "8 word option"

definition motion_of :: "track_point \<Rightarrow> point_motion" where
  "motion_of p =
     \<lparr>mo_sog = (if pt_sog10 p < 1023 then Some (of_nat (unat (pt_sog10 p)) / 10) else None),
      mo_cog = (if pt_cog10 p < 3600 then Some (of_nat (unat (pt_cog10 p)) / 10) else None),
      mo_heading = (if valid_heading (pt_heading p) then Some (pt_heading p) else None),
      mo_nav = (if pt_nav p \<noteq> 15 then Some (pt_nav p) else None)\<rparr>"

datatype geometry = NoGeometry | PointAt "real \<times> real" | LineOf "(real \<times> real) list"

record track_props =
  tp_breaks :: "nat list option"
  tp_cog :: "real option list"
  tp_from :: string
  tp_heading :: "16 word option list"
  tp_interval :: int
  tp_mmsi :: mmsi
  tp_name :: string
  tp_nav :: "8 word option list"
  tp_points :: nat
  tp_simplified :: bool
  tp_sog :: "real option list"
  tp_times :: "string list"
  tp_to :: string
  tp_tolerance :: "real option"
  tp_truncated :: bool

record track_feature =
  tf_attribution :: "(string \<times> string) list"
  tf_geometry :: geometry
  tf_id :: mmsi
  tf_props :: track_props

definition nearest_tenth :: "real \<Rightarrow> real" where
  "nearest_tenth x = (if x \<ge> 0 then of_int \<lfloor>x * 10 + 1 / 2\<rfloor> / 10 else - of_int \<lfloor>- x * 10 + 1 / 2\<rfloor> / 10)"

definition track_geojson ::
  "track_request \<Rightarrow> string \<Rightarrow> shape \<Rightarrow> (string \<times> string) list \<Rightarrow> track_feature" where
  "track_geojson q name s attribution =
     (let ps = sp_points s; coords = map (\<lambda>p. (snd (lat_lon p), fst (lat_lon p))) ps in
      \<lparr>tf_attribution = attribution,
       tf_geometry = (case coords of [] \<Rightarrow> NoGeometry | [c] \<Rightarrow> PointAt c | _ \<Rightarrow> LineOf coords),
       tf_id = tr_mmsi q,
       tf_props =
         \<lparr>tp_breaks = (if sp_simplified s then Some (sp_breaks s) else None),
          tp_cog = map (\<lambda>p. mo_cog (motion_of p)) ps, tp_from = rfc3339 (tr_from q),
          tp_heading = map (\<lambda>p. mo_heading (motion_of p)) ps, tp_interval = tr_interval q sdiv second, tp_mmsi = tr_mmsi q,
          tp_name = name, tp_nav = map (\<lambda>p. mo_nav (motion_of p)) ps, tp_points = length ps, tp_simplified = sp_simplified s,
          tp_sog = map (\<lambda>p. mo_sog (motion_of p)) ps, tp_times = map (\<lambda>p. rfc3339 (pt_ts p)) ps, tp_to = rfc3339 (tr_to q),
          tp_tolerance = (if sp_simplified s then Some (nearest_tenth (sp_tolerance s)) else None), tp_truncated = sp_more s\<rparr>\<rparr>)"

text \<open>The GPX track: \<open>fmt6\<close> writes a number with six decimals.\<close>

definition esc_char :: "char \<Rightarrow> string" where
  "esc_char c =
     (if c = CHR ''&'' then ''&amp;'' else if c = CHR ''<'' then ''&lt;'' else if c = CHR ''>'' then ''&gt;''
      else if c = CHR 0x22 then ''&quot;'' else [c])"

definition xml_escape :: "string \<Rightarrow> string" where
  "xml_escape s = concat (map esc_char s)"

definition quoted :: "string \<Rightarrow> string" where
  "quoted s = CHR 0x22 # s @ [CHR 0x22]"

definition gpx_title :: "mmsi \<Rightarrow> string \<Rightarrow> string" where
  "gpx_title m name = (if name \<noteq> [] then name @ '' ('' @ dec (unat m) @ '')'' else dec (unat m))"

fun join_with :: "string \<Rightarrow> string list \<Rightarrow> string" where
  "join_with sep [] = []"
| "join_with sep [w] = w"
| "join_with sep (w # ws) = w @ sep @ join_with sep ws"

definition gpx_point :: "(real \<Rightarrow> string) \<Rightarrow> track_point \<Rightarrow> string" where
  "gpx_point fmt6 p =
     ''<trkpt lat='' @ quoted (fmt6 (fst (lat_lon p))) @ '' lon='' @ quoted (fmt6 (snd (lat_lon p))) @ ''><time>'' @
     rfc3339 (pt_ts p) @ ''</time></trkpt>'' @ [CHR 0x0A]"

definition gpx_break :: string where
  "gpx_break = ''</trkseg><trkseg>'' @ [CHR 0x0A]"

definition gpx_head :: string where
  "gpx_head = ''<?xml version='' @ quoted ''1.0'' @ '' encoding='' @ quoted ''UTF-8'' @ ''?>'' @ [CHR 0x0A] @
     ''<gpx version='' @ quoted ''1.1'' @ '' creator='' @ quoted ''Open Waters AIS (https://openwaters.io/ais/)'' @
     '' xmlns='' @ quoted ''http://www.topografix.com/GPX/1/1'' @ ''>'' @ [CHR 0x0A]"

definition write_gpx ::
  "(real \<Rightarrow> string) \<Rightarrow> (string list \<Rightarrow> string list) \<Rightarrow> mmsi \<Rightarrow> string \<Rightarrow> shape \<Rightarrow>
   (string \<times> string) list \<Rightarrow> string" where
  "write_gpx fmt6 sort_strings m name s attribution =
     (let title = xml_escape (gpx_title m name); credits = join_with '' '' (sort_strings (map snd attribution)) in
      gpx_head @
      ''<metadata><name>'' @ title @ ''</name><desc>'' @ xml_escape credits @ ''</desc></metadata>'' @ [CHR 0x0A] @
      ''<trk><name>'' @ title @ ''</name><trkseg>'' @ [CHR 0x0A] @
      concat (map (\<lambda>(i, p). (if i \<in> set (sp_breaks s) then gpx_break else []) @ gpx_point fmt6 p)
        (enumerate 0 (sp_points s))) @
      ''</trkseg></trk>'' @ [CHR 0x0A] @ ''</gpx>'' @ [CHR 0x0A])"

text \<open>
  \<open>serveTrack\<close>. \<open>path\<close> is what the request's path names, with the address to redirect to; \<open>name_of\<close> is
  \<open>vesselName\<close>.
\<close>

datatype track_answer =
    TrackUnauthorized auth_error
  | TrackBadFormat
  | TrackPath path_answer
  | TrackBadRequest request_error
  | TrackNone
  | TrackUnavailable
  | TrackUnknown
  | TrackGpx string string
  | TrackGeo string track_feature

definition read_track :: "track_reader \<Rightarrow> track_request \<Rightarrow> time \<Rightarrow> track_error + shape \<times> track_request" where
  "read_track r q now =
     (if tr_shape q
      then (case track_shape r (tr_mmsi q) (tr_from q) (tr_to q) (nat (tr_limit q)) now of
              Inl e \<Rightarrow> Inl e | Inr (s, step) \<Rightarrow> Inr (s, q\<lparr>tr_interval := step\<rparr>))
      else (case track_points r (tr_mmsi q) (tr_from q) (tr_to q) (tr_interval q) (nat (tr_limit q)) now of
              Inl e \<Rightarrow> Inl e | Inr s \<Rightarrow> Inr (s, q)))"

definition credit :: "shape \<Rightarrow> (string \<times> string) list" where
  "credit s = fold note_attribution (point_sources (sp_points s)) []"

definition serve_track ::
  "(string \<Rightarrow> time option) \<Rightarrow> (string \<Rightarrow> duration option) \<Rightarrow> (real \<Rightarrow> string) \<Rightarrow> (string list \<Rightarrow> string list) \<Rightarrow>
   track_reader \<Rightarrow> (mmsi \<Rightarrow> (string \<times> bool) option) \<Rightarrow> (claims \<Rightarrow> path_answer) \<Rightarrow> auth_error + claims \<Rightarrow>
   (string \<Rightarrow> string) \<Rightarrow> time \<Rightarrow> track_answer" where
  "serve_track parse_time duration_of fmt6 sort_strings r name_of path claims_of get now =
     (case claims_of of
        Inl e \<Rightarrow> TrackUnauthorized e
      | Inr cl \<Rightarrow>
          if get ''format'' \<notin> {[], ''geojson'', ''gpx''} then TrackBadFormat
          else case path cl of
            PathVessel m location \<Rightarrow>
              (case parse_track_request parse_time duration_of r get cl m now of
                 Inl e \<Rightarrow> TrackBadRequest e
               | Inr q0 \<Rightarrow>
                   if r = None then TrackNone
                   else case read_track r q0 now of
                     Inl _ \<Rightarrow> TrackUnavailable
                   | Inr (s, q) \<Rightarrow>
                       (case name_of m of
                          None \<Rightarrow> TrackUnavailable
                        | Some (name, known) \<Rightarrow>
                            if sp_points s = [] \<and> \<not> known then TrackUnknown
                            else if get ''format'' = ''gpx'' then TrackGpx location (write_gpx fmt6 sort_strings m name s (credit s))
                            else TrackGeo location (track_geojson q name s (credit s))))
          | other \<Rightarrow> TrackPath other)"

lemma aligned:
  "length (tp_times (tf_props (track_geojson q name s a))) = length (sp_points s) \<and>
   length (tp_sog (tf_props (track_geojson q name s a))) = length (sp_points s) \<and>
   length (tp_cog (tf_props (track_geojson q name s a))) = length (sp_points s) \<and>
   length (tp_heading (tf_props (track_geojson q name s a))) = length (sp_points s) \<and>
   length (tp_nav (tf_props (track_geojson q name s a))) = length (sp_points s)"
  by (simp add: track_geojson_def Let_def)

text \<open>Escaped text has no angle bracket and no quote, and the text can be read back from it.\<close>

lemma xml_escape_safe: "set (xml_escape s) \<inter> {CHR ''<'', CHR ''>'', CHR 0x22} = {}"
  by (auto simp: xml_escape_def esc_char_def split: if_splits)

fun xml_unescape :: "string \<Rightarrow> string" where
  "xml_unescape [] = []"
| "xml_unescape (c # s) =
     (if c \<noteq> CHR ''&'' then c # xml_unescape s
      else if has_prefix s ''amp;'' then CHR ''&'' # xml_unescape (drop 4 s)
      else if has_prefix s ''lt;'' then CHR ''<'' # xml_unescape (drop 3 s)
      else if has_prefix s ''gt;'' then CHR ''>'' # xml_unescape (drop 3 s)
      else if has_prefix s ''quot;'' then CHR 0x22 # xml_unescape (drop 5 s)
      else c # xml_unescape s)"

lemma xml_unescape_escape: "xml_unescape (xml_escape s) = s"
  by (induction s) (auto simp: xml_escape_def esc_char_def has_prefix_def)

lemma point_sources_spec:
  "set (point_sources ps) = {pt_source p | p. p \<in> set ps \<and> pt_source p \<noteq> []} \<and> distinct (point_sources ps)"
proof -
  have "set (fold (\<lambda>p sources. if pt_source p \<noteq> [] \<and> pt_source p \<notin> set sources then sources @ [pt_source p] else sources) ps acc)
      = set acc \<union> {pt_source p | p. p \<in> set ps \<and> pt_source p \<noteq> []} \<and>
    (distinct acc \<longrightarrow> distinct (fold (\<lambda>p sources. if pt_source p \<noteq> [] \<and> pt_source p \<notin> set sources then sources @ [pt_source p] else sources) ps acc))"
    for acc
    by (induction ps arbitrary: acc) auto
  from this [of "[]"] show ?thesis
    by (simp add: point_sources_def)
qed

lemma serve_track_Geo:
  assumes "serve_track parse_time duration_of fmt6 sort_strings r name_of path claims_of get now = TrackGeo location f"
  obtains cl m q0 s q name where "claims_of = Inr cl" "path cl = PathVessel m location"
    "parse_track_request parse_time duration_of r get cl m now = Inr q0" "read_track r q0 now = Inr (s, q)"
    "f = track_geojson q name s (credit s)"
  using assms
  by (auto simp: serve_track_def split: sum.splits if_splits path_answer.splits option.splits prod.splits)

lemma track_points_length:
  "track_points r m frm till interval limit now = Inr s \<Longrightarrow> length (sp_points s) \<le> limit"
  by (auto simp: track_points_def no_shape_def Let_def split: option.splits if_splits)

lemma track_shape_length:
  assumes "track_shape r m frm till limit now = Inr (s, step)" "0 < limit"
  shows "length (sp_points s) \<le> limit"
proof -
  have "length (sp_points (simplify pts silence limit)) \<le> limit" for pts silence
  proof -
    obtain keep tol c where k: "keep_positions (rank_positions pts (segments pts silence)) limit = (keep, tol, c)"
      using prod_cases3 by blast
    show ?thesis
      using keep_positions_spec [OF assms(2) k] by (simp add: simplify_def Let_def k)
  qed
  then show ?thesis
    using assms(1) by (auto simp: track_shape_def no_shape_def Let_def split: option.splits if_splits prod.splits)
qed

text \<open>
  A track that is answered has at most the positions its tier may read, credits every source that delivered one
  of them, and has its times, speeds, courses, headings and statuses in step with its positions.
\<close>

theorem served_track:
  assumes "serve_track parse_time duration_of fmt6 sort_strings r name_of path (Inr cl) get now = TrackGeo location f"
  shows "\<exists>ps :: track_point list. tp_points (tf_props f) = length ps \<and> int (length ps) \<le> track_limit cl \<and>
    (\<forall>p \<in> set ps. pt_source p \<noteq> [] \<longrightarrow> get_or [] (tf_attribution f) (source_kind (pt_source p)) \<noteq> []) \<and>
    length (tp_times (tf_props f)) = length ps \<and> length (tp_sog (tf_props f)) = length ps \<and>
    length (tp_cog (tf_props f)) = length ps \<and> length (tp_heading (tf_props f)) = length ps \<and>
    length (tp_nav (tf_props f)) = length ps \<and>
    (case tf_geometry f of NoGeometry \<Rightarrow> length ps = 0 | PointAt _ \<Rightarrow> length ps = 1 | LineOf cs \<Rightarrow> length cs = length ps)"
proof -
  obtain cl' m q0 s q name where o: "Inr cl = (Inr cl' :: auth_error + claims)" "path cl' = PathVessel m location"
    "parse_track_request parse_time duration_of r get cl' m now = Inr q0" "read_track r q0 now = Inr (s, q)"
    "f = track_geojson q name s (credit s)"
    using serve_track_Geo [OF assms] by metis
  have cl: "cl' = cl"
    using o(1) by simp
  note p = parse_track_request_Inr [OF o(3)]
  have len: "length (sp_points s) \<le> nat (tr_limit q0)"
    using o(4) p track_points_length track_shape_length
    by (auto simp: read_track_def split: if_splits sum.splits prod.splits)
  have "int (length (sp_points s)) \<le> track_limit cl"
    using len p by (simp add: cl) linarith
  moreover have "get_or [] (credit s) (source_kind (pt_source x)) \<noteq> []" if "x \<in> set (sp_points s)" "pt_source x \<noteq> []" for x
    unfolding credit_def using that point_sources_spec [of "sp_points s"] by (intro noted_all) auto
  ultimately show ?thesis
    using aligned [of q name s "credit s"]
    by (intro exI [of _ "sp_points s"]) (auto simp: o(5) track_geojson_def Let_def split: list.splits)
qed

lemma sample_served:
  "\<exists>f. serve_track sample_times (\<lambda>_. None) (\<lambda>_. []) id (reader sample_tables) (\<lambda>_. Some ([], True))
     (\<lambda>_. PathVessel 257000001 []) (Inr (no_claims\<lparr>c_role := ''anonymous''\<rparr>)) sample_query (72 * hour) = TrackGeo [] f"
proof -
  have "\<exists>s. track_points (reader sample_tables) 257000001 0 (10 * minute) minute 1000 (72 * hour) = Inr s"
    by (simp add: track_points_def reader_def Let_def)
  then obtain s where "track_points (reader sample_tables) 257000001 0 (10 * minute) minute 1000 (72 * hour) = Inr s"
    by blast
  moreover have "reader sample_tables \<noteq> None" "sample_query ''format'' = []"
    by (simp_all add: reader_def sample_query_def)
  ultimately show ?thesis
    by (simp add: serve_track_def sample_request [simplified] read_track_def sample_track_request_def)
qed

theorem served_track_witness:
  "\<exists>f. serve_track sample_times (\<lambda>_. None) (\<lambda>_. []) id (reader sample_tables) (\<lambda>_. Some ([], True))
     (\<lambda>_. PathVessel 257000001 []) (Inr (no_claims\<lparr>c_role := ''anonymous''\<rparr>)) sample_query (72 * hour) = TrackGeo [] f \<and>
   int (tp_points (tf_props f)) \<le> 1000"
proof -
  obtain f where f: "serve_track sample_times (\<lambda>_. None) (\<lambda>_. []) id (reader sample_tables) (\<lambda>_. Some ([], True))
     (\<lambda>_. PathVessel 257000001 []) (Inr (no_claims\<lparr>c_role := ''anonymous''\<rparr>)) sample_query (72 * hour) = TrackGeo [] f"
    using sample_served by blast
  have "int (tp_points (tf_props f)) \<le> 1000"
    using served_track [OF f] by (auto simp: track_limit_def low_tier_def no_claims_def)
  then show ?thesis
    using f by blast
qed

end
