(* ===== verification/Vesselapi.thy ===== *)
theory Vesselapi
  imports Subscriptions Mirror Licenses
begin

text \<open>
  Answers about vessels, from \<open>server/vessels.go\<close>: \<open>serveVessels\<close>, which completes what the cache holds
  with what the record holds, the search \<open>serveVesselSearch\<close>, and one vessel, \<open>serveVessel\<close>. A Feature stands for
  its JSON. The record answers through \<open>ve_find\<close>, \<open>ve_get\<close> and \<open>ve_positions\<close>, which the mirror implements.
\<close>

declare map_of_eq_Some_iff [simp del]

definition record_limit :: nat where "record_limit = 500"
definition search_limit :: nat where "search_limit = 50"

type_synonym found = "find_error + (mmsi \<times> vessel) list"

record vessel_env =
  ve_cache :: cache
  ve_stored :: bool
  ve_find :: "record_query \<Rightarrow> found"
  ve_positions :: "record_query \<Rightarrow> find_error + (mmsi \<times> real \<times> real \<times> time) list"
  ve_get :: "mmsi \<Rightarrow> find_error + (vessel \<times> time) option"
  ve_imos :: imo_source

definition any_record :: record_query where
  "any_record = \<lparr>sel_mmsis = None, sel_imos = None, sel_boxes = [], sel_prefix = [], sel_contains = [], sel_flag = [],
     sel_since = zero_time, sel_before = zero_time, sel_has_pos = False, sel_by_name = False, sel_filter = None,
     sel_now = zero_time, sel_limit = 0\<rparr>"

definition cached :: "vessel_env \<Rightarrow> mmsi \<Rightarrow> vessel option" where
  "cached env m = map_of (c_vessels (ve_cache env)) m"

section \<open>The newest state\<close>

definition newest_state :: "vessel_env \<Rightarrow> mmsi \<times> vessel \<Rightarrow> vessel \<times> bool" where
  "newest_state env r =
     (case cached env (fst r) of
        None \<Rightarrow> (snd r, False)
      | Some c \<Rightarrow> (case merge_vessel (state_of c) (snd r) of (v, changed) \<Rightarrow> if \<not> changed then (c, True) else (v, False)))"

text \<open>Its Feature, the source to credit, and whether the record added to the cache.\<close>

definition newest :: "vessel_env \<Rightarrow> mmsi \<times> vessel \<Rightarrow> vessel_feature \<times> string \<times> bool" where
  "newest env r =
     (case newest_state env r of (v, hit) \<Rightarrow>
        if hit then (fst (feature_json (fst r) v), v_source v, False) else (feature (fst r) v, v_source v, True))"

section \<open>Vessels in an area or by number\<close>

record vessels_answer =
  va_features :: "(mmsi \<times> vessel_feature) list"
  va_attribution :: "(string \<times> string) list"
  va_truncated :: bool

definition deep_request :: "age_rules \<Rightarrow> v1_sub \<Rightarrow> bool" where
  "deep_request rules s \<longleftrightarrow> (ar_area_age rules = 0 \<or> ar_area_age rules > vessel_ttl) \<and> (s_boxes s \<noteq> [] \<or> s_everything s)"

definition record_vessels :: "vessel_env \<Rightarrow> v1_sub \<Rightarrow> age_rules \<Rightarrow> bool \<Rightarrow> time \<Rightarrow> find_error + (mmsi \<times> vessel) list \<times> bool" where
  "record_vessels env s rules deep now =
     (case (if s_mmsi s = [] then Inr []
            else case age_rule rules True of (age, vf) \<Rightarrow>
              ve_find env (any_record\<lparr>sel_mmsis := Some (s_mmsi s), sel_since := since now age, sel_has_pos := True,
                 sel_filter := Some vf, sel_now := now\<rparr>)) of
        Inl e \<Rightarrow> Inl e
      | Inr followed \<Rightarrow>
          if \<not> deep then Inr (followed, False)
          else (case age_rule rules False of (age, vf) \<Rightarrow>
            case ve_find env (any_record\<lparr>sel_boxes := s_boxes s, sel_since := since now age, sel_before := now - vessel_ttl,
                 sel_has_pos := True, sel_limit := int record_limit + 1, sel_filter := Some vf, sel_now := now\<rparr>) of
              Inl e \<Rightarrow> Inl e
            | Inr rs \<Rightarrow>
                if length rs > record_limit then Inr (followed @ take record_limit rs, True) else Inr (followed @ rs, False)))"

definition cached_matches :: "vessel_env \<Rightarrow> v1_sub \<Rightarrow> age_rules \<Rightarrow> time \<Rightarrow> (mmsi \<times> vessel) list" where
  "cached_matches env s rules now =
     filter (\<lambda>(m, v). v_has_pos v \<and> age_match rules (m \<in> set (s_mmsi s)) v now) (each_match s (ve_cache env))"

type_synonym answer_state = "mmsi list \<times> (mmsi \<times> vessel_feature) list \<times> (string \<times> string) list"

text \<open>One record row joins the answer; \<open>emitted\<close> are the vessels the cache answered.\<close>

definition add_record :: "vessel_env \<Rightarrow> mmsi list \<Rightarrow> mmsi \<times> vessel \<Rightarrow> answer_state \<Rightarrow> answer_state" where
  "add_record env emitted r st =
     (case st of (taken, feats, attr) \<Rightarrow>
        if fst r \<in> set taken then st
        else let ok = fst r \<in> set emitted; taken1 = fst r # taken in
          if \<not> ok \<and> (case cached env (fst r) of Some c \<Rightarrow> v_has_pos c | None \<Rightarrow> False) then (taken1, feats, attr)
          else case newest env r of (f, source, merged) \<Rightarrow>
            if ok \<and> \<not> merged then (taken1, feats, attr)
            else (taken1,
                  if ok then map (\<lambda>(m, g). if m = fst r then (m, f) else (m, g)) feats else feats @ [(fst r, f)],
                  note_attribution source attr))"

datatype vessels_error = VSub sub_error | VRules filter_error | VTooManyTerms | VRecord string

definition find_failed :: "find_error \<Rightarrow> vessels_error" where
  "find_failed e = (case e of TooManyTerms \<Rightarrow> VTooManyTerms | StoreFailed msg \<Rightarrow> VRecord msg)"

definition vessels_for :: "vessel_env \<Rightarrow> v1_sub \<Rightarrow> age_rules \<Rightarrow> time \<Rightarrow> vessels_error + vessels_answer" where
  "vessels_for env s rules now =
     (let hits = cached_matches env s rules now;
          feats = map (\<lambda>(m, v). (m, fst (feature_json m v))) hits;
          attr = fold (\<lambda>(m, v). note_attribution (v_source v)) hits [];
          deep = deep_request rules s
      in if \<not> (ve_stored env \<and> (s_mmsi s \<noteq> [] \<or> deep))
         then Inr \<lparr>va_features = feats, va_attribution = attr, va_truncated = s_cut s\<rparr>
         else case record_vessels env s rules deep now of
           Inl e \<Rightarrow> Inl (find_failed e)
         | Inr (recs, beyond) \<Rightarrow>
             (case fold (add_record env (map fst hits)) recs ([], feats, attr) of (_, feats', attr') \<Rightarrow>
                Inr \<lparr>va_features = feats', va_attribution = attr', va_truncated = s_cut s \<or> beyond\<rparr>))"

definition serve_vessels ::
  "(string \<Rightarrow> (real \<times> real \<times> real \<times> real) option) \<Rightarrow> (string \<Rightarrow> real option) \<Rightarrow> (string \<Rightarrow> duration option) \<Rightarrow> vessel_env \<Rightarrow>
   claims \<Rightarrow> string list \<Rightarrow> string list \<Rightarrow> (string \<Rightarrow> string) \<Rightarrow> time \<Rightarrow> vessels_error + vessels_answer" where
  "serve_vessels scan4 float_of duration_of env cl bboxes imo get now =
     (case parse_sub scan4 (ve_imos env) cl bboxes (get ''mmsi'') imo True of
        Inl e \<Rightarrow> Inl (VSub e)
      | Inr s \<Rightarrow>
          (case parse_age_rules float_of duration_of get of
             Inl e \<Rightarrow> Inl (VRules e)
           | Inr rules \<Rightarrow> vessels_for env s rules now))"

section \<open>Search\<close>

definition search_params :: "string list" where
  "search_params = [''q'', ''bbox'', ''mmsi'', ''imo'', ''max_age'', ''around'', ''key'',
     ''kind'', ''class'', ''type'', ''min_sog'', ''max_age_moving'']"

datatype search_error =
    UnknownParameter string
  | ShortText
  | SearchImoTier
  | SearchSub sub_error
  | SearchFilter filter_error
  | NoStore
  | SearchTooManyTerms
  | SearchRecord string

record search_hit =
  h_mmsi :: mmsi
  h_vessel :: vessel
  h_by_imo :: bool
  h_dist :: real

definition nearest_found :: "vessel_env \<Rightarrow> record_query \<Rightarrow> real \<times> real \<Rightarrow> found" where
  "nearest_found env q around =
     (case ve_positions env (q\<lparr>sel_limit := 0\<rparr>) of
        Inl e \<Rightarrow> Inl e
      | Inr pos \<Rightarrow> ve_find env (q\<lparr>sel_limit := 0, sel_mmsis := Some (nearest_mmsis (ve_cache env) around (sel_limit q) pos)\<rparr>))"

definition search_query :: "v1_sub \<Rightarrow> string \<Rightarrow> vessel_filter \<Rightarrow> (duration \<times> bool) \<Rightarrow> time \<Rightarrow> record_query" where
  "search_query s text vf age now =
     any_record\<lparr>sel_prefix := text, sel_boxes := s_boxes s, sel_has_pos := True, sel_limit := 2 * int search_limit + 1,
       sel_filter := Some vf, sel_now := now,
       sel_mmsis := (if s_mmsi s \<noteq> [] \<or> s_imo s \<noteq> None then Some (s_mmsi s) else None),
       sel_since := (if snd age then age_cutoff now (fst age) else zero_time)\<rparr>"

text \<open>The vessels an IMO names that the query admits, and whether some were left out. \<open>match\<close> is the mirror's.\<close>

definition imo_found :: "vessel_env \<Rightarrow> record_query \<Rightarrow> imo \<Rightarrow> find_error + (mmsi \<times> vessel) list \<times> bool" where
  "imo_found env q n =
     (if n = 0 then Inr ([], False)
      else case resolve_imos (ve_imos env) [n] of
        Inl e \<Rightarrow> Inl e
      | Inr (out, over) \<Rightarrow>
          if \<not> within_bounds q then Inl TooManyTerms
          else Inr (filter (\<lambda>r. mirror_match q (fst r) (snd r)) (get_or [] out n), over))"

fun hits_from :: "vessel_env \<Rightarrow> vessel_filter \<Rightarrow> (real \<times> real) option \<Rightarrow> time \<Rightarrow> mmsi list \<Rightarrow> (bool \<times> mmsi \<times> vessel) list \<Rightarrow> search_hit list" where
  "hits_from env vf around now taken [] = []"
| "hits_from env vf around now taken ((by_imo, r) # rs) =
     (if fst r \<in> set taken then hits_from env vf around now taken rs
      else let v = fst (newest_state env r) in
        (if \<not> filter_match vf v now then []
         else [\<lparr>h_mmsi = fst r, h_vessel = v, h_by_imo = by_imo,
                h_dist = (case around of None \<Rightarrow> 0 | Some (a, b) \<Rightarrow> nm a b (v_lat v) (v_lon v))\<rparr>]) @
        hits_from env vf around now (fst r # taken) rs)"

text \<open>\<open>sort.SliceStable\<close>: by IMO first, then nearest, then heard last.\<close>

definition hit_before :: "search_hit \<Rightarrow> search_hit \<Rightarrow> bool" where
  "hit_before a b \<longleftrightarrow>
     (if h_by_imo a \<noteq> h_by_imo b then h_by_imo a
      else if h_dist a \<noteq> h_dist b then h_dist a < h_dist b
      else v_seen (h_vessel a) > v_seen (h_vessel b))"

fun insert_hit :: "search_hit \<Rightarrow> search_hit list \<Rightarrow> search_hit list" where
  "insert_hit a [] = [a]"
| "insert_hit a (b # bs) = (if hit_before b a then b # insert_hit a bs else a # b # bs)"

definition sort_hits :: "search_hit list \<Rightarrow> search_hit list" where
  "sort_hits hs = foldr insert_hit hs []"

record search_answer =
  sa_hits :: "search_hit list"
  sa_features :: "(vessel_feature \<times> string) list"
  sa_attribution :: "(string \<times> string) list"
  sa_truncated :: bool

definition search_for ::
  "(real \<Rightarrow> real \<Rightarrow> string) \<Rightarrow> vessel_env \<Rightarrow> v1_sub \<Rightarrow> record_query \<Rightarrow> vessel_filter \<Rightarrow> (real \<times> real) option \<Rightarrow> imo \<Rightarrow> bool \<Rightarrow>
   time \<Rightarrow> search_error + search_answer" where
  "search_for near env s q vf around n explicit now =
     (case imo_found env q n of
        Inl TooManyTerms \<Rightarrow> Inl SearchTooManyTerms
      | Inl (StoreFailed msg) \<Rightarrow> Inl (SearchRecord msg)
      | Inr (by_imo, imo_cut) \<Rightarrow>
          (case (if explicit then Inr [] else case around of None \<Rightarrow> ve_find env q | Some a \<Rightarrow> nearest_found env q a) of
             Inl TooManyTerms \<Rightarrow> Inl SearchTooManyTerms
           | Inl (StoreFailed msg) \<Rightarrow> Inl (SearchRecord msg)
           | Inr rs \<Rightarrow>
               let hits = sort_hits (hits_from env vf around now [] (map (Pair True) by_imo @ map (Pair False) rs));
                   shown = take search_limit hits
               in Inr \<lparr>sa_hits = shown,
                       sa_features = map (\<lambda>h. (feature (h_mmsi h) (h_vessel h), near (v_lat (h_vessel h)) (v_lon (h_vessel h)))) shown,
                       sa_attribution = fold (\<lambda>h. note_attribution (v_source (h_vessel h))) shown [],
                       sa_truncated = (imo_cut \<or> s_cut s \<or> length hits > search_limit)\<rparr>))"

definition serve_vessel_search ::
  "(string \<Rightarrow> (real \<times> real \<times> real \<times> real) option) \<Rightarrow> (string \<Rightarrow> real option) \<Rightarrow> (string \<Rightarrow> duration option) \<Rightarrow> (string \<Rightarrow> nat) \<Rightarrow>
   (real \<Rightarrow> real \<Rightarrow> string) \<Rightarrow> vessel_env \<Rightarrow> claims \<Rightarrow> string list \<Rightarrow> string list \<Rightarrow> string list \<Rightarrow> (string \<Rightarrow> string) \<Rightarrow> time \<Rightarrow>
   search_error + search_answer" where
  "serve_vessel_search scan4 float_of duration_of rune_count near env cl keys bboxes imo get now =
     (case filter (\<lambda>k. k \<notin> set search_params) keys of
        k # _ \<Rightarrow> Inl (UnknownParameter k)
      | [] \<Rightarrow>
          let text = trim_space (get ''q'') in
          if rune_count text < 2 then Inl ShortText
          else case imo_query text of (n0, explicit) \<Rightarrow>
            if \<not> imo_gate cl \<and> explicit then Inl SearchImoTier
            else let n = (if imo_gate cl then n0 else 0) in
              case parse_sub scan4 (ve_imos env) cl bboxes (get ''mmsi'') imo False of
                Inl e \<Rightarrow> Inl (SearchSub e)
              | Inr s \<Rightarrow>
                  (case (parse_max_age duration_of (get ''max_age''), parse_vessel_filter float_of duration_of get 0,
                         parse_around float_of (get ''around'')) of
                     (None, _, _) \<Rightarrow> Inl (SearchFilter BadMaxAge)
                   | (_, Inl e, _) \<Rightarrow> Inl (SearchFilter e)
                   | (_, _, Inl e) \<Rightarrow> Inl (SearchFilter e)
                   | (Some age, Inr vf, Inr around) \<Rightarrow>
                       if \<not> ve_stored env then Inl NoStore
                       else search_for near env s (search_query s text vf age now) vf around n explicit now))"

section \<open>One vessel\<close>

record vessel_answer =
  vo_feature :: vessel_feature
  vo_geometry :: "(real \<times> real) option"
  vo_first_seen :: string
  vo_near :: string
  vo_attribution :: "(string \<times> string) list"

datatype one_error = OneUnavailable | OneUnknown

definition current_state :: "vessel_env \<Rightarrow> mmsi \<Rightarrow> one_error + vessel \<times> time" where
  "current_state env m =
     (let cur = map_option state_of (cached env m) in
      if \<not> ve_stored env then (case cur of None \<Rightarrow> Inl OneUnknown | Some v \<Rightarrow> Inr (v, zero_time))
      else case ve_get env m of
        Inl _ \<Rightarrow> Inl OneUnavailable
      | Inr None \<Rightarrow> (case cur of None \<Rightarrow> Inl OneUnknown | Some v \<Rightarrow> Inr (v, v_seen v))
      | Inr (Some (rv, first)) \<Rightarrow>
          let v = (case cur of None \<Rightarrow> rv | Some c \<Rightarrow> fst (merge_vessel c rv))
          in Inr (v, if first = zero_time then v_seen v else first))"

definition serve_vessel :: "(real \<Rightarrow> real \<Rightarrow> string) \<Rightarrow> vessel_env \<Rightarrow> mmsi \<Rightarrow> one_error + vessel_answer" where
  "serve_vessel near env m =
     (case current_state env m of
        Inl e \<Rightarrow> Inl e
      | Inr (v, first) \<Rightarrow>
          let f = feature m v in
          Inr \<lparr>vo_feature = f, vo_geometry = (if v_has_pos v then Some (vf_coordinates f) else None),
               vo_first_seen = (if first = zero_time then [] else rfc3339 first),
               vo_near = (if v_has_pos v then near (v_lat v) (v_lon v) else []),
               vo_attribution = note_attribution (v_source v) []\<rparr>)"

section \<open>The record behind an interface\<close>

text \<open>
  What an answer relies on of the record: a query gives rows that match it, each vessel once, and, when it
  stops short of its limit, every one of them.
\<close>

locale record_reader =
  fixes ok :: "'db \<Rightarrow> bool" and find_in :: "'db \<Rightarrow> record_query \<Rightarrow> found" and row_of :: "'db \<Rightarrow> mmsi \<Rightarrow> vessel option"
  assumes rows_match: "ok db \<Longrightarrow> sel_imos q = None \<Longrightarrow> find_in db q = Inr rs \<Longrightarrow> (m, v) \<in> set rs \<Longrightarrow>
      row_of db m = Some v \<and> mirror_match q m v"
    and rows_all: "ok db \<Longrightarrow> sel_imos q = None \<Longrightarrow> find_in db q = Inr rs \<Longrightarrow> sel_limit q \<le> 0 \<or> int (length rs) < sel_limit q \<Longrightarrow>
      row_of db m = Some v \<Longrightarrow> mirror_match q m v \<Longrightarrow> (m, v) \<in> set rs"
begin

lemma find_exact:
  assumes "ok db" "sel_imos q = None" "find_in db q = Inr rs" "sel_limit q \<le> 0 \<or> int (length rs) < sel_limit q"
  shows "(m, v) \<in> set rs \<longleftrightarrow> row_of db m = Some v \<and> mirror_match q m v"
  using rows_match [OF assms(1-3)] rows_all [OF assms] by blast

end

definition find_failed_or :: "(find_error + (mmsi \<times> vessel \<times> time) list) \<Rightarrow> found" where
  "find_failed_or r = (case r of Inl e \<Rightarrow> Inl e | Inr rs \<Rightarrow> Inr (map (\<lambda>(m, v, first). (m, v)) rs))"

definition mirror_rows :: "mirror \<Rightarrow> record_query \<Rightarrow> found" where
  "mirror_rows mi q = find_failed_or (mirror_find q mi)"

definition mirror_row :: "mirror \<Rightarrow> mmsi \<Rightarrow> vessel option" where
  "mirror_row mi m = map_option (\<lambda>e. state_of (me_v e)) (map_of (mi_entries mi) m)"

lemma state_of_match [simp]:
  "filter_match f (state_of v) now \<longleftrightarrow> filter_match f v now" "mirror_match q m (state_of v) \<longleftrightarrow> mirror_match q m v"
proof -
  show f: "filter_match f (state_of v) now \<longleftrightarrow> filter_match f v now" for f now
    by (simp add: filter_match_def stationary_def state_of_def split: option.split)
  show "mirror_match q m (state_of v) \<longleftrightarrow> mirror_match q m v"
    unfolding mirror_match_def f by (simp add: state_of_def split: option.split)
qed

lemma ranked_matches_set:
  "mirror_ok mi \<Longrightarrow> set (ranked_matches q mi) = hit_of ` {(m, e). map_of (mi_entries mi) m = Some e \<and> mirror_match q m (me_v e)}"
  by (force simp: ranked_matches_def mirror_ok_def map_of_in_set)

lemma mirror_rows_eq:
  assumes "mirror_ok mi" "sel_imos q = None" "mirror_rows mi q = Inr rs"
  shows "rs = map (\<lambda>(m, _, e). (m, state_of (me_v e)))
    ((if sel_limit q \<le> 0 then id else take (nat (sel_limit q))) (ranked_matches q mi))"
proof (cases "within_bounds q")
  case True
  then show ?thesis
    using assms mirror_find_ranked [OF assms(1) True] by (simp add: mirror_rows_def find_failed_or_def split_def comp_def)
next
  case False
  then show ?thesis using assms(3) by (simp add: mirror_rows_def mirror_find_def find_failed_or_def)
qed

lemma mirror_rows_set:
  assumes "mirror_ok mi" "sel_imos q = None" "mirror_rows mi q = Inr rs"
  shows "(m, v) \<in> set rs \<Longrightarrow> mirror_row mi m = Some v \<and> mirror_match q m v"
    and "sel_limit q \<le> 0 \<or> int (length rs) < sel_limit q \<Longrightarrow> mirror_row mi m = Some v \<Longrightarrow> mirror_match q m v \<Longrightarrow> (m, v) \<in> set rs"
proof -
  let ?f = "\<lambda>(m, _, e). (m, state_of (me_v e))"
  have e: "rs = map ?f ((if sel_limit q \<le> 0 then id else take (nat (sel_limit q))) (ranked_matches q mi))"
    using mirror_rows_eq [OF assms] by simp
  then have "set rs \<subseteq> ?f ` set (ranked_matches q mi)"
    using set_take_subset [of "nat (sel_limit q)" "ranked_matches q mi"] by (simp add: image_mono)
  then show "(m, v) \<in> set rs \<Longrightarrow> mirror_row mi m = Some v \<and> mirror_match q m v"
    unfolding ranked_matches_set [OF assms(1)] by (auto simp: mirror_row_def hit_of_def)
  assume short: "sel_limit q \<le> 0 \<or> int (length rs) < sel_limit q"
    and r: "mirror_row mi m = Some v" "mirror_match q m v"
  have "take (nat (sel_limit q)) (ranked_matches q mi) = ranked_matches q mi" if "\<not> sel_limit q \<le> 0"
    using e short that by simp
  then have "rs = map ?f (ranked_matches q mi)" using e by simp
  then have "set rs = ?f ` set (ranked_matches q mi)" by simp
  then show "(m, v) \<in> set rs"
    unfolding ranked_matches_set [OF assms(1)] using r by (force simp: mirror_row_def hit_of_def)
qed

interpretation mr: record_reader mirror_ok mirror_rows mirror_row
  by unfold_locales (use mirror_rows_set in blast)+

section \<open>The answer\<close>

definition placed :: "vessel_env \<Rightarrow> mmsi \<Rightarrow> bool" where
  "placed env m \<longleftrightarrow> (\<exists>v. cached env m = Some v \<and> v_has_pos v)"

lemma placed_case: "(case cached env m of Some c \<Rightarrow> v_has_pos c | None \<Rightarrow> False) \<longleftrightarrow> placed env m"
  by (simp add: placed_def split: option.split)

text \<open>While the rows join: the cache's vessels stand first, and after them those rows the cache has no position for.\<close>

definition joined :: "vessel_env \<Rightarrow> mmsi list \<Rightarrow> answer_state \<Rightarrow> bool" where
  "joined env emitted st \<longleftrightarrow> (case st of (taken, feats, attr) \<Rightarrow>
     \<exists>rest. map fst feats = emitted @ rest \<and> distinct rest \<and> set rest = {m \<in> set taken. m \<notin> set emitted \<and> \<not> placed env m})"

lemma add_record_joined:
  assumes "joined env emitted st"
  shows "joined env emitted (add_record env emitted r st) \<and>
    set (fst (add_record env emitted r st)) = insert (fst r) (set (fst st))"
proof -
  obtain taken feats attr where st: "st = (taken, feats, attr)" by (cases st)
  obtain rest where r: "map fst feats = emitted @ rest" "distinct rest"
    "set rest = {m \<in> set taken. m \<notin> set emitted \<and> \<not> placed env m}" using assms by (auto simp: joined_def st)
  have keep: "map (fst \<circ> (\<lambda>(m, g). if m = x then (m, f) else (m, g))) feats = map fst feats" for x f by auto
  obtain f source merged where n: "newest env r = (f, source, merged)" by (cases "newest env r")
  show ?thesis
  proof (cases "fst r \<in> set taken")
    case True
    then show ?thesis using assms by (auto simp: add_record_def st)
  next
    case False
    then show ?thesis
      using r by (cases "fst r \<in> set emitted \<or> placed env (fst r)")
        (auto simp: add_record_def st Let_def placed_case n joined_def keep
          intro: exI [of _ rest] exI [of _ "rest @ [fst r]"])
  qed
qed

lemma fold_add_record_joined:
  "joined env emitted st \<Longrightarrow> joined env emitted (fold (add_record env emitted) rs st) \<and>
     set (fst (fold (add_record env emitted) rs st)) = fst ` set rs \<union> set (fst st)"
proof (induction rs arbitrary: st)
  case (Cons r rs)
  show ?case using Cons.IH [of "add_record env emitted r st"] add_record_joined [OF Cons.prems, of r] by auto
qed simp

lemma joined_result:
  assumes "fold (add_record env emitted) rs ([], feats, attr) = (taken, feats', attr')" "map fst feats = emitted" "distinct emitted"
  shows "distinct (map fst feats') \<and>
    fst ` set feats' = set emitted \<union> {m \<in> fst ` set rs. m \<notin> set emitted \<and> \<not> placed env m}"
proof -
  have "joined env emitted ([], feats, attr)" using assms(2) by (auto simp: joined_def)
  from fold_add_record_joined [OF this, of rs] obtain rest where r: "map fst feats' = emitted @ rest" "distinct rest"
    "set rest = {m \<in> set taken. m \<notin> set emitted \<and> \<not> placed env m}" "set taken = fst ` set rs"
    by (auto simp: assms(1) joined_def)
  have "fst ` set feats' = set (map fst feats')" by simp
  with r assms(3) show ?thesis by auto
qed


text \<open>The rows that may answer: of a followed vessel, or, when the request reaches past the cache, of one last heard in its area.\<close>

definition heard_from :: "time \<Rightarrow> vessel \<Rightarrow> bool" where
  "heard_from t v \<longleftrightarrow> unix_ms t \<noteq> 0 \<longrightarrow> unix_ms t \<le> unix_ms (v_seen v)"

definition row_answers :: "v1_sub \<Rightarrow> age_rules \<Rightarrow> time \<Rightarrow> mmsi \<Rightarrow> vessel \<Rightarrow> bool" where
  "row_answers s rules now m v \<longleftrightarrow> v_has_pos v \<and>
     (m \<in> set (s_mmsi s) \<and> heard_from (since now (ar_named_age rules)) v \<and> filter_match (ar_named rules) v now \<or>
      deep_request rules s \<and> heard_from (since now (ar_area_age rules)) v \<and>
      (unix_ms (now - vessel_ttl) \<noteq> 0 \<longrightarrow> unix_ms (v_seen v) < unix_ms (now - vessel_ttl)) \<and>
      (s_boxes s \<noteq> [] \<longrightarrow> in_any (s_boxes s) (v_lat v) (v_lon v)) \<and> filter_match (ar_area rules) v now)"

lemma heard_from_not_less: "heard_from t v \<longleftrightarrow> \<not> (unix_ms t \<noteq> 0 \<and> unix_ms (v_seen v) < unix_ms t)"
  by (auto simp: heard_from_def not_less)

context record_reader
begin

lemma record_vessels_rows:
  assumes "ok db" "ve_find env = find_in db" "record_vessels env s rules (deep_request rules s) now = Inr (rs, beyond)"
  shows "(m, v) \<in> set rs \<Longrightarrow> row_of db m = Some v \<and> row_answers s rules now m v"
    and "\<not> beyond \<Longrightarrow> row_of db m = Some v \<Longrightarrow> row_answers s rules now m v \<Longrightarrow> (m, v) \<in> set rs"
proof -
  let ?q1 = "any_record\<lparr>sel_mmsis := Some (s_mmsi s), sel_since := since now (ar_named_age rules), sel_has_pos := True,
    sel_filter := Some (ar_named rules), sel_now := now\<rparr>"
  let ?q2 = "any_record\<lparr>sel_boxes := s_boxes s, sel_since := since now (ar_area_age rules), sel_before := now - vessel_ttl,
    sel_has_pos := True, sel_limit := int record_limit + 1, sel_filter := Some (ar_area rules), sel_now := now\<rparr>"
  let ?followed = "if s_mmsi s = [] then Inr [] else find_in db ?q1"
  have q1: "mirror_match ?q1 m v \<longleftrightarrow> m \<in> set (s_mmsi s) \<and> v_has_pos v \<and> heard_from (since now (ar_named_age rules)) v \<and>
      filter_match (ar_named rules) v now" for m v
    by (auto simp: mirror_match_def any_record_def heard_from_not_less zero_time_def unix_ms_def)
  have q2: "mirror_match ?q2 m v \<longleftrightarrow> v_has_pos v \<and> heard_from (since now (ar_area_age rules)) v \<and>
      (unix_ms (now - vessel_ttl) \<noteq> 0 \<longrightarrow> unix_ms (v_seen v) < unix_ms (now - vessel_ttl)) \<and>
      (s_boxes s \<noteq> [] \<longrightarrow> in_any (s_boxes s) (v_lat v) (v_lon v)) \<and> filter_match (ar_area rules) v now" for m v
    by (auto simp: mirror_match_def any_record_def heard_from_not_less zero_time_def unix_ms_def not_le)
  obtain fs where fs: "?followed = Inr fs"
    using assms(3) unfolding record_vessels_def assms(2) age_rule_def by (auto split: sum.splits if_splits)
  have f1: "(m, v) \<in> set fs \<longleftrightarrow> row_of db m = Some v \<and> mirror_match ?q1 m v" for m v
  proof (cases "s_mmsi s = []")
    case True
    then show ?thesis using fs q1 by auto
  next
    case False
    then show ?thesis using fs by (intro find_exact [OF assms(1)]) (simp_all add: any_record_def)
  qed
  have rest: "rs = fs \<and> \<not> beyond" if "\<not> deep_request rules s"
    using assms(3) fs that unfolding record_vessels_def assms(2) age_rule_def by (auto split: if_splits)
  have deep: "\<exists>ds. find_in db ?q2 = Inr ds \<and> rs = fs @ take record_limit ds \<and> (beyond \<longleftrightarrow> length ds > record_limit)"
    if "deep_request rules s"
    using assms(3) fs that unfolding record_vessels_def assms(2) age_rule_def by (auto split: if_splits sum.splits)
  have a2: "sel_imos ?q2 = None" by (simp add: any_record_def)
  show "row_of db m = Some v \<and> row_answers s rules now m v" if "(m, v) \<in> set rs"
  proof (cases "(m, v) \<in> set fs")
    case True
    then show ?thesis using f1 by (auto simp: q1 row_answers_def)
  next
    case False
    then have d: "deep_request rules s" using rest that by blast
    from deep [OF d] obtain ds where ds: "find_in db ?q2 = Inr ds" "rs = fs @ take record_limit ds" by blast
    then have "(m, v) \<in> set (take record_limit ds)" using False that by (metis Un_iff set_append)
    from rows_match [OF assms(1) a2 ds(1) in_set_takeD [OF this]] show ?thesis
      using d by (auto simp: q2 row_answers_def)
  qed
  show "(m, v) \<in> set rs" if "\<not> beyond" "row_of db m = Some v" "row_answers s rules now m v"
  proof (cases "mirror_match ?q1 m v")
    case True
    then have "(m, v) \<in> set fs" using f1 that(2) by blast
    then show ?thesis using rest deep by (cases "deep_request rules s") auto
  next
    case False
    then have d: "deep_request rules s" and m2: "mirror_match ?q2 m v" using that(3) by (auto simp: q1 q2 row_answers_def)
    from deep [OF d] obtain ds where ds1: "find_in db ?q2 = Inr ds" "rs = fs @ take record_limit ds"
      "beyond \<longleftrightarrow> length ds > record_limit" by blast
    then have ds: "find_in db ?q2 = Inr ds" "rs = fs @ ds" "length ds \<le> record_limit" using that(1) by auto
    have "(m, v) \<in> set ds" using ds(3) by (intro rows_all [OF assms(1) a2 ds(1) _ that(2) m2]) simp
    then show ?thesis using ds(2) by simp
  qed
qed

end


text \<open>A request answered from the cache and the record, vessel by vessel.\<close>

lemma cached_matches_set:
  assumes "cache_ok (ve_cache env)" "distinct (s_mmsi s)"
  shows "distinct (map fst (cached_matches env s rules now))"
    and "m \<in> fst ` set (cached_matches env s rules now) \<longleftrightarrow>
      (\<exists>v. cached env m = Some v \<and> v_has_pos v \<and>
         (s_everything s \<or> m \<in> set (s_mmsi s) \<or> in_any (s_boxes s) (v_lat v) (v_lon v)) \<and>
         age_match rules (m \<in> set (s_mmsi s)) v now)"
proof -
  note em = each_match_set [OF assms]
  show "distinct (map fst (cached_matches env s rules now))"
    unfolding cached_matches_def using em by (blast intro: distinct_map_filter)
  show "m \<in> fst ` set (cached_matches env s rules now) \<longleftrightarrow>
      (\<exists>v. cached env m = Some v \<and> v_has_pos v \<and>
         (s_everything s \<or> m \<in> set (s_mmsi s) \<or> in_any (s_boxes s) (v_lat v) (v_lon v)) \<and>
         age_match rules (m \<in> set (s_mmsi s)) v now)"
    using em [THEN conjunct2] by (force simp: cached_matches_def cached_def)
qed

definition answers_vessel :: "vessel_env \<Rightarrow> v1_sub \<Rightarrow> age_rules \<Rightarrow> time \<Rightarrow> (mmsi \<Rightarrow> vessel option) \<Rightarrow> mmsi \<Rightarrow> bool" where
  "answers_vessel env s rules now row m \<longleftrightarrow>
     (\<exists>v. cached env m = Some v \<and> v_has_pos v \<and>
        (s_everything s \<or> m \<in> set (s_mmsi s) \<or> in_any (s_boxes s) (v_lat v) (v_lon v)) \<and>
        age_match rules (m \<in> set (s_mmsi s)) v now) \<or>
     ve_stored env \<and> \<not> placed env m \<and> (\<exists>v. row m = Some v \<and> row_answers s rules now m v)"

lemma hits_placed:
  assumes "cache_ok (ve_cache env)" "distinct (s_mmsi s)" "m \<in> fst ` set (cached_matches env s rules now)"
  shows "placed env m"
  using cached_matches_set(2) [OF assms(1,2), of m rules now] assms(3) by (auto simp: placed_def)

context record_reader
begin

lemma vessels_for_exact:
  assumes "ok db" "ve_find env = find_in db" "cache_ok (ve_cache env)" "distinct (s_mmsi s)"
    and ans: "vessels_for env s rules now = Inr ans"
  shows "distinct (map fst (va_features ans))"
    and "m \<in> fst ` set (va_features ans) \<Longrightarrow> answers_vessel env s rules now (row_of db) m"
    and "\<not> va_truncated ans \<Longrightarrow> answers_vessel env s rules now (row_of db) m \<Longrightarrow> m \<in> fst ` set (va_features ans)"
proof -
  define hits where "hits = cached_matches env s rules now"
  define feats where "feats = map (\<lambda>(m, v). (m, fst (feature_json m v))) hits"
  define attr where "attr = fold (\<lambda>(m, v). note_attribution (v_source v)) hits []"
  have fh: "map fst feats = map fst hits" by (simp add: feats_def split_def comp_def)
  have dh: "distinct (map fst hits)" unfolding hits_def by (rule cached_matches_set(1) [OF assms(3,4)])
  have hp: "placed env x" if "x \<in> fst ` set hits" for x
    using hits_placed [OF assms(3,4)] that unfolding hits_def .
  note hm = cached_matches_set(2) [OF assms(3,4), of _ rules now, folded hits_def]
  have "distinct (map fst (va_features ans)) \<and>
    (m \<in> fst ` set (va_features ans) \<longrightarrow> answers_vessel env s rules now (row_of db) m) \<and>
    (\<not> va_truncated ans \<longrightarrow> answers_vessel env s rules now (row_of db) m \<longrightarrow> m \<in> fst ` set (va_features ans))"
  proof (cases "ve_stored env \<and> (s_mmsi s \<noteq> [] \<or> deep_request rules s)")
    case False
    then have "va_features ans = feats"
      using ans by (auto simp: vessels_for_def Let_def feats_def hits_def)
    moreover have "\<not> (ve_stored env \<and> row_answers s rules now m v)" for v using False by (auto simp: row_answers_def)
    moreover have "fst ` set feats = fst ` set hits" using fh by (metis set_map)
    ultimately show ?thesis using dh fh hm [of m] by (auto simp: answers_vessel_def)
  next
    case True
    then obtain rs beyond taken feats' attr' where
      r: "record_vessels env s rules (deep_request rules s) now = Inr (rs, beyond)"
      and f: "fold (add_record env (map fst hits)) rs ([], feats, attr) = (taken, feats', attr')"
      and a: "va_features ans = feats'" "va_truncated ans \<longleftrightarrow> s_cut s \<or> beyond"
      using ans by (auto simp: vessels_for_def Let_def feats_def hits_def attr_def split: sum.splits prod.splits)
    from joined_result [OF f fh dh] have j: "distinct (map fst feats')"
      "fst ` set feats' = fst ` set hits \<union> {x \<in> fst ` set rs. x \<notin> fst ` set hits \<and> \<not> placed env x}" by auto
    note rv = record_vessels_rows [OF assms(1,2) r]
    have in_rows: "m \<in> fst ` set rs \<longrightarrow> (\<exists>v. row_of db m = Some v \<and> row_answers s rules now m v)"
      using rv(1) by fastforce
    have all_rows: "\<not> va_truncated ans \<longrightarrow> (\<exists>v. row_of db m = Some v \<and> row_answers s rules now m v) \<longrightarrow> m \<in> fst ` set rs"
      using rv(2) a(2) by force
    show ?thesis
      using j in_rows all_rows hp [of m] hm [of m] True unfolding a(1) answers_vessel_def by blast
  qed
  then show "distinct (map fst (va_features ans))"
    and "m \<in> fst ` set (va_features ans) \<Longrightarrow> answers_vessel env s rules now (row_of db) m"
    and "\<not> va_truncated ans \<Longrightarrow> answers_vessel env s rules now (row_of db) m \<Longrightarrow> m \<in> fst ` set (va_features ans)"
    by blast+
qed

end

text \<open>
  C26. A request for vessels answers each vessel once and by where it is now. With the mirror behind the record, a
  vessel is in the answer only if the cache holds it placed in the request and young enough, or the record has a
  row the request takes and the cache holds no position that says otherwise; and unless the answer says it was cut
  short, every such vessel is in it.
\<close>

theorem vessels_answer_exact:
  assumes "mirror_reach mi" "ve_find env = mirror_rows mi" "fleet_ok (ve_cache env)" "distinct (s_mmsi s)"
    and "vessels_for env s rules now = Inr ans"
  shows "distinct (map fst (va_features ans)) \<and>
    (m \<in> fst ` set (va_features ans) \<longrightarrow> answers_vessel env s rules now (mirror_row mi) m) \<and>
    (\<not> va_truncated ans \<longrightarrow> answers_vessel env s rules now (mirror_row mi) m \<longrightarrow> m \<in> fst ` set (va_features ans))"
  using mr.vessels_for_exact [OF mirror_reach_ok [OF assms(1)] assms(2) _ assms(4,5)] assms(3)
  by (simp add: fleet_ok_def)


definition no_filter :: vessel_filter where
  "no_filter = \<lparr>f_kinds = None, f_class = [], f_types = [], f_min_sog = 0, f_has_min_sog = False, f_moving_age = 0\<rparr>"

definition sample_rules :: age_rules where
  "sample_rules = \<lparr>ar_area_age = vessel_ttl, ar_named_age = 0, ar_area = no_filter, ar_named = no_filter\<rparr>"

definition sample_record :: mirror where
  "sample_record = file_rows [(257000001, \<lparr>me_v = new_vessel\<lparr>v_has_pos := True, v_lat := 60, v_lon := 5, v_seen := hour\<rparr>, me_first_seen = 0\<rparr>)]
     empty_mirror"

definition sample_env :: vessel_env where
  "sample_env = \<lparr>ve_cache = \<lparr>c_vessels = [], c_cells = []\<rparr>, ve_stored = True, ve_find = mirror_rows sample_record,
     ve_positions = (\<lambda>q. mirror_positions q sample_record), ve_get = (\<lambda>_. Inr None),
     ve_imos = \<lparr>is_dirty = [], is_flushing = [], is_cache = \<lparr>c_vessels = [], c_cells = []\<rparr>, is_filed = None\<rparr>\<rparr>"


definition sample_follow :: v1_sub where
  "sample_follow = \<lparr>s_everything = False, s_boxes = [], s_mmsi = [257000001], s_imo = None, s_joined = [], s_cut = False\<rparr>"

lemma sample_answer: "\<exists>ans. vessels_for sample_env sample_follow sample_rules hour = Inr ans \<and> \<not> va_truncated ans"
proof -
  have "\<not> deep_request sample_rules sample_follow" by (simp add: deep_request_def sample_rules_def sample_follow_def)
  moreover obtain rs where "record_vessels sample_env sample_follow sample_rules False hour = Inr (rs, False)"
    by (simp add: record_vessels_def sample_follow_def sample_rules_def age_rule_def sample_env_def any_record_def
        within_bounds_def max_params_def max_boxes_def mirror_rows_def mirror_find_def find_failed_or_def Let_def)
  ultimately show ?thesis
    by (simp add: vessels_for_def Let_def split: prod.split) (simp add: sample_env_def sample_follow_def)
qed

lemma sample_row:
  "mirror_row sample_record 257000001 = Some (new_vessel\<lparr>v_has_pos := True, v_lat := 60, v_lon := 5, v_seen := hour\<rparr>)"
  by (simp add: mirror_row_def sample_record_def file_rows_def file_row_def empty_mirror_def unfile_def Let_def map_of_put
      state_of_def new_vessel_def)

lemma vessels_answer_exact_witness:
  "\<exists>ans. vessels_for sample_env sample_follow sample_rules hour = Inr ans \<and> 257000001 \<in> fst ` set (va_features ans)"
proof -
  obtain ans where a: "vessels_for sample_env sample_follow sample_rules hour = Inr ans" "\<not> va_truncated ans"
    using sample_answer by blast
  have "mirror_reach sample_record" unfolding sample_record_def by (rule mirror_reach.loaded)
  moreover have "ve_find sample_env = mirror_rows sample_record" "fleet_ok (ve_cache sample_env)" "distinct (s_mmsi sample_follow)"
    using empty_cache_ok by (simp_all add: sample_env_def sample_follow_def fleet_ok_def)
  moreover have "answers_vessel sample_env sample_follow sample_rules hour (mirror_row sample_record) 257000001"
    by (simp add: answers_vessel_def placed_def cached_def sample_env_def sample_row row_answers_def sample_follow_def
        sample_rules_def heard_from_def since_def unix_ms_def zero_time_def no_filter_def filter_match_def)
  ultimately show ?thesis using vessels_answer_exact [OF _ _ _ _ a(1), of sample_record 257000001] a by blast
qed


section \<open>Search answers\<close>

definition hit_key :: "search_hit \<Rightarrow> bool \<times> real \<times> int" where
  "hit_key h = (\<not> h_by_imo h, h_dist h, - v_seen (h_vessel h))"

lemma hit_before_key: "hit_before a b \<longleftrightarrow> hit_key a < hit_key b"
  by (auto simp: hit_before_def hit_key_def)

lemma sort_hits_key: "sort_hits hs = sort_key hit_key hs"
proof -
  have "insert_hit a bs = insort_key hit_key a bs" for a bs
    by (induction bs) (auto simp: hit_before_key not_less)
  then have "insert_hit = insort_key hit_key" by (intro ext)
  then show ?thesis by (simp add: sort_hits_def sort_key_def)
qed

text \<open>A vessel is a hit once, by its newest state, which passes the filter.\<close>

definition hit_of_row :: "vessel_env \<Rightarrow> vessel_filter \<Rightarrow> (real \<times> real) option \<Rightarrow> time \<Rightarrow> search_hit \<Rightarrow> mmsi \<times> vessel \<Rightarrow> bool" where
  "hit_of_row env vf around now h r \<longleftrightarrow>
     h_mmsi h = fst r \<and> h_vessel h = fst (newest_state env r) \<and> filter_match vf (h_vessel h) now \<and>
     h_dist h = (case around of None \<Rightarrow> 0 | Some (a, b) \<Rightarrow> nm a b (v_lat (h_vessel h)) (v_lon (h_vessel h)))"

lemma hits_from_once:
  "distinct (map h_mmsi (hits_from env vf around now taken rs)) \<and>
   h_mmsi ` set (hits_from env vf around now taken rs) \<inter> set taken = {} \<and>
   (\<forall>h \<in> set (hits_from env vf around now taken rs). \<exists>r \<in> set rs. h_by_imo h = fst r \<and> hit_of_row env vf around now h (snd r))"
proof (induction env vf around now taken rs rule: hits_from.induct)
  case (2 env vf around now taken by_imo r rs)
  show ?case
  proof (cases "fst r \<in> set taken")
    case True
    then show ?thesis using 2(1) by auto
  next
    case False
    define v where "v = fst (newest_state env r)"
    define h where "h = \<lparr>h_mmsi = fst r, h_vessel = v, h_by_imo = by_imo,
        h_dist = (case around of None \<Rightarrow> 0 | Some (a, b) \<Rightarrow> nm a b (v_lat v) (v_lon v))\<rparr>"
    have e: "hits_from env vf around now taken ((by_imo, r) # rs) =
        (if filter_match vf v now then [h] else []) @ hits_from env vf around now (fst r # taken) rs"
      using False by (simp add: Let_def v_def [symmetric] h_def)
    have h: "h_mmsi h = fst r" "h_by_imo h = by_imo" "filter_match vf v now \<Longrightarrow> hit_of_row env vf around now h r"
      by (simp_all add: h_def hit_of_row_def v_def [symmetric] split: option.split)
    show ?thesis using 2(2) [OF False v_def] False h unfolding e by auto
  qed
qed simp

lemma hits_from_all:
  "(b, r) \<in> set rs \<Longrightarrow> fst r \<notin> set taken \<Longrightarrow>
     (\<exists>h \<in> set (hits_from env vf around now taken rs). h_mmsi h = fst r) \<or>
     (\<exists>q \<in> snd ` set rs. fst q = fst r \<and> \<not> filter_match vf (fst (newest_state env q)) now)"
proof (induction env vf around now taken rs rule: hits_from.induct)
  case (2 env vf around now taken by_imo q rs)
  then show ?case by (cases "fst q = fst r") (auto simp: Let_def)
qed simp

lemma search_for_hits:
  assumes "search_for near env s q vf around n explicit now = Inr ans"
  shows "\<exists>rs. sa_hits ans = take search_limit (sort_key hit_key (hits_from env vf around now [] rs)) \<and>
    (explicit \<longrightarrow> (\<forall>r \<in> set rs. fst r)) \<and>
    (length (hits_from env vf around now [] rs) > search_limit \<longrightarrow> sa_truncated ans)"
proof -
  obtain xs cut0 where x: "imo_found env q n = Inr (xs, cut0)"
    using assms by (auto simp: search_for_def split: sum.splits find_error.splits)
  obtain ys where y: "(if explicit then Inr [] else case around of None \<Rightarrow> ve_find env q | Some a \<Rightarrow> nearest_found env q a) = Inr ys"
    using assms x by (auto simp: search_for_def split: sum.splits find_error.splits)
  let ?rs = "map (Pair True) xs @ map (Pair False) ys"
  have "sa_hits ans = take search_limit (sort_key hit_key (hits_from env vf around now [] ?rs)) \<and>
    (length (hits_from env vf around now [] ?rs) > search_limit \<longrightarrow> sa_truncated ans)"
    using assms unfolding search_for_def x y sort_hits_key by (auto simp: Let_def)
  moreover have "explicit \<longrightarrow> (\<forall>r \<in> set ?rs. fst r)" using y by auto
  ultimately show ?thesis by blast
qed

text \<open>
  A search answers at most \<open>searchLimit\<close> vessels, each once and in its newest state, all passing the request's
  filters though the cache is ahead of the record, with those an IMO named before the rest, then the nearest first,
  then the last heard first; a query that names an IMO answers nothing else.
\<close>

theorem search_answer_ranked:
  assumes "search_for near env s q vf around n explicit now = Inr ans"
  shows "length (sa_hits ans) \<le> 50 \<and> distinct (map h_mmsi (sa_hits ans)) \<and>
    sorted_wrt (\<lambda>a b. \<not> hit_before b a) (sa_hits ans) \<and>
    (\<forall>h \<in> set (sa_hits ans). (\<exists>rv. hit_of_row env vf around now h (h_mmsi h, rv)) \<and> (explicit \<longrightarrow> h_by_imo h))"
proof -
  obtain rs where h: "sa_hits ans = take search_limit (sort_key hit_key (hits_from env vf around now [] rs))"
    "explicit \<longrightarrow> (\<forall>r \<in> set rs. fst r)" using search_for_hits [OF assms] by blast
  note once = hits_from_once [of env vf around now "[]" rs]
  have "mset (map h_mmsi (sort_key hit_key (hits_from env vf around now [] rs))) =
      mset (map h_mmsi (hits_from env vf around now [] rs))" by simp
  then have "distinct (map h_mmsi (sort_key hit_key (hits_from env vf around now [] rs)))"
    using once mset_eq_imp_distinct_iff by blast
  then have "distinct (map h_mmsi (sa_hits ans))" unfolding h(1) by (simp add: take_map [symmetric])
  moreover have "sorted (map hit_key (sa_hits ans))" unfolding h(1) by (simp add: take_map [symmetric])
  then have "sorted_wrt (\<lambda>a b. \<not> hit_before b a) (sa_hits ans)" by (simp add: sorted_map hit_before_key not_less)
  moreover have "set (sa_hits ans) \<subseteq> set (hits_from env vf around now [] rs)"
    unfolding h(1) using set_take_subset by fastforce
  then have "\<forall>x \<in> set (sa_hits ans). (\<exists>rv. hit_of_row env vf around now x (h_mmsi x, rv)) \<and> (explicit \<longrightarrow> h_by_imo x)"
    using once h(2) by (fastforce simp: hit_of_row_def)
  ultimately show ?thesis using h(1) by (simp add: search_limit_def)
qed


definition sample_search :: record_query where
  "sample_search = search_query sample_follow ''ANNA'' no_filter (0, False) hour"

lemma sample_search_answer:
  "\<exists>ans. search_for (\<lambda>_ _. []) sample_env sample_follow sample_search no_filter None 0 False hour = Inr ans"
  by (simp add: search_for_def imo_found_def sample_env_def mirror_rows_def mirror_find_def find_failed_or_def sample_search_def
      search_query_def any_record_def within_bounds_def sample_follow_def max_params_def max_boxes_def Let_def)

lemma search_answer_ranked_witness:
  "\<exists>ans. search_for (\<lambda>_ _. []) sample_env sample_follow sample_search no_filter None 0 False hour = Inr ans \<and>
     length (sa_hits ans) \<le> 50 \<and> distinct (map h_mmsi (sa_hits ans))"
  using sample_search_answer search_answer_ranked by blast

end
