(* ===== verification/Registers.thy ===== *)
theory Registers
  imports Imo "HOL-Library.Sublist"
begin

text \<open>
  The vessel registers of the United States, Norway, Canada and Australia: \<open>server/uscg.go\<close>, \<open>fiskeridir.go\<close>,
  \<open>fcc.go\<close>, \<open>ised.go\<close>, \<open>tc.go\<close> and \<open>amsa.go\<close>. Which listed vessel a vessel heard by AIS is, what a source's row
  says, and when a read register replaces the stored one. \<open>upper\<close> is \<open>strings.ToUpper\<close> and \<open>parse\<close> is
  \<open>strconv.ParseFloat\<close>; a stored table is its rows, and \<open>None\<close> where reading it fails.
\<close>

declare map_of_eq_Some_iff [simp del]

section \<open>Call signs and names\<close>

definition is_upper_char :: "char \<Rightarrow> bool" where
  "is_upper_char c \<longleftrightarrow> CHR ''A'' \<le> c \<and> c \<le> CHR ''Z''"

definition upper_alnum :: "char \<Rightarrow> bool" where
  "upper_alnum c \<longleftrightarrow> is_upper_char c \<or> is_digit c"

definition psix_junk_call_signs :: "string list" where
  "psix_junk_call_signs = [''NONE'', ''NA'', ''UNKNOWN'', ''TBA'', ''TBD'', ''NIL'']"

definition norm_call_sign :: "(string \<Rightarrow> string) \<Rightarrow> string \<Rightarrow> string" where
  "norm_call_sign upper s0 =
     (let s = upper (trim_space s0) in
      if length s < 4 \<or> length s > 7 \<or> s \<in> set psix_junk_call_signs \<or> hd s \<notin> set ''AKNW'' then []
      else if \<not> list_all upper_alnum s then []
      else s)"

definition norm_call_sign_no :: "(string \<Rightarrow> string) \<Rightarrow> string \<Rightarrow> string" where
  "norm_call_sign_no upper s0 =
     (let s = upper (trim_space s0) in
      if length s < 4 \<or> length s > 7 then []
      else if \<not> list_all upper_alnum s then []
      else if s ! 0 = CHR ''L'' \<and> CHR ''A'' \<le> s ! 1 \<and> s ! 1 \<le> CHR ''N'' \<or> has_prefix s ''JW'' \<or> has_prefix s ''JX'' \<or> has_prefix s ''3Y''
      then s else [])"

text \<open>
  \<open>vesselNamePrefix\<close>: one of these words and the spaces after it, at the start. No word holds a space, so the
  word is what stands before the first.
\<close>

definition name_prefix_words :: "string list" where
  "name_prefix_words = [''FV'', ''F/V'', ''MV'', ''M/V'', ''RV'', ''R/V'', ''MY'', ''M/Y'', ''SV'', ''S/V'',
     ''USCGC'', ''CG'', ''USNS'', ''USS'', ''NOAA'', ''DREDGE'', ''TUG'']"

definition strip_name_prefix :: "string \<Rightarrow> string" where
  "strip_name_prefix s =
     (let word = takeWhile (\<lambda>c. \<not> re_space c) s; rest = dropWhile (\<lambda>c. \<not> re_space c) s in
      if word \<in> set name_prefix_words \<and> rest \<noteq> [] then dropWhile re_space rest else s)"

definition vessel_name_key :: "(string \<Rightarrow> string) \<Rightarrow> string \<Rightarrow> string" where
  "vessel_name_key upper s0 =
     (let s = strip_name_prefix (upper (trim_space s0));
          before = takeWhile (\<lambda>c. c \<noteq> CHR ''('') s;
          s1 = (if CHR ''('' \<in> set s \<and> before \<noteq> [] then before else s)
      in filter upper_alnum s1)"

section \<open>The longest common subsequence\<close>

text \<open>\<open>prev\<close> and \<open>cur\<close> are swapped after each row; a row overwrites all of \<open>cur\<close> but its first entry.\<close>

definition lcs_cell :: "string \<Rightarrow> string \<Rightarrow> nat \<Rightarrow> nat list \<Rightarrow> nat \<Rightarrow> nat list \<Rightarrow> nat list" where
  "lcs_cell a b i prev j cur =
     cur[Suc j := (if a ! i = b ! j then prev ! j + 1 else max (cur ! j) (prev ! Suc j))]"

definition lcs_row :: "string \<Rightarrow> string \<Rightarrow> nat \<Rightarrow> nat list \<times> nat list \<Rightarrow> nat list \<times> nat list" where
  "lcs_row a b i st =
     (case st of (prev, cur) \<Rightarrow> (fold (lcs_cell a b i prev) [0..<length b] cur, prev))"

definition lcs :: "string \<Rightarrow> string \<Rightarrow> nat" where
  "lcs a b =
     (let zeros = replicate (length b + 1) 0
      in fst (fold (lcs_row a b) [0..<length a] (zeros, zeros)) ! length b)"

definition names_agree :: "(string \<Rightarrow> string) \<Rightarrow> string \<Rightarrow> string \<Rightarrow> bool" where
  "names_agree upper a0 b0 =
     (let a = vessel_name_key upper a0; b = vessel_name_key upper b0 in
      if a = [] \<or> b = [] then False
      else if has_prefix a b \<or> has_prefix b a then True
      else if min (length a) (length b) \<ge> 5 \<and> (contains_str a b \<or> contains_str b a) then True
      else 20 * lcs a b \<ge> 8 * (length a + length b))"

section \<open>The Coast Guard's vessels\<close>

record uscg_vessel =
  ug_id :: int
  ug_name :: string
  ug_identification :: string
  ug_service :: string
  ug_status :: string
  ug_year_built :: int
  ug_length :: real
  ug_beam :: real
  ug_depth :: real
  ug_gross :: int
  ug_net :: int
  ug_measure :: string
  ug_callsign :: string
  ug_official_key :: string
  ug_details_at :: int

text \<open>An active record over others, then the newest.\<close>

definition uscg_better :: "uscg_vessel \<Rightarrow> uscg_vessel option \<Rightarrow> uscg_vessel option" where
  "uscg_better c best =
     (case best of
        None \<Rightarrow> Some c
      | Some b \<Rightarrow>
          (let active = (ug_status c = ''Active''); best_active = (ug_status b = ''Active'') in
           if active \<noteq> best_active then (if active then Some c else Some b)
           else if ug_id c > ug_id b then Some c else Some b))"

definition uscg_pick :: "(string \<Rightarrow> string) \<Rightarrow> string \<Rightarrow> uscg_vessel list \<Rightarrow> uscg_vessel option" where
  "uscg_pick upper name cands =
     fold (\<lambda>c best. if \<not> names_agree upper name (ug_name c) then best else uscg_better c best) cands None"

definition uscg_newest :: "uscg_vessel list \<Rightarrow> uscg_vessel option" where
  "uscg_newest cands = fold uscg_better cands None"

definition uscg_choose :: "(string \<Rightarrow> string) \<Rightarrow> string \<Rightarrow> uscg_vessel option \<Rightarrow> uscg_vessel option \<Rightarrow> uscg_vessel option" where
  "uscg_choose upper name from_id0 fuzzy =
     (let from_id = (case from_id0 of
            Some v \<Rightarrow> if fuzzy = None \<and> ug_callsign v = [] \<and> \<not> names_agree upper name (ug_name v) then None else Some v
          | None \<Rightarrow> None)
      in case from_id of
           None \<Rightarrow> fuzzy
         | Some v \<Rightarrow>
             (case fuzzy of
                None \<Rightarrow> Some v
              | Some f \<Rightarrow> if ug_id f = ug_id v \<or> names_agree upper name (ug_name v) then Some v else fuzzy))"

text \<open>The rows a lookup by key reads, and the list it files under one key.\<close>

definition rows_in :: "('v \<Rightarrow> 'k) \<Rightarrow> 'k list \<Rightarrow> 'v list \<Rightarrow> 'v list" where
  "rows_in key ks rows = filter (\<lambda>v. key v \<in> set ks) rows"

definition rows_for :: "('v \<Rightarrow> 'k) \<Rightarrow> 'v list \<Rightarrow> 'k \<Rightarrow> 'v list" where
  "rows_for key rows k = filter (\<lambda>v. key v = k) rows"

definition uscg_by_call_sign :: "uscg_vessel list \<Rightarrow> string list \<Rightarrow> uscg_vessel list" where
  "uscg_by_call_sign table cs = rows_in ug_callsign cs table"

definition uscg_by_identification :: "uscg_vessel list \<Rightarrow> string list \<Rightarrow> uscg_vessel list" where
  "uscg_by_identification table ids = rows_in ug_official_key ids (filter (\<lambda>v. ug_official_key v \<noteq> []) table)"

record uscg_key =
  uk_mmsi :: mmsi
  uk_callsign :: string
  uk_name :: string
  uk_official :: string

definition us_keys :: "uscg_key list \<Rightarrow> uscg_key list" where
  "us_keys keys = filter (\<lambda>k. flag_of (uk_mmsi k) = ''US'') keys"

definition key_call_signs :: "(string \<Rightarrow> string) \<Rightarrow> uscg_key list \<Rightarrow> (mmsi \<times> string) list" where
  "key_call_signs upper keys =
     fold (\<lambda>k m. let cs = norm_call_sign upper (uk_callsign k) in if cs \<noteq> [] then put (uk_mmsi k) cs m else m) (us_keys keys) []"

definition key_officials :: "uscg_key list \<Rightarrow> (mmsi \<times> string) list" where
  "key_officials keys = fold (\<lambda>k m. if uk_official k \<noteq> [] then put (uk_mmsi k) (uk_official k) m else m) (us_keys keys) []"

text \<open>\<open>uscgOf\<close>; \<open>None\<close> for the table is no store or a failed read, which costs the particulars only.\<close>

definition uscg_of :: "(string \<Rightarrow> string) \<Rightarrow> uscg_vessel list option \<Rightarrow> uscg_key list \<Rightarrow> (mmsi \<times> uscg_vessel) list" where
  "uscg_of upper stored keys =
     (case stored of
        None \<Rightarrow> []
      | Some table \<Rightarrow>
          (let callsign = key_call_signs upper keys; official = key_officials keys in
           if callsign = [] \<and> official = [] then []
           else let by_cs = uscg_by_call_sign table (filter (\<lambda>c. c \<noteq> []) (map (norm_call_sign upper \<circ> uk_callsign) (us_keys keys)));
                    by_id = uscg_by_identification table (filter (\<lambda>o'. o' \<noteq> []) (map uk_official (us_keys keys)))
                in fold (\<lambda>k out.
                     let from_id = (case map_of official (uk_mmsi k) of
                           None \<Rightarrow> None | Some o' \<Rightarrow> uscg_newest (rows_for ug_official_key by_id o'));
                         fuzzy = (case map_of callsign (uk_mmsi k) of
                           None \<Rightarrow> None | Some cs \<Rightarrow> uscg_pick upper (uk_name k) (rows_for ug_callsign by_cs cs))
                     in case uscg_choose upper (uk_name k) from_id fuzzy of
                          None \<Rightarrow> out
                        | Some v \<Rightarrow> put (uk_mmsi k) v out) keys []))"

section \<open>Measurements\<close>

text \<open>What \<open>ParseFloat\<close> reads: text may name a NaN or an infinity, which is not a measurement.\<close>

datatype parsed = NotANumber | PlusInf | MinusInf | Finite real

text \<open>\<open>feetToMetres\<close>: what is not above zero, or not a number to begin with, is 0.\<close>

definition feet_to_metres :: "(string \<Rightarrow> parsed option) \<Rightarrow> string \<Rightarrow> parsed" where
  "feet_to_metres parse s =
     (case parse (trim_space s) of
        None \<Rightarrow> Finite 0
      | Some (Finite f) \<Rightarrow> if f \<le> 0 then Finite 0 else Finite (real_of_int (go_round (f * 0.3048 * 100)) / 100)
      | Some MinusInf \<Rightarrow> Finite 0
      | Some x \<Rightarrow> x)"

definition above_zero :: "parsed \<Rightarrow> bool" where
  "above_zero x = (case x of Finite f \<Rightarrow> f > 0 | PlusInf \<Rightarrow> True | _ \<Rightarrow> False)"

record psix_dimension =
  pd_type :: string
  pd_length :: string
  pd_breadth :: string
  pd_depth :: string

record psix_tonnage =
  pt_weight :: string
  pt_type :: string
  pt_unit :: string

definition psix_dimension_rank :: "(string \<times> nat) list" where
  "psix_dimension_rank = [(''Convention'', 1), (''Hull(Overall) Formal'', 2), (''Hull(Overall) Simplified'', 3), (''Pre-1990/Other'', 4)]"

definition psix_tonnage_rank :: "(string \<times> nat) list" where
  "psix_tonnage_rank = [(''Convention'', 1), (''Regulatory'', 2), (''Simplified'', 3)]"

text \<open>The rank of the hull measurement taken so far, with the length, the beam and the depth.\<close>

type_synonym hull_state = "nat \<times> parsed \<times> parsed \<times> parsed"

definition take_dimension :: "(string \<Rightarrow> parsed option) \<Rightarrow> psix_dimension \<Rightarrow> hull_state \<Rightarrow> hull_state" where
  "take_dimension parse d st =
     (case st of (taken, len0, beam, depth) \<Rightarrow>
        let len = (if pd_type d = ''Length'' then feet_to_metres parse (pd_length d) else len0);
            r = get_or 0 psix_dimension_rank (pd_type d)
        in if r > 0 \<and> above_zero (feet_to_metres parse (pd_breadth d)) \<and> (taken = 0 \<or> r < taken)
           then (r, if len = Finite 0 then feet_to_metres parse (pd_length d) else len,
                 feet_to_metres parse (pd_breadth d), feet_to_metres parse (pd_depth d))
           else (taken, len, beam, depth))"

definition read_dimensions :: "(string \<Rightarrow> parsed option) \<Rightarrow> psix_dimension list \<Rightarrow> hull_state" where
  "read_dimensions parse ds = fold (take_dimension parse) ds (0, Finite 0, Finite 0, Finite 0)"

text \<open>The system's rank, the gross and the net tonnage, and the system's name. \<open>number_of\<close> is \<open>strconv.Atoi\<close>.\<close>

type_synonym tonnage_state = "nat \<times> int \<times> int \<times> string"

definition tonnage_system :: "string \<Rightarrow> string" where
  "tonnage_system s =
     (let t = trim_space s in
      case filter (\<lambda>i. has_prefix (drop i t) '' ('') [0..<length t] of [] \<Rightarrow> t | i # _ \<Rightarrow> take i t)"

definition take_tonnage :: "(string \<Rightarrow> int option) \<Rightarrow> psix_tonnage \<Rightarrow> tonnage_state \<Rightarrow> tonnage_state" where
  "take_tonnage number_of t st =
     (case st of (measured, gross0, net0, name) \<Rightarrow>
        let system = tonnage_system (pt_type t); r = get_or 0 psix_tonnage_rank system in
        case number_of (trim_space (pt_weight t)) of
          None \<Rightarrow> st
        | Some n \<Rightarrow>
            if r = 0 \<or> n \<le> 0 \<or> measured \<noteq> 0 \<and> r > measured then st
            else let gross = (if r < measured then 0 else gross0); net = (if r < measured then 0 else net0);
                     unit0 = trim_space (pt_unit t)
                 in (r, if unit0 = ''64'' then n else gross, if unit0 = ''111'' then n else net, system))"

definition read_tonnage :: "(string \<Rightarrow> int option) \<Rightarrow> psix_tonnage list \<Rightarrow> tonnage_state" where
  "read_tonnage number_of ts = fold (take_tonnage number_of) ts (0, 0, 0, [])"

section \<open>Official numbers, years and figures\<close>

definition norm_official :: "(string \<Rightarrow> string) \<Rightarrow> string \<Rightarrow> string" where
  "norm_official upper s =
     (let v = filter upper_alnum (upper s) in
      if length v < 5 \<or> \<not> list_ex (\<lambda>c. c \<in> set ''123456789'') v \<or> contains_str v ''PROCESS'' then [] else v)"

text \<open>\<open>year\<close> is the current one.\<close>

definition tc_year :: "(string \<Rightarrow> parsed option) \<Rightarrow> int \<Rightarrow> string \<Rightarrow> int" where
  "tc_year parse year s =
     (case parse (trim_space s) of
        Some (Finite f) \<Rightarrow>
          if f < 0 \<or> f > 10000000 then 0
          else let y0 = go_round f; y = (if y0 \<ge> 100000 then y0 div 100 else y0)
               in if y < 1800 \<or> y > year + 1 then 0 else y
      | _ \<Rightarrow> 0)"

definition tc_float :: "(string \<Rightarrow> parsed option) \<Rightarrow> string \<Rightarrow> real" where
  "tc_float parse s =
     (case parse (trim_space s) of
        Some (Finite f) \<Rightarrow> if f \<le> 0 \<or> f > 10000000 then 0 else f
      | _ \<Rightarrow> 0)"

definition tc_official :: "(string \<Rightarrow> parsed option) \<Rightarrow> string \<Rightarrow> string" where
  "tc_official parse s0 =
     (let s = trim_space s0 in
      case parse s of
        Some (Finite f) \<Rightarrow> if f = real_of_int \<lfloor>f\<rfloor> \<and> 0 \<le> f \<and> f < 1000000000000 then dec (nat \<lfloor>f\<rfloor>) else s
      | _ \<Rightarrow> s)"

definition amsa_official :: "(string \<Rightarrow> parsed option) \<Rightarrow> string \<Rightarrow> string" where
  "amsa_official parse s0 =
     (let s = trim_space s0 in if list_all is_digit s then s else tc_official parse s)"

definition amsa_year :: "(string \<Rightarrow> parsed option) \<Rightarrow> int \<Rightarrow> string \<Rightarrow> int" where
  "amsa_year parse year s =
     (case parse (trim_space s) of
        Some (Finite f) \<Rightarrow> if f \<noteq> real_of_int \<lfloor>f\<rfloor> \<or> f < 1800 \<or> f > real_of_int (year + 1) then 0 else \<lfloor>f\<rfloor>
      | _ \<Rightarrow> 0)"

section \<open>Spreadsheets\<close>

text \<open>A row is its cells by column letter. \<open>lower\<close> is \<open>strings.ToLower\<close>; the letters are read in order.\<close>

type_synonym sheet_row = "(string \<times> string) list"

definition blank_cells :: "sheet_row \<Rightarrow> bool" where
  "blank_cells row \<longleftrightarrow> list_all (\<lambda>(k, v). trim_space v = []) row"

fun byte_less :: "string \<Rightarrow> string \<Rightarrow> bool" where
  "byte_less s [] = False"
| "byte_less [] (d # t) = True"
| "byte_less (c # s) (d # t) = (if c = d then byte_less s t else c < d)"

fun insert_bytes :: "string \<Rightarrow> string list \<Rightarrow> string list" where
  "insert_bytes x [] = [x]"
| "insert_bytes x (y # ys) = (if byte_less y x then y # insert_bytes x ys else x # y # ys)"

definition xlsx_columns :: "(string \<Rightarrow> string) \<Rightarrow> sheet_row \<Rightarrow> (string \<times> string) list" where
  "xlsx_columns lower header =
     fold (\<lambda>letter col. let name = lower (trim_space (get_or [] header letter)) in
             if get_or [] col name = [] then put name letter col else col)
       (foldr insert_bytes (map fst header) []) []"

definition column_of :: "(string \<times> string) list \<Rightarrow> sheet_row \<Rightarrow> string \<Rightarrow> string" where
  "column_of col row name = (if get_or [] col name = [] then [] else trim_space (get_or [] row (get_or [] col name)))"

text \<open>\<open>validIMO\<close>: the first six digits weighted 7 down to 2, against the seventh.\<close>

function imo_check_sum :: "32 word \<Rightarrow> 32 word \<Rightarrow> 32 word \<Rightarrow> 32 word" where
  "imo_check_sum d w acc = (if 7 < w then acc else imo_check_sum (d div 10) (w + 1) (acc + d mod 10 * w))"
  by pat_completeness auto
termination
proof (relation "measure (\<lambda>(d, w, acc). 8 - unat w)")
  fix d w acc :: "32 word" assume "\<not> 7 < w"
  then have "unat w \<le> 7" by (simp add: word_less_nat_alt)
  then show "((d div 10, w + 1, acc + d mod 10 * w), d, w, acc) \<in> measure (\<lambda>(d, w, acc). 8 - unat w)"
    by (simp add: unat_word_ariths)
qed simp

declare imo_check_sum.simps [simp del]

definition valid_imo :: "imo \<Rightarrow> bool" where
  "valid_imo n \<longleftrightarrow> \<not> (n < 1000000 \<or> n > 9999999) \<and> imo_check_sum (n div 10) 2 0 mod 10 = n mod 10"

section \<open>What a read keeps\<close>

subsection \<open>The Coast Guard's listing\<close>

record psix_summary =
  ps_id :: int
  ps_name :: string
  ps_callsign :: string
  ps_service :: string
  ps_year :: string
  ps_status :: string
  ps_identification :: string

definition psix_services :: "string list" where
  "psix_services = [''Commercial Fishing Vessel'', ''Fish Processing Vessel'', ''Freight Barge'', ''Freight Ship'',
     ''Industrial Vessel'', ''Mobile Offshore Drilling Unit'', ''Offshore Supply Vessel'', ''Oil Recovery'', ''Passenger (Inspected)'',
     ''Passenger (Uninspected)'', ''Passenger Barge (Inspected)'', ''Passenger Barge (Uninspected)'', ''Public Freight'',
     ''Public Tankship/Barge'', ''Public Vessel, Unclassified'', ''Research Vessel'', ''School Ship'', ''Tank Barge'', ''Tank Ship'',
     ''Towing Vessel'', ''Unclassified'', ''Unknown'']"

definition psix_first_year :: nat where "psix_first_year = 1800"

text \<open>A row is kept under its ID; \<open>number_of\<close> is \<open>strconv.Atoi\<close>.\<close>

definition keep_summary ::
  "(string \<Rightarrow> string) \<Rightarrow> (string \<Rightarrow> int option) \<Rightarrow> string list \<Rightarrow> psix_summary \<Rightarrow> (int \<times> uscg_vessel) list \<Rightarrow> (int \<times> uscg_vessel) list" where
  "keep_summary upper number_of licensed r out =
     (let cs = norm_call_sign upper (ps_callsign r); name = trim_space (ps_name r);
          ident = trim_space (ps_identification r); key = norm_official upper ident
      in if ps_id r = 0 \<or> cs = [] \<and> key \<notin> set licensed \<or> has_prefix name ''DUPLICATE OF'' then out
         else put (ps_id r)
           \<lparr>ug_id = ps_id r, ug_name = name, ug_identification = ident, ug_service = trim_space (ps_service r),
            ug_status = trim_space (ps_status r),
            ug_year_built = (case number_of (trim_space (ps_year r)) of Some n \<Rightarrow> n | None \<Rightarrow> 0),
            ug_length = 0, ug_beam = 0, ug_depth = 0, ug_gross = 0, ug_net = 0, ug_measure = [], ug_callsign = cs,
            ug_official_key = key, ug_details_at = 0\<rparr> out)"

text \<open>
  The asks in turn: a service whole, \<open>None\<close>, or one build year of it. A whole listing the service cannot build is asked
  for again by the year.
\<close>

type_synonym ask = "string \<times> nat option"

function list_psix ::
  "(ask \<Rightarrow> string + psix_summary list) \<Rightarrow> (psix_summary \<Rightarrow> (int \<times> uscg_vessel) list \<Rightarrow> (int \<times> uscg_vessel) list) \<Rightarrow>
   nat list \<Rightarrow> ask list \<Rightarrow> (int \<times> uscg_vessel) list \<Rightarrow> string + (int \<times> uscg_vessel) list" where
  "list_psix listing keep years [] out = Inr out"
| "list_psix listing keep years (a # asks) out =
     (case listing a of
        Inl e \<Rightarrow>
          if snd a = None \<and> contains_str e ''no result''
          then list_psix listing keep years (asks @ map (\<lambda>y. (fst a, Some y)) years) out
          else Inl e
      | Inr rows \<Rightarrow> list_psix listing keep years asks (fold keep rows out))"
  by pat_completeness auto
termination
  by (relation "measure (\<lambda>(_, _, years, asks, _). sum_list (map (\<lambda>a. if snd a = None then length years + 2 else 1) asks))")
    (auto simp: comp_def sum_list_triv)

definition psix_years :: "nat \<Rightarrow> nat list" where
  "psix_years year = [psix_first_year..<year + 2]"

definition fetch_psix ::
  "(string \<Rightarrow> string) \<Rightarrow> (string \<Rightarrow> int option) \<Rightarrow> (ask \<Rightarrow> string + psix_summary list) \<Rightarrow> nat \<Rightarrow> string list \<Rightarrow>
   string + (int \<times> uscg_vessel) list" where
  "fetch_psix upper number_of listing year licensed =
     list_psix listing (keep_summary upper number_of licensed) (psix_years year)
       (map (\<lambda>s. (s, None)) psix_services @ map (\<lambda>y. (''Recreational'', Some y)) (psix_years year)) []"

subsection \<open>The Norwegian register\<close>

record fdir_vessel =
  fd_id :: string
  fd_callsign :: string
  fd_name :: string
  fd_registration :: string
  fd_year_built :: int
  fd_length :: real
  fd_beam :: real
  fd_gross :: int
  fd_owner :: string

record fdir_row =
  fr_id :: string
  fr_name :: string
  fr_mark :: string
  fr_callsign :: string
  fr_width :: real
  fr_length :: real
  fr_year :: int
  fr_tonnage :: real
  fr_tonnage_type :: string
  fr_owners :: "(string \<times> string) list"

definition fdir_max_pages :: nat where "fdir_max_pages = 2000"
definition fdir_page_rows :: nat where "fdir_page_rows = 30"

definition keep_fdir :: "(string \<Rightarrow> string) \<Rightarrow> fdir_row \<Rightarrow> (string \<times> fdir_vessel) list \<Rightarrow> (string \<times> fdir_vessel) list" where
  "keep_fdir upper r out =
     (let cs = norm_call_sign_no upper (fr_callsign r) in
      if cs = [] \<or> fr_id r = [] then out
      else put (fr_id r)
        \<lparr>fd_id = fr_id r, fd_callsign = cs, fd_name = fr_name r, fd_registration = fr_mark r, fd_year_built = fr_year r,
         fd_length = fr_length r, fd_beam = fr_width r,
         fd_gross = (if fr_tonnage_type r = ''LC'' then go_round (fr_tonnage r) else 0),
         fd_owner = (case filter (\<lambda>(kind, name). kind = ''COMPANY'' \<and> name \<noteq> []) (fr_owners r) of [] \<Rightarrow> [] | (_, n) # _ \<Rightarrow> n)\<rparr> out)"

datatype fetch_error = TooManyPages | BadPage nat string

function read_pages ::
  "(nat \<Rightarrow> string + fdir_row list) \<Rightarrow> (fdir_row \<Rightarrow> (string \<times> fdir_vessel) list \<Rightarrow> (string \<times> fdir_vessel) list) \<Rightarrow> nat \<Rightarrow>
   (string \<times> fdir_vessel) list \<Rightarrow> fetch_error + (string \<times> fdir_vessel) list" where
  "read_pages api keep page out =
     (if page > fdir_max_pages then Inl TooManyPages
      else case api page of
        Inl e \<Rightarrow> Inl (BadPage page e)
      | Inr rows \<Rightarrow>
          if rows = [] \<or> length rows < fdir_page_rows then Inr (fold keep rows out)
          else read_pages api keep (page + 1) (fold keep rows out))"
  by pat_completeness auto
termination
  by (relation "measure (\<lambda>(_, _, page, _). fdir_max_pages + 1 - page)") auto

declare read_pages.simps [simp del]

definition fetch_fiskeridir :: "(string \<Rightarrow> string) \<Rightarrow> (nat \<Rightarrow> string + fdir_row list) \<Rightarrow> fetch_error + (string \<times> fdir_vessel) list" where
  "fetch_fiskeridir upper api = read_pages api (keep_fdir upper) 1 []"

record fdir_key =
  fk_mmsi :: mmsi
  fk_callsign :: string
  fk_name :: string

definition fdir_pick :: "(string \<Rightarrow> string) \<Rightarrow> string \<Rightarrow> fdir_vessel list \<Rightarrow> fdir_vessel option" where
  "fdir_pick upper name cands =
     fold (\<lambda>c best. if names_agree upper name (fd_name c) \<and>
                       (case best of None \<Rightarrow> True | Some b \<Rightarrow> byte_less (fd_id b) (fd_id c)) then Some c else best) cands None"

definition fdir_call_signs :: "(string \<Rightarrow> string) \<Rightarrow> fdir_key list \<Rightarrow> (mmsi \<times> string) list" where
  "fdir_call_signs upper keys =
     fold (\<lambda>k m. let cs = norm_call_sign_no upper (fk_callsign k) in
             if cs \<noteq> [] \<and> flag_of (fk_mmsi k) = ''NO'' then put (fk_mmsi k) cs m else m) keys []"

definition fiskeridir_of :: "(string \<Rightarrow> string) \<Rightarrow> fdir_vessel list option \<Rightarrow> fdir_key list \<Rightarrow> (mmsi \<times> fdir_vessel) list" where
  "fiskeridir_of upper stored keys =
     (case stored of
        None \<Rightarrow> []
      | Some table \<Rightarrow>
          (let callsign = fdir_call_signs upper keys;
               usable = filter (\<lambda>k. norm_call_sign_no upper (fk_callsign k) \<noteq> [] \<and> flag_of (fk_mmsi k) = ''NO'') keys;
               by_cs = rows_in fd_callsign (map (norm_call_sign_no upper \<circ> fk_callsign) usable) table
           in if callsign = [] then []
              else fold (\<lambda>k out.
                case map_of callsign (fk_mmsi k) of
                  None \<Rightarrow> out
                | Some cs \<Rightarrow> (case fdir_pick upper (fk_name k) (rows_for fd_callsign by_cs cs) of
                    None \<Rightarrow> out | Some v \<Rightarrow> put (fk_mmsi k) v out)) keys []))"

subsection \<open>The FCC's licenses\<close>

record fcc_ship =
  fc_mmsi :: mmsi
  fc_usi :: int
  fc_callsign :: string
  fc_name :: string
  fc_official :: string

text \<open>Windows-1252 above ASCII, in UTF-8: the table holds 0x80 to 0x9F, the rest is Latin-1.\<close>

definition cp1252 :: "nat list" where
  "cp1252 = [0x20AC, 0xFFFD, 0x201A, 0x0192, 0x201E, 0x2026, 0x2020, 0x2021, 0x02C6, 0x2030, 0x0160, 0x2039, 0x0152, 0xFFFD, 0x017D, 0xFFFD,
     0xFFFD, 0x2018, 0x2019, 0x201C, 0x201D, 0x2022, 0x2013, 0x2014, 0x02DC, 0x2122, 0x0161, 0x203A, 0x0153, 0xFFFD, 0x017E, 0x0178]"

definition utf8_rune :: "nat \<Rightarrow> string" where
  "utf8_rune r =
     (if r < 0x80 then [char_of r]
      else if r < 0x800 then [char_of (0xC0 + r div 64), char_of (0x80 + r mod 64)]
      else [char_of (0xE0 + r div 4096), char_of (0x80 + r div 64 mod 64), char_of (0x80 + r mod 64)])"

definition from_cp1252 :: "string \<Rightarrow> string" where
  "from_cp1252 s =
     (if list_all (\<lambda>c. of_char c < (0x80 :: nat)) s then s
      else concat (map (\<lambda>ch. let c = of_char ch :: nat in
        if c < 0x80 then [ch] else if c < 0xA0 then utf8_rune (cp1252 ! (c - 0x80)) else utf8_rune c) s))"

text \<open>The lines of \<open>HD.dat\<close> and \<open>SH.dat\<close>, split at the bars; \<open>usi_of\<close> is \<open>strconv.ParseInt\<close> with its error dropped.\<close>

definition fcc_active :: "string list list \<Rightarrow> string list" where
  "fcc_active hd_lines = map (\<lambda>p. p ! 1) (filter (\<lambda>p. length p > 5 \<and> p ! 5 = ''A'') hd_lines)"

definition keep_fcc ::
  "(string \<Rightarrow> string) \<Rightarrow> (string \<Rightarrow> int) \<Rightarrow> string list \<Rightarrow> string list \<Rightarrow> (mmsi \<times> fcc_ship) list \<Rightarrow> (mmsi \<times> fcc_ship) list" where
  "keep_fcc upper usi_of active p out =
     (if length p < 22 \<or> p ! 1 \<notin> set active \<or> length (p ! 21) \<noteq> 9 then out
      else case parse_uint32 (p ! 21) of
        None \<Rightarrow> out
      | Some n \<Rightarrow>
          let m = of_nat n :: mmsi; usi = usi_of (p ! 1) in
          if flag_of m \<noteq> ''US'' then out
          else if (case map_of out m of Some prev \<Rightarrow> fc_usi prev > usi | None \<Rightarrow> False) then out
          else put m \<lparr>fc_mmsi = m, fc_usi = usi, fc_callsign = upper (trim_space (p ! 4)), fc_name = from_cp1252 (trim_space (p ! 9)),
                  fc_official = norm_official upper (p ! 10)\<rparr> out)"

definition fetch_fcc :: "(string \<Rightarrow> string) \<Rightarrow> (string \<Rightarrow> int) \<Rightarrow> string list list \<Rightarrow> string list list \<Rightarrow> (mmsi \<times> fcc_ship) list" where
  "fetch_fcc upper usi_of hd_lines sh_lines = fold (keep_fcc upper usi_of (fcc_active hd_lines)) sh_lines []"

definition fcc_officials :: "fcc_ship list \<Rightarrow> string list" where
  "fcc_officials table = remdups (filter (\<lambda>o'. o' \<noteq> []) (map fc_official table))"

definition fcc_of :: "fcc_ship list option \<Rightarrow> mmsi list \<Rightarrow> (mmsi \<times> fcc_ship) list" where
  "fcc_of stored ms = (case stored of None \<Rightarrow> [] | Some table \<Rightarrow> fold (\<lambda>v. put (fc_mmsi v) v) (rows_in fc_mmsi ms table) [])"

subsection \<open>The Canadian and Australian registers\<close>

record tc_vessel =
  tv_imo :: imo
  tv_official :: string
  tv_name :: string
  tv_service :: string
  tv_year_built :: int
  tv_gross :: int
  tv_net :: int
  tv_length :: real
  tv_beam :: real
  tv_depth :: real
  tv_home_port :: string

record amsa_vessel =
  av_imo :: imo
  av_official :: string
  av_name :: string
  av_ship_type :: string
  av_status :: string
  av_year_built :: int
  av_length :: real
  av_home_port :: string

definition sheet_imo :: "(string \<Rightarrow> parsed option) \<Rightarrow> string \<Rightarrow> imo option" where
  "sheet_imo parse s =
     (case parse_uint32 (tc_official parse s) of
        None \<Rightarrow> None
      | Some n \<Rightarrow> if valid_imo (of_nat n) then Some (of_nat n) else None)"

definition tc_required :: "string list" where
  "tc_required = [''official number'', ''vessel name'', ''imo vessel number'', ''year of build'', ''gross tonnage'']"

definition amsa_required :: "string list" where
  "amsa_required = [''ship name'', ''official number'', ''imo number'']"

text \<open>The rows below the header; the fault is an empty sheet, or the first required column that is missing.\<close>

definition open_sheet :: "(string \<Rightarrow> string) \<Rightarrow> string list \<Rightarrow> sheet_row list \<Rightarrow> string option + (string \<times> string) list \<times> sheet_row list" where
  "open_sheet lower required rows0 =
     (case dropWhile blank_cells rows0 of
        [] \<Rightarrow> Inl None
      | header # rows \<Rightarrow>
          (let col = xlsx_columns lower header in
           case filter (\<lambda>name. get_or [] col name = []) required of
             name # _ \<Rightarrow> Inl (Some name)
           | [] \<Rightarrow> Inr (col, rows)))"

definition keep_tc :: "(string \<Rightarrow> parsed option) \<Rightarrow> int \<Rightarrow> (string \<times> string) list \<Rightarrow> sheet_row \<Rightarrow> (imo \<times> tc_vessel) list \<Rightarrow> (imo \<times> tc_vessel) list" where
  "keep_tc parse year col row out =
     (let get = column_of col row in
      case sheet_imo parse (get ''imo vessel number'') of
        None \<Rightarrow> out
      | Some n \<Rightarrow> put n
          \<lparr>tv_imo = n, tv_official = tc_official parse (get ''official number''), tv_name = get ''vessel name'',
           tv_service = get ''vessel descriptor'', tv_year_built = tc_year parse year (get ''year of build''),
           tv_gross = go_round (tc_float parse (get ''gross tonnage'')), tv_net = go_round (tc_float parse (get ''net tonnage'')),
           tv_length = tc_float parse (get ''length''), tv_beam = tc_float parse (get ''breadth''),
           tv_depth = tc_float parse (get ''depth''), tv_home_port = get ''port of registry''\<rparr> out)"

definition fetch_tc ::
  "(string \<Rightarrow> string) \<Rightarrow> (string \<Rightarrow> parsed option) \<Rightarrow> int \<Rightarrow> sheet_row list \<Rightarrow> string option + (imo \<times> tc_vessel) list" where
  "fetch_tc lower parse year rows0 =
     (case open_sheet lower tc_required rows0 of
        Inl e \<Rightarrow> Inl e
      | Inr (col, rows) \<Rightarrow> Inr (fold (keep_tc parse year col) rows []))"

definition keep_amsa :: "(string \<Rightarrow> parsed option) \<Rightarrow> int \<Rightarrow> (string \<times> string) list \<Rightarrow> sheet_row \<Rightarrow> (imo \<times> amsa_vessel) list \<Rightarrow> (imo \<times> amsa_vessel) list" where
  "keep_amsa parse year col row out =
     (let get = column_of col row in
      case sheet_imo parse (get ''imo number'') of
        None \<Rightarrow> out
      | Some n \<Rightarrow> put n
          \<lparr>av_imo = n, av_official = amsa_official parse (get ''official number''), av_name = get ''ship name'',
           av_ship_type = get ''type'', av_status = get ''status'', av_year_built = amsa_year parse year (get ''year of completion''),
           av_length = tc_float parse (get ''length''), av_home_port = get ''home port''\<rparr> out)"

definition fetch_amsa ::
  "(string \<Rightarrow> string) \<Rightarrow> (string \<Rightarrow> parsed option) \<Rightarrow> int \<Rightarrow> sheet_row list \<Rightarrow> string option + (imo \<times> amsa_vessel) list" where
  "fetch_amsa lower parse year rows0 =
     (case open_sheet lower amsa_required rows0 of
        Inl e \<Rightarrow> Inl e
      | Inr (col, rows) \<Rightarrow> Inr (fold (keep_amsa parse year col) rows []))"

text \<open>Lookups by IMO ask only for numbers with a valid check digit.\<close>

definition tc_of :: "tc_vessel list option \<Rightarrow> imo list \<Rightarrow> (imo \<times> tc_vessel) list" where
  "tc_of stored ns = (case stored of None \<Rightarrow> [] | Some table \<Rightarrow> fold (\<lambda>v. put (tv_imo v) v) (rows_in tv_imo (filter valid_imo ns) table) [])"

definition amsa_of :: "amsa_vessel list option \<Rightarrow> imo list \<Rightarrow> (imo \<times> amsa_vessel) list" where
  "amsa_of stored ns = (case stored of None \<Rightarrow> [] | Some table \<Rightarrow> fold (\<lambda>v. put (av_imo v) v) (rows_in av_imo (filter valid_imo ns) table) [])"

subsection \<open>Canadian station licenses\<close>

record ised_ship =
  is_mmsi :: mmsi
  is_name :: string
  is_callsign :: string

definition fetch_ised :: "mmsi \<Rightarrow> (string \<times> string \<times> string) list \<Rightarrow> ised_ship" where
  "fetch_ised m records =
     (case filter (\<lambda>(mm, _, _). trim_space mm = dec (unat m)) records of
        [] \<Rightarrow> \<lparr>is_mmsi = m, is_name = [], is_callsign = []\<rparr>
      | (_, name, cs) # _ \<Rightarrow> \<lparr>is_mmsi = m, is_name = trim_space name, is_callsign = trim_space cs\<rparr>)"

text \<open>The stored answers with their times; an answer without a name is not a record.\<close>

definition set_ised :: "ised_ship \<Rightarrow> time \<Rightarrow> (mmsi \<times> ised_ship \<times> int) list \<Rightarrow> (mmsi \<times> ised_ship \<times> int) list" where
  "set_ised v t rows = put (is_mmsi v) (v, unix_milli t) rows"


definition ised_of :: "(mmsi \<times> ised_ship \<times> int) list option \<Rightarrow> mmsi list \<Rightarrow> (mmsi \<times> ised_ship) list" where
  "ised_of stored ms =
     (case stored of
        None \<Rightarrow> []
      | Some table \<Rightarrow>
          fold (\<lambda>v. put (is_mmsi v) v) (filter (\<lambda>v. is_name v \<noteq> [] \<and> is_mmsi v \<in> set ms) (map (fst \<circ> snd) table)) [])"

section \<open>Syncs\<close>

text \<open>A stored register: its rows by key, when it was last synced (in whole seconds, as its stamp is written), and its counters.\<close>

record ('k, 'v) register =
  rg_rows :: "('k \<times> 'v) list"
  rg_stamp :: "time option"
  rg_runs :: int
  rg_failures :: int
  rg_count :: int
  rg_success :: int

definition register_every :: duration where "register_every = 7 * 24 * hour"

definition stamp_of :: "time \<Rightarrow> time" where "stamp_of t = unix t * second"

datatype sync_error = Fetch | Shrunk nat nat nat

text \<open>\<open>replaceFCC\<close>, \<open>replaceTC\<close>, \<open>replaceAMSA\<close>, \<open>replaceFiskeridir\<close>: refused below \<open>least\<close> rows or half the rows stored.\<close>

definition replace_rows :: "nat \<Rightarrow> ('k \<times> 'v) list \<Rightarrow> time \<Rightarrow> ('k, 'v) register \<Rightarrow> sync_error + ('k, 'v) register" where
  "replace_rows least fetched now r =
     (if length fetched < least \<or> 2 * length fetched < length (rg_rows r)
      then Inl (Shrunk (length fetched) (length (rg_rows r)) least)
      else Inr (r\<lparr>rg_rows := fetched, rg_stamp := Some (stamp_of now)\<rparr>))"

text \<open>\<open>replaceUSCGListing\<close>: a listed vessel keeps the dimensions and tonnage already read for it.\<close>

definition with_details :: "(int \<times> uscg_vessel) list \<Rightarrow> int \<times> uscg_vessel \<Rightarrow> int \<times> uscg_vessel" where
  "with_details old r =
     (case map_of old (fst r) of
        None \<Rightarrow> r
      | Some o' \<Rightarrow> (fst r, (snd r)\<lparr>ug_length := ug_length o', ug_beam := ug_beam o', ug_depth := ug_depth o', ug_gross := ug_gross o',
          ug_net := ug_net o', ug_measure := ug_measure o', ug_details_at := ug_details_at o'\<rparr>))"

definition replace_listing ::
  "nat \<Rightarrow> (int \<times> uscg_vessel) list \<Rightarrow> time \<Rightarrow> (int, uscg_vessel) register \<Rightarrow> sync_error + (int, uscg_vessel) register" where
  "replace_listing least fetched now r =
     (if fetched = [] \<or> length fetched < least \<or> 2 * length fetched < length (rg_rows r)
      then Inl (Shrunk (length fetched) (length (rg_rows r)) least)
      else Inr (r\<lparr>rg_rows := map (with_details (rg_rows r)) fetched, rg_stamp := Some (stamp_of now)\<rparr>))"

definition week_old :: "time \<Rightarrow> time option \<Rightarrow> bool" where
  "week_old now stamp \<longleftrightarrow> (case stamp of None \<Rightarrow> True | Some t \<Rightarrow> \<not> time_sub now t < register_every)"

text \<open>One check of a register, by a source and a way to store it; the second component reports a sync that was stored.\<close>

definition sync_register ::
  "(('k \<times> 'v) list \<Rightarrow> time \<Rightarrow> ('k, 'v) register \<Rightarrow> sync_error + ('k, 'v) register) \<Rightarrow> (sync_error + ('k \<times> 'v) list) \<Rightarrow> time \<Rightarrow>
   ('k, 'v) register \<Rightarrow> ('k, 'v) register \<times> bool" where
  "sync_register store fetched now r =
     (let r1 = r\<lparr>rg_runs := rg_runs r + 1\<rparr> in
      case (case fetched of Inl e \<Rightarrow> Inl e | Inr rows \<Rightarrow> (case store rows now r1 of Inl e \<Rightarrow> Inl e | Inr r2 \<Rightarrow> Inr (rows, r2))) of
        Inl _ \<Rightarrow> (r1\<lparr>rg_failures := rg_failures r1 + 1\<rparr>, False)
      | Inr (rows, r2) \<Rightarrow> (r2\<lparr>rg_count := int (length rows), rg_success := unix now\<rparr>, True))"

definition sync_if_due ::
  "nat \<Rightarrow> (sync_error + ('k \<times> 'v) list) \<Rightarrow> time \<Rightarrow> ('k, 'v) register \<Rightarrow> ('k, 'v) register \<times> bool" where
  "sync_if_due least fetched now r =
     (if \<not> week_old now (rg_stamp r) then (r, False) else sync_register (replace_rows least) fetched now r)"

text \<open>The Coast Guard's listing is read early when the licenses are newer than it.\<close>

definition sync_uscg_if_due ::
  "nat \<Rightarrow> (sync_error + (int \<times> uscg_vessel) list) \<Rightarrow> time option \<Rightarrow> time \<Rightarrow> (int, uscg_vessel) register \<Rightarrow>
   (int, uscg_vessel) register \<times> bool" where
  "sync_uscg_if_due least fetched fcc_stamp now r =
     (if \<not> week_old now (rg_stamp r) \<and>
         (case (fcc_stamp, rg_stamp r) of (Some f, Some t) \<Rightarrow> \<not> f > t | _ \<Rightarrow> True)
      then (r, False)
      else sync_register (replace_listing least) fetched now r)"

definition psix_min_vessels :: nat where "psix_min_vessels = 50000"
definition fcc_min_ships :: nat where "fcc_min_ships = 30000"
definition fdir_min_vessels :: nat where "fdir_min_vessels = 2000"
definition tc_min_vessels :: nat where "tc_min_vessels = 500"
definition amsa_min_vessels :: nat where "amsa_min_vessels = 300"

section \<open>Reading details in rounds\<close>

text \<open>What \<open>uscgDue\<close> groups of its joined rows: a heard vessel's matches by call sign and by official number.\<close>

record heard_vessel =
  hv_name :: string
  hv_cands :: "uscg_vessel list"
  hv_from_id :: "uscg_vessel list"

definition due_step :: "(string \<Rightarrow> string) \<Rightarrow> int \<Rightarrow> heard_vessel \<Rightarrow> uscg_vessel list \<times> int list \<Rightarrow> uscg_vessel list \<times> int list" where
  "due_step upper cutoff_ms h st =
     (case uscg_choose upper (hv_name h) (uscg_newest (hv_from_id h)) (uscg_pick upper (hv_name h) (hv_cands h)) of
        None \<Rightarrow> st
      | Some v \<Rightarrow>
          if ug_id v \<notin> set (snd st) \<and> ug_details_at v < cutoff_ms then (fst st @ [v], ug_id v # snd st) else st)"

definition uscg_due :: "(string \<Rightarrow> string) \<Rightarrow> int \<Rightarrow> heard_vessel list \<Rightarrow> uscg_vessel list" where
  "uscg_due upper cutoff_ms hs = fst (fold (due_step upper cutoff_ms) hs ([], []))"

definition failures_in_a_row :: nat where "failures_in_a_row = 3"

text \<open>
  A round over what is due: \<open>read\<close> asks for one, and \<open>None\<close> is its failure; three failures in a row end the round. \<open>in_time\<close>
  tells whether the budget still runs before each ask but the first. What was read is stored with its time.
\<close>

fun read_round :: "('v \<Rightarrow> 'r option) \<Rightarrow> ('v \<Rightarrow> bool) \<Rightarrow> bool \<Rightarrow> nat \<Rightarrow> 'v list \<Rightarrow> 'r list" where
  "read_round read in_time first failed [] = []"
| "read_round read in_time first failed (v # vs) =
     (if \<not> first \<and> \<not> in_time v then []
      else case read v of
        None \<Rightarrow> if failed + 1 \<ge> failures_in_a_row then [] else read_round read in_time False (failed + 1) vs
      | Some r \<Rightarrow> r # read_round read in_time False 0 vs)"

section \<open>The table computes the longest common subsequence\<close>

definition common :: "string \<Rightarrow> string \<Rightarrow> string set" where
  "common a b = {c. subseq c a \<and> subseq c b}"

definition longest :: "string \<Rightarrow> string \<Rightarrow> nat" where
  "longest a b = Max (length ` common a b)"

lemma common_finite: "finite (length ` common a b)" and common_nonempty: "length ` common a b \<noteq> {}"
proof -
  have "common a b \<subseteq> set (subseqs a)" by (auto simp: common_def)
  then show "finite (length ` common a b)" by (metis finite_imageI finite_set finite_subset)
  have "[] \<in> common a b" by (simp add: common_def)
  then show "length ` common a b \<noteq> {}" by blast
qed

lemma longest_ge: "subseq c a \<Longrightarrow> subseq c b \<Longrightarrow> length c \<le> longest a b"
  unfolding longest_def by (rule Max_ge [OF common_finite]) (simp add: common_def)

lemma longest_attained: obtains c where "subseq c a" "subseq c b" "length c = longest a b"
  using Max_in [OF common_finite common_nonempty, of a b] by (auto simp: longest_def common_def)

lemma longest_le: "(\<And>c. subseq c a \<Longrightarrow> subseq c b \<Longrightarrow> length c \<le> n) \<Longrightarrow> longest a b \<le> n"
  by (metis longest_attained)

lemma longest_empty [simp]: "longest [] b = 0" "longest a [] = 0"
  using longest_le [of "[]" b 0] longest_le [of a "[]" 0] by auto

lemma subseq_snoc: "subseq c (xs @ [x]) \<longleftrightarrow> subseq c xs \<or> (\<exists>d. c = d @ [x] \<and> subseq d xs)"
proof
  assume "subseq c (xs @ [x])"
  then obtain us vs where "c = us @ vs" "subseq us xs" "subseq vs [x]" by (auto simp: subseq_append_iff)
  then show "subseq c xs \<or> (\<exists>d. c = d @ [x] \<and> subseq d xs)"
    by (cases vs) (auto simp: subseq_singleton_left split: if_splits)
next
  assume "subseq c xs \<or> (\<exists>d. c = d @ [x] \<and> subseq d xs)"
  then show "subseq c (xs @ [x])" by (auto intro: list_emb_append_mono)
qed

lemma longest_mono: "longest xs ys \<le> longest (xs @ us) (ys @ vs)"
  by (rule longest_le) (metis longest_ge list_emb_append2 subseq_order.order_trans subseq_rev_drop_many prefix_imp_subseq prefixI)

lemma longest_match: "longest (xs @ [x]) (ys @ [x]) = longest xs ys + 1"
proof (rule antisym)
  show "longest (xs @ [x]) (ys @ [x]) \<le> longest xs ys + 1"
  proof (rule longest_le)
    fix c assume c: "subseq c (xs @ [x])" "subseq c (ys @ [x])"
    show "length c \<le> longest xs ys + 1"
    proof (cases c rule: rev_cases)
      case (snoc d y)
      have "subseq d xs" "subseq d ys"
        using c unfolding snoc subseq_snoc by (auto dest: subseq_rev_drop_many elim: subseq_order.order_trans [rotated]
            intro: prefix_imp_subseq)
      then have "length d \<le> longest xs ys" by (rule longest_ge)
      then show ?thesis by (simp add: snoc)
    qed simp
  qed
  obtain c where c: "subseq c xs" "subseq c ys" "length c = longest xs ys" by (rule longest_attained)
  have "subseq (c @ [x]) (xs @ [x])" "subseq (c @ [x]) (ys @ [x])" using c by (auto simp: subseq_snoc)
  then have "length (c @ [x]) \<le> longest (xs @ [x]) (ys @ [x])" by (rule longest_ge)
  then show "longest xs ys + 1 \<le> longest (xs @ [x]) (ys @ [x])" using c(3) by simp
qed

lemma longest_differ:
  assumes "x \<noteq> y"
  shows "longest (xs @ [x]) (ys @ [y]) = max (longest (xs @ [x]) ys) (longest xs (ys @ [y]))"
proof (rule antisym)
  show "longest (xs @ [x]) (ys @ [y]) \<le> max (longest (xs @ [x]) ys) (longest xs (ys @ [y]))"
  proof (rule longest_le)
    fix c assume c: "subseq c (xs @ [x])" "subseq c (ys @ [y])"
    then have "subseq c xs \<or> subseq c ys" using assms unfolding subseq_snoc by auto
    then show "length c \<le> max (longest (xs @ [x]) ys) (longest xs (ys @ [y]))"
      using longest_ge c by (metis le_max_iff_disj)
  qed
  show "max (longest (xs @ [x]) ys) (longest xs (ys @ [y])) \<le> longest (xs @ [x]) (ys @ [y])"
    using longest_mono [of "xs @ [x]" ys "[]" "[y]"] longest_mono [of xs "ys @ [y]" "[x]" "[]"] by simp
qed

lemma longest_step:
  assumes "i < length a" "j < length b"
  shows "longest (take (Suc i) a) (take (Suc j) b) =
    (if a ! i = b ! j then longest (take i a) (take j b) + 1
     else max (longest (take (Suc i) a) (take j b)) (longest (take i a) (take (Suc j) b)))"
  using longest_match [of "take i a" "a ! i" "take j b"] longest_differ [of "a ! i" "b ! j" "take i a" "take j b"] assms
  by (cases "a ! i = b ! j") (simp_all add: take_Suc_conv_app_nth)

text \<open>A finished row holds the lengths for the prefixes of \<open>b\<close>.\<close>

definition row_for :: "string \<Rightarrow> string \<Rightarrow> nat \<Rightarrow> nat list \<Rightarrow> bool" where
  "row_for a b i row \<longleftrightarrow> length row = length b + 1 \<and> (\<forall>j \<le> length b. row ! j = longest (take i a) (take j b))"

lemma lcs_row_exact:
  assumes "row_for a b i prev" "length cur = length b + 1" "cur ! 0 = 0" "i < length a"
  shows "row_for a b (Suc i) (fst (lcs_row a b i (prev, cur))) \<and> snd (lcs_row a b i (prev, cur)) = prev"
proof -
  have "n \<le> length b \<Longrightarrow>
      length (fold (lcs_cell a b i prev) [0..<n] cur) = length b + 1 \<and>
      (\<forall>j \<le> n. fold (lcs_cell a b i prev) [0..<n] cur ! j = longest (take (Suc i) a) (take j b))" for n
  proof (induction n)
    case 0
    then show ?case using assms by simp
  next
    case (Suc n)
    define row where "row = fold (lcs_cell a b i prev) [0..<n] cur"
    have ih: "length row = length b + 1" "\<forall>j \<le> n. row ! j = longest (take (Suc i) a) (take j b)"
      using Suc unfolding row_def by simp_all
    have p: "prev ! n = longest (take i a) (take n b)" "prev ! Suc n = longest (take i a) (take (Suc n) b)"
      using assms(1) Suc.prems by (simp_all add: row_for_def)
    have e: "fold (lcs_cell a b i prev) [0..<Suc n] cur = lcs_cell a b i prev n row" by (simp add: row_def)
    show ?case unfolding e using ih p longest_step [OF assms(4), of n b] Suc.prems
      by (auto simp: lcs_cell_def nth_list_update le_Suc_eq)
  qed
  from this [of "length b"] show ?thesis by (simp add: lcs_row_def row_for_def)
qed

lemma lcs_rows_exact:
  assumes "n \<le> length a" and z: "zeros = replicate (length b + 1) 0"
  shows "case fold (lcs_row a b) [0..<n] (zeros, zeros) of
    (prev, cur) \<Rightarrow> row_for a b n prev \<and> length cur = length b + 1 \<and> cur ! 0 = 0"
  using assms(1)
proof (induction n)
  case 0
  then show ?case by (simp add: row_for_def z del: replicate.simps)
next
  case (Suc n)
  obtain prev cur where st: "fold (lcs_row a b) [0..<n] (zeros, zeros) = (prev, cur)"
    by fastforce
  then have ok: "row_for a b n prev" "length cur = length b + 1" "cur ! 0 = 0" using Suc by simp_all
  have "prev ! 0 = 0" "length prev = length b + 1" using ok(1) by (simp_all add: row_for_def)
  with lcs_row_exact [OF ok] Suc.prems show ?case by (cases "lcs_row a b n (prev, cur)") (simp add: st)
qed

lemma lcs_longest: "lcs a b = longest a b"
  using lcs_rows_exact [of "length a" a "replicate (length b + 1) 0" b] by (auto simp: lcs_def Let_def row_for_def split: prod.splits)

text \<open>
  The table the name check fills by rows, two at a time, holds the length of the longest common subsequence of the two
  names, for names of any length.
\<close>

theorem lcs_exact: "lcs a b = Max (length ` {c. subseq c a \<and> subseq c b})"
  using lcs_longest [of a b] by (simp add: longest_def common_def)

section \<open>Who a listed vessel is\<close>

lemma fold_put_some:
  "map_of (fold (\<lambda>k out. case f k of None \<Rightarrow> out | Some v \<Rightarrow> put (g k) v out) ks out) m = Some v \<Longrightarrow>
     map_of out m = Some v \<or> (\<exists>k \<in> set ks. g k = m \<and> f k = Some v)"
proof (induction ks arbitrary: out)
  case (Cons k ks)
  then show ?case by (cases "f k") (fastforce simp: map_of_put split: if_splits)+
qed simp

lemma better_cases: "uscg_better c best = Some v \<Longrightarrow> v = c \<or> best = Some v"
  by (auto simp: uscg_better_def Let_def split: option.splits if_splits)

lemma best_among:
  "fold (\<lambda>c best. if P c then uscg_better c best else best) cands best = Some v \<Longrightarrow> best = Some v \<or> v \<in> set cands \<and> P v"
proof (induction cands arbitrary: best)
  case (Cons c cands)
  then show ?case using better_cases [of c best v] by (fastforce split: if_splits)
qed simp

lemma uscg_newest_in: "uscg_newest cands = Some v \<Longrightarrow> v \<in> set cands"
  using best_among [of "\<lambda>_. True" cands None v] by (simp add: uscg_newest_def)

lemma uscg_pick_in: "uscg_pick upper name cands = Some v \<Longrightarrow> v \<in> set cands \<and> names_agree upper name (ug_name v)"
proof -
  have "(\<lambda>c best. if \<not> names_agree upper name (ug_name c) then best else uscg_better c best) =
      (\<lambda>c best. if names_agree upper name (ug_name c) then uscg_better c best else best)" by (intro ext) simp
  then show "uscg_pick upper name cands = Some v \<Longrightarrow> v \<in> set cands \<and> names_agree upper name (ug_name v)"
    using best_among [of "\<lambda>c. names_agree upper name (ug_name c)" cands None v] by (simp add: uscg_pick_def)
qed

lemma key_call_signs_some:
  assumes "map_of (key_call_signs upper keys) m = Some cs"
  shows "\<exists>k \<in> set keys. uk_mmsi k = m \<and> flag_of m = ''US'' \<and> cs = norm_call_sign upper (uk_callsign k) \<and> cs \<noteq> []"
proof -
  let ?f = "\<lambda>k :: uscg_key. let cs = norm_call_sign upper (uk_callsign k) in if cs \<noteq> [] then Some cs else None"
  have "(\<lambda>k m. let cs = norm_call_sign upper (uk_callsign k) in if cs \<noteq> [] then put (uk_mmsi k) cs m else m) =
      (\<lambda>k out. case ?f k of None \<Rightarrow> out | Some v \<Rightarrow> put (uk_mmsi k) v out)" by (intro ext) (simp add: Let_def)
  then have "map_of (fold (\<lambda>k out. case ?f k of None \<Rightarrow> out | Some v \<Rightarrow> put (uk_mmsi k) v out) (us_keys keys) []) m = Some cs"
    using assms by (simp add: key_call_signs_def)
  from fold_put_some [OF this] show ?thesis by (auto simp: us_keys_def Let_def split: if_splits)
qed

lemma key_officials_some:
  assumes "map_of (key_officials keys) m = Some x"
  shows "\<exists>k \<in> set keys. uk_mmsi k = m \<and> flag_of m = ''US'' \<and> x = uk_official k \<and> x \<noteq> []"
proof -
  let ?f = "\<lambda>k :: uscg_key. if uk_official k \<noteq> [] then Some (uk_official k) else None"
  have "(\<lambda>k m. if uk_official k \<noteq> [] then put (uk_mmsi k) (uk_official k) m else m) =
      (\<lambda>k out. case ?f k of None \<Rightarrow> out | Some v \<Rightarrow> put (uk_mmsi k) v out)" by (intro ext) simp
  then have "map_of (fold (\<lambda>k out. case ?f k of None \<Rightarrow> out | Some v \<Rightarrow> put (uk_mmsi k) v out) (us_keys keys) []) m = Some x"
    using assms by (simp add: key_officials_def)
  from fold_put_some [OF this] show ?thesis by (auto simp: us_keys_def split: if_splits)
qed

text \<open>
  C27. The Coast Guard's facts are served only for a vessel they are corroborated for: it flies the US flag, and either the
  official number on its FCC license is the record's, and the names agree too when the record has no call sign that could
  be a second key, or its call sign is the record's and the names agree.
\<close>

theorem us_register_corroborated:
  assumes "distinct (map ug_id table)" "distinct (map uk_mmsi keys)" "map_of (uscg_of upper (Some table) keys) m = Some v"
  shows "flag_of m = ''US'' \<and> v \<in> set table \<and> (\<exists>k \<in> set keys. uk_mmsi k = m \<and>
    (ug_official_key v = uk_official k \<and> uk_official k \<noteq> [] \<and> (ug_callsign v = [] \<longrightarrow> names_agree upper (uk_name k) (ug_name v)) \<or>
     ug_callsign v = norm_call_sign upper (uk_callsign k) \<and> ug_callsign v \<noteq> [] \<and> names_agree upper (uk_name k) (ug_name v)))"
proof -
  define by_cs where "by_cs = uscg_by_call_sign table (filter (\<lambda>c. c \<noteq> []) (map (norm_call_sign upper \<circ> uk_callsign) (us_keys keys)))"
  define by_id where "by_id = uscg_by_identification table (filter (\<lambda>o'. o' \<noteq> []) (map uk_official (us_keys keys)))"
  define from_id where "from_id k = (case map_of (key_officials keys) (uk_mmsi k) of
      None \<Rightarrow> None | Some o' \<Rightarrow> uscg_newest (rows_for ug_official_key by_id o'))" for k :: uscg_key
  define fuzzy where "fuzzy k = (case map_of (key_call_signs upper keys) (uk_mmsi k) of
      None \<Rightarrow> None | Some cs \<Rightarrow> uscg_pick upper (uk_name k) (rows_for ug_callsign by_cs cs))" for k :: uscg_key
  have "uscg_of upper (Some table) keys = (if key_call_signs upper keys = [] \<and> key_officials keys = [] then [] else
      fold (\<lambda>k out. case uscg_choose upper (uk_name k) (from_id k) (fuzzy k) of None \<Rightarrow> out | Some v \<Rightarrow> put (uk_mmsi k) v out) keys [])"
    unfolding uscg_of_def Let_def by_cs_def by_id_def from_id_def fuzzy_def option.case by (rule refl)
  then have "map_of (fold (\<lambda>k out. case uscg_choose upper (uk_name k) (from_id k) (fuzzy k) of
      None \<Rightarrow> out | Some v \<Rightarrow> put (uk_mmsi k) v out) keys []) m = Some v" using assms(3) by (auto split: if_splits)
  from fold_put_some [OF this] obtain k where k: "k \<in> set keys" "uk_mmsi k = m"
    "uscg_choose upper (uk_name k) (from_id k) (fuzzy k) = Some v" by auto
  have uniq: "j = k" if "j \<in> set keys" "uk_mmsi j = m" for j
    using assms(2) that k by (metis distinct_map inj_onD)
  have fz: "f \<in> set table \<and> flag_of m = ''US'' \<and> ug_callsign f = norm_call_sign upper (uk_callsign k) \<and> ug_callsign f \<noteq> [] \<and>
      names_agree upper (uk_name k) (ug_name f)" if "fuzzy k = Some f" for f
  proof -
    obtain cs where cs: "map_of (key_call_signs upper keys) m = Some cs" "uscg_pick upper (uk_name k) (rows_for ug_callsign by_cs cs) = Some f"
      using \<open>fuzzy k = Some f\<close> k(2) by (auto simp: fuzzy_def split: option.splits)
    then show ?thesis
      using uscg_pick_in [OF cs(2)] key_call_signs_some [OF cs(1)] uniq
      by (auto simp: rows_for_def by_cs_def uscg_by_call_sign_def rows_in_def)
  qed
  have fi: "x \<in> set table \<and> flag_of m = ''US'' \<and> ug_official_key x = uk_official k \<and> uk_official k \<noteq> []" if "from_id k = Some x" for x
  proof -
    obtain num where num: "map_of (key_officials keys) m = Some num" "uscg_newest (rows_for ug_official_key by_id num) = Some x"
      using \<open>from_id k = Some x\<close> k(2) by (auto simp: from_id_def split: option.splits)
    then show ?thesis
      using uscg_newest_in [OF num(2)] key_officials_some [OF num(1)] uniq
      by (auto simp: rows_for_def by_id_def uscg_by_identification_def rows_in_def)
  qed
  have same: "f = x" if "f \<in> set table" "x \<in> set table" "ug_id f = ug_id x" for f x
    using assms(1) that by (metis distinct_map inj_onD)
  consider "fuzzy k = Some v" | "from_id k = Some v"
    "ug_callsign v = [] \<longrightarrow> names_agree upper (uk_name k) (ug_name v) \<or> (\<exists>f. fuzzy k = Some f \<and> ug_id f = ug_id v)"
    using k(3) by (auto simp: uscg_choose_def Let_def split: option.splits if_splits)
  then show ?thesis
  proof cases
    case 1
    then show ?thesis using fz [of v] k by blast
  next
    case 2
    then have "ug_callsign v = [] \<longrightarrow> names_agree upper (uk_name k) (ug_name v)" using fz fi [of v] same by metis
    then show ?thesis using fi [of v] 2(1) k by blast
  qed
qed

definition sample_listed :: uscg_vessel where
  "sample_listed = \<lparr>ug_id = 7, ug_name = ''MELISSA K'', ug_identification = [], ug_service = [], ug_status = ''Active'', ug_year_built = 1990,
     ug_length = 0, ug_beam = 0, ug_depth = 0, ug_gross = 0, ug_net = 0, ug_measure = [], ug_callsign = ''WDC1234'',
     ug_official_key = [], ug_details_at = 0\<rparr>"

definition sample_heard :: uscg_key where
  "sample_heard = \<lparr>uk_mmsi = 366000001, uk_callsign = ''WDC1234 '', uk_name = ''F/V MELISSA K'', uk_official = []\<rparr>"

lemma sample_match: "uscg_of id (Some [sample_listed]) [sample_heard] = [(366000001, sample_listed)]"
proof -
  have agree: "names_agree id ''F/V MELISSA K'' ''MELISSA K''" and cs: "norm_call_sign id ''WDC1234 '' = ''WDC1234''" 
    by code_simp+
  have us: "flag_of 366000001 = ''US''" by code_simp
  show ?thesis
    by (simp add: uscg_of_def us_keys_def sample_heard_def us key_call_signs_def key_officials_def cs uscg_by_call_sign_def
        uscg_by_identification_def rows_in_def rows_for_def sample_listed_def uscg_pick_def agree uscg_better_def uscg_choose_def Let_def)
qed

lemma us_register_corroborated_witness:
  "flag_of 366000001 = ''US'' \<and> sample_listed \<in> set [sample_listed]"
  using us_register_corroborated [of "[sample_listed]" "[sample_heard]" id 366000001 sample_listed] by (simp add: sample_match)

section \<open>Complete listings and guarded syncs\<close>

text \<open>What a listing that succeeds has asked for: each ask answered, or its service answered by the year.\<close>

definition answered :: "(ask \<Rightarrow> string + psix_summary list) \<Rightarrow> nat list \<Rightarrow> ask \<Rightarrow> psix_summary set" where
  "answered listing years a =
     (case listing a of Inr rows \<Rightarrow> set rows
      | Inl _ \<Rightarrow> \<Union>y \<in> set years. case listing (fst a, Some y) of Inr rows \<Rightarrow> set rows | Inl _ \<Rightarrow> {})"

definition listed_whole :: "(ask \<Rightarrow> string + psix_summary list) \<Rightarrow> nat list \<Rightarrow> ask \<Rightarrow> bool" where
  "listed_whole listing years a \<longleftrightarrow>
     (\<exists>rows. listing a = Inr rows) \<or> snd a = None \<and> (\<forall>y \<in> set years. \<exists>rows. listing (fst a, Some y) = Inr rows)"

lemma list_psix_complete:
  "list_psix listing keep years asks out = Inr res \<Longrightarrow> a \<in> set asks \<Longrightarrow> listed_whole listing years a"
proof (induction listing keep years asks out arbitrary: res a rule: list_psix.induct)
  case (2 listing keep years b asks out)
  show ?case
  proof (cases "listing b")
    case (Inr rows)
    then have ih: "c \<in> set asks \<Longrightarrow> listed_whole listing years c" for c using 2(2) [OF Inr] 2(3) by simp
    show ?thesis using 2(4) ih [of a] Inr by (cases "a = b") (auto simp: listed_whole_def)
  next
    case (Inl e)
    then have g: "snd b = None \<and> contains_str e ''no result''"
      and r: "list_psix listing keep years (asks @ map (\<lambda>y. (fst b, Some y)) years) out = Inr res"
      using 2(3) by (auto split: if_splits)
    note ih = 2(1) [OF Inl g r]
    have "listed_whole listing years (fst b, Some y)" if "y \<in> set years" for y using ih [of "(fst b, Some y)"] that by auto
    then have "listed_whole listing years b" using g by (auto simp: listed_whole_def)
    then show ?thesis using ih [of a] 2(4) by auto
  qed
qed simp


lemma list_psix_rows:
  "list_psix listing keep years asks out = Inr res \<Longrightarrow>
     \<exists>rs. res = fold keep rs out \<and> (\<forall>a \<in> set asks. answered listing years a \<subseteq> set rs)"
proof (induction listing keep years asks out arbitrary: res rule: list_psix.induct)
  case (1 listing keep years out)
  then show ?case by (intro exI [of _ "[]"]) simp
next
  case (2 listing keep years b asks out)
  show ?case
  proof (cases "listing b")
    case (Inr rows)
    then have "list_psix listing keep years asks (fold keep rows out) = Inr res" using 2(3) by simp
    from 2(2) [OF Inr this] obtain rs where rs: "res = fold keep rs (fold keep rows out)"
      "\<forall>a \<in> set asks. answered listing years a \<subseteq> set rs" by blast
    moreover have "answered listing years b = set rows" using Inr by (simp add: answered_def)
    ultimately show ?thesis by (intro exI [of _ "rows @ rs"]) auto
  next
    case (Inl e)
    then have g: "snd b = None \<and> contains_str e ''no result''"
      and r: "list_psix listing keep years (asks @ map (\<lambda>y. (fst b, Some y)) years) out = Inr res"
      using 2(3) by (auto split: if_splits)
    from 2(1) [OF Inl g r] obtain rs where rs: "res = fold keep rs out"
      "\<forall>a \<in> set asks \<union> (\<lambda>y. (fst b, Some y)) ` set years. answered listing years a \<subseteq> set rs" by auto
    have "(case listing (fst b, Some y) of Inr rows \<Rightarrow> set rows | Inl _ \<Rightarrow> {}) \<subseteq> answered listing years (fst b, Some y)" for y
      by (simp add: answered_def split: sum.split)
    then have "answered listing years b \<subseteq> set rs" using rs(2) by (fastforce simp: answered_def Inl)
    then show ?thesis using rs by (intro exI [of _ rs]) auto
  qed
qed

definition usable_row :: "(string \<Rightarrow> string) \<Rightarrow> string list \<Rightarrow> psix_summary \<Rightarrow> bool" where
  "usable_row upper licensed r \<longleftrightarrow> ps_id r \<noteq> 0 \<and> \<not> has_prefix (trim_space (ps_name r)) ''DUPLICATE OF'' \<and>
     (norm_call_sign upper (ps_callsign r) \<noteq> [] \<or> norm_official upper (trim_space (ps_identification r)) \<in> set licensed)"

lemma keep_summary_ids:
  "fst ` set (keep_summary upper number_of licensed r out) =
     (if usable_row upper licensed r then insert (ps_id r) (fst ` set out) else fst ` set out)"
  by (auto simp: keep_summary_def usable_row_def Let_def dom_update)

lemma fold_keep_ids:
  "fst ` set (fold (keep_summary upper number_of licensed) rs out) =
     fst ` set out \<union> ps_id ` {r \<in> set rs. usable_row upper licensed r}"
  by (induction rs arbitrary: out) (auto simp: keep_summary_ids)

text \<open>
  C28. A listing that succeeds is whole. Every service was listed, or, when the service could not build its listing at once,
  every build year of it, and recreational vessels every year; and each vessel so listed that a call sign or a licensed
  number could find is in the answer. One failed year fails the sync instead of thinning it.
\<close>

theorem psix_listing_whole:
  assumes "fetch_psix upper number_of listing year licensed = Inr res"
    and "s \<in> set psix_services \<and> a = (s, None) \<or> y \<in> set (psix_years year) \<and> a = (''Recreational'', Some y)"
  shows "listed_whole listing (psix_years year) a \<and>
    (\<forall>r \<in> answered listing (psix_years year) a. usable_row upper licensed r \<longrightarrow> ps_id r \<in> fst ` set res)"
proof -
  let ?asks = "map (\<lambda>s. (s, None)) psix_services @ map (\<lambda>y. (''Recreational'', Some y)) (psix_years year)"
  have a: "a \<in> set ?asks" using assms(2) by auto
  have l: "list_psix listing (keep_summary upper number_of licensed) (psix_years year) ?asks [] = Inr res"
    using assms(1) by (simp only: fetch_psix_def)
  from list_psix_rows [OF l] obtain rs where rs: "res = fold (keep_summary upper number_of licensed) rs []"
    "\<forall>a \<in> set ?asks. answered listing (psix_years year) a \<subseteq> set rs" by blast
  have "answered listing (psix_years year) a \<subseteq> set rs" using rs(2) a by blast
  then show ?thesis using list_psix_complete [OF l a] fold_keep_ids [of upper number_of licensed rs "[]"] rs(1) by auto
qed

definition sample_summary :: psix_summary where
  "sample_summary = \<lparr>ps_id = 7, ps_name = ''MELISSA K'', ps_callsign = ''WDC1234'', ps_service = ''Tank Ship'', ps_year = ''1990'',
     ps_status = ''Active'', ps_identification = []\<rparr>"

lemma psix_listing_whole_witness:
  "\<exists>res. fetch_psix id (\<lambda>_. None) (\<lambda>_. Inr [sample_summary]) 1800 [] = Inr res \<and> 7 \<in> fst ` set res"
proof -
  have "\<exists>res. list_psix (\<lambda>_. Inr rows) keep years asks out = Inr res" for rows keep years asks and out :: "(int \<times> uscg_vessel) list"
    by (induction asks arbitrary: out) simp_all
  then obtain res where f: "fetch_psix id (\<lambda>_. None) (\<lambda>_. Inr [sample_summary]) 1800 [] = Inr res"
    unfolding fetch_psix_def by blast
  have "usable_row id [] sample_summary" by code_simp
  moreover have "sample_summary \<in> answered (\<lambda>_. Inr [sample_summary]) (psix_years 1800) (''Tank Ship'', None)"
    by (simp add: answered_def)
  moreover have "''Tank Ship'' \<in> set psix_services" by (simp add: psix_services_def)
  ultimately have "ps_id sample_summary \<in> fst ` set res"
    using psix_listing_whole [OF f, of "''Tank Ship''" "(''Tank Ship'', None)" 0] by blast
  then show ?thesis using f by (auto simp: sample_summary_def)
qed



text \<open>The Norwegian register speaks for a vessel with its flag, one of its call signs and an agreeing name.\<close>

lemma fdir_pick_in: "fdir_pick upper name cands = Some v \<Longrightarrow> v \<in> set cands \<and> names_agree upper name (fd_name v)"
proof -
  have "fold (\<lambda>c best. if names_agree upper name (fd_name c) \<and>
        (case best of None \<Rightarrow> True | Some b \<Rightarrow> byte_less (fd_id b) (fd_id c)) then Some c else best) cands best = Some v \<Longrightarrow>
      best = Some v \<or> v \<in> set cands \<and> names_agree upper name (fd_name v)" for best
    by (induction cands arbitrary: best) (fastforce split: if_splits)+
  then show "fdir_pick upper name cands = Some v \<Longrightarrow> v \<in> set cands \<and> names_agree upper name (fd_name v)"
    by (force simp: fdir_pick_def)
qed

lemma fiskeridir_corroborated:
  assumes "map_of (fiskeridir_of upper (Some table) keys) m = Some v"
  shows "flag_of m = ''NO'' \<and> v \<in> set table \<and> (\<exists>k \<in> set keys. fk_mmsi k = m \<and> names_agree upper (fk_name k) (fd_name v))"
proof -
  define by_cs where "by_cs = rows_in fd_callsign (map (norm_call_sign_no upper \<circ> fk_callsign)
      (filter (\<lambda>k :: fdir_key. norm_call_sign_no upper (fk_callsign k) \<noteq> [] \<and> flag_of (fk_mmsi k) = ''NO'') keys)) table"
  define pick where "pick k = (case map_of (fdir_call_signs upper keys) (fk_mmsi k) of None \<Rightarrow> None
      | Some cs \<Rightarrow> fdir_pick upper (fk_name k) (rows_for fd_callsign by_cs cs))" for k :: fdir_key
  let ?step = "\<lambda>k out. case pick k of None \<Rightarrow> out | Some v \<Rightarrow> put (fk_mmsi k) v out"
  have st: "(\<lambda>k :: fdir_key. \<lambda>out. case map_of (fdir_call_signs upper keys) (fk_mmsi k) of None \<Rightarrow> out
      | Some cs \<Rightarrow> (case fdir_pick upper (fk_name k) (rows_for fd_callsign by_cs cs) of None \<Rightarrow> out | Some v \<Rightarrow> put (fk_mmsi k) v out)) = ?step"
    by (intro ext) (simp add: pick_def split: option.split)
  have "fiskeridir_of upper (Some table) keys = (if fdir_call_signs upper keys = [] then [] else fold ?step keys [])"
    unfolding fiskeridir_of_def Let_def st [symmetric] unfolding by_cs_def option.case by (rule refl)
  then have "map_of (fold ?step keys []) m = Some v" using assms by (auto split: if_splits)
  from fold_put_some [OF this] obtain k where k: "k \<in> set keys" "fk_mmsi k = m" "pick k = Some v" by auto
  then obtain cs where cs: "map_of (fdir_call_signs upper keys) m = Some cs" "fdir_pick upper (fk_name k) (rows_for fd_callsign by_cs cs) = Some v"
    by (auto simp: pick_def split: option.splits)
  let ?f = "\<lambda>k :: fdir_key. let cs = norm_call_sign_no upper (fk_callsign k) in if cs \<noteq> [] \<and> flag_of (fk_mmsi k) = ''NO'' then Some cs else None"
  have "(\<lambda>k :: fdir_key. \<lambda>m. let cs = norm_call_sign_no upper (fk_callsign k) in
        if cs \<noteq> [] \<and> flag_of (fk_mmsi k) = ''NO'' then put (fk_mmsi k) cs m else m) =
      (\<lambda>k out. case ?f k of None \<Rightarrow> out | Some v \<Rightarrow> put (fk_mmsi k) v out)" by (intro ext) (simp add: Let_def)
  then have "map_of (fold (\<lambda>k out. case ?f k of None \<Rightarrow> out | Some v \<Rightarrow> put (fk_mmsi k) v out) keys []) m = Some cs"
    using cs(1) by (simp add: fdir_call_signs_def)
  from fold_put_some [OF this] have "flag_of m = ''NO''" by (auto simp: Let_def split: if_splits)
  then show ?thesis using fdir_pick_in [OF cs(2)] k by (auto simp: rows_for_def by_cs_def rows_in_def)
qed

text \<open>Text that names no number passes \<open>feetToMetres\<close>, which refuses only what compares below or equal to zero.\<close>

lemma feet_not_a_number: "feet_to_metres (\<lambda>_. Some NotANumber) s = NotANumber"
  by (simp add: feet_to_metres_def)

end
