(* ===== verification/Wikidata.thy ===== *)
theory Wikidata
  imports Registers
begin

text \<open>
  Ships' particulars from Wikidata, \<open>server/wikidata.go\<close>: what each query's rows add to an item, which item an IMO takes,
  and when a sync may replace the stored particulars. A query's answer is a parameter; \<open>upper\<close>, the parsers of
  numbers and the URL escapes are the standard library's.
\<close>

declare map_of_eq_Some_iff [simp del]

section \<open>Values\<close>

record sparql_term =
  st_value :: string
  st_lang :: string

record wd_binding =
  wb_item :: sparql_term
  wb_v :: sparql_term
  wb_label :: sparql_term
  wb_end :: sparql_term

definition last_at :: "string \<Rightarrow> string \<Rightarrow> nat option" where
  "last_at s sep =
     (case filter (\<lambda>i. has_prefix (drop i s) sep) (rev [0..<Suc (length s)]) of [] \<Rightarrow> None | i # _ \<Rightarrow> Some i)"

text \<open>\<open>int_of\<close> is \<open>strconv.Atoi\<close> with its error dropped.\<close>

definition qid_of :: "(string \<Rightarrow> int) \<Rightarrow> string \<Rightarrow> int" where
  "qid_of int_of uri = (case last_at uri ''/Q'' of None \<Rightarrow> 0 | Some i \<Rightarrow> int_of (drop (i + 2) uri))"

text \<open>A quantity in a SPARQL answer is a decimal, which has neither NaN nor infinity.\<close>

definition wd_number :: "(string \<Rightarrow> real option) \<Rightarrow> string \<Rightarrow> real" where
  "wd_number parse s = (case parse s of None \<Rightarrow> 0 | Some f \<Rightarrow> if f < 0 then 0 else f)"

definition least_of :: "string \<Rightarrow> string \<Rightarrow> string" where
  "least_of dst v = (if v \<noteq> [] \<and> (dst = [] \<or> byte_less v dst) then v else dst)"

definition commons_page :: "(string \<Rightarrow> string) \<Rightarrow> string \<Rightarrow> string \<Rightarrow> string" where
  "commons_page path_escape ns name0 =
     (let name = trim_space name0 in
      if name = [] then []
      else ''https://commons.wikimedia.org/wiki/'' @ ns @ path_escape (map (\<lambda>c. if c = CHR '' '' then CHR ''_'' else c) name))"

definition ascii_letter :: "char \<Rightarrow> bool" where
  "ascii_letter c \<longleftrightarrow> is_upper_char c \<or> CHR ''a'' \<le> c \<and> c \<le> CHR ''z''"

text \<open>\<open>drop_spaces\<close> is \<open>strings.Map\<close> without the Unicode spaces; hyphens and dots are ASCII.\<close>

definition wd_call_sign :: "(string \<Rightarrow> string) \<Rightarrow> (string \<Rightarrow> string) \<Rightarrow> string \<Rightarrow> string" where
  "wd_call_sign upper drop_spaces s0 =
     (let s = filter (\<lambda>c. c \<noteq> CHR ''-'' \<and> c \<noteq> CHR ''.'') (drop_spaces s0) in
      if length s < 4 \<or> length s > 7 then []
      else if \<not> list_all (\<lambda>c. ascii_letter c \<or> is_digit c) s then []
      else let u = upper s in if \<not> list_ex is_upper_char (take 2 u) then [] else u)"

section \<open>An item\<close>

record wd_ref =
  wr_qid :: int
  wr_ended :: bool

definition no_ref :: wd_ref where "no_ref = \<lparr>wr_qid = 0, wr_ended = False\<rparr>"

definition take_ref :: "(string \<Rightarrow> int) \<Rightarrow> wd_binding \<Rightarrow> wd_ref \<Rightarrow> wd_ref" where
  "take_ref int_of b r =
     (let qid = qid_of int_of (st_value (wb_v b)); ended = (st_value (wb_end b) \<noteq> []) in
      if qid = 0 then r
      else if wr_qid r = 0 \<or> wr_ended r \<and> \<not> ended \<or> wr_ended r = ended \<and> qid < wr_qid r
      then \<lparr>wr_qid = qid, wr_ended = ended\<rparr> else r)"

record call_signs =
  cs_v :: string
  cs_several :: bool

definition take_call_sign :: "(string \<Rightarrow> string) \<Rightarrow> (string \<Rightarrow> string) \<Rightarrow> wd_binding \<Rightarrow> call_signs \<Rightarrow> call_signs" where
  "take_call_sign upper drop_spaces b c =
     (let cs = wd_call_sign upper drop_spaces (st_value (wb_v b)) in
      if cs = [] \<or> st_value (wb_end b) \<noteq> [] \<or> cs = cs_v c then c
      else \<lparr>cs_v = cs, cs_several = cs_several c \<or> cs_v c \<noteq> []\<rparr>)"

definition call_sign_value :: "call_signs \<Rightarrow> string" where
  "call_sign_value c = (if cs_several c then [] else cs_v c)"

record wd_ship =
  ws_id :: string
  ws_url :: string
  ws_ship_type :: string
  ws_builder :: string
  ws_yard_number :: string
  ws_year_built :: int
  ws_gross :: int
  ws_deadweight :: int
  ws_length :: real
  ws_beam :: real
  ws_draught :: real
  ws_registry :: string
  ws_home_port :: string
  ws_callsign :: string
  ws_owner :: string
  ws_operator :: string
  ws_former_names :: "string list"
  ws_wikipedia :: string
  ws_commons :: string
  ws_image :: string

definition no_ship :: wd_ship where
  "no_ship = \<lparr>ws_id = [], ws_url = [], ws_ship_type = [], ws_builder = [], ws_yard_number = [], ws_year_built = 0, ws_gross = 0,
     ws_deadweight = 0, ws_length = 0, ws_beam = 0, ws_draught = 0, ws_registry = [], ws_home_port = [], ws_callsign = [],
     ws_owner = [], ws_operator = [], ws_former_names = [], ws_wikipedia = [], ws_commons = [], ws_image = []\<rparr>"

record wd_item =
  wi_qid :: int
  wi_imos :: "imo list"
  wi_ship :: wd_ship
  wi_builder :: wd_ref
  wi_registry :: wd_ref
  wi_ship_type :: wd_ref
  wi_home_port :: wd_ref
  wi_owner :: wd_ref
  wi_operator :: wd_ref
  wi_former :: "(string \<times> string) list"
  wi_callsign :: call_signs

definition new_item :: "int \<Rightarrow> wd_item" where
  "new_item qid = \<lparr>wi_qid = qid, wi_imos = [], wi_ship = no_ship, wi_builder = no_ref, wi_registry = no_ref, wi_ship_type = no_ref,
     wi_home_port = no_ref, wi_owner = no_ref, wi_operator = no_ref, wi_former = [], wi_callsign = \<lparr>cs_v = [], cs_several = False\<rparr>\<rparr>"

section \<open>The queries\<close>

datatype wd_field =
    QImo | QYearBuilt | QGross | QDeadweight | QLength | QBeam | QBuilder | QRegistry | QHomePort | QCallSign
  | QOwner | QOperator | QShipType | QYardNumber | QDraught | QWikipedia | QCommons | QImage | QFormerNames

definition wd_queries :: "wd_field list" where
  "wd_queries = [QImo, QYearBuilt, QGross, QDeadweight, QLength, QBeam, QBuilder, QRegistry, QHomePort, QCallSign, QOwner, QOperator,
     QShipType, QYardNumber, QDraught, QWikipedia, QCommons, QImage, QFormerNames]"

text \<open>The standard library and Unicode, as the queries use them.\<close>

record wd_text =
  wt_upper :: "string \<Rightarrow> string"
  wt_drop_spaces :: "string \<Rightarrow> string"
  wt_parse :: "string \<Rightarrow> real option"
  wt_number :: "string \<Rightarrow> int option"
  wt_int :: "string \<Rightarrow> int"
  wt_escape :: "string \<Rightarrow> string"
  wt_unescape :: "string \<Rightarrow> string option"

definition centimetres :: "wd_text \<Rightarrow> string \<Rightarrow> real" where
  "centimetres t s = real_of_int (go_round (wd_number (wt_parse t) s * 100)) / 100"

definition special_path :: string where "special_path = ''/Special:FilePath/''"

definition file_path :: "string \<Rightarrow> string option" where
  "file_path s =
     (case filter (\<lambda>i. has_prefix (drop i s) special_path) [0..<length s] of
        [] \<Rightarrow> None | i # _ \<Rightarrow> Some (drop (i + length special_path) s))"

definition wikipedia_prefix :: string where "wikipedia_prefix = ''https://en.wikipedia.org/wiki/''"

definition apply_ship :: "wd_text \<Rightarrow> wd_field \<Rightarrow> string \<Rightarrow> wd_ship \<Rightarrow> wd_ship" where
  "apply_ship t q v s =
     (case q of
        QYearBuilt \<Rightarrow>
          (case wt_number t v of
             Some n \<Rightarrow> if n > 0 \<and> (ws_year_built s = 0 \<or> n < ws_year_built s) then s\<lparr>ws_year_built := n\<rparr> else s
           | None \<Rightarrow> s)
      | QGross \<Rightarrow> s\<lparr>ws_gross := max (ws_gross s) (go_round (wd_number (wt_parse t) v))\<rparr>
      | QDeadweight \<Rightarrow> s\<lparr>ws_deadweight := max (ws_deadweight s) (go_round (wd_number (wt_parse t) v / 1000))\<rparr>
      | QLength \<Rightarrow> s\<lparr>ws_length := max (ws_length s) (centimetres t v)\<rparr>
      | QBeam \<Rightarrow> s\<lparr>ws_beam := max (ws_beam s) (centimetres t v)\<rparr>
      | QDraught \<Rightarrow> s\<lparr>ws_draught := max (ws_draught s) (centimetres t v)\<rparr>
      | QYardNumber \<Rightarrow> s\<lparr>ws_yard_number := least_of (ws_yard_number s) (trim_space v)\<rparr>
      | QWikipedia \<Rightarrow> if has_prefix v wikipedia_prefix then s\<lparr>ws_wikipedia := least_of (ws_wikipedia s) v\<rparr> else s
      | QCommons \<Rightarrow> s\<lparr>ws_commons := least_of (ws_commons s) (commons_page (wt_escape t) ''Category:'' v)\<rparr>
      | QImage \<Rightarrow>
          (case file_path v of
             None \<Rightarrow> s
           | Some f \<Rightarrow> (case wt_unescape t f of
               None \<Rightarrow> s | Some name \<Rightarrow> s\<lparr>ws_image := least_of (ws_image s) (commons_page (wt_escape t) ''File:'' name)\<rparr>))
      | _ \<Rightarrow> s)"

definition apply_query :: "wd_text \<Rightarrow> wd_field \<Rightarrow> wd_binding \<Rightarrow> wd_item \<Rightarrow> wd_item" where
  "apply_query t q b it =
     (let v = st_value (wb_v b); num = wt_int t in
      case q of
        QImo \<Rightarrow>
          (case parse_uint32 (trim_space v) of
             Some n \<Rightarrow> if valid_imo (of_nat n) then it\<lparr>wi_imos := wi_imos it @ [of_nat n]\<rparr> else it
           | None \<Rightarrow> it)
      | QBuilder \<Rightarrow> it\<lparr>wi_builder := take_ref num b (wi_builder it)\<rparr>
      | QRegistry \<Rightarrow> it\<lparr>wi_registry := take_ref num b (wi_registry it)\<rparr>
      | QHomePort \<Rightarrow> it\<lparr>wi_home_port := take_ref num b (wi_home_port it)\<rparr>
      | QOwner \<Rightarrow> it\<lparr>wi_owner := take_ref num b (wi_owner it)\<rparr>
      | QOperator \<Rightarrow> it\<lparr>wi_operator := take_ref num b (wi_operator it)\<rparr>
      | QShipType \<Rightarrow> it\<lparr>wi_ship_type := take_ref num b (wi_ship_type it)\<rparr>
      | QCallSign \<Rightarrow> it\<lparr>wi_callsign := take_call_sign (wt_upper t) (wt_drop_spaces t) b (wi_callsign it)\<rparr>
      | QFormerNames \<Rightarrow>
          if trim_space v \<noteq> [] then it\<lparr>wi_former := wi_former it @ [(trim_space v, st_value (wb_end b))]\<rparr> else it
      | _ \<Rightarrow> it\<lparr>wi_ship := apply_ship t q v (wi_ship it)\<rparr>)"


section \<open>The read\<close>

text \<open>Only the first query, the numbers', finds items; a row of a later one for an item it did not find is passed over.\<close>

definition take_row :: "wd_text \<Rightarrow> bool \<Rightarrow> wd_field \<Rightarrow> wd_binding \<Rightarrow> (int \<times> wd_item) list \<Rightarrow> (int \<times> wd_item) list" where
  "take_row t first q b items =
     (let qid = qid_of (wt_int t) (st_value (wb_item b)) in
      case map_of items qid of
        Some it \<Rightarrow> put qid (apply_query t q b it) items
      | None \<Rightarrow> if \<not> first \<or> qid = 0 then items else put qid (apply_query t q b (new_item qid)) items)"

fun run_queries ::
  "wd_text \<Rightarrow> (wd_field \<Rightarrow> string + wd_binding list) \<Rightarrow> bool \<Rightarrow> wd_field list \<Rightarrow> (int \<times> wd_item) list \<Rightarrow> string + (int \<times> wd_item) list" where
  "run_queries t sparql first [] items = Inr items"
| "run_queries t sparql first (q # qs) items =
     (case sparql q of
        Inl e \<Rightarrow> Inl e
      | Inr rows \<Rightarrow> run_queries t sparql False qs (fold (take_row t first q) rows items))"

definition claim_imo :: "wd_item \<Rightarrow> imo \<Rightarrow> (imo \<times> wd_item) list \<Rightarrow> (imo \<times> wd_item) list" where
  "claim_imo it n by_imo =
     (case map_of by_imo n of
        Some o' \<Rightarrow> if wi_qid it < wi_qid o' then put n it by_imo else by_imo
      | None \<Rightarrow> put n it by_imo)"

definition claim_imos :: "wd_item \<Rightarrow> (imo \<times> wd_item) list \<Rightarrow> (imo \<times> wd_item) list" where
  "claim_imos it by_imo = fold (claim_imo it) (wi_imos it) by_imo"

definition item_refs :: "wd_item \<Rightarrow> int list" where
  "item_refs it = filter (\<lambda>q. q \<noteq> 0)
     (map wr_qid [wi_builder it, wi_registry it, wi_ship_type it, wi_home_port it, wi_owner it, wi_operator it])"

definition label_batch :: nat where "label_batch = 1000"

text \<open>The labels read so far, and whether each is the English one, which is final.\<close>

type_synonym labels = "(int \<times> string \<times> bool) list"

definition take_label :: "wd_text \<Rightarrow> wd_binding \<Rightarrow> labels \<Rightarrow> labels" where
  "take_label t b ls =
     (let qid = qid_of (wt_int t) (st_value (wb_v b)) in
      if qid \<noteq> 0 \<and> \<not> (case map_of ls qid of Some (_, en) \<Rightarrow> en | None \<Rightarrow> False)
      then put qid (st_value (wb_label b), st_lang (wb_label b) = ''en'') ls else ls)"

function read_labels :: "wd_text \<Rightarrow> (int list \<Rightarrow> string + wd_binding list) \<Rightarrow> int list \<Rightarrow> labels \<Rightarrow> string + labels" where
  "read_labels t ask refs ls =
     (if refs = [] then Inr ls
      else case ask (take label_batch refs) of
        Inl e \<Rightarrow> Inl e
      | Inr rows \<Rightarrow> read_labels t ask (drop label_batch refs) (fold (take_label t) rows ls))"
  by pat_completeness auto
termination
  by (relation "measure (\<lambda>(_, _, refs, _). length refs)") (auto simp: label_batch_def)

declare read_labels.simps [simp del]

text \<open>Former names by their ends, each once.\<close>

fun insert_by_end :: "string \<times> string \<Rightarrow> (string \<times> string) list \<Rightarrow> (string \<times> string) list" where
  "insert_by_end x [] = [x]"
| "insert_by_end x (y # ys) = (if byte_less (snd y) (snd x) then y # insert_by_end x ys else x # y # ys)"

definition former_names :: "(string \<times> string) list \<Rightarrow> string list" where
  "former_names ns = fold (\<lambda>n out. if n \<in> set out then out else out @ [n]) (map fst (foldr insert_by_end ns [])) []"

definition label_of :: "labels \<Rightarrow> wd_ref \<Rightarrow> string" where
  "label_of ls r = (case map_of ls (wr_qid r) of Some (l, _) \<Rightarrow> l | None \<Rightarrow> [])"

definition ship_of :: "labels \<Rightarrow> wd_item \<Rightarrow> wd_ship" where
  "ship_of ls it = (wi_ship it)
     \<lparr>ws_id := ''Q'' @ (if wi_qid it < 0 then ''-'' @ dec (nat (- wi_qid it)) else dec (nat (wi_qid it))), ws_builder := label_of ls (wi_builder it), ws_registry := label_of ls (wi_registry it),
      ws_ship_type := label_of ls (wi_ship_type it), ws_home_port := label_of ls (wi_home_port it), ws_owner := label_of ls (wi_owner it),
      ws_operator := label_of ls (wi_operator it), ws_callsign := call_sign_value (wi_callsign it),
      ws_former_names := former_names (wi_former it)\<rparr>"

definition fetch_wikidata ::
  "wd_text \<Rightarrow> (wd_field \<Rightarrow> string + wd_binding list) \<Rightarrow> (int list \<Rightarrow> string + wd_binding list) \<Rightarrow> string + (imo \<times> wd_ship) list" where
  "fetch_wikidata t sparql ask =
     (case run_queries t sparql True wd_queries [] of
        Inl e \<Rightarrow> Inl e
      | Inr items \<Rightarrow>
          (let by_imo = fold (\<lambda>(_, it). claim_imos it) items [];
               refs = sort (remdups (concat (map (item_refs \<circ> snd) items)))
           in case read_labels t ask refs [] of
                Inl e \<Rightarrow> Inl e
              | Inr ls \<Rightarrow> Inr (map (\<lambda>(n, it). (n, ship_of ls it)) by_imo)))"

section \<open>Storing and serving\<close>

definition wikidata_min_ships :: nat where "wikidata_min_ships = 50000"

text \<open>How many ships have each field.\<close>

definition field_set :: "wd_field \<Rightarrow> wd_ship \<Rightarrow> bool" where
  "field_set q w =
     (case q of QImo \<Rightarrow> True | QBuilder \<Rightarrow> ws_builder w \<noteq> [] | QYearBuilt \<Rightarrow> ws_year_built w > 0 | QGross \<Rightarrow> ws_gross w > 0
      | QDeadweight \<Rightarrow> ws_deadweight w > 0 | QLength \<Rightarrow> ws_length w > 0 | QBeam \<Rightarrow> ws_beam w > 0 | QRegistry \<Rightarrow> ws_registry w \<noteq> []
      | QFormerNames \<Rightarrow> ws_former_names w \<noteq> [] | QShipType \<Rightarrow> ws_ship_type w \<noteq> [] | QYardNumber \<Rightarrow> ws_yard_number w \<noteq> []
      | QDraught \<Rightarrow> ws_draught w > 0 | QHomePort \<Rightarrow> ws_home_port w \<noteq> [] | QOwner \<Rightarrow> ws_owner w \<noteq> [] | QOperator \<Rightarrow> ws_operator w \<noteq> []
      | QWikipedia \<Rightarrow> ws_wikipedia w \<noteq> [] | QCommons \<Rightarrow> ws_commons w \<noteq> [] | QImage \<Rightarrow> ws_image w \<noteq> [] | QCallSign \<Rightarrow> ws_callsign w \<noteq> [])"

definition field_count :: "wd_field \<Rightarrow> (imo \<times> wd_ship) list \<Rightarrow> nat" where
  "field_count q ships = length (filter (\<lambda>(_, w). field_set q w) ships)"

definition wd_fields :: "wd_field list" where
  "wd_fields = [QImo, QBuilder, QYearBuilt, QGross, QDeadweight, QLength, QBeam, QRegistry, QFormerNames, QShipType, QYardNumber, QDraught,
     QHomePort, QOwner, QOperator, QWikipedia, QCommons, QImage, QCallSign]"

datatype wd_refusal = TooFew nat | FieldShrunk wd_field nat nat

text \<open>The stored ships, the sync's stamp, and the mark of a sync that found no call signs.\<close>

record wd_store =
  wo_ships :: "(imo \<times> wd_ship) list"
  wo_stamp :: "time option"
  wo_no_call_signs :: "time option"

definition replace_wikidata :: "(imo \<times> wd_ship) list \<Rightarrow> time \<Rightarrow> wd_store \<Rightarrow> wd_refusal + wd_store" where
  "replace_wikidata ships now st =
     (if ships = [] \<or> length ships < wikidata_min_ships then Inl (TooFew (length ships))
      else case filter (\<lambda>q. 2 * field_count q ships < field_count q (wo_ships st)) wd_fields of
        q # _ \<Rightarrow> Inl (FieldShrunk q (field_count q ships) (field_count q (wo_ships st)))
      | [] \<Rightarrow> Inr \<lparr>wo_ships = ships, wo_stamp = Some (stamp_of now),
                 wo_no_call_signs = (if field_count QCallSign ships = 0 then Some (stamp_of now) else None)\<rparr>)"

definition stored_ship :: "wd_ship \<Rightarrow> wd_ship" where
  "stored_ship w = w\<lparr>ws_url := ''https://www.wikidata.org/wiki/'' @ ws_id w\<rparr>"

definition wikidata_of :: "(imo \<times> wd_ship) list option \<Rightarrow> imo list \<Rightarrow> (imo \<times> wd_ship) list" where
  "wikidata_of stored ns =
     (case stored of
        None \<Rightarrow> []
      | Some table \<Rightarrow> map (\<lambda>(n, w). (n, stored_ship w)) (filter (\<lambda>r. fst r \<in> set (filter valid_imo ns)) table))"

section \<open>Every sync picks the same\<close>

text \<open>The call signs in force among an item's rows, and the references in their order of preference.\<close>

definition in_force :: "(string \<Rightarrow> string) \<Rightarrow> (string \<Rightarrow> string) \<Rightarrow> wd_binding list \<Rightarrow> string set" where
  "in_force upper drop_spaces bs =
     {cs. cs \<noteq> [] \<and> (\<exists>b \<in> set bs. st_value (wb_end b) = [] \<and> cs = wd_call_sign upper drop_spaces (st_value (wb_v b)))}"

definition sole :: "string set \<Rightarrow> call_signs \<Rightarrow> bool" where
  "sole S c \<longleftrightarrow> (cs_v c = [] \<longleftrightarrow> S = {}) \<and> (cs_v c \<noteq> [] \<longrightarrow> cs_v c \<in> S) \<and> (cs_several c \<longleftrightarrow> (\<exists>x \<in> S. \<exists>y \<in> S. x \<noteq> y))"

lemma take_call_sign_sole:
  assumes "sole S c" "[] \<notin> S"
  shows "sole (S \<union> in_force upper drop_spaces [b]) (take_call_sign upper drop_spaces b c)"
  using assms unfolding sole_def in_force_def take_call_sign_def Let_def by auto

lemma fold_call_sign_sole:
  "sole S c \<Longrightarrow> [] \<notin> S \<Longrightarrow> sole (S \<union> in_force upper drop_spaces bs) (fold (take_call_sign upper drop_spaces) bs c)"
proof (induction bs arbitrary: S c)
  case Nil
  then show ?case by (simp add: in_force_def)
next
  case (Cons b bs)
  have "in_force upper drop_spaces (b # bs) = in_force upper drop_spaces [b] \<union> in_force upper drop_spaces bs"
    by (auto simp: in_force_def)
  then show ?case
    using Cons.IH [OF take_call_sign_sole [OF Cons.prems]] Cons.prems(2) by (simp add: in_force_def Un_assoc)
qed

definition no_call_signs :: call_signs where "no_call_signs = \<lparr>cs_v = [], cs_several = False\<rparr>"

lemma call_sign_value_sole: "sole S c \<Longrightarrow> call_sign_value c = (if \<exists>x. S = {x} then the_elem S else [])"
proof -
  assume a: "sole S c"
  show ?thesis
  proof (cases "S = {} \<or> cs_several c")
    case True
    then show ?thesis using a by (auto simp: sole_def call_sign_value_def)
  next
    case False
    then have "S = {cs_v c}" "\<not> cs_several c" using a unfolding sole_def by blast+
    then show ?thesis by (simp add: call_sign_value_def)
  qed
qed

lemma fold_call_sign_value:
  "call_sign_value (fold (take_call_sign upper drop_spaces) bs no_call_signs) =
     (if \<exists>x. in_force upper drop_spaces bs = {x} then the_elem (in_force upper drop_spaces bs) else [])"
  using fold_call_sign_sole [of "{}" no_call_signs upper drop_spaces bs]
  by (intro call_sign_value_sole) (simp add: sole_def no_call_signs_def)

text \<open>A reference's rank: one in force before one that ended, then the lowest item.\<close>

definition ref_keys :: "(string \<Rightarrow> int) \<Rightarrow> wd_binding list \<Rightarrow> (bool \<times> int) set" where
  "ref_keys int_of bs =
     {(st_value (wb_end b) \<noteq> [], qid_of int_of (st_value (wb_v b))) | b. b \<in> set bs \<and> qid_of int_of (st_value (wb_v b)) \<noteq> 0}"

definition ref_at :: "(bool \<times> int) set \<Rightarrow> wd_ref" where
  "ref_at K = (if K = {} then no_ref else \<lparr>wr_qid = snd (Min K), wr_ended = fst (Min K)\<rparr>)"

lemma take_ref_at:
  assumes "finite K" "\<And>k. k \<in> K \<Longrightarrow> snd k \<noteq> 0"
  shows "take_ref int_of b (ref_at K) = ref_at (K \<union> ref_keys int_of [b])"
proof -
  define q where "q = qid_of int_of (st_value (wb_v b))"
  define e where "e = (st_value (wb_end b) \<noteq> [])"
  have k: "ref_keys int_of [b] = (if q = 0 then {} else {(e, q)})" by (auto simp: ref_keys_def q_def e_def)
  show ?thesis
  proof (cases "K = {} \<or> q = 0")
    case True
    then show ?thesis using assms by (auto simp: k take_ref_def Let_def ref_at_def no_ref_def q_def [symmetric] e_def [symmetric])
  next
    case False
    then have "Min K \<in> K" using assms(1) by simp
    then have nz: "snd (Min K) \<noteq> 0" using assms(2) by blast
    have "Min (K \<union> {(e, q)}) = min (e, q) (Min K)" using False assms(1) by (simp add: min.commute)
    then show ?thesis using False nz
      by (cases "Min K") (auto simp: k take_ref_def Let_def ref_at_def q_def [symmetric] e_def [symmetric] min_def)
  qed
qed

lemma fold_take_ref: "fold (take_ref int_of) bs no_ref = ref_at (ref_keys int_of bs)"
proof -
  have "finite K \<Longrightarrow> (\<And>k. k \<in> K \<Longrightarrow> snd k \<noteq> 0) \<Longrightarrow> fold (take_ref int_of) bs (ref_at K) = ref_at (K \<union> ref_keys int_of bs)" for K
  proof (induction bs arbitrary: K)
    case (Cons b bs)
    have "ref_keys int_of (b # bs) = ref_keys int_of [b] \<union> ref_keys int_of bs" by (auto simp: ref_keys_def)
    moreover have "finite (ref_keys int_of [b])" "\<And>k. k \<in> ref_keys int_of [b] \<Longrightarrow> snd k \<noteq> 0" by (auto simp: ref_keys_def)
    ultimately have "fold (take_ref int_of) bs (ref_at (K \<union> ref_keys int_of [b])) = ref_at (K \<union> ref_keys int_of [b] \<union> ref_keys int_of bs)"
      using Cons.prems by (intro Cons.IH) blast+
    then show ?case using take_ref_at [OF Cons.prems, of int_of b] \<open>ref_keys int_of (b # bs) = _\<close> by (simp add: Un_assoc)
  qed (simp add: ref_keys_def)
  from this [of "{}"] show ?thesis by (simp add: ref_at_def)
qed

text \<open>
  A sync picks the same values whatever order the service answers its rows in: an item's call sign is the only one in
  force, or none where several are, and of several references the lowest item, one in force before one that ended.
\<close>

theorem wikidata_picks_stable:
  assumes "set bs = set bs'"
  shows "call_sign_value (fold (take_call_sign upper drop_spaces) bs no_call_signs) =
      call_sign_value (fold (take_call_sign upper drop_spaces) bs' no_call_signs) \<and>
    fold (take_ref int_of) bs no_ref = fold (take_ref int_of) bs' no_ref"
  using assms by (simp add: fold_call_sign_value fold_take_ref in_force_def ref_keys_def)

definition sign_row :: "string \<Rightarrow> string \<Rightarrow> wd_binding" where
  "sign_row v e = \<lparr>wb_item = \<lparr>st_value = ''/Q1'', st_lang = []\<rparr>, wb_v = \<lparr>st_value = v, st_lang = []\<rparr>,
     wb_label = \<lparr>st_value = [], st_lang = []\<rparr>, wb_end = \<lparr>st_value = e, st_lang = []\<rparr>\<rparr>"

lemma wikidata_picks_stable_witness:
  "call_sign_value (fold (take_call_sign id id) [sign_row ''LAJA'' [], sign_row ''9V-1234'' ''2020''] no_call_signs) =
     call_sign_value (fold (take_call_sign id id) [sign_row ''9V-1234'' ''2020'', sign_row ''LAJA'' []] no_call_signs) \<and>
   fold (take_ref (\<lambda>_. 0)) [sign_row ''LAJA'' [], sign_row ''9V-1234'' ''2020''] no_ref =
     fold (take_ref (\<lambda>_. 0)) [sign_row ''9V-1234'' ''2020'', sign_row ''LAJA'' []] no_ref"
  by (rule wikidata_picks_stable) auto

text \<open>An IMO takes the lowest of the items that name it.\<close>

lemma claim_imo_lowest:
  "map_of (claim_imo it n by_imo) m =
     (if m = n \<and> (case map_of by_imo n of Some o' \<Rightarrow> wi_qid it < wi_qid o' | None \<Rightarrow> True) then Some it else map_of by_imo m)"
  by (auto simp: claim_imo_def map_of_put split: option.split)

lemma claim_imos_lowest:
  "map_of (claim_imos it by_imo) m =
     (if m \<in> set (wi_imos it) \<and> (case map_of by_imo m of Some o' \<Rightarrow> wi_qid it < wi_qid o' | None \<Rightarrow> True) then Some it else map_of by_imo m)"
proof -
  have "map_of (fold (claim_imo it) ns by_imo) m =
     (if m \<in> set ns \<and> (case map_of by_imo m of Some o' \<Rightarrow> wi_qid it < wi_qid o' | None \<Rightarrow> True) then Some it else map_of by_imo m)" for ns
    by (induction ns arbitrary: by_imo) (auto simp: claim_imo_lowest split: option.splits)
  then show ?thesis by (simp add: claim_imos_def)
qed

definition lowest_claim :: "wd_item list \<Rightarrow> imo \<Rightarrow> wd_item option \<Rightarrow> bool" where
  "lowest_claim items n r \<longleftrightarrow>
     (case r of
        None \<Rightarrow> \<forall>it \<in> set items. n \<notin> set (wi_imos it)
      | Some it \<Rightarrow> it \<in> set items \<and> n \<in> set (wi_imos it) \<and> (\<forall>o' \<in> set items. n \<in> set (wi_imos o') \<longrightarrow> wi_qid it \<le> wi_qid o'))"

lemma fold_claims_lowest:
  "lowest_claim seen n (map_of by_imo n) \<Longrightarrow> lowest_claim (seen @ items) n (map_of (fold claim_imos items by_imo) n)"
proof (induction items arbitrary: seen by_imo)
  case (Cons it items)
  have "lowest_claim (seen @ [it]) n (map_of (claim_imos it by_imo) n)"
    using Cons.prems by (auto simp: claim_imos_lowest lowest_claim_def split: option.splits)
  from Cons.IH [OF this] show ?case by simp
qed simp

end
