(* ===== verification/Particulars.thy ===== *)
theory Particulars
  imports Wikidata Vesselapi
begin

text \<open>
  The registers merged into one document, \<open>server/particulars.go\<close>, and the enrichment of one vessel's answer in
  \<open>serveVessel\<close>. A field of the document is a \<open>pfield\<close>, named in JSON by \<open>json_name\<close>; the interface \<open>doc_field\<close>
  ties each to its place in the record.
\<close>

declare map_of_eq_Some_iff [simp del]

section \<open>The document\<close>

record particulars =
  pa_registered_name :: string
  pa_identification :: string
  pa_service :: string
  pa_callsign :: string
  pa_status :: string
  pa_ship_type :: string
  pa_builder :: string
  pa_yard_number :: string
  pa_year_built :: int
  pa_gross_tonnage :: int
  pa_net_tonnage :: int
  pa_tonnage_measure :: string
  pa_deadweight :: int
  pa_length :: real
  pa_beam :: real
  pa_depth :: real
  pa_draught :: real
  pa_registry :: string
  pa_home_port :: string
  pa_owner :: string
  pa_operator :: string
  pa_former_names :: "string list"
  pa_wikipedia :: string
  pa_commons_category :: string
  pa_image :: string

definition no_particulars :: particulars where
  "no_particulars = \<lparr>pa_registered_name = [], pa_identification = [], pa_service = [], pa_callsign = [], pa_status = [], pa_ship_type = [], pa_builder = [], pa_yard_number = [], pa_year_built = 0, pa_gross_tonnage = 0, pa_net_tonnage = 0, pa_tonnage_measure = [], pa_deadweight = 0, pa_length = 0, pa_beam = 0, pa_depth = 0, pa_draught = 0, pa_registry = [], pa_home_port = [], pa_owner = [], pa_operator = [], pa_former_names = [], pa_wikipedia = [], pa_commons_category = [], pa_image = []\<rparr>"

datatype pfield =
    PRegisteredName | PIdentification | PService | PCallSign | PStatus | PShipType | PBuilder | PYardNumber | PYearBuilt | PGrossTonnage | PNetTonnage | PTonnageMeasure | PDeadweight | PLength | PBeam | PDepth | PDraught | PRegistry | PHomePort | POwner | POperator | PFormerNames | PWikipedia | PCommonsCat | PImage

fun json_name :: "pfield \<Rightarrow> string" where
  "json_name PRegisteredName = ''registered_name''"
| "json_name PIdentification = ''identification''"
| "json_name PService = ''service''"
| "json_name PCallSign = ''callsign''"
| "json_name PStatus = ''status''"
| "json_name PShipType = ''ship_type''"
| "json_name PBuilder = ''builder''"
| "json_name PYardNumber = ''yard_number''"
| "json_name PYearBuilt = ''year_built''"
| "json_name PGrossTonnage = ''gross_tonnage''"
| "json_name PNetTonnage = ''net_tonnage''"
| "json_name PTonnageMeasure = ''tonnage_measure''"
| "json_name PDeadweight = ''deadweight''"
| "json_name PLength = ''length''"
| "json_name PBeam = ''beam''"
| "json_name PDepth = ''depth''"
| "json_name PDraught = ''draught''"
| "json_name PRegistry = ''registry''"
| "json_name PHomePort = ''home_port''"
| "json_name POwner = ''owner''"
| "json_name POperator = ''operator''"
| "json_name PFormerNames = ''former_names''"
| "json_name PWikipedia = ''wikipedia''"
| "json_name PCommonsCat = ''commons_category''"
| "json_name PImage = ''image''"

datatype field_value = Str string | Num int | Flt real | Names "string list"

definition is_blank :: "field_value \<Rightarrow> bool" where
  "is_blank v = (case v of Str s \<Rightarrow> s = [] | Num n \<Rightarrow> n = 0 | Flt x \<Rightarrow> x = 0 | Names ns \<Rightarrow> ns = [])"

fun value_of :: "particulars \<Rightarrow> pfield \<Rightarrow> field_value" where
  "value_of m PRegisteredName = Str (pa_registered_name m)"
| "value_of m PIdentification = Str (pa_identification m)"
| "value_of m PService = Str (pa_service m)"
| "value_of m PCallSign = Str (pa_callsign m)"
| "value_of m PStatus = Str (pa_status m)"
| "value_of m PShipType = Str (pa_ship_type m)"
| "value_of m PBuilder = Str (pa_builder m)"
| "value_of m PYardNumber = Str (pa_yard_number m)"
| "value_of m PYearBuilt = Num (pa_year_built m)"
| "value_of m PGrossTonnage = Num (pa_gross_tonnage m)"
| "value_of m PNetTonnage = Num (pa_net_tonnage m)"
| "value_of m PTonnageMeasure = Str (pa_tonnage_measure m)"
| "value_of m PDeadweight = Num (pa_deadweight m)"
| "value_of m PLength = Flt (pa_length m)"
| "value_of m PBeam = Flt (pa_beam m)"
| "value_of m PDepth = Flt (pa_depth m)"
| "value_of m PDraught = Flt (pa_draught m)"
| "value_of m PRegistry = Str (pa_registry m)"
| "value_of m PHomePort = Str (pa_home_port m)"
| "value_of m POwner = Str (pa_owner m)"
| "value_of m POperator = Str (pa_operator m)"
| "value_of m PFormerNames = Names (pa_former_names m)"
| "value_of m PWikipedia = Str (pa_wikipedia m)"
| "value_of m PCommonsCat = Str (pa_commons_category m)"
| "value_of m PImage = Str (pa_image m)"

text \<open>The document with who each of its fields is from, by JSON name.\<close>

type_synonym doc = "particulars \<times> (string \<times> string) list"

definition fill_str :: "pfield \<Rightarrow> (particulars \<Rightarrow> string) \<Rightarrow> ((string \<Rightarrow> string) \<Rightarrow> particulars \<Rightarrow> particulars) \<Rightarrow> string \<Rightarrow> string \<Rightarrow> doc \<Rightarrow> doc" where
  "fill_str f get upd source v d =
     (if v \<noteq> [] \<and> get (fst d) = [] then (upd (\<lambda>_. v) (fst d), put (json_name f) source (snd d)) else d)"

definition fill_num :: "pfield \<Rightarrow> (particulars \<Rightarrow> int) \<Rightarrow> ((int \<Rightarrow> int) \<Rightarrow> particulars \<Rightarrow> particulars) \<Rightarrow> string \<Rightarrow> int \<Rightarrow> doc \<Rightarrow> doc" where
  "fill_num f get upd source v d =
     (if v > 0 \<and> get (fst d) = 0 then (upd (\<lambda>_. v) (fst d), put (json_name f) source (snd d)) else d)"

definition fill_flt :: "pfield \<Rightarrow> (particulars \<Rightarrow> real) \<Rightarrow> ((real \<Rightarrow> real) \<Rightarrow> particulars \<Rightarrow> particulars) \<Rightarrow> string \<Rightarrow> real \<Rightarrow> doc \<Rightarrow> doc" where
  "fill_flt f get upd source v d =
     (if v > 0 \<and> get (fst d) = 0 then (upd (\<lambda>_. v) (fst d), put (json_name f) source (snd d)) else d)"

definition write_field :: "pfield \<Rightarrow> (('a \<Rightarrow> 'a) \<Rightarrow> particulars \<Rightarrow> particulars) \<Rightarrow> string \<Rightarrow> 'a \<Rightarrow> doc \<Rightarrow> doc" where
  "write_field f upd source v d = (upd (\<lambda>_. v) (fst d), put (json_name f) source (snd d))"

section \<open>The sources in their order\<close>

record enrichment =
  en_wd :: "wd_ship option"
  en_cg :: "uscg_vessel option"
  en_fd :: "fdir_vessel option"
  en_fc :: "fcc_ship option"
  en_tc :: "tc_vessel option"
  en_am :: "amsa_vessel option"
  en_is :: "ised_ship option"
  en_callsign :: string

definition from_fiskeridir :: "fdir_vessel \<Rightarrow> doc \<Rightarrow> doc" where
  "from_fiskeridir fd d0 =
     (let d1 = fill_str PRegisteredName pa_registered_name pa_registered_name_update ''fiskeridir'' (fd_name fd) d0;
          d2 = fill_str PIdentification pa_identification pa_identification_update ''fiskeridir'' (fd_registration fd) d1;
          d3 = fill_str PCallSign pa_callsign pa_callsign_update ''fiskeridir'' (fd_callsign fd) d2;
          d4 = fill_num PYearBuilt pa_year_built pa_year_built_update ''fiskeridir'' (fd_year_built fd) d3;
          d5 = fill_flt PLength pa_length pa_length_update ''fiskeridir'' (fd_length fd) d4;
          d6 = fill_flt PBeam pa_beam pa_beam_update ''fiskeridir'' (fd_beam fd) d5;
          d7 = fill_num PGrossTonnage pa_gross_tonnage pa_gross_tonnage_update ''fiskeridir'' (fd_gross fd) d6;
          d8 = fill_str POwner pa_owner pa_owner_update ''fiskeridir'' (fd_owner fd) d7;
          d9 = fill_str PRegistry pa_registry pa_registry_update ''fiskeridir'' ''Norway'' d8
      in d9)"

definition from_fcc :: "fcc_ship \<Rightarrow> doc \<Rightarrow> doc" where
  "from_fcc fc d0 =
     (let d1 = fill_str PRegisteredName pa_registered_name pa_registered_name_update ''fcc'' (fc_name fc) d0;
          d2 = fill_str PIdentification pa_identification pa_identification_update ''fcc'' (fc_official fc) d1;
          d3 = fill_str PCallSign pa_callsign pa_callsign_update ''fcc'' (fc_callsign fc) d2;
          d4 = fill_str PRegistry pa_registry pa_registry_update ''fcc'' ''United States'' d3
      in d4)"

definition from_tc :: "tc_vessel \<Rightarrow> doc \<Rightarrow> doc" where
  "from_tc tv d0 =
     (let d1 = fill_str PRegisteredName pa_registered_name pa_registered_name_update ''tc'' (tv_name tv) d0;
          d2 = fill_str PIdentification pa_identification pa_identification_update ''tc'' (tv_official tv) d1;
          d3 = fill_str PService pa_service pa_service_update ''tc'' (tv_service tv) d2;
          d4 = fill_num PYearBuilt pa_year_built pa_year_built_update ''tc'' (tv_year_built tv) d3;
          d5 = fill_num PGrossTonnage pa_gross_tonnage pa_gross_tonnage_update ''tc'' (tv_gross tv) d4;
          d6 = fill_num PNetTonnage pa_net_tonnage pa_net_tonnage_update ''tc'' (tv_net tv) d5;
          d7 = fill_flt PLength pa_length pa_length_update ''tc'' (tv_length tv) d6;
          d8 = fill_flt PBeam pa_beam pa_beam_update ''tc'' (tv_beam tv) d7;
          d9 = fill_flt PDepth pa_depth pa_depth_update ''tc'' (tv_depth tv) d8;
          d10 = fill_str PHomePort pa_home_port pa_home_port_update ''tc'' (tv_home_port tv) d9;
          d11 = fill_str PRegistry pa_registry pa_registry_update ''tc'' ''Canada'' d10
      in d11)"

definition from_amsa :: "amsa_vessel \<Rightarrow> doc \<Rightarrow> doc" where
  "from_amsa am d0 =
     (let d1 = fill_str PRegisteredName pa_registered_name pa_registered_name_update ''amsa'' (av_name am) d0;
          d2 = fill_str PIdentification pa_identification pa_identification_update ''amsa'' (av_official am) d1;
          d3 = fill_str PStatus pa_status pa_status_update ''amsa'' (av_status am) d2;
          d4 = fill_num PYearBuilt pa_year_built pa_year_built_update ''amsa'' (av_year_built am) d3;
          d5 = fill_flt PLength pa_length pa_length_update ''amsa'' (av_length am) d4;
          d6 = fill_str PHomePort pa_home_port pa_home_port_update ''amsa'' (av_home_port am) d5;
          d7 = fill_str PRegistry pa_registry pa_registry_update ''amsa'' ''Australia'' d6
      in d7)"

definition from_ised :: "ised_ship \<Rightarrow> doc \<Rightarrow> doc" where
  "from_ised isd d0 =
     (let d1 = fill_str PRegisteredName pa_registered_name pa_registered_name_update ''ised'' (is_name isd) d0;
          d2 = fill_str PCallSign pa_callsign pa_callsign_update ''ised'' (is_callsign isd) d1;
          d3 = fill_str PRegistry pa_registry pa_registry_update ''ised'' ''Canada'' d2
      in d3)"

text \<open>The Coast Guard's tonnage yields to Wikidata's unless it is the international figure.\<close>

definition uscg_tonnage :: "wd_ship option \<Rightarrow> uscg_vessel \<Rightarrow> doc \<Rightarrow> doc" where
  "uscg_tonnage wd cg d =
     (if ug_gross cg > 0 \<and> (ug_measure cg = ''Convention'' \<or> (case wd of None \<Rightarrow> True | Some w \<Rightarrow> ws_gross w = 0))
      then write_field PGrossTonnage pa_gross_tonnage_update ''uscg'' (ug_gross cg) d else d)"

definition uscg_measured :: "uscg_vessel \<Rightarrow> doc \<Rightarrow> doc" where
  "uscg_measured cg d =
     (if map_of (snd d) ''gross_tonnage'' = Some ''uscg'' \<or> map_of (snd d) ''net_tonnage'' = Some ''uscg''
      then fill_str PTonnageMeasure pa_tonnage_measure pa_tonnage_measure_update ''uscg'' (ug_measure cg) d else d)"

definition from_uscg :: "wd_ship option \<Rightarrow> uscg_vessel \<Rightarrow> doc \<Rightarrow> doc" where
  "from_uscg wd cg d0 =
     (let d1 = fill_str PRegisteredName pa_registered_name pa_registered_name_update ''uscg'' (ug_name cg) d0;
          d2 = fill_str PIdentification pa_identification pa_identification_update ''uscg'' (ug_identification cg) d1;
          d3 = fill_str PCallSign pa_callsign pa_callsign_update ''uscg'' (ug_callsign cg) d2;
          d4 = fill_str PService pa_service pa_service_update ''uscg'' (ug_service cg) d3;
          d5 = fill_str PStatus pa_status pa_status_update ''uscg'' (ug_status cg) d4;
          d6 = fill_num PYearBuilt pa_year_built pa_year_built_update ''uscg'' (ug_year_built cg) d5;
          d7 = fill_flt PLength pa_length pa_length_update ''uscg'' (ug_length cg) d6;
          d8 = fill_flt PBeam pa_beam pa_beam_update ''uscg'' (ug_beam cg) d7;
          d9 = fill_flt PDepth pa_depth pa_depth_update ''uscg'' (ug_depth cg) d8;
          d10 = fill_num PNetTonnage pa_net_tonnage pa_net_tonnage_update ''uscg'' (ug_net cg) d9;
          d11 = uscg_tonnage wd cg d10;
          d12 = uscg_measured cg d11;
          d13 = fill_str PRegistry pa_registry pa_registry_update ''uscg'' ''United States'' d12
      in d13)"

text \<open>A call sign on an item yields to a different one on AIS.\<close>

definition wd_call_sign_field :: "(string \<Rightarrow> string) \<Rightarrow> (string \<Rightarrow> string) \<Rightarrow> string \<Rightarrow> wd_ship \<Rightarrow> doc \<Rightarrow> doc" where
  "wd_call_sign_field upper drop_spaces heard w d =
     (let ais = wd_call_sign upper drop_spaces heard in
      if ais = [] \<or> ais = ws_callsign w then fill_str PCallSign pa_callsign pa_callsign_update ''wikidata'' (ws_callsign w) d else d)"

definition wd_former_names :: "wd_ship \<Rightarrow> doc \<Rightarrow> doc" where
  "wd_former_names w d = (if ws_former_names w \<noteq> [] then write_field PFormerNames pa_former_names_update ''wikidata'' (ws_former_names w) d else d)"

definition from_wikidata :: "(string \<Rightarrow> string) \<Rightarrow> (string \<Rightarrow> string) \<Rightarrow> string \<Rightarrow> wd_ship \<Rightarrow> doc \<Rightarrow> doc" where
  "from_wikidata upper drop_spaces heard w d0 =
     (let d1 = fill_str PShipType pa_ship_type pa_ship_type_update ''wikidata'' (ws_ship_type w) d0;
          d2 = fill_str PBuilder pa_builder pa_builder_update ''wikidata'' (ws_builder w) d1;
          d3 = fill_str PYardNumber pa_yard_number pa_yard_number_update ''wikidata'' (ws_yard_number w) d2;
          d4 = fill_num PYearBuilt pa_year_built pa_year_built_update ''wikidata'' (ws_year_built w) d3;
          d5 = fill_num PGrossTonnage pa_gross_tonnage pa_gross_tonnage_update ''wikidata'' (ws_gross w) d4;
          d6 = fill_num PDeadweight pa_deadweight pa_deadweight_update ''wikidata'' (ws_deadweight w) d5;
          d7 = fill_flt PLength pa_length pa_length_update ''wikidata'' (ws_length w) d6;
          d8 = fill_flt PBeam pa_beam pa_beam_update ''wikidata'' (ws_beam w) d7;
          d9 = fill_flt PDraught pa_draught pa_draught_update ''wikidata'' (ws_draught w) d8;
          d10 = fill_str PRegistry pa_registry pa_registry_update ''wikidata'' (ws_registry w) d9;
          d11 = fill_str PHomePort pa_home_port pa_home_port_update ''wikidata'' (ws_home_port w) d10;
          d12 = wd_call_sign_field upper drop_spaces heard w d11;
          d13 = fill_str POwner pa_owner pa_owner_update ''wikidata'' (ws_owner w) d12;
          d14 = fill_str POperator pa_operator pa_operator_update ''wikidata'' (ws_operator w) d13;
          d15 = wd_former_names w d14;
          d16 = fill_str PWikipedia pa_wikipedia pa_wikipedia_update ''wikidata'' (ws_wikipedia w) d15;
          d17 = fill_str PCommonsCat pa_commons_category pa_commons_category_update ''wikidata'' (ws_commons w) d16;
          d18 = fill_str PImage pa_image pa_image_update ''wikidata'' (ws_image w) d17
      in d18)"

definition when_some :: "('a \<Rightarrow> doc \<Rightarrow> doc) \<Rightarrow> 'a option \<Rightarrow> doc \<Rightarrow> doc" where
  "when_some step r d = (case r of None \<Rightarrow> d | Some x \<Rightarrow> step x d)"

record source_ref =
  sr_credit :: string
  sr_license :: string
  sr_url :: string

definition amsa_search :: "imo \<Rightarrow> string" where
  "amsa_search n = ''https://www.amsa.gov.au/vessels-operators/ship-registration/list-registered-ships?combine='' @ dec (unat n)"

text \<open>The copyright sign before AMSA's name is two bytes.\<close>

definition amsa_credit :: string where
  "amsa_credit = [char_of (0xC2 :: nat), char_of (0xA9 :: nat)] @ '' Australian Maritime Safety Authority''"

definition source_refs :: "enrichment \<Rightarrow> (string \<times> source_ref) list" where
  "source_refs e =
     (case en_wd e of None \<Rightarrow> [] | Some w \<Rightarrow> [(''wikidata'', \<lparr>sr_credit = ''Wikidata'', sr_license = ''CC0-1.0'', sr_url = ws_url w\<rparr>)]) @
     (case en_cg e of None \<Rightarrow> [] | Some _ \<Rightarrow> [(''uscg'', \<lparr>sr_credit = ''U.S. Coast Guard PSIX'',
        sr_license = ''public domain (U.S. government work)'', sr_url = ''https://cgmix.uscg.mil/PSIX/PSIXSearch.aspx''\<rparr>)]) @
     (case en_fd e of None \<Rightarrow> [] | Some _ \<Rightarrow> [(''fiskeridir'', \<lparr>sr_credit = ''Norwegian Directorate of Fisheries'',
        sr_license = ''NLOD-2.0'', sr_url = []\<rparr>)]) @
     (case en_fc e of None \<Rightarrow> [] | Some f \<Rightarrow> [(''fcc'', \<lparr>sr_credit = ''FCC ship station license'',
        sr_license = ''public domain (U.S. government work)'',
        sr_url = ''https://wireless2.fcc.gov/UlsApp/UlsSearch/license.jsp?licKey='' @
          (if fc_usi f < 0 then ''-'' @ dec (nat (- fc_usi f)) else dec (nat (fc_usi f)))\<rparr>)]) @
     (case en_tc e of None \<Rightarrow> [] | Some _ \<Rightarrow> [(''tc'', \<lparr>sr_credit = ''Transport Canada vessel registry'',
        sr_license = ''OGL-Canada-2.0'', sr_url = []\<rparr>)]) @
     (case en_am e of None \<Rightarrow> [] | Some a \<Rightarrow> [(''amsa'', \<lparr>sr_credit = amsa_credit,
        sr_license = ''CC-BY-4.0'', sr_url = amsa_search (av_imo a)\<rparr>)]) @
     (case en_is e of None \<Rightarrow> [] | Some _ \<Rightarrow> [(''ised'', \<lparr>sr_credit = ''ISED Canadian MMSI registry'',
        sr_license = ''Crown copyright (Canada)'', sr_url = ''https://ised-isde.canada.ca/mmsi-ismm/eng/shipSearch.html''\<rparr>)])"

definition merged_doc :: "(string \<Rightarrow> string) \<Rightarrow> (string \<Rightarrow> string) \<Rightarrow> enrichment \<Rightarrow> doc" where
  "merged_doc upper drop_spaces e =
     (let d1 = when_some (from_uscg (en_wd e)) (en_cg e) (no_particulars, []);
          d2 = when_some from_fiskeridir (en_fd e) d1;
          d3 = when_some from_fcc (en_fc e) d2;
          d4 = when_some from_tc (en_tc e) d3;
          d5 = when_some from_amsa (en_am e) d4;
          d6 = when_some from_ised (en_is e) d5;
          d7 = when_some (from_wikidata upper drop_spaces (en_callsign e)) (en_wd e) d6
      in when_some (\<lambda>a. fill_str PShipType pa_ship_type pa_ship_type_update ''amsa'' (av_ship_type a)) (en_am e) d7)"

definition no_sources :: "enrichment \<Rightarrow> bool" where
  "no_sources e \<longleftrightarrow> en_wd e = None \<and> en_cg e = None \<and> en_fd e = None \<and> en_fc e = None \<and> en_tc e = None \<and> en_am e = None \<and> en_is e = None"

definition merge_particulars ::
  "(string \<Rightarrow> string) \<Rightarrow> (string \<Rightarrow> string) \<Rightarrow> enrichment \<Rightarrow> (particulars \<times> (string \<times> string) list \<times> (string \<times> source_ref) list) option" where
  "merge_particulars upper drop_spaces e =
     (if no_sources e then None
      else case merged_doc upper drop_spaces e of (m, prov) \<Rightarrow> Some (m, prov, source_refs e))"

section \<open>Every field is credited to who says it\<close>

text \<open>What each source's row says of each field.\<close>

definition says_uscg :: "uscg_vessel \<Rightarrow> pfield \<Rightarrow> field_value" where
  "says_uscg cg f = (case f of
     PRegisteredName \<Rightarrow> Str (ug_name cg)
   | PIdentification \<Rightarrow> Str (ug_identification cg)
   | PCallSign \<Rightarrow> Str (ug_callsign cg)
   | PService \<Rightarrow> Str (ug_service cg)
   | PStatus \<Rightarrow> Str (ug_status cg)
   | PYearBuilt \<Rightarrow> Num (ug_year_built cg)
   | PLength \<Rightarrow> Flt (ug_length cg)
   | PBeam \<Rightarrow> Flt (ug_beam cg)
   | PDepth \<Rightarrow> Flt (ug_depth cg)
   | PNetTonnage \<Rightarrow> Num (ug_net cg)
   | PGrossTonnage \<Rightarrow> Num (ug_gross cg)
   | PTonnageMeasure \<Rightarrow> Str (ug_measure cg)
   | PRegistry \<Rightarrow> Str ''United States''
   | _ \<Rightarrow> Str [])"

definition says_fdir :: "fdir_vessel \<Rightarrow> pfield \<Rightarrow> field_value" where
  "says_fdir fd f = (case f of
     PRegisteredName \<Rightarrow> Str (fd_name fd)
   | PIdentification \<Rightarrow> Str (fd_registration fd)
   | PCallSign \<Rightarrow> Str (fd_callsign fd)
   | PYearBuilt \<Rightarrow> Num (fd_year_built fd)
   | PLength \<Rightarrow> Flt (fd_length fd)
   | PBeam \<Rightarrow> Flt (fd_beam fd)
   | PGrossTonnage \<Rightarrow> Num (fd_gross fd)
   | POwner \<Rightarrow> Str (fd_owner fd)
   | PRegistry \<Rightarrow> Str ''Norway''
   | _ \<Rightarrow> Str [])"

definition says_fcc :: "fcc_ship \<Rightarrow> pfield \<Rightarrow> field_value" where
  "says_fcc fc f = (case f of
     PRegisteredName \<Rightarrow> Str (fc_name fc)
   | PIdentification \<Rightarrow> Str (fc_official fc)
   | PCallSign \<Rightarrow> Str (fc_callsign fc)
   | PRegistry \<Rightarrow> Str ''United States''
   | _ \<Rightarrow> Str [])"

definition says_tc :: "tc_vessel \<Rightarrow> pfield \<Rightarrow> field_value" where
  "says_tc tv f = (case f of
     PRegisteredName \<Rightarrow> Str (tv_name tv)
   | PIdentification \<Rightarrow> Str (tv_official tv)
   | PService \<Rightarrow> Str (tv_service tv)
   | PYearBuilt \<Rightarrow> Num (tv_year_built tv)
   | PGrossTonnage \<Rightarrow> Num (tv_gross tv)
   | PNetTonnage \<Rightarrow> Num (tv_net tv)
   | PLength \<Rightarrow> Flt (tv_length tv)
   | PBeam \<Rightarrow> Flt (tv_beam tv)
   | PDepth \<Rightarrow> Flt (tv_depth tv)
   | PHomePort \<Rightarrow> Str (tv_home_port tv)
   | PRegistry \<Rightarrow> Str ''Canada''
   | _ \<Rightarrow> Str [])"

definition says_amsa :: "amsa_vessel \<Rightarrow> pfield \<Rightarrow> field_value" where
  "says_amsa am f = (case f of
     PRegisteredName \<Rightarrow> Str (av_name am)
   | PIdentification \<Rightarrow> Str (av_official am)
   | PStatus \<Rightarrow> Str (av_status am)
   | PYearBuilt \<Rightarrow> Num (av_year_built am)
   | PLength \<Rightarrow> Flt (av_length am)
   | PHomePort \<Rightarrow> Str (av_home_port am)
   | PRegistry \<Rightarrow> Str ''Australia''
   | PShipType \<Rightarrow> Str (av_ship_type am)
   | _ \<Rightarrow> Str [])"

definition says_ised :: "ised_ship \<Rightarrow> pfield \<Rightarrow> field_value" where
  "says_ised isd f = (case f of
     PRegisteredName \<Rightarrow> Str (is_name isd)
   | PCallSign \<Rightarrow> Str (is_callsign isd)
   | PRegistry \<Rightarrow> Str ''Canada''
   | _ \<Rightarrow> Str [])"

definition says_wikidata :: "wd_ship \<Rightarrow> pfield \<Rightarrow> field_value" where
  "says_wikidata w f = (case f of
     PShipType \<Rightarrow> Str (ws_ship_type w)
   | PBuilder \<Rightarrow> Str (ws_builder w)
   | PYardNumber \<Rightarrow> Str (ws_yard_number w)
   | PYearBuilt \<Rightarrow> Num (ws_year_built w)
   | PGrossTonnage \<Rightarrow> Num (ws_gross w)
   | PDeadweight \<Rightarrow> Num (ws_deadweight w)
   | PLength \<Rightarrow> Flt (ws_length w)
   | PBeam \<Rightarrow> Flt (ws_beam w)
   | PDraught \<Rightarrow> Flt (ws_draught w)
   | PRegistry \<Rightarrow> Str (ws_registry w)
   | PHomePort \<Rightarrow> Str (ws_home_port w)
   | PCallSign \<Rightarrow> Str (ws_callsign w)
   | POwner \<Rightarrow> Str (ws_owner w)
   | POperator \<Rightarrow> Str (ws_operator w)
   | PFormerNames \<Rightarrow> Names (ws_former_names w)
   | PWikipedia \<Rightarrow> Str (ws_wikipedia w)
   | PCommonsCat \<Rightarrow> Str (ws_commons w)
   | PImage \<Rightarrow> Str (ws_image w)
   | _ \<Rightarrow> Str [])"

definition source_says :: "enrichment \<Rightarrow> string \<Rightarrow> (pfield \<Rightarrow> field_value) option" where
  "source_says e s =
     (if s = ''wikidata'' then map_option says_wikidata (en_wd e)
      else if s = ''uscg'' then map_option says_uscg (en_cg e)
      else if s = ''fiskeridir'' then map_option says_fdir (en_fd e)
      else if s = ''fcc'' then map_option says_fcc (en_fc e)
      else if s = ''tc'' then map_option says_tc (en_tc e)
      else if s = ''amsa'' then map_option says_amsa (en_am e)
      else if s = ''ised'' then map_option says_ised (en_is e)
      else None)"

lemma one_source: "s \<in> fst ` set (case r of None \<Rightarrow> [] | Some x \<Rightarrow> [(k, g x)]) \<longleftrightarrow> r \<noteq> None \<and> s = k"
  by (auto split: option.split)

lemma source_refs_says: "s \<in> fst ` set (source_refs e) \<longleftrightarrow> source_says e s \<noteq> None"
proof -
  have "s \<in> fst ` set (source_refs e) \<longleftrightarrow>
      en_wd e \<noteq> None \<and> s = ''wikidata'' \<or> en_cg e \<noteq> None \<and> s = ''uscg'' \<or> en_fd e \<noteq> None \<and> s = ''fiskeridir'' \<or>
      en_fc e \<noteq> None \<and> s = ''fcc'' \<or> en_tc e \<noteq> None \<and> s = ''tc'' \<or> en_am e \<noteq> None \<and> s = ''amsa'' \<or>
      en_is e \<noteq> None \<and> s = ''ised''"
    unfolding source_refs_def set_append image_Un Un_iff one_source by blast
  then show ?thesis by (simp add: source_says_def)
qed

lemma all_fields: "(\<forall>g. P g) \<longleftrightarrow> P PRegisteredName \<and> P PIdentification \<and> P PService \<and> P PCallSign \<and> P PStatus \<and> P PShipType \<and> P PBuilder \<and> P PYardNumber \<and> P PYearBuilt \<and> P PGrossTonnage \<and> P PNetTonnage \<and> P PTonnageMeasure \<and> P PDeadweight \<and> P PLength \<and> P PBeam \<and> P PDepth \<and> P PDraught \<and> P PRegistry \<and> P PHomePort \<and> P POwner \<and> P POperator \<and> P PFormerNames \<and> P PWikipedia \<and> P PCommonsCat \<and> P PImage"
proof
  assume a: "P PRegisteredName \<and> P PIdentification \<and> P PService \<and> P PCallSign \<and> P PStatus \<and> P PShipType \<and> P PBuilder \<and> P PYardNumber \<and> P PYearBuilt \<and> P PGrossTonnage \<and> P PNetTonnage \<and> P PTonnageMeasure \<and> P PDeadweight \<and> P PLength \<and> P PBeam \<and> P PDepth \<and> P PDraught \<and> P PRegistry \<and> P PHomePort \<and> P POwner \<and> P POperator \<and> P PFormerNames \<and> P PWikipedia \<and> P PCommonsCat \<and> P PImage"
  show "\<forall>g. P g"
  proof
    fix g show "P g" using a by (cases g) simp_all
  qed
qed simp

lemma json_name_inj [simp]: "json_name f = json_name g \<longleftrightarrow> f = g"
proof -
  define fs where "fs = [PRegisteredName, PIdentification, PService, PCallSign, PStatus, PShipType, PBuilder, PYardNumber, PYearBuilt, PGrossTonnage, PNetTonnage, PTonnageMeasure, PDeadweight, PLength, PBeam, PDepth, PDraught, PRegistry, PHomePort, POwner, POperator, PFormerNames, PWikipedia, PCommonsCat, PImage]"
  have "distinct (map json_name fs)" unfolding fs_def by code_simp
  then have "inj_on json_name (set fs)" by (simp add: distinct_map)
  moreover have "\<forall>h. h \<in> set fs" unfolding all_fields fs_def by simp
  ultimately show ?thesis by (auto dest: inj_onD)
qed

definition credited :: "enrichment \<Rightarrow> doc \<Rightarrow> bool" where
  "credited e d \<longleftrightarrow> (\<forall>f.
     (case map_of (snd d) (json_name f) of
        None \<Rightarrow> is_blank (value_of (fst d) f)
      | Some s \<Rightarrow> \<not> is_blank (value_of (fst d) f) \<and> (\<exists>says. source_says e s = Some says \<and> value_of (fst d) f = says f))) \<and>
     (\<forall>k. map_of (snd d) k \<noteq> None \<longrightarrow> k \<in> range json_name)"

text \<open>A field of the record under its JSON name: writing it changes what that name reads, and nothing else.\<close>

locale doc_field =
  fixes f :: pfield and upd :: "('a \<Rightarrow> 'a) \<Rightarrow> particulars \<Rightarrow> particulars" and wrap :: "'a \<Rightarrow> field_value"
  assumes write_reads: "\<forall>g. value_of (upd (\<lambda>_. v) m) g = (if g = f then wrap v else value_of m g)"
begin

lemma write_read: "value_of (upd (\<lambda>_. v) m) g = (if g = f then wrap v else value_of m g)"
  using write_reads by blast

lemma write_credited:
  assumes "credited e d" "\<not> is_blank (wrap v)" "source_says e s = Some says" "says f = wrap v"
  shows "credited e (write_field f upd s v d)"
proof -
  have "case map_of (snd (write_field f upd s v d)) (json_name g) of
        None \<Rightarrow> is_blank (value_of (fst (write_field f upd s v d)) g)
      | Some s' \<Rightarrow> \<not> is_blank (value_of (fst (write_field f upd s v d)) g) \<and>
          (\<exists>says. source_says e s' = Some says \<and> value_of (fst (write_field f upd s v d)) g = says g)" for g
  proof (cases "g = f")
    case True
    then show ?thesis using assms(2-4) by (simp add: write_field_def write_read map_of_put)
  next
    case False
    then have "value_of (fst (write_field f upd s v d)) g = value_of (fst d) g"
      "map_of (snd (write_field f upd s v d)) (json_name g) = map_of (snd d) (json_name g)"
      by (simp_all add: write_field_def write_read map_of_put)
    then show ?thesis using assms(1) by (simp only: credited_def)
  qed
  moreover have "k \<in> range json_name" if "map_of (snd (write_field f upd s v d)) k \<noteq> None" for k
    using assms(1) that by (auto simp: credited_def write_field_def map_of_put split: if_splits)
  ultimately show ?thesis unfolding credited_def by blast
qed

end

interpretation registered_name_field: doc_field PRegisteredName pa_registered_name_update Str
  by unfold_locales (simp add: all_fields)
interpretation identification_field: doc_field PIdentification pa_identification_update Str
  by unfold_locales (simp add: all_fields)
interpretation service_field: doc_field PService pa_service_update Str
  by unfold_locales (simp add: all_fields)
interpretation callsign_field: doc_field PCallSign pa_callsign_update Str
  by unfold_locales (simp add: all_fields)
interpretation status_field: doc_field PStatus pa_status_update Str
  by unfold_locales (simp add: all_fields)
interpretation ship_type_field: doc_field PShipType pa_ship_type_update Str
  by unfold_locales (simp add: all_fields)
interpretation builder_field: doc_field PBuilder pa_builder_update Str
  by unfold_locales (simp add: all_fields)
interpretation yard_number_field: doc_field PYardNumber pa_yard_number_update Str
  by unfold_locales (simp add: all_fields)
interpretation year_built_field: doc_field PYearBuilt pa_year_built_update Num
  by unfold_locales (simp add: all_fields)
interpretation gross_tonnage_field: doc_field PGrossTonnage pa_gross_tonnage_update Num
  by unfold_locales (simp add: all_fields)
interpretation net_tonnage_field: doc_field PNetTonnage pa_net_tonnage_update Num
  by unfold_locales (simp add: all_fields)
interpretation tonnage_measure_field: doc_field PTonnageMeasure pa_tonnage_measure_update Str
  by unfold_locales (simp add: all_fields)
interpretation deadweight_field: doc_field PDeadweight pa_deadweight_update Num
  by unfold_locales (simp add: all_fields)
interpretation length_field: doc_field PLength pa_length_update Flt
  by unfold_locales (simp add: all_fields)
interpretation beam_field: doc_field PBeam pa_beam_update Flt
  by unfold_locales (simp add: all_fields)
interpretation depth_field: doc_field PDepth pa_depth_update Flt
  by unfold_locales (simp add: all_fields)
interpretation draught_field: doc_field PDraught pa_draught_update Flt
  by unfold_locales (simp add: all_fields)
interpretation registry_field: doc_field PRegistry pa_registry_update Str
  by unfold_locales (simp add: all_fields)
interpretation home_port_field: doc_field PHomePort pa_home_port_update Str
  by unfold_locales (simp add: all_fields)
interpretation owner_field: doc_field POwner pa_owner_update Str
  by unfold_locales (simp add: all_fields)
interpretation operator_field: doc_field POperator pa_operator_update Str
  by unfold_locales (simp add: all_fields)
interpretation former_names_field: doc_field PFormerNames pa_former_names_update Names
  by unfold_locales (simp add: all_fields)
interpretation wikipedia_field: doc_field PWikipedia pa_wikipedia_update Str
  by unfold_locales (simp add: all_fields)
interpretation commons_category_field: doc_field PCommonsCat pa_commons_category_update Str
  by unfold_locales (simp add: all_fields)
interpretation image_field: doc_field PImage pa_image_update Str
  by unfold_locales (simp add: all_fields)

lemmas doc_fields = registered_name_field.doc_field_axioms
  identification_field.doc_field_axioms
  service_field.doc_field_axioms
  callsign_field.doc_field_axioms
  status_field.doc_field_axioms
  ship_type_field.doc_field_axioms
  builder_field.doc_field_axioms
  yard_number_field.doc_field_axioms
  year_built_field.doc_field_axioms
  gross_tonnage_field.doc_field_axioms
  net_tonnage_field.doc_field_axioms
  tonnage_measure_field.doc_field_axioms
  deadweight_field.doc_field_axioms
  length_field.doc_field_axioms
  beam_field.doc_field_axioms
  depth_field.doc_field_axioms
  draught_field.doc_field_axioms
  registry_field.doc_field_axioms
  home_port_field.doc_field_axioms
  owner_field.doc_field_axioms
  operator_field.doc_field_axioms
  former_names_field.doc_field_axioms
  wikipedia_field.doc_field_axioms
  commons_category_field.doc_field_axioms
  image_field.doc_field_axioms

lemma fill_str_credited:
  "doc_field f upd Str \<Longrightarrow> credited e d \<Longrightarrow> source_says e s = Some says \<Longrightarrow> says f = Str v \<Longrightarrow> credited e (fill_str f get upd s v d)"
  using doc_field.write_credited [of f upd Str e d v s says] by (auto simp: fill_str_def write_field_def is_blank_def)

lemma fill_num_credited:
  "doc_field f upd Num \<Longrightarrow> credited e d \<Longrightarrow> source_says e s = Some says \<Longrightarrow> says f = Num v \<Longrightarrow> credited e (fill_num f get upd s v d)"
  using doc_field.write_credited [of f upd Num e d v s says] by (auto simp: fill_num_def write_field_def is_blank_def)

lemma fill_flt_credited:
  "doc_field f upd Flt \<Longrightarrow> credited e d \<Longrightarrow> source_says e s = Some says \<Longrightarrow> says f = Flt v \<Longrightarrow> credited e (fill_flt f get upd s v d)"
  using doc_field.write_credited [of f upd Flt e d v s says] by (auto simp: fill_flt_def write_field_def is_blank_def)

lemma from_uscg_credited:
  assumes "credited e d" and h: "source_says e ''uscg'' = Some (says_uscg cg)"
  shows "credited e (from_uscg wd cg d)"
proof -
  note fills = fill_str_credited [OF _ _ h] fill_num_credited [OF _ _ h] fill_flt_credited [OF _ _ h]
  have ton: "credited e (uscg_tonnage wd cg x)" if "credited e x" for x
    using that gross_tonnage_field.write_credited [OF that _ h] by (simp add: uscg_tonnage_def is_blank_def says_uscg_def)
  have meas: "credited e (uscg_measured cg x)" if "credited e x" for x
    using that fills(1) [OF tonnage_measure_field.doc_field_axioms that] by (simp add: uscg_measured_def says_uscg_def)
  show ?thesis unfolding from_uscg_def Let_def
    by (intro fills doc_fields ton meas assms(1)) (simp_all add: says_uscg_def)
qed

lemma from_fiskeridir_credited:
  assumes "credited e d" and h: "source_says e ''fiskeridir'' = Some (says_fdir fd)"
  shows "credited e (from_fiskeridir fd d)"
  unfolding from_fiskeridir_def Let_def
  by (intro fill_str_credited [OF _ _ h] fill_num_credited [OF _ _ h] fill_flt_credited [OF _ _ h] doc_fields assms(1)) (simp_all add: says_fdir_def)

lemma from_fcc_credited:
  assumes "credited e d" and h: "source_says e ''fcc'' = Some (says_fcc fc)"
  shows "credited e (from_fcc fc d)"
  unfolding from_fcc_def Let_def
  by (intro fill_str_credited [OF _ _ h] fill_num_credited [OF _ _ h] fill_flt_credited [OF _ _ h] doc_fields assms(1)) (simp_all add: says_fcc_def)

lemma from_tc_credited:
  assumes "credited e d" and h: "source_says e ''tc'' = Some (says_tc tv)"
  shows "credited e (from_tc tv d)"
  unfolding from_tc_def Let_def
  by (intro fill_str_credited [OF _ _ h] fill_num_credited [OF _ _ h] fill_flt_credited [OF _ _ h] doc_fields assms(1)) (simp_all add: says_tc_def)

lemma from_amsa_credited:
  assumes "credited e d" and h: "source_says e ''amsa'' = Some (says_amsa am)"
  shows "credited e (from_amsa am d)"
  unfolding from_amsa_def Let_def
  by (intro fill_str_credited [OF _ _ h] fill_num_credited [OF _ _ h] fill_flt_credited [OF _ _ h] doc_fields assms(1)) (simp_all add: says_amsa_def)

lemma from_ised_credited:
  assumes "credited e d" and h: "source_says e ''ised'' = Some (says_ised isd)"
  shows "credited e (from_ised isd d)"
  unfolding from_ised_def Let_def
  by (intro fill_str_credited [OF _ _ h] fill_num_credited [OF _ _ h] fill_flt_credited [OF _ _ h] doc_fields assms(1)) (simp_all add: says_ised_def)

lemma from_wikidata_credited:
  assumes "credited e d" and h: "source_says e ''wikidata'' = Some (says_wikidata w)"
  shows "credited e (from_wikidata upper drop_spaces heard w d)"
proof -
  note fills = fill_str_credited [OF _ _ h] fill_num_credited [OF _ _ h] fill_flt_credited [OF _ _ h]
  have cs: "credited e (wd_call_sign_field upper drop_spaces heard w x)" if "credited e x" for x
    using that fills(1) [OF callsign_field.doc_field_axioms that] by (simp add: wd_call_sign_field_def Let_def says_wikidata_def)
  have fn: "credited e (wd_former_names w x)" if "credited e x" for x
    using that former_names_field.write_credited [OF that _ h] by (simp add: wd_former_names_def is_blank_def says_wikidata_def)
  show ?thesis unfolding from_wikidata_def Let_def
    by (intro fills doc_fields cs fn assms(1)) (simp_all add: says_wikidata_def)
qed

lemma when_some_credited:
  "credited e d \<Longrightarrow> (\<And>x. r = Some x \<Longrightarrow> credited e (step x d)) \<Longrightarrow> credited e (when_some step r d)"
  by (simp add: when_some_def split: option.split)

lemma merged_doc_credited: "credited e (merged_doc upper drop_spaces e)"
proof -
  have none: "credited e (no_particulars, [])" by (auto simp: credited_def all_fields no_particulars_def is_blank_def)
  have amsa: "credited e (fill_str PShipType pa_ship_type pa_ship_type_update ''amsa'' (av_ship_type a) d)"
    if "credited e d" "en_am e = Some a" for a d
    using that by (intro fill_str_credited [OF ship_type_field.doc_field_axioms, of e d _ "says_amsa a"])
      (simp_all add: source_says_def says_amsa_def)
  show ?thesis unfolding merged_doc_def Let_def
    by (intro when_some_credited none from_uscg_credited from_fiskeridir_credited from_fcc_credited from_tc_credited
        from_amsa_credited from_ised_credited from_wikidata_credited amsa) (simp_all add: source_says_def)
qed

text \<open>
  C30. The merged particulars are credited, field by field: the provenance names exactly the fields the document has, each
  field's value is what the row of the source it names says, and every source it names is in the sources with its credit and
  license. No value is served that no source said.
\<close>

theorem particulars_credited:
  "merge_particulars upper drop_spaces e = Some (m, prov, refs) \<Longrightarrow>
     (case map_of prov (json_name f) of
        None \<Rightarrow> is_blank (value_of m f)
      | Some s \<Rightarrow> \<not> is_blank (value_of m f) \<and> s \<in> fst ` set refs \<and>
          (\<exists>says. source_says e s = Some says \<and> value_of m f = says f))"
proof -
  assume a: "merge_particulars upper drop_spaces e = Some (m, prov, refs)"
  then have d: "merged_doc upper drop_spaces e = (m, prov)" and r: "refs = source_refs e"
    by (auto simp: merge_particulars_def split: if_splits prod.splits)
  have "case map_of prov (json_name f) of
        None \<Rightarrow> is_blank (value_of m f)
      | Some s \<Rightarrow> \<not> is_blank (value_of m f) \<and> (\<exists>says. source_says e s = Some says \<and> value_of m f = says f)"
    using merged_doc_credited [of e upper drop_spaces] unfolding credited_def d fst_conv snd_conv by blast
  then show ?thesis unfolding r by (auto simp: source_refs_says split: option.splits)
qed


definition sample_license :: enrichment where
  "sample_license = \<lparr>en_wd = None, en_cg = None, en_fd = None,
     en_fc = Some \<lparr>fc_mmsi = 366000001, fc_usi = 7, fc_callsign = ''WDC1234'', fc_name = [], fc_official = []\<rparr>,
     en_tc = None, en_am = None, en_is = None, en_callsign = []\<rparr>"

lemma sample_license_prov: "map_of (snd (merged_doc id id sample_license)) ''callsign'' = Some ''fcc''"
    "map_of (snd (merged_doc id id sample_license)) ''registered_name'' = None"
  by (simp_all add: sample_license_def merged_doc_def when_some_def from_fcc_def Let_def fill_str_def no_particulars_def map_of_put)

lemma particulars_credited_witness:
  "is_blank (value_of (fst (merged_doc id id sample_license)) PRegisteredName)"
proof -
  have "merge_particulars id id sample_license =
      Some (fst (merged_doc id id sample_license), snd (merged_doc id id sample_license), source_refs sample_license)"
    by (simp add: merge_particulars_def split_def) (simp add: no_sources_def sample_license_def)
  from particulars_credited [OF this, of PRegisteredName] show ?thesis by (simp add: sample_license_prov)
qed

section \<open>One vessel's particulars\<close>

text \<open>The stored registers, each \<open>None\<close> without a store or where its read fails.\<close>

record registers =
  rs_wd :: "(imo \<times> wd_ship) list option"
  rs_cg :: "uscg_vessel list option"
  rs_fd :: "fdir_vessel list option"
  rs_fc :: "fcc_ship list option"
  rs_tc :: "tc_vessel list option"
  rs_am :: "amsa_vessel list option"
  rs_is :: "(mmsi \<times> ised_ship \<times> int) list option"

definition named_alike :: "(string \<Rightarrow> string) \<Rightarrow> string \<Rightarrow> ('v \<Rightarrow> string) \<Rightarrow> 'v option \<Rightarrow> 'v option" where
  "named_alike upper name name_of r = (case r of None \<Rightarrow> None | Some v \<Rightarrow> if names_agree upper name (name_of v) then Some v else None)"

definition enrich :: "(string \<Rightarrow> string) \<Rightarrow> registers \<Rightarrow> mmsi \<Rightarrow> vessel \<Rightarrow> enrichment" where
  "enrich upper rs m v =
     (let fc = map_of (fcc_of (rs_fc rs) [m]) m;
          key = \<lparr>uk_mmsi = m, uk_callsign = v_callsign v, uk_name = v_name v,
                 uk_official = (case fc of None \<Rightarrow> [] | Some f \<Rightarrow> fc_official f)\<rparr>
      in \<lparr>en_wd = map_of (wikidata_of (rs_wd rs) [v_imo v]) (v_imo v),
          en_cg = map_of (uscg_of upper (rs_cg rs) [key]) m,
          en_fd = map_of (fiskeridir_of upper (rs_fd rs) [\<lparr>fk_mmsi = m, fk_callsign = v_callsign v, fk_name = v_name v\<rparr>]) m,
          en_fc = fc,
          en_tc = (if flag_of m = ''CA'' then named_alike upper (v_name v) tv_name (map_of (tc_of (rs_tc rs) [v_imo v]) (v_imo v)) else None),
          en_am = (if flag_of m = ''AU'' then named_alike upper (v_name v) av_name (map_of (amsa_of (rs_am rs) [v_imo v]) (v_imo v)) else None),
          en_is = (if flag_of m = ''CA'' then map_of (ised_of (rs_is rs) [m]) m else None),
          en_callsign = v_callsign v\<rparr>)"

text \<open>Gear's MMSI is whatever its owner chose, so no register speaks for it.\<close>

definition vessel_particulars ::
  "(string \<Rightarrow> string) \<Rightarrow> (string \<Rightarrow> string) \<Rightarrow> registers \<Rightarrow> mmsi \<Rightarrow> vessel \<Rightarrow>
   (particulars \<times> (string \<times> string) list \<times> (string \<times> source_ref) list) option" where
  "vessel_particulars upper drop_spaces rs m v =
     (if v_kind v = ''gear'' then None else merge_particulars upper drop_spaces (enrich upper rs m v))"

text \<open>\<open>serveVessel\<close>: the vessel's answer with its particulars.\<close>

definition serve_enriched ::
  "(real \<Rightarrow> real \<Rightarrow> string) \<Rightarrow> (string \<Rightarrow> string) \<Rightarrow> (string \<Rightarrow> string) \<Rightarrow> registers \<Rightarrow> vessel_env \<Rightarrow> mmsi \<Rightarrow>
   one_error + vessel_answer \<times> (particulars \<times> (string \<times> string) list \<times> (string \<times> source_ref) list) option" where
  "serve_enriched near upper drop_spaces rs env m =
     (case current_state env m of
        Inl e \<Rightarrow> Inl e
      | Inr (v, _) \<Rightarrow>
          (case serve_vessel near env m of Inl e \<Rightarrow> Inl e | Inr a \<Rightarrow> Inr (a, vessel_particulars upper drop_spaces rs m v)))"

end
