(* ===== verification/Mvt.thy ===== *)
theory Mvt
  imports Prelude
begin

text \<open>
  Mapbox vector tiles as \<open>server/tiles.go\<close> writes them: variable-length integers, length-delimited
  fields, a layer with its interned keys and values, points and polygons of one ring. A byte is an
  8-bit word; a length or an index is a natural number below \<open>2 ^ 64\<close>.

  \<open>read_tile\<close> is the reader the encoding is checked against: it reads the fields of a protocol buffer,
  resolves each feature's tags in the layer's tables and follows its drawing commands.

  A \<open>float64\<close> value is written by its bits, \<open>Float64bits\<close>, which are a parameter.
\<close>

type_synonym bytes = "8 word list"

section \<open>Writing\<close>

text \<open>\<open>binary.AppendUvarint\<close>.\<close>

fun uvarint :: "nat \<Rightarrow> bytes" where
  "uvarint n = (if n < 128 then [of_nat n] else of_nat (n mod 128 + 128) # uvarint (n div 128))"

declare uvarint.simps [simp del]

definition zigzag :: "32 word \<Rightarrow> nat" where
  "zigzag n = unat (push_bit 1 n XOR signed_drop_bit 31 n)"

definition bytes_of :: "string \<Rightarrow> bytes" where
  "bytes_of s = map of_char s"

definition pb_bytes :: "8 word \<Rightarrow> bytes \<Rightarrow> bytes" where
  "pb_bytes tag data = tag # uvarint (length data) @ data"

text \<open>\<open>binary.LittleEndian.AppendUint64\<close>.\<close>

fun le_bytes :: "nat \<Rightarrow> 64 word \<Rightarrow> bytes" where
  "le_bytes 0 w = []"
| "le_bytes (Suc n) w = ucast w # le_bytes n (drop_bit 8 w)"

datatype mvt_val = StrVal string | UintVal "64 word" | DoubleVal real

definition mvt_value :: "(real \<Rightarrow> 64 word) \<Rightarrow> mvt_val \<Rightarrow> bytes" where
  "mvt_value float_bits v =
     (case v of
        StrVal s \<Rightarrow> pb_bytes 0x0a (bytes_of s)
      | DoubleVal x \<Rightarrow> 0x19 # le_bytes 8 (float_bits x)
      | UintVal u \<Rightarrow> 0x28 # uvarint (unat u))"

record mvt_layer =
  ml_name :: string
  ml_features :: bytes
  ml_keys :: "string list"
  ml_values :: "bytes list"
  ml_key_idx :: "(string \<times> nat) list"
  ml_val_idx :: "(mvt_val \<times> nat) list"

definition new_layer :: "string \<Rightarrow> mvt_layer" where
  "new_layer name = \<lparr>ml_name = name, ml_features = [], ml_keys = [], ml_values = [], ml_key_idx = [], ml_val_idx = []\<rparr>"

definition intern_key :: "string \<Rightarrow> mvt_layer \<Rightarrow> nat \<times> mvt_layer" where
  "intern_key k l =
     (case map_of (ml_key_idx l) k of
        Some i \<Rightarrow> (i, l)
      | None \<Rightarrow> (length (ml_keys l), l\<lparr>ml_key_idx := put k (length (ml_keys l)) (ml_key_idx l), ml_keys := ml_keys l @ [k]\<rparr>))"

definition intern_value :: "(real \<Rightarrow> 64 word) \<Rightarrow> mvt_val \<Rightarrow> mvt_layer \<Rightarrow> nat \<times> mvt_layer" where
  "intern_value fb v l =
     (case map_of (ml_val_idx l) v of
        Some i \<Rightarrow> (i, l)
      | None \<Rightarrow> (length (ml_values l),
          l\<lparr>ml_val_idx := put v (length (ml_values l)) (ml_val_idx l), ml_values := ml_values l @ [mvt_value fb v]\<rparr>))"

fun intern_props :: "(real \<Rightarrow> 64 word) \<Rightarrow> (string \<times> mvt_val) list \<Rightarrow> mvt_layer \<Rightarrow> bytes \<times> mvt_layer" where
  "intern_props fb [] l = ([], l)"
| "intern_props fb ((k, v) # ps) l =
     (case intern_key k l of (i, l1) \<Rightarrow>
      case intern_value fb v l1 of (j, l2) \<Rightarrow>
      case intern_props fb ps l2 of (tags, l3) \<Rightarrow> (uvarint i @ uvarint j @ tags, l3))"

definition feature_bytes :: "64 word \<Rightarrow> 8 word \<Rightarrow> bytes \<Rightarrow> bytes \<Rightarrow> bytes" where
  "feature_bytes fid kind tags geom = 0x08 # uvarint (unat fid) @ pb_bytes 0x12 tags @ [0x18, kind] @ pb_bytes 0x22 geom"

definition add_feature ::
  "(real \<Rightarrow> 64 word) \<Rightarrow> 64 word \<Rightarrow> 8 word \<Rightarrow> (string \<times> mvt_val) list \<Rightarrow> bytes \<Rightarrow> mvt_layer \<Rightarrow> mvt_layer" where
  "add_feature fb fid kind props geom l =
     (case intern_props fb props l of (tags, l1) \<Rightarrow>
        l1\<lparr>ml_features := ml_features l1 @ pb_bytes 0x12 (feature_bytes fid kind tags geom)\<rparr>)"

definition point_geom :: "32 word \<Rightarrow> 32 word \<Rightarrow> bytes" where
  "point_geom x y = 9 # uvarint (zigzag x) @ uvarint (zigzag y)"

definition add_point ::
  "(real \<Rightarrow> 64 word) \<Rightarrow> 64 word \<Rightarrow> 32 word \<Rightarrow> 32 word \<Rightarrow> (string \<times> mvt_val) list \<Rightarrow> mvt_layer \<Rightarrow> mvt_layer" where
  "add_point fb fid x y props l = add_feature fb fid 1 props (point_geom x y) l"

text \<open>The steps from each vertex to the next.\<close>

fun ring_steps :: "32 word \<times> 32 word \<Rightarrow> (32 word \<times> 32 word) list \<Rightarrow> bytes" where
  "ring_steps p [] = []"
| "ring_steps p (q # qs) = uvarint (zigzag (fst q - fst p)) @ uvarint (zigzag (snd q - snd p)) @ ring_steps q qs"

definition polygon_geom :: "(32 word \<times> 32 word) list \<Rightarrow> bytes" where
  "polygon_geom ring =
     9 # uvarint (zigzag (fst (hd ring))) @ uvarint (zigzag (snd (hd ring))) @
     uvarint ((length ring - 1) * 8 + 2) @ ring_steps (hd ring) (tl ring) @ [15]"

definition add_polygon ::
  "(real \<Rightarrow> 64 word) \<Rightarrow> 64 word \<Rightarrow> (32 word \<times> 32 word) list \<Rightarrow> (string \<times> mvt_val) list \<Rightarrow> mvt_layer \<Rightarrow> mvt_layer" where
  "add_polygon fb fid ring props l = add_feature fb fid 3 props (polygon_geom ring) l"

definition tile_extent :: nat where "tile_extent = 4096"

definition layer_bytes :: "mvt_layer \<Rightarrow> bytes" where
  "layer_bytes l =
     [0x78, 2] @ pb_bytes 0x0a (bytes_of (ml_name l)) @ ml_features l @
     concat (map (\<lambda>k. pb_bytes 0x1a (bytes_of k)) (ml_keys l)) @ concat (map (pb_bytes 0x22) (ml_values l)) @
     0x28 # uvarint tile_extent"

definition tile_bytes :: "mvt_layer \<Rightarrow> bytes" where
  "tile_bytes l = pb_bytes 0x1a (layer_bytes l)"

section \<open>Reading\<close>

fun read_uvarint :: "bytes \<Rightarrow> (nat \<times> bytes) option" where
  "read_uvarint [] = None"
| "read_uvarint (b # bs) =
     (if unat b < 128 then Some (unat b, bs)
      else case read_uvarint bs of None \<Rightarrow> None | Some (n, rest) \<Rightarrow> Some (unat b - 128 + 128 * n, rest))"

definition unzigzag :: "nat \<Rightarrow> 32 word" where
  "unzigzag n = (let u = of_nat n :: 32 word in drop_bit 1 u XOR - (u AND 1))"

datatype wire = Varint nat | Fixed64 bytes | Delimited bytes

text \<open>One field: its number, and what the wire type of its tag says follows.\<close>

definition pb_field :: "8 word \<Rightarrow> bytes \<Rightarrow> ((nat \<times> wire) \<times> bytes) option" where
  "pb_field tag bs =
     (let no = unat tag div 8; kind = unat tag mod 8 in
      if kind = 0 then (case read_uvarint bs of None \<Rightarrow> None | Some (n, rest) \<Rightarrow> Some ((no, Varint n), rest))
      else if kind = 1 then (if length bs < 8 then None else Some ((no, Fixed64 (take 8 bs)), drop 8 bs))
      else if kind = 2 then
        (case read_uvarint bs of
           None \<Rightarrow> None
         | Some (n, rest) \<Rightarrow> if length rest < n then None else Some ((no, Delimited (take n rest)), drop n rest))
      else None)"

lemma read_uvarint_shorter: "read_uvarint bs = Some (n, rest) \<Longrightarrow> length rest < length bs"
  by (induction bs arbitrary: n rest) (fastforce split: if_splits option.splits)+

lemma pb_field_shorter: "pb_field tag bs = Some (f, rest) \<Longrightarrow> length rest \<le> length bs"
  by (auto simp: pb_field_def Let_def dest!: read_uvarint_shorter split: if_splits option.splits)

function read_fields :: "bytes \<Rightarrow> (nat \<times> wire) list option" where
  "read_fields [] = Some []"
| "read_fields (tag # bs) =
     (case pb_field tag bs of
        None \<Rightarrow> None
      | Some (f, rest) \<Rightarrow> (case read_fields rest of None \<Rightarrow> None | Some fs \<Rightarrow> Some (f # fs)))"
  by pat_completeness auto

termination
  by (relation "measure length") (auto dest: pb_field_shorter)

text \<open>A sequence of packed integers.\<close>

function read_packed :: "bytes \<Rightarrow> nat list option" where
  "read_packed bs =
     (if bs = [] then Some []
      else case read_uvarint bs of
        None \<Rightarrow> None
      | Some (n, rest) \<Rightarrow> (case read_packed rest of None \<Rightarrow> None | Some ns \<Rightarrow> Some (n # ns)))"
  by pat_completeness auto

termination
  by (relation "measure length") (auto dest: read_uvarint_shorter)

declare read_packed.simps [simp del] read_fields.simps(2) [simp del]


text \<open>Drawing commands: a move or lines by steps from the cursor, and the end of a ring.\<close>

datatype draw_op = MoveTo "32 word \<times> 32 word" | LineTo "32 word \<times> 32 word" | ClosePath

fun read_steps :: "nat \<Rightarrow> 32 word \<times> 32 word \<Rightarrow> nat list \<Rightarrow> ((32 word \<times> 32 word) list \<times> (32 word \<times> 32 word) \<times> nat list) option" where
  "read_steps 0 p ns = Some ([], p, ns)"
| "read_steps (Suc k) p (a # b # ns) =
     (let q = (fst p + unzigzag a, snd p + unzigzag b) in
      case read_steps k q ns of None \<Rightarrow> None | Some (qs, r, rest) \<Rightarrow> Some (q # qs, r, rest))"
| "read_steps (Suc k) p _ = None"

lemma read_steps_shorter: "read_steps k p ns = Some (qs, r, rest) \<Longrightarrow> length rest \<le> length ns"
  by (induction k p ns arbitrary: qs r rest rule: read_steps.induct) (fastforce simp: Let_def split: option.splits)+

function read_geom :: "32 word \<times> 32 word \<Rightarrow> nat list \<Rightarrow> draw_op list option" where
  "read_geom p [] = Some []"
| "read_geom p (c # ns) =
     (if c = 15 then map_option ((#) ClosePath) (read_geom p ns)
      else if c mod 8 = 1 \<or> c mod 8 = 2 then
        (case read_steps (c div 8) p ns of
           None \<Rightarrow> None
         | Some (qs, r, rest) \<Rightarrow> map_option ((@) (map (if c mod 8 = 1 then MoveTo else LineTo) qs)) (read_geom r rest))
      else None)"
  by pat_completeness auto

termination
  by (relation "measure (length \<circ> snd)") (auto dest: read_steps_shorter)

declare read_geom.simps(2) [simp del]

record mvt_feature =
  mf_id :: "64 word"
  mf_type :: nat
  mf_props :: "(string \<times> mvt_val) list"
  mf_ops :: "draw_op list"

fun of_le :: "bytes \<Rightarrow> 64 word" where
  "of_le [] = 0"
| "of_le (b # bs) = ucast b OR push_bit 8 (of_le bs)"

definition string_of :: "bytes \<Rightarrow> string" where
  "string_of bs = map (\<lambda>b. char_of (unat b)) bs"

definition read_value :: "(64 word \<Rightarrow> real) \<Rightarrow> bytes \<Rightarrow> mvt_val option" where
  "read_value float_of bs =
     (case read_fields bs of
        Some [(no, Delimited s)] \<Rightarrow> if no = 1 then Some (StrVal (string_of s)) else None
      | Some [(no, Fixed64 w)] \<Rightarrow> if no = 3 then Some (DoubleVal (float_of (of_le w))) else None
      | Some [(no, Varint n)] \<Rightarrow> if no = 5 then Some (UintVal (of_nat n)) else None
      | _ \<Rightarrow> None)"

text \<open>Tags come in pairs, an index into the keys and one into the values.\<close>

fun read_tags :: "(64 word \<Rightarrow> real) \<Rightarrow> string list \<Rightarrow> bytes list \<Rightarrow> nat list \<Rightarrow> (string \<times> mvt_val) list option" where
  "read_tags float_of ks vs [] = Some []"
| "read_tags float_of ks vs (i # j # ns) =
     (if i < length ks \<and> j < length vs then
        case read_value float_of (vs ! j) of
          None \<Rightarrow> None
        | Some v \<Rightarrow> map_option ((#) (ks ! i, v)) (read_tags float_of ks vs ns)
      else None)"
| "read_tags float_of ks vs [_] = None"

definition feature_from :: "(64 word \<Rightarrow> real) \<Rightarrow> string list \<Rightarrow> bytes list \<Rightarrow> bytes \<Rightarrow> mvt_feature option" where
  "feature_from float_of ks vs bs =
     (case read_fields bs of
        Some [(n1, Varint fid), (n2, Delimited tags), (n3, Varint kind), (n4, Delimited geom)] \<Rightarrow>
          (case (read_packed tags, read_packed geom) of
             (Some ts, Some gs) \<Rightarrow>
               if (n1, n2, n3, n4) \<noteq> (1, 2, 3, 4) then None
               else (case (read_tags float_of ks vs ts, read_geom (0, 0) gs) of
                  (Some ps, Some ops) \<Rightarrow> Some \<lparr>mf_id = of_nat fid, mf_type = kind, mf_props = ps, mf_ops = ops\<rparr>
                | _ \<Rightarrow> None)
           | _ \<Rightarrow> None)
      | _ \<Rightarrow> None)"

definition delimited :: "nat \<Rightarrow> (nat \<times> wire) list \<Rightarrow> bytes list" where
  "delimited no fs = concat (map (\<lambda>(n, w). case w of Delimited b \<Rightarrow> if n = no then [b] else [] | _ \<Rightarrow> []) fs)"

text \<open>A tile of one layer of version 2: its name, its extent and its features.\<close>

definition read_tile :: "(64 word \<Rightarrow> real) \<Rightarrow> bytes \<Rightarrow> (string \<times> nat \<times> mvt_feature option list) option" where
  "read_tile float_of bs =
     (case read_fields bs of
        Some [(no, Delimited layer)] \<Rightarrow>
          (case read_fields layer of
             None \<Rightarrow> None
           | Some fs \<Rightarrow>
               (case (map_of fs 15, delimited 1 fs, map_of fs 5) of
                  (Some (Varint v), [name], Some (Varint extent)) \<Rightarrow>
                    if no = 3 \<and> v = 2 then
                      Some (string_of name, extent,
                        map (feature_from float_of (map string_of (delimited 3 fs)) (delimited 4 fs)) (delimited 2 fs))
                    else None
                | _ \<Rightarrow> None))
      | _ \<Rightarrow> None)"

section \<open>What is written reads back\<close>

lemma unat_byte: "n < 256 \<Longrightarrow> unat (of_nat n :: 8 word) = n"
  by (simp add: unat_of_nat)

lemma read_uvarint_write [simp]: "read_uvarint (uvarint n @ rest) = Some (n, rest)"
proof (induction n rule: uvarint.induct)
  case (1 n)
  show ?case
  proof (cases "n < 128")
    case True
    then show ?thesis by (subst uvarint.simps) (simp add: unat_byte)
  next
    case False
    have "n mod 128 + 128 < 256" using mod_less_divisor [of 128 n] by simp
    then have "unat (of_nat (n mod 128 + 128) :: 8 word) = n mod 128 + 128" by (rule unat_byte)
    with False 1 show ?thesis by (subst uvarint.simps) simp
  qed
qed

lemma uvarint_nonempty [simp]: "uvarint n \<noteq> []"
  by (subst uvarint.simps) simp

lemma unzigzag_zigzag [simp]: "unzigzag (zigzag n) = n"
proof -
  define p :: "32 word" where "p = push_bit 1 n"
  have p: "bit p k \<longleftrightarrow> 0 < k \<and> k < 32 \<and> bit n (k - 1)" for k
    unfolding p_def bit_push_bit_iff by auto
  have top: "\<not> Suc 0 \<le> k \<Longrightarrow> k = 0" for k by simp
  have edge: "k < 32 \<Longrightarrow> \<not> Suc k < 32 \<Longrightarrow> k = 31" for k by simp
  have "drop_bit 1 (p XOR signed_drop_bit 31 n) XOR - ((p XOR signed_drop_bit 31 n) AND 1) = n"
  proof (cases "bit n 31")
    case True
    have "signed_drop_bit 31 n = - 1"
      by (rule bit_word_eqI) (use True in \<open>auto simp: bit_signed_drop_bit_iff dest!: top\<close>)
    moreover have "(p XOR - 1) AND 1 = 1"
      by (rule bit_word_eqI) (auto simp: bit_simps p)
    moreover have "drop_bit 1 (p XOR - 1) XOR - 1 = n"
      by (rule bit_word_eqI) (use True in \<open>auto simp: bit_simps p dest: edge\<close>)
    ultimately show ?thesis by simp
  next
    case False
    have "signed_drop_bit 31 n = 0"
      by (rule bit_word_eqI) (use False in \<open>auto simp: bit_signed_drop_bit_iff dest!: top\<close>)
    moreover have "p AND 1 = 0"
      by (rule bit_word_eqI) (auto simp: bit_simps p)
    moreover have "drop_bit 1 p = n"
      by (rule bit_word_eqI) (use False in \<open>auto simp: bit_simps p dest: edge\<close>)
    ultimately show ?thesis by simp
  qed
  then show ?thesis by (simp add: unzigzag_def zigzag_def Let_def p_def)
qed

lemma of_le_bytes: "of_le (le_bytes n w) = take_bit (8 * n) w"
proof (induction n arbitrary: w)
  case (Suc n)
  show ?case
    unfolding le_bytes.simps of_le.simps Suc.IH
    by (rule bit_word_eqI) (auto simp: bit_simps)
qed simp

lemma of_le_write [simp]: "of_le (le_bytes 8 w) = w"
  by (simp add: of_le_bytes take_bit_word_eq_self)

lemma length_le_bytes [simp]: "length (le_bytes n w) = n"
  by (induction n arbitrary: w) auto

lemma unat_of_char: "unat (of_char c :: 8 word) = of_char c"
proof -
  have "(of_char c :: 8 word) = of_nat (of_char c)" by (simp add: of_char_def)
  moreover have "(of_char c :: nat) < 256" by simp
  ultimately show ?thesis by (simp add: unat_of_nat)
qed

lemma string_of_bytes [simp]: "string_of (bytes_of s) = s"
  by (induction s) (simp_all add: string_of_def bytes_of_def unat_of_char)

lemma read_fields_bytes [simp]:
  assumes "unat tag mod 8 = 2"
  shows "read_fields (pb_bytes tag data @ rest) = map_option ((#) (unat tag div 8, Delimited data)) (read_fields rest)"
  using assms by (simp add: pb_bytes_def read_fields.simps(2) pb_field_def Let_def map_option_case split: option.split)

lemma read_fields_varint:
  assumes "unat tag mod 8 = 0"
  shows "read_fields (tag # uvarint n @ rest) = map_option ((#) (unat tag div 8, Varint n)) (read_fields rest)"
  using assms by (simp add: read_fields.simps(2) pb_field_def Let_def map_option_case split: option.split)

lemma read_fields_byte:
  assumes "unat tag mod 8 = 0" and "unat b < 128"
  shows "read_fields (tag # b # rest) = map_option ((#) (unat tag div 8, Varint (unat b))) (read_fields rest)"
  using assms by (simp add: read_fields.simps(2) pb_field_def Let_def map_option_case split: option.split)

lemma read_fields_many:
  assumes "unat tag mod 8 = 2"
  shows "read_fields (concat (map (pb_bytes tag) ds) @ rest) =
    map_option ((@) (map (\<lambda>d. (unat tag div 8, Delimited d)) ds)) (read_fields rest)"
  by (induction ds) (use assms in \<open>cases "read_fields rest"; simp\<close>)+

lemma read_packed_write [simp]: "read_packed (uvarint n @ bs) = map_option ((#) n) (read_packed bs)"
  by (subst read_packed.simps) (simp add: map_option_case split: option.split)

lemma read_packed_Nil [simp]: "read_packed [] = Some []"
  by (subst read_packed.simps) simp

lemma read_packed_byte: "unat b < 128 \<Longrightarrow> read_packed (b # bs) = map_option ((#) (unat b)) (read_packed bs)"
  by (subst read_packed.simps) (simp add: map_option_case split: option.split)

text \<open>A value can be read back when its bits say which number they came from.\<close>

definition val_ok :: "(real \<Rightarrow> 64 word) \<Rightarrow> (64 word \<Rightarrow> real) \<Rightarrow> mvt_val \<Rightarrow> bool" where
  "val_ok fb fo v \<longleftrightarrow> (case v of DoubleVal x \<Rightarrow> fo (fb x) = x | _ \<Rightarrow> True)"

lemma read_value_write: "val_ok fb fo v \<Longrightarrow> read_value fo (mvt_value fb v) = Some v"
proof (cases v)
  case (StrVal s)
  have "read_fields (pb_bytes 0x0a (bytes_of s)) = Some [(1, Delimited (bytes_of s))]"
    using read_fields_bytes [of "0x0a" "bytes_of s" "[]"] by simp
  then show ?thesis by (simp add: StrVal mvt_value_def read_value_def)
next
  case (UintVal u)
  have "read_fields (0x28 # uvarint (unat u)) = Some [(5, Varint (unat u))]"
    using read_fields_varint [of "0x28" "unat u" "[]"] by simp
  then show ?thesis by (simp add: UintVal mvt_value_def read_value_def)
next
  case (DoubleVal x)
  assume "val_ok fb fo v"
  moreover have "read_fields (0x19 # le_bytes 8 (fb x)) = Some [(3, Fixed64 (le_bytes 8 (fb x)))]"
    by (simp add: read_fields.simps(2) pb_field_def Let_def)
  ultimately show ?thesis by (simp add: DoubleVal mvt_value_def read_value_def val_ok_def)
qed

section \<open>The layer's tables\<close>

definition layer_ok :: "(real \<Rightarrow> 64 word) \<Rightarrow> mvt_layer \<Rightarrow> bool" where
  "layer_ok fb l \<longleftrightarrow>
     (\<forall>k i. map_of (ml_key_idx l) k = Some i \<longrightarrow> i < length (ml_keys l) \<and> ml_keys l ! i = k) \<and>
     (\<forall>v j. map_of (ml_val_idx l) v = Some j \<longrightarrow> j < length (ml_values l) \<and> ml_values l ! j = mvt_value fb v)"

lemma intern_key_ok:
  assumes "layer_ok fb l" and "intern_key k l = (i, l')"
  shows "layer_ok fb l'" and "i < length (ml_keys l')" and "ml_keys l' ! i = k"
    and "\<exists>a. ml_keys l' = ml_keys l @ a" and "ml_values l' = ml_values l" and "ml_features l' = ml_features l"
    and "ml_name l' = ml_name l"
  using assms unfolding intern_key_def layer_ok_def
  by (auto simp: map_of_put nth_append split: option.splits if_splits) (fastforce simp: nth_append)+

lemma intern_value_ok:
  assumes "layer_ok fb l" and "intern_value fb v l = (j, l')"
  shows "layer_ok fb l'" and "j < length (ml_values l')" and "ml_values l' ! j = mvt_value fb v"
    and "ml_keys l' = ml_keys l" and "\<exists>a. ml_values l' = ml_values l @ a" and "ml_features l' = ml_features l"
    and "ml_name l' = ml_name l"
  using assms unfolding intern_value_def layer_ok_def
  by (auto simp: map_of_put nth_append split: option.splits if_splits) (fastforce simp: nth_append)+

lemma intern_props_ok:
  assumes "layer_ok fb l" and "intern_props fb ps l = (tags, l')" and "\<forall>(k, v) \<in> set ps. val_ok fb fo v"
  shows "layer_ok fb l' \<and> ml_features l' = ml_features l \<and> ml_name l' = ml_name l \<and>
    (\<exists>a. ml_keys l' = ml_keys l @ a) \<and> (\<exists>a. ml_values l' = ml_values l @ a) \<and>
    (\<exists>ns. read_packed tags = Some ns \<and> (\<forall>a b. read_tags fo (ml_keys l' @ a) (ml_values l' @ b) ns = Some ps))"
  using assms
proof (induction fb ps l arbitrary: tags l' rule: intern_props.induct)
  case (2 fb k v ps l)
  obtain i l1 where i: "intern_key k l = (i, l1)" by fastforce
  obtain j l2 where j: "intern_value fb v l1 = (j, l2)" by fastforce
  obtain t where t: "intern_props fb ps l2 = (t, l')" and tags: "tags = uvarint i @ uvarint j @ t"
    using 2(3) by (auto simp: i j split: prod.splits)
  note K = intern_key_ok [OF 2(2) i]
  note V = intern_value_ok [OF K(1) j]
  have ih: "layer_ok fb l' \<and> ml_features l' = ml_features l2 \<and> ml_name l' = ml_name l2 \<and>
    (\<exists>a. ml_keys l' = ml_keys l2 @ a) \<and> (\<exists>a. ml_values l' = ml_values l2 @ a) \<and>
    (\<exists>ns. read_packed t = Some ns \<and> (\<forall>a b. read_tags fo (ml_keys l' @ a) (ml_values l' @ b) ns = Some ps))"
    using 2(1) [OF i [symmetric] j [symmetric] V(1) t] 2(4) by simp
  then obtain ka va ns where ka: "ml_keys l' = ml_keys l2 @ ka" and va: "ml_values l' = ml_values l2 @ va"
    and ns: "read_packed t = Some ns" "\<And>a b. read_tags fo (ml_keys l' @ a) (ml_values l' @ b) ns = Some ps" by blast
  have "read_value fo (mvt_value fb v) = Some v" using 2(4) by (auto intro: read_value_write)
  then have "read_tags fo (ml_keys l' @ a) (ml_values l' @ b) (i # j # ns) = Some ((k, v) # ps)" for a b
    using K(2,3) V(2,3,4) ns(2) [of a b] by (simp add: ka va nth_append)
  moreover have "read_packed tags = Some (i # j # ns)" by (simp add: tags ns(1))
  ultimately show ?case using ih K(4,5,6,7) V(4,5,6,7) by auto
qed simp


section \<open>What is drawn reads back\<close>

lemma layer_ok_extend: "layer_ok fb l \<Longrightarrow> layer_ok fb (l\<lparr>ml_features := x\<rparr>)"
  by (simp add: layer_ok_def)

text \<open>The features a layer holds, read in its tables however they grow.\<close>

definition layer_means :: "(real \<Rightarrow> 64 word) \<Rightarrow> (64 word \<Rightarrow> real) \<Rightarrow> mvt_layer \<Rightarrow> mvt_feature list \<Rightarrow> bool" where
  "layer_means fb fo l fs \<longleftrightarrow> layer_ok fb l \<and>
     (\<exists>bs. ml_features l = concat (map (pb_bytes 0x12) bs) \<and>
        list_all2 (\<lambda>b f. \<forall>x y. feature_from fo (ml_keys l @ x) (ml_values l @ y) b = Some f) bs fs)"

lemma feature_from_write:
  assumes "read_packed tags = Some ts" and "read_tags fo ks vs ts = Some ps"
    and "read_packed geom = Some gs" and "read_geom (0, 0) gs = Some ops" and "unat kind < 128"
  shows "feature_from fo ks vs (feature_bytes fid kind tags geom) =
    Some \<lparr>mf_id = fid, mf_type = unat kind, mf_props = ps, mf_ops = ops\<rparr>"
proof -
  have "read_fields (pb_bytes 0x22 geom) = Some [(4, Delimited geom)]"
    using read_fields_bytes [of "0x22" geom "[]"] by simp
  then have "read_fields (0x18 # kind # pb_bytes 0x22 geom) = Some [(3, Varint (unat kind)), (4, Delimited geom)]"
    using read_fields_byte [of "0x18" kind "pb_bytes 0x22 geom"] assms(5) by simp
  then have "read_fields (feature_bytes fid kind tags geom) =
      Some [(1, Varint (unat fid)), (2, Delimited tags), (3, Varint (unat kind)), (4, Delimited geom)]"
    using read_fields_varint [of "0x08" "unat fid" "pb_bytes 0x12 tags @ 0x18 # kind # pb_bytes 0x22 geom"]
    by (simp add: feature_bytes_def)
  then show ?thesis using assms by (simp add: feature_from_def)
qed

lemma add_feature_means:
  assumes "layer_means fb fo l fs" and "\<forall>(k, v) \<in> set ps. val_ok fb fo v"
    and "read_packed geom = Some gs" and "read_geom (0, 0) gs = Some ops" and "unat kind < 128"
  shows "layer_means fb fo (add_feature fb fid kind ps geom l)
    (fs @ [\<lparr>mf_id = fid, mf_type = unat kind, mf_props = ps, mf_ops = ops\<rparr>])"
    and "ml_name (add_feature fb fid kind ps geom l) = ml_name l"
proof -
  obtain tags l1 where l1: "intern_props fb ps l = (tags, l1)" by fastforce
  obtain bs where lay: "layer_ok fb l" and bs: "ml_features l = concat (map (pb_bytes 0x12) bs)"
    and all: "list_all2 (\<lambda>b f. \<forall>x y. feature_from fo (ml_keys l @ x) (ml_values l @ y) b = Some f) bs fs"
    using assms(1) by (auto simp: layer_means_def)
  note I = intern_props_ok [OF lay l1 assms(2)]
  then obtain ka va ts where ka: "ml_keys l1 = ml_keys l @ ka" and va: "ml_values l1 = ml_values l @ va"
    and ts: "read_packed tags = Some ts" "\<And>x y. read_tags fo (ml_keys l1 @ x) (ml_values l1 @ y) ts = Some ps" by blast
  have new: "feature_from fo (ml_keys l1 @ x) (ml_values l1 @ y) (feature_bytes fid kind tags geom) =
      Some \<lparr>mf_id = fid, mf_type = unat kind, mf_props = ps, mf_ops = ops\<rparr>" for x y
    by (rule feature_from_write [OF ts(1) ts(2) assms(3-5)])
  have old: "list_all2 (\<lambda>b f. \<forall>x y. feature_from fo (ml_keys l1 @ x) (ml_values l1 @ y) b = Some f) bs fs"
    using all by (rule list_all2_mono) (simp add: ka va)
  have "list_all2 (\<lambda>b f. \<forall>x y. feature_from fo (ml_keys l1 @ x) (ml_values l1 @ y) b = Some f)
      (bs @ [feature_bytes fid kind tags geom]) (fs @ [\<lparr>mf_id = fid, mf_type = unat kind, mf_props = ps, mf_ops = ops\<rparr>])"
    using old new by (simp add: list_all2_appendI)
  then show "layer_means fb fo (add_feature fb fid kind ps geom l)
      (fs @ [\<lparr>mf_id = fid, mf_type = unat kind, mf_props = ps, mf_ops = ops\<rparr>])"
    using I bs unfolding layer_means_def
    by (intro conjI exI [of _ "bs @ [feature_bytes fid kind tags geom]"]) (simp_all add: add_feature_def l1 layer_ok_extend)
  show "ml_name (add_feature fb fid kind ps geom l) = ml_name l" using I by (simp add: add_feature_def l1)
qed

lemma read_tile_means:
  assumes "layer_means fb fo l fs"
  shows "read_tile fo (tile_bytes l) = Some (ml_name l, tile_extent, map Some fs)"
proof -
  obtain bs where bs: "ml_features l = concat (map (pb_bytes 0x12) bs)"
    and all: "list_all2 (\<lambda>b f. \<forall>x y. feature_from fo (ml_keys l @ x) (ml_values l @ y) b = Some f) bs fs"
    using assms by (auto simp: layer_means_def)
  define feats where "feats = map (\<lambda>d. (2 :: nat, Delimited d)) bs"
  define keys where "keys = map (\<lambda>d. (3 :: nat, Delimited d)) (map bytes_of (ml_keys l))"
  define vals where "vals = map (\<lambda>d. (4 :: nat, Delimited d)) (ml_values l)"
  have e: "read_fields (0x28 # uvarint tile_extent) = Some [(5, Varint tile_extent)]"
    using read_fields_varint [of "0x28" tile_extent "[]"] by simp
  have k: "concat (map (\<lambda>k. pb_bytes 0x1a (bytes_of k)) (ml_keys l)) = concat (map (pb_bytes 0x1a) (map bytes_of (ml_keys l)))"
    by (simp add: o_def)
  have fields: "read_fields (layer_bytes l) = Some ([(15, Varint 2), (1, Delimited (bytes_of (ml_name l)))] @ feats @ keys @ vals @ [(5, Varint tile_extent)])"
    unfolding layer_bytes_def k bs
    by (simp add: read_fields_byte read_fields_many e feats_def keys_def vals_def del: map_map)
  have none: "map_of feats 5 = None" "map_of keys 5 = None" "map_of vals 5 = None"
    by (auto simp: feats_def keys_def vals_def map_of_eq_None_iff)
  have d: "delimited no (a @ b) = delimited no a @ delimited no b" for no a b by (simp add: delimited_def)
  have "delimited 2 feats = bs" "delimited 2 keys = []" "delimited 2 vals = []" "delimited 3 feats = []"
    "delimited 3 keys = map bytes_of (ml_keys l)" "delimited 3 vals = []" "delimited 4 feats = []" "delimited 4 keys = []"
    "delimited 4 vals = ml_values l" "delimited 1 feats = []" "delimited 1 keys = []" "delimited 1 vals = []"
    by (simp_all add: delimited_def feats_def keys_def vals_def o_def concat_map_singleton [of id, simplified])
  note dels = this
  have one: "delimited no [(15, Varint 2), (1, Delimited x)] = (if no = 1 then [x] else [])" "delimited no [(5, Varint n)] = []" for no x n
    by (simp_all add: delimited_def)
  have read: "map (feature_from fo (ml_keys l) (ml_values l)) bs = map Some fs"
    using all
  proof (induction rule: list_all2_induct)
    case (Cons x xs y ys)
    then show ?case using Cons(1) by (metis append_Nil2 list.simps(9))
  qed simp
  have whole: "read_fields (tile_bytes l) = Some [(3, Delimited (layer_bytes l))]"
    using read_fields_bytes [of "0x1a" "layer_bytes l" "[]"] by (simp add: tile_bytes_def)
  have names: "map string_of (map bytes_of (ml_keys l)) = ml_keys l" by (simp add: o_def)
  define fds where "fds = [(15, Varint 2), (1, Delimited (bytes_of (ml_name l)))] @ feats @ keys @ vals @ [(5, Varint tile_extent)]"
  have "delimited 1 fds = [bytes_of (ml_name l)]" "delimited 2 fds = bs" "delimited 3 fds = map bytes_of (ml_keys l)"
    "delimited 4 fds = ml_values l"
    unfolding fds_def d one dels by simp_all
  moreover have "map_of fds 15 = Some (Varint 2)" "map_of fds 5 = Some (Varint tile_extent)"
    by (simp_all add: fds_def none map_add_def)
  ultimately show ?thesis
    unfolding read_tile_def whole
    by (simp add: fields [folded fds_def] names read del: map_map)
qed


section \<open>Drawing\<close>

datatype drawn =
    Point "64 word" "32 word" "32 word" "(string \<times> mvt_val) list"
  | Polygon "64 word" "(32 word \<times> 32 word) list" "(string \<times> mvt_val) list"

fun draw_one :: "(real \<Rightarrow> 64 word) \<Rightarrow> drawn \<Rightarrow> mvt_layer \<Rightarrow> mvt_layer" where
  "draw_one fb (Point fid x y ps) l = add_point fb fid x y ps l"
| "draw_one fb (Polygon fid ring ps) l = add_polygon fb fid ring ps l"

definition drawn_tile :: "(real \<Rightarrow> 64 word) \<Rightarrow> string \<Rightarrow> drawn list \<Rightarrow> bytes" where
  "drawn_tile fb name ds = tile_bytes (fold (draw_one fb) ds (new_layer name))"

text \<open>What a reader is to see of each, and what can be drawn at all.\<close>

fun seen_of :: "drawn \<Rightarrow> mvt_feature" where
  "seen_of (Point fid x y ps) = \<lparr>mf_id = fid, mf_type = 1, mf_props = ps, mf_ops = [MoveTo (x, y)]\<rparr>"
| "seen_of (Polygon fid ring ps) =
     \<lparr>mf_id = fid, mf_type = 3, mf_props = ps, mf_ops = MoveTo (hd ring) # map LineTo (tl ring) @ [ClosePath]\<rparr>"

fun props_of :: "drawn \<Rightarrow> (string \<times> mvt_val) list" where
  "props_of (Point fid x y ps) = ps"
| "props_of (Polygon fid ring ps) = ps"

fun drawable :: "drawn \<Rightarrow> bool" where
  "drawable (Point fid x y ps) \<longleftrightarrow> True"
| "drawable (Polygon fid ring ps) \<longleftrightarrow> 2 \<le> length ring"

lemma read_move:
  "read_geom p (9 # a # b # ns) =
     map_option ((#) (MoveTo (fst p + unzigzag a, snd p + unzigzag b))) (read_geom (fst p + unzigzag a, snd p + unzigzag b) ns)"
proof -
  have "read_steps 1 p (a # b # ns) =
      Some ([(fst p + unzigzag a, snd p + unzigzag b)], (fst p + unzigzag a, snd p + unzigzag b), ns)"
    unfolding One_nat_def by (simp add: Let_def)
  moreover have "(9 :: nat) mod 8 = 1" "(9 :: nat) div 8 = 1" "(9 :: nat) \<noteq> 15" by simp_all
  ultimately show ?thesis
    unfolding read_geom.simps(2) [of p 9] by (cases "read_geom (fst p + unzigzag a, snd p + unzigzag b) ns") simp_all
qed

lemma read_point: "read_packed (point_geom x y) = Some [9, zigzag x, zigzag y]"
proof -
  have "read_packed (uvarint (zigzag y)) = Some [zigzag y]"
    using read_packed_write [of "zigzag y" "[]"] by simp
  then show ?thesis by (simp add: point_geom_def read_packed_byte)
qed

lemma draw_point: "read_geom (0, 0) [9, zigzag x, zigzag y] = Some [MoveTo (x, y)]"
  by (simp add: read_move)

fun step_numbers :: "32 word \<times> 32 word \<Rightarrow> (32 word \<times> 32 word) list \<Rightarrow> nat list" where
  "step_numbers p [] = []"
| "step_numbers p (q # qs) = zigzag (fst q - fst p) # zigzag (snd q - snd p) # step_numbers q qs"

lemma read_ring_steps: "read_packed (ring_steps p qs @ rest) = map_option ((@) (step_numbers p qs)) (read_packed rest)"
  by (induction p qs rule: ring_steps.induct) (simp_all add: option.map_comp o_def option.map_ident)

lemma read_steps_back:
  "read_steps (length qs) p (step_numbers p qs @ rest) = Some (qs, (if qs = [] then p else List.last qs), rest)"
  by (induction p qs rule: step_numbers.induct) (auto simp: Let_def)

lemma read_polygon:
  assumes "2 \<le> length ring"
  shows "\<exists>gs. read_packed (polygon_geom ring) = Some gs \<and>
    read_geom (0, 0) gs = Some (MoveTo (hd ring) # map LineTo (tl ring) @ [ClosePath])"
proof -
  obtain p qs where r: "ring = p # qs" and qs: "qs \<noteq> []" using assms by (cases ring) (auto simp: Suc_le_eq)
  have "read_packed [15] = Some [15]" by (simp add: read_packed_byte)
  then have packed: "read_packed (polygon_geom ring) =
      Some (9 # zigzag (fst p) # zigzag (snd p) # (length qs * 8 + 2) # step_numbers p qs @ [15])"
    by (simp add: polygon_geom_def r read_packed_byte read_ring_steps)
  have move: "read_geom (0, 0) (9 # zigzag (fst p) # zigzag (snd p) # ns) = map_option ((#) (MoveTo p)) (read_geom p ns)" for ns
    by (simp add: read_move)
  have odd: "length qs * 8 \<noteq> 13" by presburger
  have c: "length qs * 8 + 2 \<noteq> 15" "(length qs * 8 + 2) mod 8 = 2" "(length qs * 8 + 2) div 8 = length qs"
    by presburger+
  have close: "read_geom r [15] = Some [ClosePath]" for r by (simp add: read_geom.simps(2))
  have lines: "read_geom p ((length qs * 8 + 2) # step_numbers p qs @ [15]) = Some (map LineTo qs @ [ClosePath])"
    unfolding read_geom.simps(2) [of p "length qs * 8 + 2"] c read_steps_back by (simp add: close odd)
  show ?thesis unfolding packed by (rule exI, rule conjI, rule refl) (simp add: move lines r del: add_2_eq_Suc')
qed

lemma draw_means:
  assumes "\<forall>d \<in> set ds. drawable d" and "\<forall>d \<in> set ds. \<forall>(k, v) \<in> set (props_of d). val_ok fb fo v" and "layer_means fb fo l fs"
  shows "layer_means fb fo (fold (draw_one fb) ds l) (fs @ map seen_of ds) \<and> ml_name (fold (draw_one fb) ds l) = ml_name l"
  using assms
proof (induction ds arbitrary: l fs)
  case (Cons d ds)
  have "layer_means fb fo (draw_one fb d l) (fs @ [seen_of d]) \<and> ml_name (draw_one fb d l) = ml_name l"
  proof (cases d)
    case (Point fid x y ps)
    then show ?thesis
      using add_feature_means [OF Cons.prems(3) _ read_point draw_point, of ps 1 fid x y] Cons.prems(2)
      by (simp add: add_point_def)
  next
    case (Polygon fid ring ps)
    then obtain gs where gs: "read_packed (polygon_geom ring) = Some gs"
      "read_geom (0, 0) gs = Some (MoveTo (hd ring) # map LineTo (tl ring) @ [ClosePath])"
      using read_polygon [of ring] Cons.prems(1) by auto
    show ?thesis
      using add_feature_means [OF Cons.prems(3) _ gs, of ps 3 fid] Cons.prems(2) Polygon
      by (simp add: add_polygon_def)
  qed
  then show ?case using Cons.IH [of "draw_one fb d l" "fs @ [seen_of d]"] Cons.prems(1,2) by simp
qed simp

text \<open>
  C34. A tile reads back to what was drawn on it: under its layer's name, each feature in order with its
  number, the points or the ring at the places they were drawn, and every property with its name and its
  value, whatever keys and values the features share.
\<close>

theorem tile_reads_back:
  assumes "\<forall>d \<in> set ds. drawable d" and "\<forall>d \<in> set ds. \<forall>(k, v) \<in> set (props_of d). val_ok float_bits float_of v"
  shows "read_tile float_of (drawn_tile float_bits name ds) = Some (name, tile_extent, map (Some \<circ> seen_of) ds)"
proof -
  have "layer_means float_bits float_of (new_layer name) []"
    by (simp add: layer_means_def new_layer_def layer_ok_def)
  from draw_means [OF assms this]
  have d: "layer_means float_bits float_of (fold (draw_one float_bits) ds (new_layer name)) (map seen_of ds)"
    and n: "ml_name (fold (draw_one float_bits) ds (new_layer name)) = name" by (simp_all add: new_layer_def)
  show ?thesis unfolding drawn_tile_def using read_tile_means [OF d] by (simp add: n)
qed

lemma tile_reads_back_witness:
  "read_tile (\<lambda>w. real_of_int (sint w)) (drawn_tile (\<lambda>x. word_of_int \<lfloor>x\<rfloor>) ''vessels''
     [Point 7 100 (- 3) [(''name'', StrVal ''NINA''), (''sog'', DoubleVal 5)],
      Polygon 9 [(0, 0), (10, 0), (10, 10)] [(''name'', StrVal ''NINA''), (''days'', UintVal 300)]]) =
   Some (''vessels'', tile_extent,
     [Some \<lparr>mf_id = 7, mf_type = 1, mf_props = [(''name'', StrVal ''NINA''), (''sog'', DoubleVal 5)], mf_ops = [MoveTo (100, - 3)]\<rparr>,
      Some \<lparr>mf_id = 9, mf_type = 3, mf_props = [(''name'', StrVal ''NINA''), (''days'', UintVal 300)],
        mf_ops = [MoveTo (0, 0), LineTo (10, 0), LineTo (10, 10), ClosePath]\<rparr>])"
  by (subst tile_reads_back) (simp_all add: val_ok_def)

end
