(* ===== verification/Tiles.thy ===== *)
theory Tiles
  imports Mirror Subscriptions Mvt
begin

text \<open>
  Vector tiles of vessels (\<open>server/tiles.go\<close>): where a tile lies, the filter a request carries, the
  vessels a tile shows and how it thins them, the rows it takes from the record, and the cache that
  shares a built tile. The encoding is in \<open>Mvt\<close>.

  \<open>find\<close> stands for the store's query; the projection's functions are the real ones.
\<close>

declare map_of_eq_Some_iff [simp del]

section \<open>Where a tile lies\<close>

definition tile_buffer :: int where "tile_buffer = 128"
definition tile_cap :: nat where "tile_cap = 2000"
definition tile_grid :: int where "tile_grid = 64"
definition tile_cols :: int where "tile_cols = (int tile_extent + 2 * tile_buffer) div tile_grid"
definition tile_ttl :: duration where "tile_ttl = 10 * second"
definition mercator_lat :: real where "mercator_lat = 85.0511287798066"

definition tile_coords :: "(string \<Rightarrow> int option) \<Rightarrow> string \<Rightarrow> string \<Rightarrow> string \<Rightarrow> (nat \<times> int \<times> int) option" where
  "tile_coords atoi zs xs ys =
     (case (atoi zs, atoi xs, atoi ys) of
        (Some z, Some x, Some y) \<Rightarrow>
          if z < 0 \<or> z > 22 \<or> x < 0 \<or> y < 0 \<or> x \<ge> 2 ^ nat z \<or> y \<ge> 2 ^ nat z then None else Some (nat z, x, y)
      | _ \<Rightarrow> None)"

definition tile_lon_lat :: "real \<Rightarrow> real \<Rightarrow> real \<Rightarrow> real \<times> real" where
  "tile_lon_lat x y n = (x / n * 360 - 180, arctan (sinh (pi * (1 - 2 * y / n))) * 180 / pi)"

definition tile_box :: "nat \<Rightarrow> int \<Rightarrow> int \<Rightarrow> bbox" where
  "tile_box z x y =
     (let n = 2 ^ z; buf = of_int tile_buffer / of_nat tile_extent in
      case tile_lon_lat (of_int x - buf) (of_int y - buf) n of (west, north) \<Rightarrow>
      case tile_lon_lat (of_int (x + 1) + buf) (of_int (y + 1) + buf) n of (east, south) \<Rightarrow>
        \<lparr>b_south = max south (- 90), b_west = max west (- 180), b_north = min north 90, b_east = min east 180\<rparr>)"

definition tile_pixel :: "real \<Rightarrow> real \<Rightarrow> real \<Rightarrow> int \<Rightarrow> int \<Rightarrow> real \<times> real" where
  "tile_pixel lat lon n x y =
     (let phi = lat * pi / 180 in
      (((lon + 180) / 360 * n - of_int x) * of_nat tile_extent,
       ((1 - ln (tan phi + 1 / cos phi) / pi) / 2 * n - of_int y) * of_nat tile_extent))"

definition in_tile :: "real \<times> real \<Rightarrow> bool" where
  "in_tile p \<longleftrightarrow> fst p \<ge> - of_int tile_buffer \<and> snd p \<ge> - of_int tile_buffer \<and>
     fst p < of_nat tile_extent + of_int tile_buffer \<and> snd p < of_nat tile_extent + of_int tile_buffer"

definition tile_cell :: "int \<Rightarrow> int \<Rightarrow> int" where
  "tile_cell x y = (y + tile_buffer) sdiv tile_grid * tile_cols + (x + tile_buffer) sdiv tile_grid"

definition place :: "nat \<Rightarrow> int \<Rightarrow> int \<Rightarrow> vessel \<Rightarrow> real \<times> real" where
  "place z x y v = tile_pixel (v_lat v) (v_lon v) (2 ^ z) x y"

section \<open>The filter of a request\<close>

record tile_filter =
  tf_rules :: age_rules
  tf_mmsi :: "mmsi list option"

definition tile_params :: "string list" where
  "tile_params = [''mmsi'', ''imo'', ''max_age'', ''key'', ''kind'', ''class'', ''type'', ''min_sog'', ''max_age_moving'']"

datatype tile_error = TileUnknown string | TileSub sub_error | TileMmsiRequired | TileRules filter_error | TileDenied

definition parse_tile_filter ::
  "(string \<Rightarrow> (real \<times> real \<times> real \<times> real) option) \<Rightarrow> (string \<Rightarrow> real option) \<Rightarrow> (string \<Rightarrow> duration option) \<Rightarrow> imo_source \<Rightarrow>
   claims \<Rightarrow> string list \<Rightarrow> string list \<Rightarrow> (string \<Rightarrow> string) \<Rightarrow> tile_error + tile_filter" where
  "parse_tile_filter scan4 float_of duration_of src cl keys imo get =
     (case filter (\<lambda>k. k \<notin> set tile_params) keys of
        k # _ \<Rightarrow> Inl (TileUnknown k)
      | [] \<Rightarrow>
          (case parse_sub scan4 src cl [] (get ''mmsi'') imo False of
             Inl e \<Rightarrow> Inl (TileSub e)
           | Inr s \<Rightarrow>
               let named = (if s_mmsi s = [] \<and> s_imo s = None then None else Some (s_mmsi s)) in
               if c_area cl < 0 \<and> named = None then Inl TileMmsiRequired
               else case parse_age_rules float_of duration_of get of
                 Inl e \<Rightarrow> Inl (TileRules e)
               | Inr rules \<Rightarrow> Inr \<lparr>tf_rules = rules, tf_mmsi = named\<rparr>))"

text \<open>\<open>serveVesselTile\<close> once the rate limit has passed: the token's boxes bound the tiles it may read.\<close>

definition tile_request :: "claims \<Rightarrow> nat \<times> int \<times> int \<Rightarrow> tile_error + tile_filter \<Rightarrow> tile_error + tile_filter" where
  "tile_request cl zxy parsed =
     (case (parsed, zxy) of
        (Inl e, _) \<Rightarrow> Inl e
      | (Inr f, (z, x, y)) \<Rightarrow>
          if c_bbox cl \<noteq> [] \<and> \<not> allows_box cl (tile_box z x y) then Inl TileDenied else Inr f)"

definition tile_match :: "tile_filter \<Rightarrow> mmsi \<Rightarrow> vessel \<Rightarrow> time \<Rightarrow> bool" where
  "tile_match f m v now \<longleftrightarrow>
     (case tf_mmsi f of None \<Rightarrow> True | Some ms \<Rightarrow> m \<in> set ms) \<and> age_match (tf_rules f) (tf_mmsi f \<noteq> None) v now"

section \<open>What a tile shows\<close>

record tile_point =
  tp_mmsi :: mmsi
  tp_x :: int
  tp_y :: int
  tp_seen :: time
  tp_name :: string
  tp_kind :: string
  tp_class :: string
  tp_source :: string
  tp_station :: string
  tp_ship_type :: "8 word"
  tp_nav :: "8 word"
  tp_cog :: real
  tp_sog :: real
  tp_heading :: "16 word"
  tp_length :: "16 word"
  tp_beam :: "16 word"
  tp_dim :: field_dimension
  tp_length_offsets :: bool
  tp_beam_offsets :: bool

definition point_for :: "nat \<Rightarrow> int \<Rightarrow> int \<Rightarrow> mmsi \<times> vessel \<Rightarrow> tile_point" where
  "point_for z x y r =
     (let v = snd r in
      \<lparr>tp_mmsi = fst r, tp_x = go_round (fst (place z x y v)), tp_y = go_round (snd (place z x y v)), tp_seen = v_seen v,
       tp_name = v_name v, tp_kind = v_kind v, tp_class = v_class v, tp_source = source_kind (v_source v),
       tp_station = v_station v, tp_ship_type = v_ship_type v, tp_nav = v_nav v, tp_cog = v_cog v, tp_sog = v_sog v,
       tp_heading = v_heading v, tp_length = v_length v, tp_beam = v_beam v, tp_dim = v_dim v,
       tp_length_offsets = has_length_offsets v, tp_beam_offsets = has_beam_offsets v\<rparr>)"

definition shown :: "nat \<Rightarrow> int \<Rightarrow> int \<Rightarrow> tile_filter \<Rightarrow> time \<Rightarrow> mmsi \<times> vessel \<Rightarrow> bool" where
  "shown z x y f now r \<longleftrightarrow>
     \<not> (\<bar>v_lat (snd r)\<bar> > mercator_lat \<or> \<not> tile_match f (fst r) (snd r) now) \<and> in_tile (place z x y (snd r))"

definition all_points ::
  "nat \<Rightarrow> int \<Rightarrow> int \<Rightarrow> tile_filter \<Rightarrow> time \<Rightarrow> cache \<Rightarrow> (mmsi \<times> vessel) list \<Rightarrow> tile_point list" where
  "all_points z x y f now c recs =
     sort_key tp_mmsi (map (point_for z x y) (filter (shown z x y f now)
       (vessels_in [tile_box z x y] c @ filter (\<lambda>r. map_of (c_vessels c) (fst r) = None) recs)))"

definition cell_at :: "tile_point \<Rightarrow> int" where
  "cell_at p = tile_cell (tp_x p) (tp_y p)"

text \<open>The index of each cell's newest point; the first of two as new.\<close>

definition best_step :: "tile_point list \<Rightarrow> nat \<Rightarrow> (int \<times> nat) list \<Rightarrow> (int \<times> nat) list" where
  "best_step pts i best =
     (case map_of best (cell_at (pts ! i)) of
        None \<Rightarrow> put (cell_at (pts ! i)) i best
      | Some j \<Rightarrow> if tp_seen (pts ! i) > tp_seen (pts ! j) then put (cell_at (pts ! i)) i best else best)"

definition thin_points :: "tile_point list \<Rightarrow> tile_point list" where
  "thin_points pts = map ((!) pts) (sort (map snd (fold (best_step pts) [0..<length pts] [])))"

definition tile_points ::
  "nat \<Rightarrow> int \<Rightarrow> int \<Rightarrow> tile_filter \<Rightarrow> time \<Rightarrow> cache \<Rightarrow> (mmsi \<times> vessel) list \<Rightarrow> tile_point list" where
  "tile_points z x y f now c recs =
     (let pts = all_points z x y f now c recs in if length pts > tile_cap then thin_points pts else pts)"

definition point_props :: "time \<Rightarrow> tile_point \<Rightarrow> (string \<times> mvt_val) list" where
  "point_props now p =
     [(''mmsi'', UintVal (ucast (tp_mmsi p))), (''kind'', StrVal (tp_kind p)), (''source'', StrVal (tp_source p)),
      (''station'', StrVal (tp_station p)),
      (''age_s'', UintVal (word_of_int (max 0 (time_sub now (tp_seen p) sdiv second))))] @
     (if tp_name p \<noteq> [] then [(''name'', StrVal (tp_name p))] else []) @
     (if tp_class p \<noteq> [] then [(''class'', StrVal (tp_class p))] else []) @
     (if served_flag (tp_mmsi p) (tp_kind p) \<noteq> [] then [(''flag'', StrVal (served_flag (tp_mmsi p) (tp_kind p)))] else []) @
     (if tp_ship_type p \<noteq> 0 then [(''type'', UintVal (ucast (tp_ship_type p)))] else []) @
     (if tp_nav p \<noteq> 15 then [(''nav_status'', UintVal (ucast (tp_nav p)))] else []) @
     (if has_hull (tp_kind p) then
        (if tp_length p > 0 then [(''length'', UintVal (ucast (tp_length p)))] else []) @
        (if tp_length_offsets p
         then [(''to_bow'', UintVal (ucast (dim_a (tp_dim p)))), (''to_stern'', UintVal (ucast (dim_b (tp_dim p))))] else []) @
        (if tp_beam p > 0 then [(''beam'', UintVal (ucast (tp_beam p)))] else []) @
        (if tp_beam_offsets p
         then [(''to_port'', UintVal (ucast (dim_c (tp_dim p)))), (''to_starboard'', UintVal (ucast (dim_d (tp_dim p))))] else [])
      else []) @
     (if tp_sog p < 102.3 then [(''sog'', DoubleVal (tp_sog p))] else []) @
     (if tp_cog p < 360 then [(''cog'', DoubleVal (tp_cog p))] else []) @
     (if valid_heading (tp_heading p) \<and> has_hull (tp_kind p)
      then [(''heading'', UintVal (ucast (tp_heading p))), (''hdg'', DoubleVal (of_nat (unat (tp_heading p))))]
      else if tp_cog p < 360 \<and> has_hull (tp_kind p) then [(''hdg'', DoubleVal (tp_cog p))] else [])"

definition vessel_tile :: "(real \<Rightarrow> 64 word) \<Rightarrow> time \<Rightarrow> tile_point list \<Rightarrow> bytes" where
  "vessel_tile fb now pts =
     drawn_tile fb ''vessels''
       (map (\<lambda>p. Point (ucast (tp_mmsi p)) (word_of_int (tp_x p)) (word_of_int (tp_y p)) (point_props now p)) pts)"

section \<open>The record's share of a tile\<close>

definition tile_query :: "nat \<Rightarrow> int \<Rightarrow> int \<Rightarrow> tile_filter \<Rightarrow> time \<Rightarrow> record_query option" where
  "tile_query z x y f now =
     (case age_rule (tf_rules f) (tf_mmsi f \<noteq> None) of (age, vf) \<Rightarrow>
        if age = 0 \<or> age > vessel_ttl
        then Some \<lparr>sel_mmsis = tf_mmsi f, sel_imos = None, sel_boxes = [tile_box z x y], sel_prefix = [], sel_contains = [],
               sel_flag = [], sel_since = since now age, sel_before = now - vessel_ttl, sel_has_pos = True, sel_by_name = False,
               sel_filter = Some vf, sel_now = now, sel_limit = 0\<rparr>
        else None)"

record picks =
  pk_newest :: "(int \<times> mmsi \<times> int) list"
  pk_all :: "mmsi list"
  pk_inside :: nat

definition pick_cell :: "nat \<Rightarrow> int \<Rightarrow> int \<Rightarrow> vessel \<Rightarrow> int" where
  "pick_cell z x y v = tile_cell (go_round (fst (place z x y v))) (go_round (snd (place z x y v)))"

definition pick_step :: "nat \<Rightarrow> int \<Rightarrow> int \<Rightarrow> mmsi \<times> mirror_entry \<Rightarrow> picks \<Rightarrow> picks" where
  "pick_step z x y r pk =
     (let m = fst r; v = me_v (snd r) in
      if \<bar>v_lat v\<bar> > mercator_lat \<or> \<not> in_tile (place z x y v) then pk
      else let n = pk_inside pk + 1;
               all' = (if n \<le> tile_cap + 1 then pk_all pk @ [m] else pk_all pk);
               cell = pick_cell z x y v; seen = unix_ms (v_seen v);
               newest' = (case map_of (pk_newest pk) cell of
                           None \<Rightarrow> put cell (m, seen) (pk_newest pk)
                         | Some (bm, bs) \<Rightarrow> if seen > bs \<or> seen = bs \<and> m < bm then put cell (m, seen) (pk_newest pk) else pk_newest pk)
           in \<lparr>pk_newest = newest', pk_all = all', pk_inside = n\<rparr>)"

definition by_mmsis :: "mmsi list \<Rightarrow> record_query" where
  "by_mmsis ms = any_query\<lparr>sel_mmsis := Some ms\<rparr>"

type_synonym found_rows = "find_error + (mmsi \<times> vessel \<times> time) list"

definition tile_records :: "(record_query \<Rightarrow> found_rows) \<Rightarrow> mirror \<Rightarrow> record_query \<Rightarrow> nat \<Rightarrow> int \<Rightarrow> int \<Rightarrow> found_rows" where
  "tile_records find_in mi q z x y =
     (if \<not> answers q then find_in q
      else if \<not> within_bounds q then Inl TooManyTerms
      else let pk = fold (pick_step z x y) (each q mi) \<lparr>pk_newest = [], pk_all = [], pk_inside = 0\<rparr> in
        if pk_inside pk = 0 then Inr []
        else if pk_inside pk \<le> tile_cap then find_in (by_mmsis (pk_all pk))
        else find_in (by_mmsis (map (\<lambda>(_, m, _). m) (pk_newest pk))))"

definition rows_of :: "found_rows \<Rightarrow> (mmsi \<times> vessel) list" where
  "rows_of r = (case r of Inl _ \<Rightarrow> [] | Inr rs \<Rightarrow> map (\<lambda>(m, v, _). (m, v)) rs)"

definition vessel_tile_for ::
  "(record_query \<Rightarrow> found_rows) \<Rightarrow> mirror \<Rightarrow> bool \<Rightarrow> cache \<Rightarrow> nat \<Rightarrow> int \<Rightarrow> int \<Rightarrow> tile_filter \<Rightarrow> time \<Rightarrow> tile_point list" where
  "vessel_tile_for find_in mi stored c z x y f now =
     tile_points z x y f now c
       (case tile_query z x y f now of
          None \<Rightarrow> []
        | Some q \<Rightarrow> if stored then rows_of (tile_records find_in mi q z x y) else [])"

section \<open>The cache of built tiles\<close>

record 'b tile_entry =
  te_at :: time
  te_bytes :: 'b

definition tile_cache_max :: nat where "tile_cache_max = 10000"

definition tile_expired :: "duration \<Rightarrow> time \<Rightarrow> 'b tile_entry \<Rightarrow> bool" where
  "tile_expired ttl now e \<longleftrightarrow> time_sub now (te_at e) \<ge> ttl"

definition make_room :: "duration \<Rightarrow> time \<Rightarrow> (string \<times> 'b tile_entry) list \<Rightarrow> (string \<times> 'b tile_entry) list" where
  "make_room ttl now m =
     (if length m \<ge> tile_cache_max then
        (let m1 = keep_if (\<lambda>_ e. \<not> tile_expired ttl now e) m in if length m1 \<ge> tile_cache_max then [] else m1)
      else m)"

text \<open>\<open>get\<close> with its build: \<open>ttl0\<close> is the cache's own, zero for the usual one.\<close>

definition tile_get ::
  "duration \<Rightarrow> string \<Rightarrow> time \<Rightarrow> 'b \<Rightarrow> (string \<times> 'b tile_entry) list \<Rightarrow> 'b \<times> (string \<times> 'b tile_entry) list" where
  "tile_get ttl0 key now built m =
     (let ttl = (if ttl0 = 0 then tile_ttl else ttl0) in
      case map_of m key of
        Some e \<Rightarrow>
          if tile_expired ttl now e then (built, put key \<lparr>te_at = now, te_bytes = built\<rparr> (make_room ttl now m))
          else (te_bytes e, m)
      | None \<Rightarrow> (built, put key \<lparr>te_at = now, te_bytes = built\<rparr> (make_room ttl now m)))"

section \<open>Thinning\<close>

definition beats :: "tile_point \<Rightarrow> tile_point \<Rightarrow> bool" where
  "beats q p \<longleftrightarrow> tp_seen q > tp_seen p \<or> tp_seen q = tp_seen p \<and> tp_mmsi q < tp_mmsi p"

lemma best_fold:
  fixes pts :: "tile_point list"
  assumes "n \<le> length pts"
  defines "best \<equiv> fold (best_step pts) [0..<n] []"
  shows "is_map best"
    and "map_of best c = Some i \<longleftrightarrow> i < n \<and> cell_at (pts ! i) = c \<and>
      (\<forall>j < n. cell_at (pts ! j) = c \<longrightarrow> tp_seen (pts ! j) < tp_seen (pts ! i) \<or> tp_seen (pts ! j) = tp_seen (pts ! i) \<and> i \<le> j)"
proof -
  let ?W = "\<lambda>n c i. i < n \<and> cell_at (pts ! i) = c \<and>
      (\<forall>j < n. cell_at (pts ! j) = c \<longrightarrow> tp_seen (pts ! j) < tp_seen (pts ! i) \<or> tp_seen (pts ! j) = tp_seen (pts ! i) \<and> i \<le> j)"
  have "is_map (fold (best_step pts) [0..<n] []) \<and>
    (\<forall>c i. map_of (fold (best_step pts) [0..<n] []) c = Some i \<longleftrightarrow> ?W n c i)"
  proof (induction n)
    case (Suc n)
    let ?b = "fold (best_step pts) [0..<n] []"
    have m: "is_map ?b" and w: "\<And>c i. map_of ?b c = Some i \<longleftrightarrow> ?W n c i" using Suc by blast+
    have none: "map_of ?b c = None \<Longrightarrow> j < n \<Longrightarrow> cell_at (pts ! j) \<noteq> c" for c j
    proof
      assume c: "map_of ?b c = None" and j: "j < n" "cell_at (pts ! j) = c"
      define S where "S = {k. k < n \<and> cell_at (pts ! k) = c}"
      have S: "finite S" "S \<noteq> {}" using j by (auto simp: S_def)
      define i where "i = Min {k \<in> S. tp_seen (pts ! k) = Max ((\<lambda>k. tp_seen (pts ! k)) ` S)}"
      have "Max ((\<lambda>k. tp_seen (pts ! k)) ` S) \<in> (\<lambda>k. tp_seen (pts ! k)) ` S" using S by (intro Max_in) auto
      then have ne: "{k \<in> S. tp_seen (pts ! k) = Max ((\<lambda>k. tp_seen (pts ! k)) ` S)} \<noteq> {}" by auto
      then have i: "i \<in> S" "tp_seen (pts ! i) = Max ((\<lambda>k. tp_seen (pts ! k)) ` S)"
        using Min_in [OF _ ne] S unfolding i_def by auto
      have "?W n c i"
      proof (intro conjI allI impI)
        show "i < n" "cell_at (pts ! i) = c" using i(1) by (simp_all add: S_def)
        fix k assume "k < n" "cell_at (pts ! k) = c"
        then have k: "k \<in> S" by (simp add: S_def)
        then have "tp_seen (pts ! k) \<le> tp_seen (pts ! i)" using S i(2) by simp
        moreover have "i \<le> k" if "tp_seen (pts ! k) = tp_seen (pts ! i)"
          unfolding i_def using S k that i(2) by (intro Min_le) auto
        ultimately show "tp_seen (pts ! k) < tp_seen (pts ! i) \<or> tp_seen (pts ! k) = tp_seen (pts ! i) \<and> i \<le> k" by linarith
      qed
      then have "map_of ?b c = Some i" by (rule w [THEN iffD2])
      with c show False by simp
    qed
    have W_Suc: "?W (Suc n) c i \<longleftrightarrow>
        (if cell_at (pts ! n) = c
         then i = n \<and> (\<forall>j < n. cell_at (pts ! j) = c \<longrightarrow> tp_seen (pts ! j) < tp_seen (pts ! n)) \<or>
              ?W n c i \<and> tp_seen (pts ! n) \<le> tp_seen (pts ! i)
         else ?W n c i)" for c i
      by (auto simp: less_Suc_eq)
    have step: "map_of (best_step pts n ?b) c = Some i \<longleftrightarrow> ?W (Suc n) c i" for c i
    proof (cases "cell_at (pts ! n) = c")
      case False
      have e: "map_of (best_step pts n ?b) c = map_of ?b c"
        using False by (auto simp: best_step_def map_of_put split: option.split)
      show ?thesis by (simp only: e W_Suc w False if_False)
    next
      case c: True
      show ?thesis
      proof (cases "map_of ?b c")
        case None
        have "map_of (best_step pts n ?b) c = Some n" using None c by (simp add: best_step_def map_of_put)
        moreover have "\<not> ?W n c i" using w [of c i] None by (metis option.distinct(1))
        ultimately show ?thesis unfolding W_Suc using none [OF None] c by auto
      next
        case (Some j)
        then have j: "?W n c j" by (rule w [THEN iffD1])
        have one: "?W n c i \<longleftrightarrow> i = j" 
          unfolding w [symmetric] Some option.inject by (rule eq_commute)
        have top: "(\<forall>k < n. cell_at (pts ! k) = c \<longrightarrow> tp_seen (pts ! k) < tp_seen (pts ! n)) \<longleftrightarrow> tp_seen (pts ! j) < tp_seen (pts ! n)"
        proof
          assume "\<forall>k < n. cell_at (pts ! k) = c \<longrightarrow> tp_seen (pts ! k) < tp_seen (pts ! n)"
          with j show "tp_seen (pts ! j) < tp_seen (pts ! n)" by blast
        next
          assume lt: "tp_seen (pts ! j) < tp_seen (pts ! n)"
          show "\<forall>k < n. cell_at (pts ! k) = c \<longrightarrow> tp_seen (pts ! k) < tp_seen (pts ! n)"
          proof (intro allI impI)
            fix k assume "k < n" "cell_at (pts ! k) = c"
            with j have "tp_seen (pts ! k) \<le> tp_seen (pts ! j)" by fastforce
            with lt show "tp_seen (pts ! k) < tp_seen (pts ! n)" by simp
          qed
        qed
        have "map_of (best_step pts n ?b) c = Some (if tp_seen (pts ! j) < tp_seen (pts ! n) then n else j)"
          using Some c by (auto simp: best_step_def map_of_put)
        then show ?thesis unfolding W_Suc one top using c j by auto
      qed
    qed
    have "is_map (best_step pts n ?b)" using m by (auto simp: best_step_def is_map_put split: option.split)
    then show ?case using step by simp
  qed simp
  then show "is_map best" and "map_of best c = Some i \<longleftrightarrow> ?W n c i" unfolding best_def by blast+
qed

lemma map_nth_filter: "map ((!) xs) (filter (\<lambda>i. P (xs ! i)) [0..<length xs]) = filter P xs"
proof -
  have "filter P (map ((!) xs) [0..<length xs]) = map ((!) xs) (filter (P \<circ> (!) xs) [0..<length xs])" by (rule filter_map)
  then show ?thesis by (simp add: map_nth o_def)
qed

lemma thin_points_newest:
  assumes "sorted (map tp_mmsi pts)" and "distinct (map tp_mmsi pts)"
  shows "thin_points pts = filter (\<lambda>p. \<forall>q \<in> set pts. cell_at q = cell_at p \<longrightarrow> \<not> beats q p) pts"
proof -
  let ?n = "length pts"
  define best where "best = fold (best_step pts) [0..<?n] []"
  note B = best_fold [of ?n pts, simplified, folded best_def]
  let ?W = "\<lambda>i. \<forall>j < ?n. cell_at (pts ! j) = cell_at (pts ! i) \<longrightarrow>
      tp_seen (pts ! j) < tp_seen (pts ! i) \<or> tp_seen (pts ! j) = tp_seen (pts ! i) \<and> i \<le> j"
  have less: "tp_mmsi (pts ! j) < tp_mmsi (pts ! i) \<longleftrightarrow> j < i" if "i < ?n" "j < ?n" for i j
  proof -
    have le: "a \<le> b \<Longrightarrow> b < ?n \<Longrightarrow> tp_mmsi (pts ! a) \<le> tp_mmsi (pts ! b)" for a b
      using assms(1) sorted_nth_mono [of "map tp_mmsi pts" a b] by simp
    have ne: "a < ?n \<Longrightarrow> b < ?n \<Longrightarrow> a \<noteq> b \<Longrightarrow> tp_mmsi (pts ! a) \<noteq> tp_mmsi (pts ! b)" for a b
      using assms(2) nth_eq_iff_index_eq [of "map tp_mmsi pts" a b] by simp
    show ?thesis using le [of j i] le [of i j] ne [of i j] that by (cases "j < i") force+
  qed
  have W: "?W i \<longleftrightarrow> (\<forall>q \<in> set pts. cell_at q = cell_at (pts ! i) \<longrightarrow> \<not> beats q (pts ! i))" if "i < ?n" for i
  proof -
    have "tp_seen (pts ! j) < tp_seen (pts ! i) \<or> tp_seen (pts ! j) = tp_seen (pts ! i) \<and> i \<le> j \<longleftrightarrow> \<not> beats (pts ! j) (pts ! i)"
      if j: "j < ?n" for j
      unfolding beats_def less [OF \<open>i < ?n\<close> j] by linarith
    then have "?W i \<longleftrightarrow> (\<forall>j < ?n. cell_at (pts ! j) = cell_at (pts ! i) \<longrightarrow> \<not> beats (pts ! j) (pts ! i))"
      by (intro all_cong1 imp_cong refl)
    then show ?thesis by (simp only: all_set_conv_all_nth)
  qed
  have set: "set (map snd best) = {i. i < ?n \<and> ?W i}"
  proof
    show "set (map snd best) \<subseteq> {i. i < ?n \<and> ?W i}"
    proof
      fix i assume "i \<in> set (map snd best)"
      then obtain c where "(c, i) \<in> set best" by auto
      then have "map_of best c = Some i" using B(1) by (simp add: map_of_eq_Some_iff)
      then have c: "cell_at (pts ! i) = c" and "i < ?n" and "?W i" using B(2) [of c i] by simp_all
      then show "i \<in> {i. i < ?n \<and> ?W i}" by simp
    qed
    show "{i. i < ?n \<and> ?W i} \<subseteq> set (map snd best)"
    proof
      fix i assume "i \<in> {i. i < ?n \<and> ?W i}"
      then have "map_of best (cell_at (pts ! i)) = Some i" using B(2) by simp
      then show "i \<in> set (map snd best)" by (force dest: map_of_SomeD)
    qed
  qed
  have "distinct (map snd best)"
  proof -
    have "inj_on snd (set best)"
    proof (rule inj_onI)
      fix a b assume a: "a \<in> set best" and b: "b \<in> set best" and e: "snd a = snd b"
      have "map_of best (fst a) = Some (snd a)" "map_of best (fst b) = Some (snd b)"
        using a b B(1) by (simp_all add: map_of_eq_Some_iff)
      then have "fst a = fst b" using B(2) e by metis
      with e show "a = b" by (simp add: prod_eq_iff)
    qed
    then show ?thesis using B(1) by (auto simp: distinct_map intro: distinct_map [THEN iffD1, THEN conjunct1])
  qed
  then have "sort (map snd best) = filter ?W [0..<?n]"
    by (intro sorted_distinct_set_unique) (use set in \<open>auto simp: sorted_wrt_filter\<close>)
  also have "\<dots> = filter (\<lambda>i. \<forall>q \<in> set pts. cell_at q = cell_at (pts ! i) \<longrightarrow> \<not> beats q (pts ! i)) [0..<?n]"
    by (rule filter_cong) (use W in auto)
  finally show ?thesis
    unfolding thin_points_def best_def [symmetric]
    by (simp add: map_nth_filter [of pts "\<lambda>p. \<forall>q \<in> set pts. cell_at q = cell_at p \<longrightarrow> \<not> beats q p"])
qed

lemma beats_irrefl: "\<not> beats p p"
  by (simp add: beats_def)

lemma all_points_order: "sorted (map tp_mmsi (all_points z x y f now c recs))"
  by (simp add: all_points_def)

lemma all_points_set:
  "set (all_points z x y f now c recs) =
     point_for z x y ` {r \<in> set (vessels_in [tile_box z x y] c) \<union> {r \<in> set recs. map_of (c_vessels c) (fst r) = None}. shown z x y f now r}"
  by (auto simp: all_points_def)

lemma tp_mmsi_point [simp]: "tp_mmsi (point_for z x y r) = fst r"
  by (simp add: point_for_def Let_def)

lemma all_points_distinct:
  assumes "cache_ok c" and "distinct (map fst recs)"
  shows "distinct (map tp_mmsi (all_points z x y f now c recs))"
proof -
  let ?rs = "vessels_in [tile_box z x y] c @ filter (\<lambda>r. map_of (c_vessels c) (fst r) = None) recs"
  have "fst ` set (vessels_in [tile_box z x y] c) \<inter> {m. map_of (c_vessels c) m = None} = {}"
    using vessels_in_set [OF assms(1)] by fastforce
  then have "distinct (map fst ?rs)"
    using vessels_in_distinct [OF assms(1), of "[tile_box z x y]"] distinct_map_filter [OF assms(2)] by auto
  then have "distinct (map fst (filter (shown z x y f now) ?rs))" by (rule distinct_map_filter)
  moreover have "mset (map tp_mmsi (all_points z x y f now c recs)) = mset (map fst (filter (shown z x y f now) ?rs))"
    unfolding all_points_def by (simp add: multiset.map_comp o_def)
  ultimately show ?thesis by (metis mset_eq_imp_distinct_iff)
qed

text \<open>The points of a tile are those of the cache and the record, thinned past the cap.\<close>

lemma tile_points_subset:
  assumes "cache_ok c" and "distinct (map fst recs)"
  shows "set (tile_points z x y f now c recs) \<subseteq> set (all_points z x y f now c recs)"
  using thin_points_newest [OF all_points_order all_points_distinct [OF assms]]
  by (auto simp: tile_points_def Let_def)

text \<open>
  Past its cap a tile keeps the newest vessel of each cell, the lower MMSI of two as new, and nothing
  else; up to the cap it shows every vessel of the cache and of the record that lies in it and passes the
  filter, a vessel the cache holds in the cache's state.
\<close>

lemma tile_points_exact:
  assumes "cache_ok c" and "distinct (map fst recs)"
  shows "tile_points z x y f now c recs =
    (let pts = all_points z x y f now c recs in
     if length pts \<le> tile_cap then pts
     else filter (\<lambda>p. \<forall>q \<in> set pts. cell_at q = cell_at p \<longrightarrow> \<not> beats q p) pts)"
  using thin_points_newest [OF all_points_order all_points_distinct [OF assms]]
  by (simp add: tile_points_def Let_def)

section \<open>The rows picked from the record\<close>

definition drawn_in :: "nat \<Rightarrow> int \<Rightarrow> int \<Rightarrow> vessel \<Rightarrow> bool" where
  "drawn_in z x y v \<longleftrightarrow> \<not> \<bar>v_lat v\<bar> > mercator_lat \<and> in_tile (place z x y v)"

lemma pick_step_drawn:
  "pick_step z x y r pk = (if drawn_in z x y (me_v (snd r)) then
     \<lparr>pk_newest = (let cell = pick_cell z x y (me_v (snd r)); seen = unix_ms (v_seen (me_v (snd r))) in
          case map_of (pk_newest pk) cell of
            None \<Rightarrow> put cell (fst r, seen) (pk_newest pk)
          | Some (bm, bs) \<Rightarrow> if seen > bs \<or> seen = bs \<and> fst r < bm then put cell (fst r, seen) (pk_newest pk) else pk_newest pk),
      pk_all = (if pk_inside pk + 1 \<le> tile_cap + 1 then pk_all pk @ [fst r] else pk_all pk), pk_inside = pk_inside pk + 1\<rparr> else pk)"
  by (simp add: pick_step_def drawn_in_def Let_def)

definition no_picks :: picks where
  "no_picks = \<lparr>pk_newest = [], pk_all = [], pk_inside = 0\<rparr>"

definition picked :: "nat \<Rightarrow> int \<Rightarrow> int \<Rightarrow> (mmsi \<times> mirror_entry) list \<Rightarrow> picks" where
  "picked z x y rs = fold (pick_step z x y) rs no_picks"

definition in_it :: "nat \<Rightarrow> int \<Rightarrow> int \<Rightarrow> (mmsi \<times> mirror_entry) list \<Rightarrow> (mmsi \<times> mirror_entry) list" where
  "in_it z x y rs = filter (\<lambda>r. drawn_in z x y (me_v (snd r))) rs"

lemma picked_snoc: "picked z x y (rs @ [r]) = pick_step z x y r (picked z x y rs)"
  by (simp add: picked_def)

lemma picked_inside: "pk_inside (picked z x y rs) = length (in_it z x y rs)"
  by (induction rs rule: rev_induct) (simp_all add: picked_snoc pick_step_drawn in_it_def picked_def no_picks_def)

lemma picked_all: "length (in_it z x y rs) \<le> tile_cap + 1 \<Longrightarrow> pk_all (picked z x y rs) = map fst (in_it z x y rs)"
  by (induction rs rule: rev_induct)
    (auto simp: picked_snoc pick_step_drawn in_it_def picked_def no_picks_def picked_inside [unfolded picked_def no_picks_def in_it_def] split: if_splits)

abbreviation row_ms :: "mmsi \<times> mirror_entry \<Rightarrow> int" where
  "row_ms r \<equiv> unix_ms (v_seen (me_v (snd r)))"

abbreviation row_cell :: "nat \<Rightarrow> int \<Rightarrow> int \<Rightarrow> mmsi \<times> mirror_entry \<Rightarrow> int" where
  "row_cell z x y r \<equiv> pick_cell z x y (me_v (snd r))"

lemma picked_newest:
  "is_map (pk_newest (picked z x y rs)) \<and>
   (\<forall>k m s. map_of (pk_newest (picked z x y rs)) k = Some (m, s) \<longrightarrow>
      (\<exists>r \<in> set (in_it z x y rs). fst r = m \<and> row_cell z x y r = k \<and> row_ms r = s) \<and>
      (\<forall>r \<in> set (in_it z x y rs). row_cell z x y r = k \<longrightarrow> row_ms r < s \<or> row_ms r = s \<and> m \<le> fst r)) \<and>
   (\<forall>r \<in> set (in_it z x y rs). map_of (pk_newest (picked z x y rs)) (row_cell z x y r) \<noteq> None)"
proof (induction rs rule: rev_induct)
  case Nil
  then show ?case by (simp add: picked_def no_picks_def in_it_def)
next
  case (snoc r rs)
  show ?case
  proof (cases "drawn_in z x y (me_v (snd r))")
    case False
    have p: "picked z x y (rs @ [r]) = picked z x y rs" and i: "in_it z x y (rs @ [r]) = in_it z x y rs"
      using False by (simp_all add: picked_snoc pick_step_drawn in_it_def)
    show ?thesis unfolding p i by (rule snoc)
  next
    case True
    let ?nw = "pk_newest (picked z x y rs)"
    have ins: "set (in_it z x y (rs @ [r])) = insert r (set (in_it z x y rs))" using True by (auto simp: in_it_def)
    show ?thesis
    proof (cases "map_of ?nw (row_cell z x y r)")
      case None
      then have "pk_newest (picked z x y (rs @ [r])) = put (row_cell z x y r) (fst r, row_ms r) ?nw"
        using True by (simp add: picked_snoc pick_step_drawn)
      then show ?thesis using snoc None unfolding ins by (auto simp: map_of_put is_map_put)
    next
      case (Some p)
      obtain bm bs where p: "p = (bm, bs)" by fastforce
      have nw: "pk_newest (picked z x y (rs @ [r])) =
          (if row_ms r > bs \<or> row_ms r = bs \<and> fst r < bm then put (row_cell z x y r) (fst r, row_ms r) ?nw else ?nw)"
        using True Some p by (simp add: picked_snoc pick_step_drawn Let_def)
      have old: "\<forall>q \<in> set (in_it z x y rs). row_cell z x y q = row_cell z x y r \<longrightarrow> row_ms q < bs \<or> row_ms q = bs \<and> bm \<le> fst q"
        using snoc Some p by blast
      show ?thesis
      proof (cases "row_ms r > bs \<or> row_ms r = bs \<and> fst r < bm")
        case better: True
        have "\<forall>q \<in> set (in_it z x y rs). row_cell z x y q = row_cell z x y r \<longrightarrow> row_ms q < row_ms r \<or> row_ms q = row_ms r \<and> fst r \<le> fst q"
          using old better by fastforce
        then show ?thesis
          using snoc Some better unfolding ins nw by (auto simp: map_of_put is_map_put)
      next
        case worse: False
        then have "row_ms r < bs \<or> row_ms r = bs \<and> bm \<le> fst r" by auto
        then show ?thesis using snoc Some p worse unfolding ins nw by auto
      qed
    qed
  qed
qed


text \<open>A cell's number, so that the rows picked are few.\<close>

lemma go_round_mono: "a \<le> b \<Longrightarrow> go_round a \<le> go_round b"
proof -
  assume ab: "a \<le> b"
  show ?thesis
  proof (cases "a < 0 \<and> \<not> b < 0")
    case True
    then have "0 \<le> \<lfloor>- a + 1 / 2\<rfloor>" "0 \<le> \<lfloor>b + 1 / 2\<rfloor>" by simp_all
    then have "- \<lfloor>- a + 1 / 2\<rfloor> \<le> \<lfloor>b + 1 / 2\<rfloor>" by linarith
    with True show ?thesis by (simp only: go_round_def if_True if_False)
  next
    case False
    then show ?thesis using ab by (auto simp: go_round_def intro: floor_mono)
  qed
qed

lemma sdiv_is_div: "0 \<le> k \<Longrightarrow> 0 < n \<Longrightarrow> k sdiv n = k div n" for k n :: int
  by (cases "k = 0") (simp_all add: signed_divide_int_def)

lemma in_tile_round:
  assumes "in_tile (px, py)"
  shows "- 128 \<le> go_round px" and "go_round px \<le> 4224" and "- 128 \<le> go_round py" and "go_round py \<le> 4224"
proof -
  have b: "- 128 \<le> go_round t \<and> go_round t \<le> 4224" if t: "- 128 \<le> t" "t < 4224" for t :: real
  proof
    have "of_int (- 128) \<le> t" using t(1) by simp
    then have "go_round (of_int (- 128)) \<le> go_round t" by (rule go_round_mono)
    then show "- 128 \<le> go_round t" by (simp only: go_round_of_int)
    have "t \<le> of_int 4224" using t(2) by simp
    then have "go_round t \<le> go_round (of_int 4224)" by (rule go_round_mono)
    then show "go_round t \<le> 4224" by (simp only: go_round_of_int)
  qed
  have "- 128 \<le> px" "px < 4224" "- 128 \<le> py" "py < 4224"
    using assms by (simp_all add: in_tile_def tile_buffer_def tile_extent_def)
  with b show "- 128 \<le> go_round px" "go_round px \<le> 4224" "- 128 \<le> go_round py" "go_round py \<le> 4224" by blast+
qed

lemma tile_cell_range:
  assumes "- 128 \<le> a" and "a \<le> 4224" and "- 128 \<le> b" and "b \<le> 4224"
  shows "0 \<le> tile_cell a b" and "tile_cell a b \<le> 4692"
proof -
  have cell: "tile_cell a b = (b + 128) div 64 * 68 + (a + 128) div 64"
    using assms by (simp add: tile_cell_def tile_buffer_def tile_grid_def tile_cols_def tile_extent_def sdiv_is_div)
  have d: "0 \<le> (t + 128) div 64 \<and> (t + 128) div 64 \<le> 68" if "- 128 \<le> t" "t \<le> 4224" for t :: int
    using that by presburger
  define u where "u = (b + 128) div 64"
  define w where "w = (a + 128) div 64"
  have "0 \<le> u" "u \<le> 68" "0 \<le> w" "w \<le> 68" using d [OF assms(1,2)] d [OF assms(3,4)] by (simp_all add: u_def w_def)
  then show "0 \<le> tile_cell a b" "tile_cell a b \<le> 4692" unfolding cell u_def [symmetric] w_def [symmetric] by simp_all
qed

lemma pick_cell_range:
  assumes "drawn_in z x y v"
  shows "0 \<le> pick_cell z x y v" and "pick_cell z x y v \<le> 4692"
proof -
  obtain px py where p: "place z x y v = (px, py)" by fastforce
  with assms have "in_tile (px, py)" by (simp add: drawn_in_def)
  note r = in_tile_round [OF this]
  show "0 \<le> pick_cell z x y v" "pick_cell z x y v \<le> 4692"
    using tile_cell_range [OF r] by (simp_all add: pick_cell_def p)
qed

lemma picked_few: "length (pk_newest (picked z x y rs)) \<le> 4693"
proof -
  note P = picked_newest [of z x y rs]
  have "fst ` set (pk_newest (picked z x y rs)) \<subseteq> {0..4692}"
  proof
    fix k assume "k \<in> fst ` set (pk_newest (picked z x y rs))"
    then obtain ms where "(k, ms) \<in> set (pk_newest (picked z x y rs))" by auto
    with P [THEN conjunct1] have "map_of (pk_newest (picked z x y rs)) k = Some ms" by (simp add: map_of_eq_Some_iff)
    then obtain m s where "map_of (pk_newest (picked z x y rs)) k = Some (m, s)" by (cases ms) simp
    then obtain r where "r \<in> set (in_it z x y rs)" and k: "row_cell z x y r = k"
      using P [THEN conjunct2, THEN conjunct1, rule_format, of k m s] by blast
    then have "drawn_in z x y (me_v (snd r))" by (simp add: in_it_def)
    from pick_cell_range [OF this] show "k \<in> {0..4692}" by (simp add: k)
  qed
  then have "card (fst ` set (pk_newest (picked z x y rs))) \<le> card {0..4692 :: int}" by (intro card_mono) auto
  moreover have "card (fst ` set (pk_newest (picked z x y rs))) = length (pk_newest (picked z x y rs))"
    using P [THEN conjunct1] distinct_card [of "map fst (pk_newest (picked z x y rs))"] by simp
  ultimately show ?thesis by simp
qed

text \<open>The mirror's answers as sets of rows.\<close>

lemma rows_of_mirror:
  assumes "mirror_ok mi" and "within_bounds q" and "sel_imos q = None" and "sel_limit q = 0"
  shows "\<exists>rs. mirror_find q mi = Inr rs \<and> distinct (map fst rs) \<and>
    set (rows_of (Inr rs)) = {(m, state_of (me_v e)) | m e. map_of (mi_entries mi) m = Some e \<and> mirror_match q m (me_v e)}"
proof -
  have mp: "is_map (mi_entries mi)" using assms(1) by (simp add: mirror_ok_def)
  define rs where "rs = map (\<lambda>(m, _, e). (m, state_of (me_v e), me_first_seen e)) (ranked_matches q mi)"
  have find: "mirror_find q mi = Inr rs"
    using mirror_find_ranked [OF assms(1,2)] assms(3,4) by (simp add: rs_def)
  have "mset (map fst rs) = mset (map fst (filter (\<lambda>(m, e). mirror_match q m (me_v e)) (mi_entries mi)))"
    by (simp add: rs_def ranked_matches_def hit_of_def split_def multiset.map_comp o_def)
  moreover have "distinct (map fst (filter (\<lambda>(m, e). mirror_match q m (me_v e)) (mi_entries mi)))"
    using mp by (rule distinct_map_filter)
  ultimately have "distinct (map fst rs)" by (metis mset_eq_imp_distinct_iff)
  moreover have "set (rows_of (Inr rs)) = {(m, state_of (me_v e)) | m e. map_of (mi_entries mi) m = Some e \<and> mirror_match q m (me_v e)}"
    using map_of_eq_Some_iff [OF mp] by (force simp: rows_of_def rs_def ranked_matches_def hit_of_def split_def)
  ultimately show ?thesis using find by blast
qed

lemma rows_distinct: "distinct (map fst rs) \<Longrightarrow> distinct (map fst (rows_of (Inr rs)))"
  by (simp add: rows_of_def split_def o_def)

lemma by_mmsis_match: "mirror_match (by_mmsis ms) m v \<longleftrightarrow> m \<in> set ms"
  by (simp add: mirror_match_def by_mmsis_def any_query_def unix_ms_def)

lemma place_state [simp]: "place z x y (state_of v) = place z x y v" "v_lat (state_of v) = v_lat v" "v_seen (state_of v) = v_seen v"
  by (simp_all add: place_def state_of_def)

section \<open>What picking rows keeps\<close>

lemma tile_points_set:
  assumes "cache_ok c" and "distinct (map fst recs)"
  shows "set (tile_points z x y f now c recs) =
    (let S = set (all_points z x y f now c recs) in
     if card S \<le> tile_cap then S else {p \<in> S. \<forall>q \<in> S. cell_at q = cell_at p \<longrightarrow> \<not> beats q p})"
proof -
  have d: "distinct (map tp_mmsi (all_points z x y f now c recs))" by (rule all_points_distinct [OF assms])
  then have "distinct (all_points z x y f now c recs)" by (simp add: distinct_map)
  then have "card (set (all_points z x y f now c recs)) = length (all_points z x y f now c recs)" by (rule distinct_card)
  moreover note thin_points_newest [OF all_points_order d]
  ultimately show ?thesis by (simp add: tile_points_def Let_def)
qed

text \<open>A row of the record: heard at a whole millisecond since the epoch, not held by the cache, and passing the filter read again.\<close>

definition record_row :: "tile_filter \<Rightarrow> time \<Rightarrow> cache \<Rightarrow> mmsi \<Rightarrow> vessel \<Rightarrow> bool" where
  "record_row f now c m v \<longleftrightarrow> v_seen v = from_ms (unix_ms (v_seen v)) \<and> 0 \<le> unix_ms (v_seen v) \<and>
     map_of (c_vessels c) m = None \<and> tile_match f m (state_of v) now"

lemma ms_order:
  assumes "a = from_ms (unix_ms a)" and "b = from_ms (unix_ms b)" and "0 \<le> unix_ms a" and "unix_ms a < unix_ms b"
  shows "a < b"
proof -
  have "b = unix_ms b * 1000000" using assms by (metis from_ms_def not_less)
  moreover have "a = zero_time \<or> a = unix_ms a * 1000000" using assms(1) by (metis from_ms_def)
  ultimately show ?thesis using assms(3,4) by (auto simp: zero_time_def)
qed

lemma tile_query_shape:
  assumes "tile_query z x y f now = Some q"
  shows "answers q" and "sel_imos q = None" and "sel_limit q = 0"
  using assms by (auto simp: tile_query_def answers_def split: prod.splits if_splits)

lemma mirror_by_mmsis:
  assumes "mirror_ok mi" and "length ms \<le> max_params"
  shows "\<exists>rs. mirror_find (by_mmsis ms) mi = Inr rs \<and> distinct (map fst (rows_of (Inr rs))) \<and>
    set (rows_of (Inr rs)) = {(m, state_of (me_v e)) | m e. map_of (mi_entries mi) m = Some e \<and> m \<in> set ms}"
proof -
  have "within_bounds (by_mmsis ms)" using assms(2) by (simp add: within_bounds_def by_mmsis_def any_query_def)
  moreover have "sel_imos (by_mmsis ms) = None" "sel_limit (by_mmsis ms) = 0" by (simp_all add: by_mmsis_def any_query_def)
  ultimately show ?thesis
    using rows_of_mirror [OF assms(1), of "by_mmsis ms"] rows_distinct unfolding by_mmsis_match by blast
qed

text \<open>The rows a tile takes: among those it asked for, all in the tile, or the newest of each cell past the cap.\<close>

lemma tile_records_rows:
  assumes "mirror_ok mi" and "answers q" and "sel_imos q = None" and "within_bounds q"
  obtains L rs where "tile_records (\<lambda>q. mirror_find q mi) mi q z x y = Inr rs" and "distinct (map fst (rows_of (Inr rs)))"
    and "set (rows_of (Inr rs)) = {(m, state_of (me_v e)) | m e. map_of (mi_entries mi) m = Some e \<and> m \<in> L}"
    and "L \<subseteq> fst ` set (in_it z x y (each q mi))"
    and "if length (in_it z x y (each q mi)) \<le> tile_cap then L = fst ` set (in_it z x y (each q mi))
      else \<forall>r \<in> set (in_it z x y (each q mi)). \<exists>p \<in> set (in_it z x y (each q mi)). fst p \<in> L \<and>
        row_cell z x y p = row_cell z x y r \<and> (row_ms r < row_ms p \<or> row_ms r = row_ms p \<and> fst p \<le> fst r)"
proof -
  define T where "T = in_it z x y (each q mi)"
  define pk where "pk = picked z x y (each q mi)"
  have pk: "fold (pick_step z x y) (each q mi) \<lparr>pk_newest = [], pk_all = [], pk_inside = 0\<rparr> = pk"
    by (simp add: pk_def picked_def no_picks_def)
  have inside: "pk_inside pk = length T" by (simp add: pk_def T_def picked_inside)
  have tr: "tile_records (\<lambda>q. mirror_find q mi) mi q z x y =
      (if length T = 0 then Inr []
       else if length T \<le> tile_cap then mirror_find (by_mmsis (pk_all pk)) mi
       else mirror_find (by_mmsis (map (\<lambda>(_, m, _). m) (pk_newest pk))) mi)"
    using assms(2,4) by (simp add: tile_records_def pk inside Let_def)
  note N = picked_newest [of z x y "each q mi", folded pk_def T_def]
  consider (none) "T = []" | (some) "T \<noteq> []" "length T \<le> tile_cap" | (many) "tile_cap < length T" by fastforce
  then show ?thesis
  proof cases
    case none
    then show ?thesis by (intro that [of "[]" "{}"]) (use tr in \<open>auto simp: T_def [symmetric] rows_of_def\<close>)
  next
    case some
    have all: "pk_all pk = map fst T" using picked_all [of z x y "each q mi"] some by (simp add: pk_def T_def)
    have "length (pk_all pk) \<le> max_params" using some by (simp add: all tile_cap_def max_params_def)
    from mirror_by_mmsis [OF assms(1) this] obtain rs where
      rs: "mirror_find (by_mmsis (pk_all pk)) mi = Inr rs" "distinct (map fst (rows_of (Inr rs)))"
        "set (rows_of (Inr rs)) = {(m, state_of (me_v e)) | m e. map_of (mi_entries mi) m = Some e \<and> m \<in> set (pk_all pk)}" by blast
    show ?thesis by (intro that [of rs "set (pk_all pk)"]) (use tr some rs in \<open>simp_all add: all T_def [symmetric]\<close>)
  next
    case many
    let ?ms = "map (\<lambda>(_, m, _). m) (pk_newest pk)"
    have "length ?ms \<le> max_params" using picked_few [of z x y "each q mi"] by (simp add: pk_def max_params_def)
    from mirror_by_mmsis [OF assms(1) this] obtain rs where
      rs: "mirror_find (by_mmsis ?ms) mi = Inr rs" "distinct (map fst (rows_of (Inr rs)))"
        "set (rows_of (Inr rs)) = {(m, state_of (me_v e)) | m e. map_of (mi_entries mi) m = Some e \<and> m \<in> set ?ms}" by blast
    have entry: "(k, m, s) \<in> set (pk_newest pk) \<longleftrightarrow> map_of (pk_newest pk) k = Some (m, s)" for k m s
      using N [THEN conjunct1] by (simp add: map_of_eq_Some_iff)
    show ?thesis
    proof (rule that [of rs "set ?ms"])
      show "tile_records (\<lambda>q. mirror_find q mi) mi q z x y = Inr rs" using tr many rs(1) by auto
      show "set ?ms \<subseteq> fst ` set (in_it z x y (each q mi))"
      proof
        fix m assume "m \<in> set ?ms"
        then obtain k s where "(k, m, s) \<in> set (pk_newest pk)" by auto
        then have "map_of (pk_newest pk) k = Some (m, s)" by (simp only: entry)
        then obtain r where "r \<in> set T" "fst r = m" using N [THEN conjunct2, THEN conjunct1, rule_format, of k m s] by blast
        then show "m \<in> fst ` set (in_it z x y (each q mi))" unfolding T_def by blast
      qed
    next
      have "\<exists>p \<in> set T. fst p \<in> set ?ms \<and> row_cell z x y p = row_cell z x y r \<and>
          (row_ms r < row_ms p \<or> row_ms r = row_ms p \<and> fst p \<le> fst r)" if r: "r \<in> set T" for r
      proof -
        obtain m s where ms: "map_of (pk_newest pk) (row_cell z x y r) = Some (m, s)"
          using N [THEN conjunct2, THEN conjunct2] r by fastforce
        note w = N [THEN conjunct2, THEN conjunct1, rule_format, OF ms]
        then obtain p where p: "p \<in> set T" "fst p = m" "row_cell z x y p = row_cell z x y r" "row_ms p = s" by blast
        have "fst p \<in> set ?ms" using entry [of "row_cell z x y r" m s] ms p(2) by force
        moreover have "row_ms r < row_ms p \<or> row_ms r = row_ms p \<and> fst p \<le> fst r" using w [THEN conjunct2] r p by blast
        ultimately show ?thesis using p by blast
      qed
      then show "if length (in_it z x y (each q mi)) \<le> tile_cap then set ?ms = fst ` set (in_it z x y (each q mi))
          else \<forall>r \<in> set (in_it z x y (each q mi)). \<exists>p \<in> set (in_it z x y (each q mi)). fst p \<in> set ?ms \<and>
            row_cell z x y p = row_cell z x y r \<and> (row_ms r < row_ms p \<or> row_ms r = row_ms p \<and> fst p \<le> fst r)"
        using many unfolding T_def [symmetric] by simp
    qed (use rs many in \<open>simp_all add: T_def\<close>)
  qed
qed

lemma each_mset_whole:
  assumes "mirror_ok mi" and "sel_imos q = None"
  shows "mset (each q mi) = mset (filter (\<lambda>(m, e). mirror_match q m (me_v e)) (mi_entries mi))"
  by (rule each_mset [OF assms(1)]) (simp add: assms(2))

lemma each_rows:
  assumes "mirror_ok mi" and "sel_imos q = None"
  shows "(m, e) \<in> set (each q mi) \<longleftrightarrow> map_of (mi_entries mi) m = Some e \<and> mirror_match q m (me_v e)"
proof -
  have "is_map (mi_entries mi)" using assms(1) by (simp add: mirror_ok_def)
  then show ?thesis
    unfolding mset_eq_setD [OF each_mset_whole [OF assms]] by (auto simp: map_of_eq_Some_iff)
qed

lemma each_distinct:
  assumes "mirror_ok mi" and "sel_imos q = None"
  shows "distinct (map fst (each q mi))"
proof -
  have mp: "is_map (mi_entries mi)" using assms(1) by (simp add: mirror_ok_def)
  have "mset (map fst (each q mi)) = mset (map fst (filter (\<lambda>(m, e). mirror_match q m (me_v e)) (mi_entries mi)))"
    using each_mset_whole [OF assms] by simp
  then show ?thesis using distinct_map_filter [OF mp] by (metis mset_eq_imp_distinct_iff)
qed

lemma point_fields [simp]:
  "cell_at (point_for z x y r) = pick_cell z x y (snd r)" "tp_seen (point_for z x y r) = v_seen (snd r)"
  by (simp_all add: point_for_def Let_def cell_at_def pick_cell_def)

lemma pick_cell_state [simp]: "pick_cell z x y (state_of v) = pick_cell z x y v"
  by (simp add: pick_cell_def)

lemma winners_of_fewer:
  assumes "p \<in> A" and "A \<subseteq> B" and "\<forall>q \<in> B. cell_at q = cell_at p \<longrightarrow> \<not> beats q p"
  shows "p \<in> (if card A \<le> tile_cap then A else {p \<in> A. \<forall>q \<in> A. cell_at q = cell_at p \<longrightarrow> \<not> beats q p})"
  using assms by auto

lemma row_points:
  assumes T: "\<And>r. r \<in> set T \<longleftrightarrow> map_of es (fst r) = Some (snd r) \<and> M (fst r) (snd r) \<and> drawn_in z x y (me_v (snd r))"
    and row: "\<And>r. r \<in> set T \<Longrightarrow> record_row f now c (fst r) (me_v (snd r))"
    and shown: "\<And>m e. map_of es m = Some e \<Longrightarrow> M m e \<Longrightarrow> shown z x y f now (m, state_of (me_v e)) \<longleftrightarrow> drawn_in z x y (me_v e)"
    and Q: "\<And>m e. map_of es m = Some e \<Longrightarrow> Q m e \<Longrightarrow> M m e"
  shows "point_for z x y ` {r \<in> {(m, state_of (me_v e)) | m e. map_of es m = Some e \<and> Q m e}.
        map_of (c_vessels c) (fst r) = None \<and> shown z x y f now r} =
      (\<lambda>r. point_for z x y (fst r, state_of (me_v (snd r)))) ` {r \<in> set T. Q (fst r) (snd r)}" (is "_ ` ?A = _ ` ?B")
proof -
  have "?A = (\<lambda>r. (fst r, state_of (me_v (snd r)))) ` ?B"
  proof
    show "?A \<subseteq> (\<lambda>r. (fst r, state_of (me_v (snd r)))) ` ?B"
    proof
      fix r assume "r \<in> ?A"
      then obtain m e where me: "r = (m, state_of (me_v e))" "map_of es m = Some e" "Q m e" "shown z x y f now r" by blast
      then have "(m, e) \<in> ?B" using T [of "(m, e)"] shown [OF me(2) Q [OF me(2,3)]] Q [OF me(2,3)] by simp
      then have "(fst (m, e), state_of (me_v (snd (m, e)))) \<in> (\<lambda>r. (fst r, state_of (me_v (snd r)))) ` ?B" by (rule imageI)
      then show "r \<in> (\<lambda>r. (fst r, state_of (me_v (snd r)))) ` ?B" using me(1) by simp
    qed
    show "(\<lambda>r. (fst r, state_of (me_v (snd r)))) ` ?B \<subseteq> ?A"
    proof
      fix x' assume "x' \<in> (\<lambda>r. (fst r, state_of (me_v (snd r)))) ` ?B"
      then obtain r where r: "r \<in> set T" "Q (fst r) (snd r)" "x' = (fst r, state_of (me_v (snd r)))" by blast
      have t: "map_of es (fst r) = Some (snd r)" "M (fst r) (snd r)" "drawn_in z x y (me_v (snd r))"
        using T [of r] r(1) by simp_all
      have "map_of (c_vessels c) (fst r) = None" using row [OF r(1)] by (simp add: record_row_def)
      then show "x' \<in> ?A" using shown [OF t(1,2)] t r by auto
    qed
  qed
  then show ?thesis by (simp add: image_image)
qed


definition any_tile :: tile_filter where
  "any_tile = \<lparr>tf_rules = \<lparr>ar_area_age = 0, ar_named_age = 0,
     ar_area = \<lparr>f_kinds = None, f_class = [], f_types = [], f_min_sog = 0, f_has_min_sog = False, f_moving_age = 0\<rparr>,
     ar_named = \<lparr>f_kinds = None, f_class = [], f_types = [], f_min_sog = 0, f_has_min_sog = False, f_moving_age = 0\<rparr>\<rparr>,
     tf_mmsi = Some [257]\<rparr>"

definition gulf_vessel :: vessel where
  "gulf_vessel = new_vessel\<lparr>v_has_pos := True, v_seen := 5000000\<rparr>"

definition gulf_mirror :: mirror where
  "gulf_mirror = file_rows [(257, \<lparr>me_v = gulf_vessel, me_first_seen = 0\<rparr>)] empty_mirror"

lemma gulf_entries: "map_of (mi_entries gulf_mirror) m = Some e \<longleftrightarrow> m = 257 \<and> v_seen (me_v e) = 5000000 \<and>
    e = \<lparr>me_v = gulf_vessel\<lparr>v_cell := cell_of 0 0\<rparr>, me_first_seen = 0\<rparr>"
  by (auto simp: gulf_mirror_def file_rows_def file_row_def Let_def empty_mirror_def unfile_def gulf_vessel_def new_vessel_def)


text \<open>Of two cells at the far edges of a tile the numbers are the same: a point on the buffer's last unit rounds past its columns.\<close>

lemma far_edge_shares_a_cell: "in_tile (4223.9, 0) \<and> tile_cell (go_round 4223.9) 0 = tile_cell (- 128) 64"
  by (simp add: in_tile_def tile_buffer_def tile_extent_def tile_cell_def go_round_def tile_cols_def tile_grid_def sdiv_is_div)

section \<open>The cache of built tiles stays small and fresh\<close>

text \<open>A run of the cache: each request's key and time, and what its build would give then.\<close>

fun tile_gets :: "duration \<Rightarrow> (string \<Rightarrow> time \<Rightarrow> 'b) \<Rightarrow> (string \<times> time) list \<Rightarrow> (string \<times> 'b tile_entry) list \<Rightarrow>
   'b list \<times> (string \<times> 'b tile_entry) list" where
  "tile_gets ttl gives [] m = ([], m)"
| "tile_gets ttl gives ((key, now) # gs) m =
     (case tile_get ttl key now (gives key now) m of (b, m1) \<Rightarrow>
      case tile_gets ttl gives gs m1 of (bs, m2) \<Rightarrow> (b # bs, m2))"

definition tile_cache_ok :: "(string \<Rightarrow> time \<Rightarrow> 'b) \<Rightarrow> (string \<times> 'b tile_entry) list \<Rightarrow> bool" where
  "tile_cache_ok gives m \<longleftrightarrow> is_map m \<and> length m \<le> tile_cache_max \<and>
     (\<forall>key e. map_of m key = Some e \<longrightarrow> te_bytes e = gives key (te_at e))"

lemma put_grows: "length (put k v m) \<le> length m + 1"
  by (induction m) auto

lemma make_room_ok:
  assumes "tile_cache_ok gives m"
  shows "tile_cache_ok gives (make_room ttl now m)" and "length (make_room ttl now m) < tile_cache_max"
proof -
  have m: "is_map m" using assms by (simp add: tile_cache_ok_def)
  have keep: "map_of (keep_if P m) k = Some e \<Longrightarrow> map_of m k = Some e" for P k e
    using m by (auto simp: keep_if_def map_of_eq_Some_iff is_map_keep_if [unfolded keep_if_def] dest!: map_of_SomeD)
  show "length (make_room ttl now m) < tile_cache_max"
    by (auto simp: make_room_def Let_def tile_cache_max_def)
  show "tile_cache_ok gives (make_room ttl now m)"
    using assms keep is_map_keep_if [OF m] by (auto simp: make_room_def Let_def tile_cache_ok_def)
qed

lemma tile_get_ok:
  assumes "tile_cache_ok gives m" and "tile_get ttl key now (gives key now) m = (b, m')"
  shows "tile_cache_ok gives m'"
    and "\<exists>t. b = gives key t \<and> (t = now \<or> time_sub now t < (if ttl = 0 then tile_ttl else ttl))"
proof -
  have put: "tile_cache_ok gives (put key \<lparr>te_at = now, te_bytes = gives key now\<rparr> (make_room ttl' now m))" for ttl'
    using make_room_ok [OF assms(1), of ttl' now] put_grows [of key "\<lparr>te_at = now, te_bytes = gives key now\<rparr>" "make_room ttl' now m"]
    by (auto simp: tile_cache_ok_def is_map_put map_of_put)
  show "tile_cache_ok gives m'"
    using assms put by (auto simp: tile_get_def Let_def split: option.splits if_splits)
  show "\<exists>t. b = gives key t \<and> (t = now \<or> time_sub now t < (if ttl = 0 then tile_ttl else ttl))"
    using assms by (fastforce simp: tile_get_def Let_def tile_expired_def tile_cache_ok_def not_le split: option.splits if_splits)
qed

lemma tile_cache_bounded_fresh:
  assumes "tile_gets ttl gives gs [] = (bs, m)"
  shows "length m \<le> tile_cache_max \<and> length bs = length gs \<and>
    list_all2 (\<lambda>(key, now) b. \<exists>t. b = gives key t \<and> (t = now \<or> time_sub now t < (if ttl = 0 then tile_ttl else ttl))) gs bs"
proof -
  have "tile_cache_ok gives m' \<and> length bs' = length gs' \<and>
    list_all2 (\<lambda>(key, now) b. \<exists>t. b = gives key t \<and> (t = now \<or> time_sub now t < (if ttl = 0 then tile_ttl else ttl))) gs' bs'"
    if "tile_cache_ok gives m0" "tile_gets ttl gives gs' m0 = (bs', m')" for gs' m0 bs' m'
    using that
  proof (induction ttl gives gs' m0 arbitrary: bs' m' rule: tile_gets.induct)
    case (2 ttl gives key now gs m)
    obtain b m1 where b: "tile_get ttl key now (gives key now) m = (b, m1)" by fastforce
    obtain bs1 m2 where r: "tile_gets ttl gives gs m1 = (bs1, m2)" by fastforce
    note ok = tile_get_ok [OF 2(2) b]
    have "tile_cache_ok gives m2 \<and> length bs1 = length gs \<and>
      list_all2 (\<lambda>(key, now) b. \<exists>t. b = gives key t \<and> (t = now \<or> time_sub now t < (if ttl = 0 then tile_ttl else ttl))) gs bs1"
      by (rule 2(1) [OF b [symmetric] ok(1) r])
    then show ?case using 2(3) b r ok(2) by auto
  qed simp
  moreover have "tile_cache_ok gives []" by (simp add: tile_cache_ok_def)
  ultimately show ?thesis using assms unfolding tile_cache_ok_def by blast
qed

end
