(* ===== verification/Coveragemap.thy ===== *)
theory Coveragemap
  imports Tiles
begin

text \<open>
  The coverage map (\<open>server/coveragemap.go\<close>): the cells of a window with their outlines, their index by
  tile and the polygons of one tile, the network's load, the coverage of single stations kept beside it,
  and the backfill of days ClickHouse has not binned.

  A pointer to a load is the load's number. ClickHouse is a parameter, as the rows and errors its queries
  give; \<open>jtext\<close> writes a list of ids. The projection is over the real numbers.
\<close>

declare map_of_eq_Some_iff [simp del]

section \<open>Bands\<close>

text \<open>The H3 resolution drawn in each zoom band, from the band's first zoom.\<close>

definition coverage_bands :: "(nat \<times> nat) list" where
  "coverage_bands = [(0, 3), (5, 4), (7, 5), (9, 6)]"

definition min_zoom :: "nat \<Rightarrow> nat" where
  "min_zoom b = fst (coverage_bands ! b)"

definition coverage_band :: "nat \<Rightarrow> nat" where
  "coverage_band z = fold (\<lambda>i b. if z \<ge> min_zoom i then i else b) [0..<length coverage_bands] 0"

definition coverage_days :: int where "coverage_days = 7"
definition day :: duration where "day = 24 * hour"

definition coverage_window :: "time \<Rightarrow> time \<times> time" where
  "coverage_window now = (let lst = truncate_time now day - day in (lst + (1 - coverage_days) * day, lst))"

text \<open>\<open>Format("2006-01-02")\<close>.\<close>

definition day_text :: "time \<Rightarrow> string" where
  "day_text t = take 10 (rfc3339 t)"

section \<open>Cells\<close>

record cov_cell =
  cc_id :: "64 word"
  cc_ring :: "(real \<times> real) list"
  cc_min_x :: real
  cc_min_y :: real
  cc_max_x :: real
  cc_max_y :: real
  cc_vessels :: real
  cc_days :: int
  cc_stations :: int
  cc_ids :: string

record cov_row =
  cr_res :: nat
  cr_cell :: "64 word"
  cr_vessels :: nat
  cr_days :: int
  cr_stations :: int
  cr_ids :: "string list"
  cr_lats :: "real list"
  cr_lons :: "real list"

type_synonym tile_index = "((int \<times> int) \<times> nat list) list"

record coverage_data =
  cd_from :: string
  cd_to :: string
  cd_days :: int
  cd_loaded :: int
  cd_cells :: "cov_cell list list"
  cd_index :: "tile_index list"
  cd_stations :: "string list"

definition max_float32 :: real where "max_float32 = (2 - 1 / 2 ^ 23) * 2 ^ 127"

definition unclosed :: "real list \<Rightarrow> real list \<Rightarrow> real list \<times> real list" where
  "unclosed lats lons =
     (if hd lats = last lats \<and> hd lons = last lons then (butlast lats, butlast lons) else (lats, lons))"

text \<open>The longitudes within half a turn of the first, which is left as it is.\<close>

definition unwrapped :: "real list \<Rightarrow> real list" where
  "unwrapped lons =
     map (\<lambda>l. if l - hd lons > 180 then l - 360 else if hd lons - l > 180 then l + 360 else l) lons"

definition world_shift :: "real list \<Rightarrow> real" where
  "world_shift lons =
     (let center = sum_list lons / of_nat (length lons) in if center < - 180 then 360 else if center > 180 then - 360 else 0)"

definition project :: "real \<Rightarrow> real \<Rightarrow> real \<times> real" where
  "project lat0 lon =
     (let lat = max (- mercator_lat) (min mercator_lat lat0); phi = lat * pi / 180 in
      ((lon + 180) / 360, (1 - ln (tan phi + 1 / cos phi) / pi) / 2))"

definition cov_cell_from :: "64 word \<Rightarrow> real list \<Rightarrow> real list \<Rightarrow> cov_cell option" where
  "cov_cell_from cid lats0 lons0 =
     (if length lats0 \<noteq> length lons0 \<or> length lats0 < 3 then None
      else case unclosed lats0 lons0 of (lats, lons1) \<Rightarrow>
        let lons = unwrapped lons1; shift = world_shift lons;
            ring = map (\<lambda>(lat, lon). project lat (lon + shift)) (zip lats lons) in
        Some \<lparr>cc_id = cid, cc_ring = ring,
          cc_min_x = fold min (map fst ring) max_float32, cc_min_y = fold min (map snd ring) max_float32,
          cc_max_x = fold max (map fst ring) (- max_float32), cc_max_y = fold max (map snd ring) (- max_float32),
          cc_vessels = 0, cc_days = 0, cc_stations = 0, cc_ids = []\<rparr>)"

section \<open>The index\<close>

text \<open>\<open>int(v)\<close> of a float drops its fraction.\<close>

definition go_trunc :: "real \<Rightarrow> int" where
  "go_trunc x = (if x < 0 then - \<lfloor>- x\<rfloor> else \<lfloor>x\<rfloor>)"

definition clamp_tile :: "nat \<Rightarrow> real \<Rightarrow> int" where
  "clamp_tile b v = max 0 (min (2 ^ min_zoom b - 1) (go_trunc (v * 2 ^ min_zoom b)))"

definition cell_tiles :: "nat \<Rightarrow> cov_cell \<Rightarrow> (int \<times> int) list" where
  "cell_tiles b c =
     concat (map (\<lambda>tx. map (\<lambda>ty. (tx, ty)) [clamp_tile b (cc_min_y c)..clamp_tile b (cc_max_y c)])
       [clamp_tile b (cc_min_x c)..clamp_tile b (cc_max_x c)])"

definition file_cell :: "nat \<Rightarrow> nat \<times> cov_cell \<Rightarrow> tile_index \<Rightarrow> tile_index" where
  "file_cell b ic idx = fold (\<lambda>t ix. put t (get_or [] ix t @ [fst ic]) ix) (cell_tiles b (snd ic)) idx"

definition index_band :: "nat \<Rightarrow> cov_cell list \<Rightarrow> tile_index" where
  "index_band b cs = fold (file_cell b) (enumerate 0 cs) []"

definition build_index :: "coverage_data \<Rightarrow> coverage_data" where
  "build_index d = d\<lparr>cd_index := map (\<lambda>b. index_band b (cd_cells d ! b)) [0..<length coverage_bands]\<rparr>"

section \<open>Building a window\<close>

definition res_band :: "nat \<Rightarrow> nat option" where
  "res_band r = map_of (map (\<lambda>b. (snd (coverage_bands ! b), b)) [0..<length coverage_bands]) r"

text \<open>One row; \<open>None\<close> is an outline that cannot be drawn, which fails the whole load.\<close>

definition add_row :: "(string list \<Rightarrow> string) \<Rightarrow> cov_row \<Rightarrow> coverage_data \<Rightarrow> coverage_data option" where
  "add_row jtext r d =
     (case res_band (cr_res r) of
        None \<Rightarrow> Some d
      | Some b \<Rightarrow>
          (case cov_cell_from (cr_cell r) (cr_lats r) (cr_lons r) of
             None \<Rightarrow> None
           | Some c \<Rightarrow>
               let c' = c\<lparr>cc_vessels := of_nat (cr_vessels r) / of_int (max (cd_days d) 1), cc_days := cr_days r,
                          cc_stations := cr_stations r, cc_ids := (if cr_ids r \<noteq> [] then jtext (sort (cr_ids r)) else [])\<rparr>
               in Some (d\<lparr>cd_cells := (cd_cells d)[b := cd_cells d ! b @ [c']]\<rparr>)))"

fun add_rows :: "(string list \<Rightarrow> string) \<Rightarrow> cov_row list \<Rightarrow> coverage_data \<Rightarrow> coverage_data option" where
  "add_rows jtext [] d = Some d"
| "add_rows jtext (r # rs) d = (case add_row jtext r d of None \<Rightarrow> None | Some d' \<Rightarrow> add_rows jtext rs d')"

datatype cov_error = NoCoverage | ClickHouse string | BadOutline | BadDay | Cancelled

definition build_coverage ::
  "(string list \<Rightarrow> string) \<Rightarrow> time \<Rightarrow> time \<Rightarrow> int \<Rightarrow> time \<Rightarrow> string + cov_row list \<Rightarrow> cov_error + coverage_data" where
  "build_coverage jtext from until days now fetched =
     (case fetched of
        Inl e \<Rightarrow> Inl (ClickHouse e)
      | Inr rows \<Rightarrow>
          (case add_rows jtext rows \<lparr>cd_from = day_text from, cd_to = day_text until, cd_days = days, cd_loaded = now,
                  cd_cells = replicate (length coverage_bands) [], cd_index = [], cd_stations = []\<rparr> of
             None \<Rightarrow> Inl BadOutline
           | Some d \<Rightarrow> Inr (build_index d)))"

definition cov_size :: "coverage_data \<Rightarrow> nat" where
  "cov_size d = sum_list (map length (cd_cells d))"

definition cov_empty :: "coverage_data \<Rightarrow> bool" where
  "cov_empty d \<longleftrightarrow> \<not> list_ex (\<lambda>cs. cs \<noteq> []) (cd_cells d)"

definition no_coverage :: coverage_data where
  "no_coverage = \<lparr>cd_from = [], cd_to = [], cd_days = 0, cd_loaded = 0, cd_cells = [], cd_index = [], cd_stations = []\<rparr>"

section \<open>The extent\<close>

definition quantile_at :: "real list \<Rightarrow> real \<Rightarrow> real" where
  "quantile_at v q = sort v ! nat (go_round (q * of_nat (length v - 1)))"

definition world_lon :: "real \<Rightarrow> real" where
  "world_lon x = max (- 180) (min 180 (x * 360 - 180))"

definition world_lat :: "real \<Rightarrow> real" where
  "world_lat y = max (- mercator_lat) (min mercator_lat (arctan (sinh (pi * (1 - 2 * y))) * 180 / pi))"

definition cov_bounds :: "real \<Rightarrow> coverage_data \<Rightarrow> real list" where
  "cov_bounds trim d =
     (let cells = (if trim = 0 then concat (cd_cells d) else cd_cells d ! (length coverage_bands - 1)) in
      if cells = [] then [- 180, - mercator_lat, 180, mercator_lat]
      else [world_lon (quantile_at (map cc_min_x cells) trim), world_lat (quantile_at (map cc_max_y cells) (1 - trim)),
            world_lon (quantile_at (map cc_max_x cells) (1 - trim)), world_lat (quantile_at (map cc_min_y cells) trim)])"

section \<open>A tile\<close>

type_synonym ring_pt = "int \<times> int"

definition tile_pt :: "nat \<Rightarrow> int \<Rightarrow> int \<Rightarrow> real \<times> real \<Rightarrow> ring_pt" where
  "tile_pt z x y p =
     (go_round ((fst p * 2 ^ z - of_int x) * of_nat tile_extent), go_round ((snd p * 2 ^ z - of_int y) * of_nat tile_extent))"

definition push_pt :: "ring_pt \<Rightarrow> ring_pt list \<Rightarrow> ring_pt list" where
  "push_pt p ring = (if ring = [] \<or> p \<noteq> last ring then ring @ [p] else ring)"

definition squeezed :: "ring_pt list \<Rightarrow> ring_pt list" where
  "squeezed ps =
     (let ring = fold push_pt ps [] in if length ring > 1 \<and> hd ring = last ring then butlast ring else ring)"

definition cross :: "ring_pt \<Rightarrow> ring_pt \<Rightarrow> int" where
  "cross p q = fst p * snd q - fst q * snd p"

definition ring_area :: "ring_pt list \<Rightarrow> int" where
  "ring_area ring = sum_list (map (\<lambda>k. cross (ring ! k) (ring ! ((k + 1) mod length ring))) [0..<length ring])"

text \<open>The ring a cell draws, wound as the specification has it; \<open>None\<close> when nothing of it is left.\<close>

definition drawn_ring :: "ring_pt list \<Rightarrow> ring_pt list option" where
  "drawn_ring ps =
     (let ring = squeezed ps in
      if length ring < 3 then None
      else if ring_area ring = 0 then None
      else Some (if ring_area ring < 0 then rev ring else ring))"

definition cell_props :: "cov_cell \<Rightarrow> (string \<times> mvt_val) list" where
  "cell_props c =
     [(''vessels'', DoubleVal (of_int (go_round (cc_vessels c * 10)) / 10)), (''days'', UintVal (word_of_int (cc_days c))),
      (''stations'', UintVal (word_of_int (cc_stations c)))] @
     (if cc_ids c \<noteq> [] then [(''station_ids'', StrVal (cc_ids c))] else [])"

definition off_tile :: "nat \<Rightarrow> int \<Rightarrow> int \<Rightarrow> cov_cell \<Rightarrow> bool" where
  "off_tile z x y c \<longleftrightarrow>
     (let n = 2 ^ z; buf = of_int tile_buffer / of_nat tile_extent in
      cc_max_x c < (of_int x - buf) / n \<or> cc_min_x c > (of_int (x + 1) + buf) / n \<or>
      cc_max_y c < (of_int y - buf) / n \<or> cc_min_y c > (of_int (y + 1) + buf) / n)"

definition index_key :: "nat \<Rightarrow> int \<Rightarrow> int \<Rightarrow> int \<times> int" where
  "index_key z x y = (let k = z - min_zoom (coverage_band z) in (x div 2 ^ k, y div 2 ^ k))"

definition tile_cells :: "coverage_data \<Rightarrow> nat \<Rightarrow> int \<Rightarrow> int \<Rightarrow> cov_cell list" where
  "tile_cells d z x y =
     (let b = coverage_band z in
      filter (\<lambda>c. \<not> off_tile z x y c) (map ((!) (cd_cells d ! b)) (get_or [] (cd_index d ! b) (index_key z x y))))"

definition to_word_pt :: "ring_pt \<Rightarrow> 32 word \<times> 32 word" where
  "to_word_pt p = (word_of_int (fst p), word_of_int (snd p))"

definition draw_cell :: "nat \<Rightarrow> int \<Rightarrow> int \<Rightarrow> cov_cell \<Rightarrow> drawn list" where
  "draw_cell z x y c =
     (case drawn_ring (map (tile_pt z x y) (cc_ring c)) of
        None \<Rightarrow> []
      | Some ring \<Rightarrow> [Polygon (cc_id c) (map to_word_pt ring) (cell_props c)])"

definition coverage_tile :: "(real \<Rightarrow> 64 word) \<Rightarrow> coverage_data \<Rightarrow> nat \<Rightarrow> int \<Rightarrow> int \<Rightarrow> bytes" where
  "coverage_tile fb d z x y = drawn_tile fb ''coverage'' (concat (map (draw_cell z x y) (tile_cells d z x y)))"

section \<open>The network's load\<close>

record cov_source =
  sc_days :: "time \<Rightarrow> time \<Rightarrow> string + string list"
  sc_cells :: "time \<Rightarrow> time \<Rightarrow> string + cov_row list"
  sc_stations :: "time \<Rightarrow> time \<Rightarrow> string + string list"
  sc_station_cells :: "string \<Rightarrow> time \<Rightarrow> time \<Rightarrow> string + cov_row list"

text \<open>What \<open>load\<close> reads; \<open>Inr None\<close> is a window with no coverage, which publishes nothing.\<close>

definition read_load :: "(string list \<Rightarrow> string) \<Rightarrow> cov_source \<Rightarrow> time \<Rightarrow> cov_error + coverage_data option" where
  "read_load jtext src now =
     (case coverage_window now of (from, until) \<Rightarrow>
        (case sc_days src from until of
           Inl e \<Rightarrow> Inl (ClickHouse e)
         | Inr [] \<Rightarrow> Inr None
         | Inr days \<Rightarrow>
             (case build_coverage jtext from until (int (length days)) now (sc_cells src from until) of
                Inl e \<Rightarrow> Inl e
              | Inr d \<Rightarrow>
                  (case sc_stations src from until of
                     Inl e \<Rightarrow> Inl (ClickHouse e)
                   | Inr ids \<Rightarrow> Inr (Some (d\<lparr>cd_stations := ids\<rparr>))))))"

record station_coverage =
  st_net :: int
  st_d :: coverage_data

record coverage_map =
  cm_load :: nat
  cm_d :: "coverage_data option"
  cm_stations :: "(string \<times> station_coverage) list"

definition new_coverage_map :: coverage_map where
  "new_coverage_map = \<lparr>cm_load = 0, cm_d = None, cm_stations = []\<rparr>"

text \<open>The two sections of a load under their locks.\<close>

definition publish_load :: "coverage_data \<Rightarrow> coverage_map \<Rightarrow> coverage_map" where
  "publish_load d c = c\<lparr>cm_load := cm_load c + 1, cm_d := Some d\<rparr>"

definition clear_stations :: "coverage_map \<Rightarrow> coverage_map" where
  "clear_stations c = c\<lparr>cm_stations := []\<rparr>"

section \<open>One station\<close>

definition cached_station :: "coverage_data \<Rightarrow> string \<Rightarrow> coverage_map \<Rightarrow> coverage_data option" where
  "cached_station net station c =
     (case map_of (cm_stations c) station of
        None \<Rightarrow> None
      | Some s \<Rightarrow> if st_net s = cd_loaded net then Some (st_d s) else None)"

definition load_station ::
  "(string list \<Rightarrow> string) \<Rightarrow> (string \<Rightarrow> time option) \<Rightarrow> cov_source \<Rightarrow> coverage_data \<Rightarrow> string \<Rightarrow> cov_error + coverage_data" where
  "load_station jtext parse_day src net station =
     (case (parse_day (cd_from net), parse_day (cd_to net)) of
        (Some from, Some until) \<Rightarrow>
          build_coverage jtext from until (cd_days net) (cd_loaded net) (sc_station_cells src station from until)
      | _ \<Rightarrow> Inl BadDay)"

definition station_share :: nat where "station_share = 4"

definition held :: "coverage_data \<Rightarrow> (string \<times> station_coverage) list \<Rightarrow> nat" where
  "held d m = cov_size d + sum_list (map (\<lambda>(_, s). cov_size (st_d s)) m)"

fun evict :: "nat \<Rightarrow> coverage_data \<Rightarrow> (string \<times> station_coverage) list \<Rightarrow> (string \<times> station_coverage) list" where
  "evict budget d [] = []"
| "evict budget d (s # m) = (if held d (s # m) \<le> budget then s # m else evict budget d m)"

text \<open>\<open>load\<close> is the number of the network's load the station's was read for.\<close>

definition keep_station :: "nat \<Rightarrow> coverage_data \<Rightarrow> string \<Rightarrow> coverage_data \<Rightarrow> coverage_map \<Rightarrow> coverage_map" where
  "keep_station load net station d c =
     (if cov_empty d then c
      else if cm_load c \<noteq> load then c
      else c\<lparr>cm_stations := put station \<lparr>st_net = cd_loaded net, st_d = d\<rparr>
               (evict (station_share * max (cov_size net) 1) d (cm_stations c))\<rparr>)"

text \<open>
  \<open>stationData\<close> as a whole: \<open>c\<close> when the request comes, \<open>c1\<close> once it holds the loading slot, \<open>c2\<close> when
  its load has been read. A request that gave up waiting for the slot is \<open>waited = False\<close>.
\<close>

definition station_data ::
  "(string list \<Rightarrow> string) \<Rightarrow> (string \<Rightarrow> time option) \<Rightarrow> cov_source \<Rightarrow> bool \<Rightarrow> string \<Rightarrow> coverage_map \<Rightarrow> coverage_map \<Rightarrow> coverage_map \<Rightarrow>
   (cov_error + coverage_data) \<times> coverage_map" where
  "station_data jtext parse_day src waited station c c1 c2 =
     (case cm_d c of
        None \<Rightarrow> (Inl NoCoverage, c)
      | Some net \<Rightarrow>
          if station \<notin> set (cd_stations net) then (Inr no_coverage, c)
          else case cached_station net station c of
            Some d \<Rightarrow> (Inr d, c)
          | None \<Rightarrow>
              if \<not> waited then (Inl Cancelled, c)
              else case cached_station net station c1 of
                Some d \<Rightarrow> (Inr d, c1)
              | None \<Rightarrow>
                  (case load_station jtext parse_day src net station of
                     Inl e \<Rightarrow> (Inl e, c1)
                   | Inr d \<Rightarrow> (Inr d, keep_station (cm_load c) net station d c2)))"

datatype cov_refusal = NotLoaded | LongStation | NotRead | NotHeard

definition refusal_status :: "cov_refusal \<Rightarrow> nat" where
  "refusal_status r = (case r of NotLoaded \<Rightarrow> 503 | LongStation \<Rightarrow> 400 | NotRead \<Rightarrow> 503 | NotHeard \<Rightarrow> 404)"

text \<open>\<open>coverageFor\<close>: \<open>runes\<close> counts a string's characters, \<open>ask\<close> is \<open>stationData\<close>.\<close>

definition coverage_for ::
  "(string \<Rightarrow> nat) \<Rightarrow> (string \<Rightarrow> cov_error + coverage_data) \<Rightarrow> coverage_map option \<Rightarrow> string \<Rightarrow> cov_refusal + coverage_data" where
  "coverage_for runes ask cm station =
     (case cm of
        None \<Rightarrow> Inl NotLoaded
      | Some c \<Rightarrow>
          (case cm_d c of
             None \<Rightarrow> Inl NotLoaded
           | Some net \<Rightarrow>
               if station = [] then Inr net
               else if runes station > 256 then Inl LongStation
               else case ask station of
                 Inl _ \<Rightarrow> Inl NotRead
               | Inr d \<Rightarrow> if cov_empty d then Inl NotHeard else Inr d))"

section \<open>Backfill\<close>

definition coverage_months :: int where "coverage_months = 13"

text \<open>\<open>AddDate(0, n, 0)\<close> of a day: \<open>Date\<close> carries months past a year and days past a month.\<close>

definition day_number :: "int \<Rightarrow> nat \<Rightarrow> int \<Rightarrow> int" where
  "day_number y m d = days_before_year y + sum_list (map (month_days (leap y)) [1..<m]) + d - 1"

definition add_months :: "time \<Rightarrow> int \<Rightarrow> time" where
  "add_months t n =
     (let k = int (month_of t) - 1 + n in
      zero_time + day_number (year_of t + k div 12) (nat (k mod 12) + 1) (int (day_of t)) * day + (t - zero_time) mod day)"

definition oldest_day :: "time \<Rightarrow> time \<Rightarrow> time" where
  "oldest_day today since0 =
     (let since = truncate_time since0 day; oldest = add_months today (- coverage_months) in
      if since > oldest then since else oldest)"

text \<open>The days of a loop from one day back to another.\<close>

function days_back :: "time \<Rightarrow> time \<Rightarrow> time list" where
  "days_back t oldest = (if t < oldest then [] else t # days_back (t - day) oldest)"
  by pat_completeness auto

termination
  by (relation "measure (\<lambda>(t, oldest). nat (t - oldest + 1))") (auto simp: day_def)

declare days_back.simps [simp del]

text \<open>
  The loop over the days of one table: \<open>bin\<close> runs a day's insert, \<open>note\<close> the ledger's, each with its error.
  The state is the ledger and the days whose insert ran, in order.
\<close>

fun backfill_days ::
  "(time \<Rightarrow> string option) \<Rightarrow> (time \<Rightarrow> string option) \<Rightarrow> string list \<Rightarrow> time list \<Rightarrow> string list \<times> time list \<Rightarrow>
   string option \<times> string list \<times> time list" where
  "backfill_days bin note0 known [] st = (None, st)"
| "backfill_days bin note0 known (t # ts) (ledger, run) =
     (if day_text t \<in> set known then backfill_days bin note0 known ts (ledger, run)
      else case bin t of
        Some e \<Rightarrow> (Some e, ledger, run)
      | None \<Rightarrow>
          (case note0 t of
             Some e \<Rightarrow> (Some e, ledger, run @ [t])
           | None \<Rightarrow> backfill_days bin note0 known ts (ledger @ [day_text t], run @ [t])))"

definition coverage_backfill ::
  "(time \<Rightarrow> string option) \<Rightarrow> (time \<Rightarrow> string option) \<Rightarrow> time \<Rightarrow> time \<Rightarrow> string list \<Rightarrow> string option \<times> string list \<times> time list" where
  "coverage_backfill bin note0 now since0 ledger =
     (let today = truncate_time now day in
      backfill_days bin note0 ledger (days_back today (oldest_day today since0)) (ledger, []))"

section \<open>A tile's cells\<close>

lemma cell_tiles_distinct: "distinct (cell_tiles b c)"
proof -
  have "distinct (concat (map (\<lambda>tx. map (\<lambda>ty. (tx, ty)) ys) xs))" if "distinct xs" "distinct ys" for xs :: "int list" and ys :: "int list"
    using that by (induction xs) (auto simp: distinct_map inj_on_def)
  then show ?thesis by (simp add: cell_tiles_def)
qed

lemma cell_tiles_iff:
  "(tx, ty) \<in> set (cell_tiles b c) \<longleftrightarrow>
     clamp_tile b (cc_min_x c) \<le> tx \<and> tx \<le> clamp_tile b (cc_max_x c) \<and> clamp_tile b (cc_min_y c) \<le> ty \<and> ty \<le> clamp_tile b (cc_max_y c)"
  unfolding cell_tiles_def set_concat set_map by force

lemma file_cell_get:
  "get_or [] (file_cell b (i, c) idx) t = get_or [] idx t @ (if t \<in> set (cell_tiles b c) then [i] else [])"
proof -
  have "get_or [] (fold (\<lambda>t ix. put t (get_or [] ix t @ [i]) ix) ts idx) t = get_or [] idx t @ (if t \<in> set ts then [i] else [])"
    if "distinct ts" for ts :: "(int \<times> int) list" using that
    by (induction ts arbitrary: idx) (auto simp: get_or_put)
  from this [OF cell_tiles_distinct] show ?thesis by (simp add: file_cell_def)
qed

lemma enumerate_snoc: "enumerate n (xs @ [x]) = enumerate n xs @ [(n + length xs, x)]"
  by (induction xs arbitrary: n) auto

lemma index_band_get:
  "get_or [] (index_band b cs) t = filter (\<lambda>i. t \<in> set (cell_tiles b (cs ! i))) [0..<length cs]"
proof (induction cs rule: rev_induct)
  case Nil
  then show ?case by (simp add: index_band_def get_or_def)
next
  case (snoc c cs)
  have "get_or [] (index_band b (cs @ [c])) t = get_or [] (index_band b cs) t @ (if t \<in> set (cell_tiles b c) then [length cs] else [])"
    by (simp add: index_band_def enumerate_snoc file_cell_get)
  moreover have "filter (\<lambda>i. t \<in> set (cell_tiles b ((cs @ [c]) ! i))) [0..<length cs] =
      filter (\<lambda>i. t \<in> set (cell_tiles b (cs ! i))) [0..<length cs]"
    by (rule filter_cong) (auto simp: nth_append)
  ultimately show ?case using snoc by simp
qed

lemma coverage_band_less: "coverage_band z < length coverage_bands" "min_zoom (coverage_band z) \<le> z"
  by (simp_all add: coverage_band_def coverage_bands_def min_zoom_def upt_rec numeral_eq_Suc)

lemma tile_cells_filter:
  assumes "length (cd_cells d) = length coverage_bands"
  shows "tile_cells (build_index d) z x y =
    filter (\<lambda>c. \<not> off_tile z x y c \<and> index_key z x y \<in> set (cell_tiles (coverage_band z) c)) (cd_cells d ! coverage_band z)"
proof -
  let ?b = "coverage_band z" and ?cs = "cd_cells d ! coverage_band z"
  have "map ((!) ?cs) (filter (\<lambda>i. index_key z x y \<in> set (cell_tiles ?b (?cs ! i))) [0..<length ?cs]) =
      filter (\<lambda>c. index_key z x y \<in> set (cell_tiles ?b c)) ?cs" by (rule map_nth_filter)
  then show ?thesis
    using coverage_band_less [of z] by (simp add: tile_cells_def build_index_def index_band_get Let_def conj_commute)
qed

text \<open>A cell meets a tile when its extent and the tile's share more than the tile's far edges.\<close>

definition meets :: "nat \<Rightarrow> int \<Rightarrow> int \<Rightarrow> cov_cell \<Rightarrow> bool" where
  "meets z x y c \<longleftrightarrow> cc_min_x c < of_int (x + 1) / 2 ^ z \<and> of_int x / 2 ^ z \<le> cc_max_x c \<and>
     cc_min_y c < of_int (y + 1) / 2 ^ z \<and> of_int y / 2 ^ z \<le> cc_max_y c"

lemma clamp_low:
  assumes "v < of_int (x + 1) / 2 ^ z" and "min_zoom b \<le> z" and "0 \<le> x"
  shows "clamp_tile b v \<le> x div 2 ^ (z - min_zoom b)"
proof -
  let ?m = "min_zoom b" and ?k = "z - min_zoom b"
  have z: "(2 :: real) ^ z = 2 ^ ?m * 2 ^ ?k" using assms(2) by (simp flip: power_add)
  have "v * 2 ^ ?m < of_int (x + 1) / 2 ^ ?k"
    using assms(1) by (simp add: z field_simps)
  also have "\<dots> \<le> of_int (x div 2 ^ ?k + 1)"
  proof -
    have "x < 2 ^ ?k * (x div 2 ^ ?k) + 2 ^ ?k" using div_bounds_int [of "2 ^ ?k" x] by simp
    then have "x + 1 \<le> (x div 2 ^ ?k + 1) * 2 ^ ?k" by (simp add: algebra_simps)
    then have "real_of_int (x + 1) \<le> of_int ((x div 2 ^ ?k + 1) * 2 ^ ?k)" by (rule of_int_le_iff [THEN iffD2])
    then show ?thesis by (simp add: pos_divide_le_eq)
  qed
  finally have lt: "v * 2 ^ ?m < of_int (x div 2 ^ ?k + 1)" .
  have "go_trunc (v * 2 ^ ?m) \<le> x div 2 ^ ?k"
  proof (cases "v * 2 ^ ?m < 0")
    case True
    then have "go_trunc (v * 2 ^ ?m) \<le> 0" by (simp add: go_trunc_def)
    also have "0 \<le> x div 2 ^ ?k" using assms(3) by (simp add: pos_imp_zdiv_nonneg_iff)
    finally show ?thesis .
  next
    case False
    with lt show ?thesis by (simp add: go_trunc_def floor_le_iff)
  qed
  moreover have "0 \<le> x div 2 ^ ?k" using assms(3) by (simp add: pos_imp_zdiv_nonneg_iff)
  ultimately show ?thesis by (simp add: clamp_tile_def)
qed

lemma clamp_high:
  assumes "of_int x / 2 ^ z \<le> v" and "min_zoom b \<le> z" and "0 \<le> x" and "x < 2 ^ z"
  shows "x div 2 ^ (z - min_zoom b) \<le> clamp_tile b v"
proof -
  let ?m = "min_zoom b" and ?k = "z - min_zoom b"
  have z: "(2 :: real) ^ z = 2 ^ ?m * 2 ^ ?k" "(2 :: int) ^ z = 2 ^ ?m * 2 ^ ?k" using assms(2) by (simp_all flip: power_add)
  have nn: "0 \<le> x div 2 ^ ?k" using assms(3) by (simp add: pos_imp_zdiv_nonneg_iff)
  have "of_int (x div 2 ^ ?k) \<le> (of_int x :: real) / 2 ^ ?k"
  proof -
    have "x div 2 ^ ?k * 2 ^ ?k \<le> x" using div_bounds_int [of "2 ^ ?k" x] by (simp add: mult.commute)
    then have "real_of_int (x div 2 ^ ?k * 2 ^ ?k) \<le> of_int x" by (rule of_int_le_iff [THEN iffD2])
    then show ?thesis by (simp add: pos_le_divide_eq)
  qed
  also have "\<dots> \<le> v * 2 ^ ?m" using assms(1) by (simp add: z field_simps)
  finally have le: "of_int (x div 2 ^ ?k) \<le> v * 2 ^ ?m" .
  then have "\<not> v * 2 ^ ?m < 0" using nn by (meson not_less of_int_0_le_iff order_trans)
  then have "x div 2 ^ ?k \<le> go_trunc (v * 2 ^ ?m)" using le by (simp add: go_trunc_def le_floor_iff)
  moreover have "x div 2 ^ ?k \<le> 2 ^ ?m - 1"
  proof -
    have "2 ^ ?k * (x div 2 ^ ?k) \<le> x" using div_bounds_int [of "2 ^ ?k" x] by simp
    also have "x < 2 ^ ?k * 2 ^ ?m" using assms(4) by (simp add: z(2) mult.commute)
    finally have "x div 2 ^ ?k < 2 ^ ?m" by (simp add: mult_less_cancel_left_pos)
    then show ?thesis by simp
  qed
  ultimately show ?thesis by (simp add: clamp_tile_def)
qed

lemma meets_on_tile:
  assumes "meets z x y c"
  shows "\<not> off_tile z x y c"
proof -
  have "(t - 1 / 32) / 2 ^ z \<le> t / 2 ^ z" "t / 2 ^ z \<le> (t + 1 / 32) / (2 :: real) ^ z" for t :: real
    by (simp_all add: divide_right_mono)
  note b = this
  show ?thesis
    using assms b(1) [of "of_int x"] b(1) [of "of_int y"] b(2) [of "of_int (x + 1)"] b(2) [of "of_int (y + 1)"]
    unfolding meets_def off_tile_def Let_def tile_buffer_def tile_extent_def by simp
qed


definition edge_cell :: cov_cell where
  "edge_cell = \<lparr>cc_id = 1, cc_ring = [], cc_min_x = 30 / 1024, cc_min_y = 30 / 1024, cc_max_x = 31.5 / 1024, cc_max_y = 31.5 / 1024,
     cc_vessels = 1, cc_days = 1, cc_stations = 1, cc_ids = []\<rparr>"


text \<open>
  The buffer is looked for among the cells of the index tile only: a cell in the buffer alone, beyond the
  edge of that tile, is not drawn.
\<close>

lemma buffer_not_drawn:
  "\<not> off_tile 5 1 0 edge_cell \<and> tile_cells (build_index (no_coverage\<lparr>cd_cells := [[], [edge_cell], [], []]\<rparr>)) 5 1 0 = []"
proof -
  have b: "coverage_band 5 = 1" by code_simp
  have "\<not> off_tile 5 1 0 edge_cell" by (simp add: off_tile_def edge_cell_def tile_buffer_def tile_extent_def)
  moreover have "index_key 5 1 0 \<notin> set (cell_tiles 1 edge_cell)"
    by (simp add: index_key_def b min_zoom_def coverage_bands_def cell_tiles_iff clamp_tile_def go_trunc_def edge_cell_def)
  ultimately show ?thesis
    using tile_cells_filter [of "no_coverage\<lparr>cd_cells := [[], [edge_cell], [], []]\<rparr>" 5 1 0] by (simp add: coverage_bands_def b)
qed

section \<open>The rings drawn\<close>

fun path_area :: "ring_pt list \<Rightarrow> int" where
  "path_area (p # q # ps) = cross p q + path_area (q # ps)"
| "path_area _ = 0"

lemma cross_swap: "cross q p = - cross p q"
  by (simp add: cross_def)

lemma path_area_snoc: "ps \<noteq> [] \<Longrightarrow> path_area (ps @ [p]) = path_area ps + cross (last ps) p"
  by (induction ps rule: path_area.induct) auto

lemma path_area_rev: "path_area (rev ps) = - path_area ps"
proof (induction ps rule: path_area.induct)
  case (1 p q ps)
  then show ?case using path_area_snoc [of "rev ps @ [q]" p] cross_swap [of p q] by simp
qed auto

lemma path_area_index: "path_area ps = sum_list (map (\<lambda>k. cross (ps ! k) (ps ! (k + 1))) [0..<length ps - 1])"
proof (induction ps rule: path_area.induct)
  case (1 p q ps)
  have "[0..<length (p # q # ps) - 1] = 0 # map Suc [0..<length (q # ps) - 1]"
    by (simp add: map_Suc_upt upt_conv_Cons del: upt_Suc)
  then show ?case using 1 by (simp add: o_def)
qed auto

lemma ring_area_path:
  assumes "ring \<noteq> []"
  shows "ring_area ring = path_area ring + cross (last ring) (hd ring)"
proof -
  obtain n where n: "length ring = Suc n" using assms by (cases ring) auto
  have "map (\<lambda>k. cross (ring ! k) (ring ! ((k + 1) mod Suc n))) [0..<n] = map (\<lambda>k. cross (ring ! k) (ring ! (k + 1))) [0..<n]"
    by (rule map_cong) simp_all
  then have "sum_list (map (\<lambda>k. cross (ring ! k) (ring ! ((k + 1) mod Suc n))) [0..<n]) = path_area ring"
    by (simp only: path_area_index n diff_Suc_1)
  moreover have "ring_area ring = sum_list (map (\<lambda>k. cross (ring ! k) (ring ! ((k + 1) mod Suc n))) [0..<n]) +
      cross (ring ! n) (ring ! ((n + 1) mod Suc n))"
    by (simp add: ring_area_def n)
  ultimately show ?thesis
    using assms n by (simp add: last_conv_nth hd_conv_nth)
qed

lemma ring_area_rev: "ring_area (rev ring) = - ring_area ring"
proof (cases "ring = []")
  case False
  then show ?thesis
    using cross_swap [of "last ring" "hd ring"] by (simp add: ring_area_path path_area_rev hd_rev last_rev)
qed (simp add: ring_area_def)

lemma push_pts: "distinct_adj ring \<Longrightarrow> distinct_adj (fold push_pt ps ring) \<and> set (fold push_pt ps ring) \<subseteq> set ring \<union> set ps"
proof (induction ps arbitrary: ring)
  case (Cons p ps)
  have "distinct_adj (push_pt p ring)" using Cons.prems by (auto simp: push_pt_def distinct_adj_append_iff)
  moreover have "set (push_pt p ring) \<subseteq> insert p (set ring)" by (auto simp: push_pt_def)
  ultimately show ?case using Cons.IH [of "push_pt p ring"] by auto
qed simp

lemma squeezed_ok: "distinct_adj (squeezed ps) \<and> set (squeezed ps) \<subseteq> set ps"
proof -
  have "distinct_adj (fold push_pt ps []) \<and> set (fold push_pt ps []) \<subseteq> set ps" using push_pts [of "[]" ps] by simp
  moreover have "distinct_adj (butlast r)" if "distinct_adj r" for r :: "ring_pt list"
    using that by (cases r rule: rev_cases) (auto simp: distinct_adj_append_iff)
  ultimately show ?thesis by (auto simp: squeezed_def Let_def dest: in_set_butlastD)
qed

text \<open>
  What a cell draws is a ring a reader takes as an outline: at least three vertices, no two in a row the
  same, all of the cell's own at the tile's scale, and wound so that its area is positive.
\<close>

theorem drawn_ring_exterior:
  assumes "drawn_ring ps = Some ring"
  shows "3 \<le> length ring \<and> distinct_adj ring \<and> set ring \<subseteq> set ps \<and> 0 < ring_area ring"
proof -
  have r: "3 \<le> length (squeezed ps)" "ring_area (squeezed ps) \<noteq> 0"
    "ring = (if ring_area (squeezed ps) < 0 then rev (squeezed ps) else squeezed ps)"
    using assms by (auto simp: drawn_ring_def Let_def split: if_splits)
  then show ?thesis using squeezed_ok [of ps] ring_area_rev [of "squeezed ps"] by auto
qed

lemma drawn_ring_exterior_witness:
  "drawn_ring [(0, 0), (0, 10), (10, 10), (10, 10), (0, 0)] = Some [(10, 10), (0, 10), (0, 0)] \<and> 0 < ring_area [(10, 10), (0, 10), (0, 0)]"
proof -
  have d: "drawn_ring [(0, 0), (0, 10), (10, 10), (10, 10), (0, 0)] = Some [(10, 10), (0, 10), (0, 0)]" by code_simp
  with drawn_ring_exterior [OF d] show ?thesis by simp
qed

section \<open>The extent covers the cells\<close>

lemma quantile_ends:
  assumes "v \<noteq> []"
  shows "quantile_at v 0 = Min (set v)" and "quantile_at v 1 = Max (set v)"
proof -
  have s: "sort v \<noteq> []" "sorted (sort v)" using assms by (metis length_0_conv length_sort) simp
  have "quantile_at v 0 = sort v ! 0" by (simp add: quantile_at_def go_round_def)
  moreover have "\<forall>x \<in> set v. sort v ! 0 \<le> x"
    using s sorted_nth_mono [OF s(2), of 0] by (metis in_set_conv_nth le0 set_sort)
  ultimately show "quantile_at v 0 = Min (set v)"
    using s nth_mem [of 0 "sort v"] assms by (intro Min_eqI [symmetric]) auto
  have "go_round (1 * real (length v - 1)) = int (length v - 1)"
    using go_round_of_int [of "int (length v - 1)"] by simp
  then have "quantile_at v 1 = sort v ! (length v - 1)" by (simp add: quantile_at_def)
  moreover have "\<forall>x \<in> set v. x \<le> sort v ! (length v - 1)"
  proof
    fix x assume "x \<in> set v"
    then obtain i where "i < length v" "sort v ! i = x" by (metis in_set_conv_nth length_sort set_sort)
    then show "x \<le> sort v ! (length v - 1)" using sorted_nth_mono [OF s(2), of i "length v - 1"] assms by simp
  qed
  ultimately show "quantile_at v 1 = Max (set v)"
    using s nth_mem [of "length v - 1" "sort v"] assms by (intro Max_eqI [symmetric]) auto
qed

lemma world_lon_mono: "a \<le> b \<Longrightarrow> world_lon a \<le> world_lon b"
  by (simp add: world_lon_def)

lemma world_lat_mono: "a \<le> b \<Longrightarrow> world_lat b \<le> world_lat a"
proof -
  assume "a \<le> b"
  then have "pi * (1 - 2 * b) \<le> pi * (1 - 2 * a)" by simp
  then have "arctan (sinh (pi * (1 - 2 * b))) \<le> arctan (sinh (pi * (1 - 2 * a)))"
    using arctan_le_iff by auto
  then have "arctan (sinh (pi * (1 - 2 * b))) * 180 / pi \<le> arctan (sinh (pi * (1 - 2 * a))) * 180 / pi"
    by (simp add: divide_right_mono)
  then show ?thesis unfolding world_lat_def by (intro max.mono min.mono) auto
qed

lemma cov_bounds_cover:
  assumes "c \<in> set (concat (cd_cells d))"
  obtains w s e n where "cov_bounds 0 d = [w, s, e, n]" and "w \<le> world_lon (cc_min_x c)" and "world_lon (cc_max_x c) \<le> e"
    and "s \<le> world_lat (cc_max_y c)" and "world_lat (cc_min_y c) \<le> n"
proof
  let ?cs = "concat (cd_cells d)"
  have "?cs \<noteq> []" using assms by (metis empty_iff set_empty)
  then have ne: "?cs \<noteq> []" "map f ?cs \<noteq> []" for f :: "cov_cell \<Rightarrow> real" by (simp_all only: map_is_Nil_conv not_False_eq_True)
  show "cov_bounds 0 d = [world_lon (Min (set (map cc_min_x ?cs))), world_lat (Max (set (map cc_max_y ?cs))),
      world_lon (Max (set (map cc_max_x ?cs))), world_lat (Min (set (map cc_min_y ?cs)))]"
    unfolding cov_bounds_def Let_def if_P [OF refl] if_not_P [OF ne(1)] diff_zero quantile_ends(1) [OF ne(2)] quantile_ends(2) [OF ne(2)]
    by (rule refl)
  show "world_lon (Min (set (map cc_min_x ?cs))) \<le> world_lon (cc_min_x c)" by (rule world_lon_mono, rule Min_le) (use assms in auto)
  show "world_lon (cc_max_x c) \<le> world_lon (Max (set (map cc_max_x ?cs)))" by (rule world_lon_mono, rule Max_ge) (use assms in auto)
  show "world_lat (Max (set (map cc_max_y ?cs))) \<le> world_lat (cc_max_y c)" by (rule world_lat_mono, rule Max_ge) (use assms in auto)
  show "world_lat (cc_min_y c) \<le> world_lat (Min (set (map cc_min_y ?cs)))" by (rule world_lat_mono, rule Min_le) (use assms in auto)
qed


section \<open>The coverage kept for stations\<close>

definition kept_size :: "(string \<times> station_coverage) list \<Rightarrow> nat" where
  "kept_size m = sum_list (map (\<lambda>(_, s). cov_size (st_d s)) m)"

lemma held_kept: "held d m = cov_size d + kept_size m"
  by (simp add: held_def kept_size_def)

lemma evict_suffix: "\<exists>gone. m = gone @ evict budget d m"
proof (induction budget d m rule: evict.induct)
  case (2 budget d s m)
  then show ?case by (cases "held d (s # m) \<le> budget") (auto intro: exI [of _ "[]"] exI [of _ "s # gone" for gone])
qed simp

lemma evict_fits: "evict budget d m = [] \<or> held d (evict budget d m) \<le> budget"
  by (induction budget d m rule: evict.induct) auto

lemma kept_size_put: "kept_size (put k s m) \<le> cov_size (st_d s) + kept_size m"
  by (induction m) (auto simp: kept_size_def)

text \<open>
  The map's states: loads published and their clearings, by the one goroutine that loads, and requests for
  stations that keep what they read whenever they are done. Two loads do not read the clock's same nanosecond.
  \<open>hs\<close> holds the loads, the newest first; \<open>pending\<close> that the last of them has not cleared the stations yet.
\<close>

inductive cov_reach :: "coverage_data list \<Rightarrow> bool \<Rightarrow> coverage_map \<Rightarrow> bool" where
  start: "cov_reach [] False new_coverage_map"
| publish: "cov_reach hs False c \<Longrightarrow> cd_loaded d \<notin> cd_loaded ` set hs \<Longrightarrow> cov_reach (d # hs) True (publish_load d c)"
| clear: "cov_reach hs pending c \<Longrightarrow> cov_reach hs False (clear_stations c)"
| keep: "cov_reach hs pending c \<Longrightarrow> 0 < load \<Longrightarrow> load \<le> length hs \<Longrightarrow> net = hs ! (length hs - load) \<Longrightarrow>
    load_station jtext parse_day src net station = Inr d \<Longrightarrow> cov_reach hs pending (keep_station load net station d c)"

lemma add_rows_frame: "add_rows jtext rs d = Some d' \<Longrightarrow> cd_days d' = cd_days d \<and> cd_loaded d' = cd_loaded d"
  by (induction rs arbitrary: d) (auto simp: add_row_def Let_def split: option.splits)

lemma build_coverage_frame: "build_coverage jtext from until days now fetched = Inr d \<Longrightarrow> cd_days d = days \<and> cd_loaded d = now"
  by (auto simp: build_coverage_def build_index_def dest!: add_rows_frame split: sum.splits option.splits)

lemma load_station_frame:
  "load_station jtext parse_day src net station = Inr d \<Longrightarrow> cd_days d = cd_days net \<and> cd_loaded d = cd_loaded net"
  by (auto simp: load_station_def dest!: build_coverage_frame split: option.splits)

definition entry_of :: "coverage_data list \<Rightarrow> station_coverage \<Rightarrow> bool" where
  "entry_of hs s \<longleftrightarrow> st_net s = cd_loaded (st_d s) \<and> \<not> cov_empty (st_d s) \<and> (\<exists>h \<in> set hs. cd_loaded h = st_net s \<and> cd_days h = cd_days (st_d s))"

definition station_covs_ok :: "coverage_data list \<Rightarrow> bool \<Rightarrow> coverage_map \<Rightarrow> bool" where
  "station_covs_ok hs pending c \<longleftrightarrow> cm_load c = length hs \<and> cm_d c = (case hs of [] \<Rightarrow> None | h # _ \<Rightarrow> Some h) \<and>
     distinct (map cd_loaded hs) \<and> is_map (cm_stations c) \<and> (\<forall>(k, s) \<in> set (cm_stations c). entry_of hs s) \<and>
     (\<not> pending \<longrightarrow> (\<forall>(k, s) \<in> set (cm_stations c). \<exists>h. cm_d c = Some h \<and> st_net s = cd_loaded h) \<and>
        (length (cm_stations c) \<le> 1 \<or> (\<exists>h. cm_d c = Some h \<and> kept_size (cm_stations c) \<le> station_share * max (cov_size h) 1)))"

lemma set_put_AList: "set (put k v m) \<subseteq> insert (k, v) (set m)"
  by (induction m) auto

lemma keep_stations_ok:
  assumes ok: "station_covs_ok hs pending c" and load: "0 < load" "load \<le> length hs" and net: "net = hs ! (length hs - load)"
    and d: "cd_days d = cd_days net" "cd_loaded d = cd_loaded net"
  shows "station_covs_ok hs pending (keep_station load net station d c)"
proof (cases "cov_empty d \<or> cm_load c \<noteq> load")
  case True
  then show ?thesis using ok by (auto simp: keep_station_def)
next
  case False
  let ?budget = "station_share * max (cov_size net) 1" and ?e = "\<lparr>st_net = cd_loaded net, st_d = d\<rparr>"
  define m where "m = evict ?budget d (cm_stations c)"
  have n: "load = length hs" using False ok by (simp add: station_covs_ok_def)
  then obtain hs' where hs: "hs = net # hs'" using net load(1) by (cases hs) simp_all
  have k: "keep_station load net station d c = c\<lparr>cm_stations := put station ?e m\<rparr>" using False by (simp add: keep_station_def m_def)
  obtain gone where gone: "cm_stations c = gone @ m" unfolding m_def using evict_suffix by blast
  have new: "entry_of hs ?e" using False d by (auto simp: entry_of_def hs)
  have sub: "set m \<subseteq> set (cm_stations c)" and mp: "is_map m"
    using ok by (auto simp: gone station_covs_ok_def)
  have entries: "\<forall>(k, s) \<in> set (put station ?e m). entry_of hs s"
    using set_put_AList [of station ?e m] sub ok new by (fastforce simp: station_covs_ok_def)
  have stamps: "\<forall>(k, s) \<in> set (put station ?e m). st_net s = cd_loaded net" if "\<not> pending"
    using set_put_AList [of station ?e m] sub ok that by (fastforce simp: station_covs_ok_def hs)
  have bound: "length (put station ?e m) \<le> 1 \<or> kept_size (put station ?e m) \<le> ?budget"
    using evict_fits [of ?budget d "cm_stations c"] kept_size_put [of station ?e m] by (auto simp: held_kept m_def)
  have c: "cm_d c = Some net" "cm_load c = length hs" "distinct (map cd_loaded hs)" using ok by (simp_all add: station_covs_ok_def hs)
  show ?thesis
    unfolding k station_covs_ok_def using c entries stamps bound mp by (auto simp: hs is_map_put)
qed

lemma cov_reach_ok: "cov_reach hs pending c \<Longrightarrow> station_covs_ok hs pending c"
proof (induction rule: cov_reach.induct)
  case start
  then show ?case by (simp add: station_covs_ok_def new_coverage_map_def)
next
  case (publish hs c d)
  then show ?case by (auto simp: station_covs_ok_def publish_load_def entry_of_def)
next
  case (clear hs pending c)
  then show ?case by (auto simp: station_covs_ok_def clear_stations_def)
next
  case (keep hs pending c load net jtext parse_day src station d)
  from keep_stations_ok [OF keep.IH keep.hyps(2-4)] load_station_frame [OF keep.hyps(5)] show ?case by blast
qed

text \<open>
  C35. The coverage kept for stations stays within its bound and its load: once a load has cleared what was
  kept before, the stations' cells number at most four times the network's, or one station's are kept alone,
  and what a request is served from there was read for the load it asks about, over the same days.
\<close>

theorem station_coverage_bounded:
  assumes "cov_reach hs False c" and "cm_d c = Some net"
  shows "(length (cm_stations c) \<le> 1 \<or> kept_size (cm_stations c) \<le> 4 * max (cov_size net) 1) \<and>
    cached_station net station c = map_option st_d (map_of (cm_stations c) station) \<and>
    cd_days ` {d. cached_station net station c = Some d} \<subseteq> {cd_days net}"
proof -
  have ok: "station_covs_ok hs False c" by (rule cov_reach_ok [OF assms(1)])
  then obtain hs' where hs: "hs = net # hs'" using assms(2) by (cases hs) (auto simp: station_covs_ok_def)
  have stamp: "st_net s = cd_loaded net \<and> entry_of hs s" if "map_of (cm_stations c) station = Some s" for s
    using map_of_SomeD [OF that] ok assms(2) by (fastforce simp: station_covs_ok_def)
  have "cached_station net station c = map_option st_d (map_of (cm_stations c) station)"
    using stamp by (auto simp: cached_station_def split: option.split)
  moreover have "cd_days d = cd_days net" if "cached_station net station c = Some d" for d
  proof -
    note cached = that
    obtain s where s: "map_of (cm_stations c) station = Some s" "st_d s = d"
      using cached by (auto simp: cached_station_def split: option.splits if_splits)
    from stamp [OF s(1)] obtain h where h: "h \<in> set hs" "cd_loaded h = cd_loaded net" "cd_days h = cd_days d"
      by (auto simp: entry_of_def s(2))
    have "cd_loaded net \<notin> cd_loaded ` set hs'" using ok by (simp add: station_covs_ok_def hs)
    then have "h = net" using h(1,2) by (metis hs image_eqI set_ConsD)
    with h(3) show ?thesis by simp
  qed
  moreover have "length (cm_stations c) \<le> 1 \<or> kept_size (cm_stations c) \<le> 4 * max (cov_size net) 1"
    using ok assms(2) by (auto simp: station_covs_ok_def station_share_def)
  ultimately show ?thesis by auto
qed


definition one_cell :: cov_row where
  "one_cell = \<lparr>cr_res = 6, cr_cell = 1, cr_vessels = 14, cr_days = 2, cr_stations = 1, cr_ids = [''a''], cr_lats = [0, 0, 1],
     cr_lons = [0, 1, 1]\<rparr>"

definition sample_source :: cov_source where
  "sample_source = \<lparr>sc_days = \<lambda>_ _. Inr [''d''], sc_cells = \<lambda>_ _. Inr [one_cell], sc_stations = \<lambda>_ _. Inr [''a''],
     sc_station_cells = \<lambda>_ _ _. Inr [one_cell]\<rparr>"

definition one_net :: coverage_data where
  "one_net = no_coverage\<lparr>cd_days := 7, cd_loaded := 5, cd_stations := [''a'']\<rparr>"

lemma station_coverage_bounded_witness:
  "\<exists>c d. cov_reach [one_net] False c \<and> cached_station one_net ''a'' c = Some d \<and> cd_days d = 7"
proof -
  let ?ls = "load_station concat (\<lambda>_. Some 0) sample_source one_net ''a''"
  have "\<exists>d. ?ls = Inr d \<and> \<not> cov_empty d"
    by (simp add: load_station_def build_coverage_def sample_source_def add_row_def one_cell_def res_band_def coverage_bands_def
        cov_cell_from_def unclosed_def Let_def cov_empty_def build_index_def numeral_eq_Suc upt_rec)
  then obtain d where d: "?ls = Inr d" "\<not> cov_empty d" by blast
  define c where "c = keep_station 1 one_net ''a'' d (clear_stations (publish_load one_net new_coverage_map))"
  have "cov_reach [one_net] False (clear_stations (publish_load one_net new_coverage_map))"
    by (rule cov_reach.clear, rule cov_reach.publish, rule cov_reach.start) simp
  then have r: "cov_reach [one_net] False c"
    unfolding c_def by (rule cov_reach.keep [OF _ _ _ _ d(1)]) simp_all
  have m: "cm_d c = Some one_net" "map_of (cm_stations c) ''a'' = Some \<lparr>st_net = 5, st_d = d\<rparr>"
    using d(2) by (simp_all add: c_def keep_station_def clear_stations_def publish_load_def new_coverage_map_def one_net_def no_coverage_def)
  have "cached_station one_net ''a'' c = Some d" "cd_days d = 7"
    using station_coverage_bounded [OF r m(1), of "''a''"] m(2) by (auto simp: one_net_def)
  with r show ?thesis by blast
qed

section \<open>Backfill\<close>

lemma days_back_set:
  "t \<in> set (days_back today oldest) \<longleftrightarrow> (\<exists>k :: nat. t = today - int k * day \<and> oldest \<le> t)"
proof (induction today oldest rule: days_back.induct)
  case (1 today oldest)
  show ?case
  proof (cases "today < oldest")
    case True
    have "\<not> oldest \<le> today - int k * day" for k :: nat
    proof -
      have "0 \<le> int k * day" by (simp add: day_def)
      with True show ?thesis by linarith
    qed
    then show ?thesis using True by (subst days_back.simps) auto
  next
    case False
    have "(\<exists>k :: nat. t = today - int k * day \<and> oldest \<le> t) \<longleftrightarrow>
        t = today \<or> (\<exists>k :: nat. t = today - day - int k * day \<and> oldest \<le> t)" (is "?L \<longleftrightarrow> ?R")
    proof
      assume ?L
      then obtain k :: nat where k: "t = today - int k * day" "oldest \<le> t" by blast
      show ?R
      proof (cases k)
        case (Suc j)
        then have "t = today - day - int j * day" using k(1) by (simp add: algebra_simps)
        with k(2) show ?thesis by blast
      qed (use k in simp)
    next
      assume ?R
      then show ?L
      proof
        assume "t = today"
        then show ?L using False by (intro exI [of _ 0]) simp
      next
        assume "\<exists>k :: nat. t = today - day - int k * day \<and> oldest \<le> t"
        then obtain k :: nat where "t = today - day - int k * day" "oldest \<le> t" by blast
        then show ?L by (intro exI [of _ "Suc k"]) (simp add: algebra_simps)
      qed
    qed
    then show ?thesis using False 1 [OF False] by (subst days_back.simps) simp
  qed
qed

lemma backfill_days_run:
  assumes "backfill_days bin note0 known ts (ledger, run) = (err, ledger', run')"
  shows "\<exists>new noted. run' = run @ new \<and> ledger' = ledger @ map day_text noted \<and> (new = noted \<or> (\<exists>t. new = noted @ [t])) \<and>
    (\<exists>rest. filter (\<lambda>t. day_text t \<notin> set known) ts = new @ rest \<and> (err = None \<longrightarrow> rest = [] \<and> new = noted))"
  using assms
proof (induction ts arbitrary: ledger run)
  case (Cons t ts)
  consider (known) "day_text t \<in> set known" | (fail) e where "day_text t \<notin> set known" "bin t = Some e"
    | (unnoted) e where "day_text t \<notin> set known" "bin t = None" "note0 t = Some e"
    | (binned) "day_text t \<notin> set known" "bin t = None" "note0 t = None" by (cases "bin t"; cases "note0 t") auto
  then show ?case
  proof cases
    case known
    with Cons show ?thesis by simp
  next
    case fail
    moreover from this Cons.prems have "err = Some e" "ledger' = ledger" "run' = run" by simp_all
    ultimately show ?thesis by (intro exI [of _ "[]"]) simp
  next
    case unnoted
    moreover from this Cons.prems have "err = Some e" "ledger' = ledger" "run' = run @ [t]" by simp_all
    ultimately show ?thesis by (intro exI [of _ "[t]"] exI [of _ "[]"]) simp
  next
    case binned
    with Cons.prems have "backfill_days bin note0 known ts (ledger @ [day_text t], run @ [t]) = (err, ledger', run')" by simp
    from Cons.IH [OF this] obtain new noted rest where
      "run' = (run @ [t]) @ new" "ledger' = (ledger @ [day_text t]) @ map day_text noted" "new = noted \<or> (\<exists>u. new = noted @ [u])"
      "filter (\<lambda>t. day_text t \<notin> set known) ts = new @ rest" "err = None \<longrightarrow> rest = [] \<and> new = noted" by blast
    then show ?thesis using binned
      by (intro exI [of _ "t # new"] exI [of _ "t # noted"]) auto
  qed
qed simp



end
