(* ===== verification/Nmea.thy ===== *)
theory Nmea
  imports Trackapi Subscriptions Pipeline
begin

text \<open>
  The raw feed of \<open>server/nmea.go\<close>: an event's sentences as text lines, each with a TAG block and an
  own-ship sentence rewritten to VDM, who may read the feed, and what each of its clients is sent.

  \<open>read_tag\<close> is the reader a TAG block is checked against: it takes the block off a line, compares its
  checksum and lists its fields.
\<close>

unbundle bit_operations_syntax

declare map_of_eq_Some_iff [simp del] corrupt_base_report.simps [simp del]

section \<open>Own-ship sentences\<close>

abbreviation sentence_start :: "char \<Rightarrow> bool" where
  "sentence_start c \<equiv> c = CHR ''!'' \<or> c = CHR ''$''"

abbreviation star :: "char \<Rightarrow> bool" where
  "star c \<equiv> c = CHR ''*''"

definition hex_digit :: "8 word \<Rightarrow> char" where
  "hex_digit w = ''0123456789ABCDEF'' ! unat w"

definition xor_bytes :: "string \<Rightarrow> 8 word" where
  "xor_bytes s = fold (\<lambda>c cs. cs XOR of_char c) s 0"

text \<open>The two digits \<open>cs>>4\<close> and \<open>cs&0xf\<close> name, which is also what \<open>%02X\<close> prints.\<close>

definition hex2 :: "8 word \<Rightarrow> string" where
  "hex2 cs = [hex_digit (drop_bit 4 cs), hex_digit (cs AND 0xf)]"

text \<open>The bytes a checksum covers: between the sentence's start and its asterisk.\<close>

definition covered :: "nat \<Rightarrow> nat \<Rightarrow> string \<Rightarrow> string" where
  "covered i j b = take (j - (i + 1)) (drop (i + 1) b)"

definition own_at :: "string \<Rightarrow> nat option" where
  "own_at s =
     (case last_index sentence_start s of
        None \<Rightarrow> None
      | Some i \<Rightarrow> if length s < i + 7 \<or> take 3 (drop (i + 3) s) \<noteq> ''VDO'' \<or> s ! (i + 6) \<noteq> CHR '','' then None else Some i)"

definition new_checksum :: "nat \<Rightarrow> nat \<Rightarrow> string \<Rightarrow> string" where
  "new_checksum i j b =
     (let cs = xor_bytes (covered i j b) in
      b[j + 1 := hex_digit (drop_bit 4 cs), j + 2 := hex_digit (cs AND 0xf)])"

definition own_ship_to_vdm :: "string \<Rightarrow> string" where
  "own_ship_to_vdm s =
     (case own_at s of
        None \<Rightarrow> s
      | Some i \<Rightarrow>
          let b = s[i + 5 := CHR ''M''] in
          (case last_index star s of
             None \<Rightarrow> b
           | Some j \<Rightarrow> if j > i \<and> length s \<ge> j + 3 then new_checksum i j b else b))"

section \<open>TAG blocks\<close>

definition unsafe_byte :: "char \<Rightarrow> bool" where
  "unsafe_byte c \<longleftrightarrow> c \<in> {CHR '','', CHR 0x5C, CHR ''*'', CHR '':''}"

definition tag_safe :: "string \<Rightarrow> string" where
  "tag_safe s =
     (let r = map (\<lambda>c. if unsafe_byte c then CHR ''_'' else c) s in
      if length r > 15 then drop (length r - 15) r else r)"

definition tag_parts :: "(char \<times> string) list \<Rightarrow> string list" where
  "tag_parts fs =
     map (\<lambda>k. k # CHR '':'' # get_or [] fs k) (filter (\<lambda>k. get_or [] fs k \<noteq> []) ''sct'')"

definition tag_block :: "(char \<times> string) list \<Rightarrow> string" where
  "tag_block fs =
     (let body = join_with '','' (tag_parts fs) in
      [CHR 0x5C] @ body @ ''*'' @ hex2 (xor_bytes body) @ [CHR 0x5C])"

text \<open>The sentence alone: what comes before its last start, another TAG block among it, is dropped.\<close>

definition sentence_of :: "string \<Rightarrow> string" where
  "sentence_of s = (case last_index sentence_start s of None \<Rightarrow> s | Some i \<Rightarrow> if i > 0 then drop i s else s)"

definition tag_fields :: "event \<Rightarrow> (char \<times> string) list" where
  "tag_fields ev =
     [(CHR ''s'', tag_safe (ev_station ev)), (CHR ''c'', int_text (unix (ev_time ev))),
      (CHR ''t'', license_of (ev_source ev))]"

definition nmea_line :: "event \<Rightarrow> string \<Rightarrow> string" where
  "nmea_line ev s = tag_block (tag_fields ev) @ own_ship_to_vdm (sentence_of s) @ [CHR 0x0D, CHR 0x0A]"

definition nmea_text :: "event \<Rightarrow> string" where
  "nmea_text ev = concat (map (nmea_line ev) (ev_sentences ev))"

section \<open>Who reads the feed\<close>

datatype nmea_error = NmeaLimited | NmeaRefused auth_error | NmeaTier | NmeaBox | NmeaVesselsOnly | NmeaArea | NmeaSlots slot_error

definition nmea_status :: "nmea_error \<Rightarrow> nat" where
  "nmea_status e =
     (case e of NmeaLimited \<Rightarrow> 429 | NmeaRefused _ \<Rightarrow> 401 | NmeaTier \<Rightarrow> 401 | NmeaSlots _ \<Rightarrow> 429 | _ \<Rightarrow> 400)"

text \<open>\<open>scan4\<close> is \<open>fmt.Sscanf\<close> with four numbers: the corners as they stand, neither put in order nor checked.\<close>

fun raw_boxes :: "(string \<Rightarrow> (real \<times> real \<times> real \<times> real) option) \<Rightarrow> claims \<Rightarrow> string list \<Rightarrow> nmea_error + bbox list" where
  "raw_boxes scan4 cl [] = Inr []"
| "raw_boxes scan4 cl (q # qs) =
     (case scan4 q of
        None \<Rightarrow> Inl NmeaBox
      | Some (a, b, c, d) \<Rightarrow>
          let x = \<lparr>b_south = a, b_west = b, b_north = c, b_east = d\<rparr> in
          if \<not> allows_box cl x then Inl NmeaBox
          else case raw_boxes scan4 cl qs of Inl e \<Rightarrow> Inl e | Inr xs \<Rightarrow> Inr (x # xs))"

definition raw_request ::
  "(string \<Rightarrow> (real \<times> real \<times> real \<times> real) option) \<Rightarrow> claims \<Rightarrow> string list \<Rightarrow> nmea_error + bbox list" where
  "raw_request scan4 cl qs =
     (if \<not> may_raw cl then Inl NmeaTier
      else case raw_boxes scan4 cl qs of
        Inl e \<Rightarrow> Inl e
      | Inr boxes \<Rightarrow>
          if c_area cl < 0 then Inl NmeaVesselsOnly
          else if \<not> allows_area cl boxes \<or> boxes = [] \<and> c_area cl > 0 then Inl NmeaArea
          else Inr boxes)"

text \<open>
  \<open>res\<close> is what \<open>socketClaims\<close> answers and \<open>anon\<close> what \<open>orAnonymous\<close> makes of it; the connection's
  rate is charged before either is looked at.
\<close>

definition serve_nmea ::
  "(string \<Rightarrow> (real \<times> real \<times> real \<times> real) option) \<Rightarrow> auth_error + claims option \<Rightarrow> (claims option \<Rightarrow> claims) \<Rightarrow>
   string \<Rightarrow> int \<Rightarrow> time \<Rightarrow> string list \<Rightarrow> limiter \<Rightarrow> slots \<Rightarrow>
   (nmea_error + claims \<times> bbox list) \<times> limiter \<times> slots" where
  "serve_nmea scan4 res anon ip connects now qs l sl =
     (case allow_max now (connect_key (case res of Inl _ \<Rightarrow> None | Inr c \<Rightarrow> c) ip) connects l of
        (False, l') \<Rightarrow> (Inl NmeaLimited, l', sl)
      | (True, l') \<Rightarrow>
          (case res of
             Inl e \<Rightarrow> (Inl (NmeaRefused e), l', sl)
           | Inr c \<Rightarrow>
               (case raw_request scan4 (anon c) qs of
                  Inl e \<Rightarrow> (Inl e, l', sl)
                | Inr boxes \<Rightarrow>
                    (case acquire_stream_slots (anon c) ip sl of
                       Inl e \<Rightarrow> (Inl (NmeaSlots e), l', sl)
                     | Inr sl' \<Rightarrow> (Inr (anon c, boxes), l', sl')))))"

section \<open>What a client is sent\<close>

datatype raw_outcome = Skipped | TooSlow | Thinned | Frame string

definition raw_step :: "bbox list \<Rightarrow> time \<Rightarrow> bool \<Rightarrow> event \<Rightarrow> pacer \<Rightarrow> raw_outcome \<times> pacer" where
  "raw_step boxes now overflowed ev p =
     (if ev_low_trust ev \<and> \<not> ev_corroborated ev then (Skipped, p)
      else if overflowed then (TooSlow, p)
      else if boxes \<noteq> [] \<and> \<not> list_ex (\<lambda>b. ev_has_pos ev \<and> box_contains b (ev_lat ev) (ev_lon ev)) boxes then (Skipped, p)
      else case pace_allow now p of (ok, p') \<Rightarrow> (if ok then Frame (nmea_text ev) else Thinned, p'))"

text \<open>
  The loop over the subscriber's channel: each item is the clock's reading, whether the channel had
  overflowed by then, and the event. It ends with the connection or with a client that is too slow.
\<close>

fun raw_feed :: "bbox list \<Rightarrow> (time \<times> bool \<times> event) list \<Rightarrow> pacer \<Rightarrow> (time \<times> event \<times> string) list" where
  "raw_feed boxes [] p = []"
| "raw_feed boxes ((now, over, ev) # rest) p =
     (case raw_step boxes now over ev p of
        (TooSlow, _) \<Rightarrow> []
      | (Frame f, p') \<Rightarrow> (now, ev, f) # raw_feed boxes rest p'
      | (_, p') \<Rightarrow> raw_feed boxes rest p')"

definition nmea_pacer :: "claims \<Rightarrow> pacer" where
  "nmea_pacer cl = \<lparr>pc_n = c_rate cl, pc_sec = 0, pc_sent = 0\<rparr>"

section \<open>Reading a TAG block\<close>

definition read_field :: "string \<Rightarrow> char \<times> string" where
  "read_field f = (case f of k # c # v \<Rightarrow> (k, v) | _ \<Rightarrow> (CHR 0x00, f))"

definition read_tag :: "string \<Rightarrow> ((char \<times> string) list \<times> string) option" where
  "read_tag s =
     (case s of
        [] \<Rightarrow> None
      | x # r \<Rightarrow>
          (case cut_at CHR 0x5C r of (blk, rest, ended) \<Rightarrow>
           case cut_at CHR ''*'' blk of (body, digits, summed) \<Rightarrow>
             if x = CHR 0x5C \<and> ended \<and> summed \<and> digits = hex2 (xor_bytes body)
             then Some (map read_field (split_on CHR '','' body), rest) else None))"

lemma split_on_nonempty [simp]: "split_on c s \<noteq> []"
  by (induction s) (auto split: list.split)

lemma split_on_append: "c \<notin> set a \<Longrightarrow> split_on c (a @ c # b) = a # split_on c b"
  by (induction a) auto

lemma split_on_single: "c \<notin> set a \<Longrightarrow> split_on c a = [a]"
  by (induction a) auto

lemma split_on_join:
  "ws \<noteq> [] \<Longrightarrow> \<forall>w \<in> set ws. c \<notin> set w \<Longrightarrow> split_on c (join_with [c] ws) = ws"
proof (induction "[c]" ws rule: join_with.induct)
  case (2 w)
  then show ?case by (simp add: split_on_single)
next
  case (3 w v ws)
  then show ?case using split_on_append [of c w "join_with [c] (v # ws)"] by simp
qed simp

lemma not_in_join: "c \<notin> set sep \<Longrightarrow> \<forall>w \<in> set ws. c \<notin> set w \<Longrightarrow> c \<notin> set (join_with sep ws)"
  by (induction sep ws rule: join_with.induct) auto

lemma hex_digit_in: "w < 16 \<Longrightarrow> hex_digit w \<in> set ''0123456789ABCDEF''"
proof -
  assume "w < 16"
  then have "unat w < length ''0123456789ABCDEF''" by (simp add: word_less_nat_alt)
  then show ?thesis unfolding hex_digit_def by (rule nth_mem)
qed

lemma hex2_in: "set (hex2 w) \<subseteq> set ''0123456789ABCDEF''"
proof -
  have "drop_bit 4 w < 16"
  proof -
    have "unat w < 256" using unsigned_less [of w] by simp
    then have "unat w div 16 < 16" by simp
    then have "unat (drop_bit 4 w) < 16" by (simp add: drop_bit_eq_div unat_div)
    then show ?thesis by (simp add: word_less_nat_alt)
  qed
  moreover have "w AND 0xf < 16"
    using word_and_le1 [of w "0xf"] by (simp add: word_le_nat_alt word_less_nat_alt)
  ultimately show ?thesis using hex_digit_in by (simp add: hex2_def)
qed

lemma hex2_length [simp]: "length (hex2 w) = 2"
  by (simp add: hex2_def)

text \<open>Values hold none of the block's own delimiters.\<close>

definition tag_clean :: "string \<Rightarrow> bool" where
  "tag_clean v \<longleftrightarrow> list_all (\<lambda>c. \<not> unsafe_byte c) v"

lemma tag_clean_safe: "tag_clean (tag_safe s)"
  by (auto simp: tag_clean_def tag_safe_def list_all_iff unsafe_byte_def Let_def dest!: in_set_dropD)

lemma tag_clean_int_text: "tag_clean (int_text n)"
proof -
  have "tag_clean (dec n)" for n
  proof -
    have "\<not> unsafe_byte c" if "is_digit c" for c
      using that by (auto simp: unsafe_byte_def is_digit_def)
    then show ?thesis using dec_digits [of _ n] by (auto simp: tag_clean_def list_all_iff)
  qed
  then show ?thesis by (simp add: int_text_def tag_clean_def unsafe_byte_def)
qed

lemma licenses_clean: "list_all (tag_clean \<circ> snd) licenses"
  by code_simp

lemma license_clean: "tag_clean (license_of source)"
proof -
  have "tag_clean (get_or [] licenses k)" for k
  proof (cases "map_of licenses k")
    case None
    then show ?thesis by (simp add: get_or_def tag_clean_def)
  next
    case (Some v)
    then have "(k, v) \<in> set licenses" by (rule map_of_SomeD)
    then show ?thesis using licenses_clean Some by (auto simp: get_or_def list_all_iff)
  qed
  moreover have "tag_clean ''unspecified''" by code_simp
  ultimately show ?thesis by (simp add: license_of_def by_source_def split: prod.split)
qed

lemma tag_part_clean:
  assumes "w \<in> set (tag_parts fs)" and "\<forall>k \<in> set ''sct''. tag_clean (get_or [] fs k)"
  shows "CHR '','' \<notin> set w" and "CHR 0x5C \<notin> set w" and "CHR ''*'' \<notin> set w"
proof -
  obtain k where k: "k \<in> set ''sct''" and w: "w = k # CHR '':'' # get_or [] fs k"
    using assms(1) unfolding tag_parts_def set_map set_filter by blast
  have v: "tag_clean (get_or [] fs k)" using assms(2) k by blast
  have no: "c \<notin> set (get_or [] fs k)" if "unsafe_byte c" for c
    using v that unfolding tag_clean_def list_all_iff by blast
  have "CHR '','' \<noteq> k \<and> CHR 0x5C \<noteq> k \<and> CHR ''*'' \<noteq> k" using k by auto
  then show "CHR '','' \<notin> set w" and "CHR 0x5C \<notin> set w" and "CHR ''*'' \<notin> set w"
    using no [of "CHR '',''"] no [of "CHR 0x5C"] no [of "CHR ''*''"] by (simp_all add: w unsafe_byte_def)
qed

lemma read_tag_block:
  assumes "tag_parts fs \<noteq> []" and "\<forall>k \<in> set ''sct''. tag_clean (get_or [] fs k)"
  shows "read_tag (tag_block fs @ rest) = Some (map read_field (tag_parts fs), rest)"
proof -
  let ?body = "join_with '','' (tag_parts fs)"
  note part = tag_part_clean [OF _ assms(2)]
  have body: "CHR 0x5C \<notin> set ?body" "CHR ''*'' \<notin> set ?body"
    by (rule not_in_join; use part in simp)+
  have hex: "CHR 0x5C \<notin> set (hex2 (xor_bytes ?body))"
    using hex2_in [of "xor_bytes ?body"] by auto
  have 1: "cut_at CHR 0x5C ((?body @ ''*'' @ hex2 (xor_bytes ?body)) @ CHR 0x5C # rest) =
      (?body @ ''*'' @ hex2 (xor_bytes ?body), rest, True)"
    by (rule cut_at_found) (use body hex in auto)
  have 2: "cut_at CHR ''*'' (?body @ CHR ''*'' # hex2 (xor_bytes ?body)) = (?body, hex2 (xor_bytes ?body), True)"
    by (rule cut_at_found) (use body in auto)
  have 3: "split_on CHR '','' ?body = tag_parts fs"
    using split_on_join [OF assms(1)] part(1) by blast
  show ?thesis using 1 2 by (simp add: tag_block_def Let_def read_tag_def 3)
qed

lemma tag_parts_event:
  "map read_field (tag_parts (tag_fields ev)) =
     filter (\<lambda>(k, v). v \<noteq> []) (tag_fields ev)"
  by (simp add: tag_parts_def tag_fields_def get_or_def read_field_def)

lemma int_text_nonempty [simp]: "int_text n \<noteq> []"
  by (simp add: int_text_def)

text \<open>
  Every line of the raw feed starts with a TAG block that a reader of such blocks takes off: its
  checksum agrees, its fields are the station, the time in seconds and the license, those that are not
  empty, whatever the station's name holds; and what is left is the sentence.
\<close>

theorem raw_line_reads_back:
  "read_tag (nmea_line ev s) =
     Some (filter (\<lambda>(k, v). v \<noteq> []) (tag_fields ev), own_ship_to_vdm (sentence_of s) @ [CHR 0x0D, CHR 0x0A])"
proof -
  have "\<forall>k \<in> set ''sct''. tag_clean (get_or [] (tag_fields ev) k)"
    by (simp add: tag_fields_def get_or_def tag_clean_safe tag_clean_int_text license_clean)
  moreover have "tag_parts (tag_fields ev) \<noteq> []"
    by (simp add: tag_parts_def tag_fields_def get_or_def)
  ultimately show ?thesis
    unfolding nmea_line_def by (simp add: read_tag_block tag_parts_event)
qed

lemma tag_safe_length: "length (tag_safe s) \<le> 15"
  by (simp add: tag_safe_def Let_def)

section \<open>The rewritten sentence\<close>

text \<open>A sentence whose two digits after its last asterisk are the checksum of what stands before it.\<close>

definition sum_ok :: "string \<Rightarrow> bool" where
  "sum_ok s =
     (case (last_index sentence_start s, last_index star s) of
        (Some i, Some j) \<Rightarrow> i < j \<and> j + 3 \<le> length s \<and> take 2 (drop (j + 1) s) = hex2 (xor_bytes (covered i j s))
      | _ \<Rightarrow> False)"

lemma last_is_greatest: "sorted xs \<Longrightarrow> k \<in> set xs \<Longrightarrow> k \<le> last xs" for xs :: "nat list"
  by (induction xs) auto

lemma last_index_Some:
  "last_index P s = Some i \<longleftrightarrow> i < length s \<and> P (s ! i) \<and> (\<forall>k < length s. i < k \<longrightarrow> \<not> P (s ! k))"
proof -
  let ?is = "filter (\<lambda>i. P (s ! i)) [0..<length s]"
  have srt: "sorted ?is" by (simp add: sorted_wrt_filter)
  have set: "set ?is = {k. k < length s \<and> P (s ! k)}" by auto
  have last: "?is \<noteq> [] \<Longrightarrow> last ?is \<in> set ?is \<and> (\<forall>k \<in> set ?is. k \<le> last ?is)"
    using last_is_greatest [OF srt] last_in_set by blast
  show ?thesis
  proof (cases "?is = []")
    case True
    then have "{k. k < length s \<and> P (s ! k)} = {}" using set by simp
    with True show ?thesis by (auto simp: last_index_def)
  next
    case False
    then have eq: "last_index P s = Some (last ?is)" by (simp add: last_index_def split: list.split)
    note l = last [OF False]
    show ?thesis unfolding eq
    proof
      assume "Some (last ?is) = Some i"
      then show "i < length s \<and> P (s ! i) \<and> (\<forall>k < length s. i < k \<longrightarrow> \<not> P (s ! k))"
        using l unfolding set by (auto simp: not_le [symmetric])
    next
      assume i: "i < length s \<and> P (s ! i) \<and> (\<forall>k < length s. i < k \<longrightarrow> \<not> P (s ! k))"
      then have "i \<le> last ?is" using l unfolding set by blast
      moreover have "\<not> i < last ?is" using i l unfolding set by blast
      ultimately show "Some (last ?is) = Some i" by simp
    qed
  qed
qed

lemma own_at_Some:
  assumes "own_at s = Some i"
  shows "last_index sentence_start s = Some i" and "i + 7 \<le> length s"
    and "s ! (i + 3) = CHR ''V''" and "s ! (i + 4) = CHR ''D''" and "s ! (i + 5) = CHR ''O''" and "s ! (i + 6) = CHR '',''"
proof -
  have a: "last_index sentence_start s = Some i" "i + 7 \<le> length s" "take 3 (drop (i + 3) s) = ''VDO''" "s ! (i + 6) = CHR '',''"
    using assms by (auto simp: own_at_def split: option.splits if_splits)
  then show "last_index sentence_start s = Some i" and "i + 7 \<le> length s" and "s ! (i + 6) = CHR '',''" by simp_all
  have "s ! (i + 3 + k) = ''VDO'' ! k" if "k < 3" for k
    using a(2) that a(3) [symmetric] by simp
  from this [of 0] this [of 1] this [of 2]
  show "s ! (i + 3) = CHR ''V''" and "s ! (i + 4) = CHR ''D''" and "s ! (i + 5) = CHR ''O''"
    by (simp_all add: numeral_eq_Suc)
qed

text \<open>Writing the letter and the digits moves neither the start nor the asterisk.\<close>

lemma last_index_update:
  assumes "last_index P s = Some i" and "k \<noteq> i" and "\<not> P c"
  shows "last_index P (s[k := c]) = Some i"
  using assms unfolding last_index_Some by (cases "k < length s") (auto simp: nth_list_update split: if_splits)

lemma hex_digit_plain: "w < 16 \<Longrightarrow> \<not> sentence_start (hex_digit w) \<and> \<not> star (hex_digit w)"
  using hex_digit_in by fastforce

lemma covered_update: "j \<le> k \<Longrightarrow> i < j \<Longrightarrow> covered i j (b[k := c]) = covered i j b"
  by (simp add: covered_def drop_update_swap take_update_cancel)

lemma take2_drop: "n + 2 \<le> length xs \<Longrightarrow> take 2 (drop n xs) = [xs ! n, xs ! (n + 1)]"
  by (auto simp: numeral_2_eq_2 take_Suc hd_drop_conv_nth drop_Suc [symmetric] simp del: drop_Suc
      simp flip: Cons_nth_drop_Suc)

lemma nibbles: "drop_bit 4 (w :: 8 word) < 16" "(w :: 8 word) AND 0xf < 16"
proof -
  have "unat w < 256" using unsigned_less [of w] by simp
  then have "unat w div 16 < 16" by simp
  then have "unat (drop_bit 4 w) < 16" by (simp add: drop_bit_eq_div unat_div)
  then show "drop_bit 4 w < 16" by (simp add: word_less_nat_alt)
  show "w AND 0xf < 16"
    using word_and_le1 [of w "0xf"] by (simp add: word_le_nat_alt word_less_nat_alt)
qed

lemma own_at_written:
  assumes "own_at s = Some i" and "last_index star s = Some j"
  shows "last_index sentence_start (s[i + 5 := CHR ''M'']) = Some i" and "last_index star (s[i + 5 := CHR ''M'']) = Some j"
    and "j \<noteq> i + 3 \<and> j \<noteq> i + 4 \<and> j \<noteq> i + 5 \<and> j \<noteq> i + 6"
proof -
  note own = own_at_Some [OF assms(1)]
  show neq: "j \<noteq> i + 3 \<and> j \<noteq> i + 4 \<and> j \<noteq> i + 5 \<and> j \<noteq> i + 6"
    using assms(2) own unfolding last_index_Some by auto
  show "last_index sentence_start (s[i + 5 := CHR ''M'']) = Some i"
    by (rule last_index_update [OF own(1)]) auto
  show "last_index star (s[i + 5 := CHR ''M'']) = Some j"
    by (rule last_index_update [OF assms(2)]) (use neq in auto)
qed

lemma own_ship_rewrite:
  assumes own: "own_at s = Some i" and star: "last_index star s = Some j" and ij: "i < j" and len: "j + 3 \<le> length s"
  shows "sum_ok (own_ship_to_vdm s)" and "length (own_ship_to_vdm s) = length s"
    and "own_ship_to_vdm s ! (i + 5) = CHR ''M''"
    and "k \<noteq> i + 5 \<Longrightarrow> k \<noteq> j + 1 \<Longrightarrow> k \<noteq> j + 2 \<Longrightarrow> own_ship_to_vdm s ! k = s ! k"
    and "last_index sentence_start (own_ship_to_vdm s) = Some i"
proof -
  define b where "b = s[i + 5 := CHR ''M'']"
  define cs where "cs = xor_bytes (covered i j b)"
  define h1 where "h1 = hex_digit (drop_bit 4 cs)"
  define h2 where "h2 = hex_digit (cs AND 0xf)"
  note w = own_at_written [OF own star, folded b_def]
  note at = own_at_Some [OF own]
  have r: "own_ship_to_vdm s = b[j + 1 := h1, j + 2 := h2]"
    using own star ij len
    by (simp add: own_ship_to_vdm_def new_checksum_def Let_def b_def h1_def h2_def cs_def)
  have plain: "\<not> sentence_start h1" "\<not> star h1" "\<not> sentence_start h2" "\<not> star h2"
    using hex_digit_plain [OF nibbles(1) [of cs]] hex_digit_plain [OF nibbles(2) [of cs]]
    by (simp_all add: h1_def h2_def)
  have lb: "length b = length s" by (simp add: b_def)
  show length: "length (own_ship_to_vdm s) = length s" by (simp add: r lb)
  have "last_index sentence_start (b[j + 1 := h1]) = Some i"
    by (rule last_index_update [OF w(1)]) (use ij plain in auto)
  then show st: "last_index sentence_start (own_ship_to_vdm s) = Some i"
    unfolding r by (rule last_index_update) (use ij plain in auto)
  have "last_index star (b[j + 1 := h1]) = Some j"
    by (rule last_index_update [OF w(2)]) (use plain in auto)
  then have se: "last_index star (own_ship_to_vdm s) = Some j"
    unfolding r by (rule last_index_update) (use plain in auto)
  have cov: "covered i j (own_ship_to_vdm s) = covered i j b"
    using ij by (simp add: r covered_update)
  have "take 2 (drop (j + 1) (own_ship_to_vdm s)) = [h1, h2]"
    using len lb by (simp add: take2_drop r nth_list_update)
  then show "sum_ok (own_ship_to_vdm s)"
    using st se ij len by (simp add: sum_ok_def length cov hex2_def h1_def h2_def cs_def)
  show "own_ship_to_vdm s ! (i + 5) = CHR ''M''"
    using w(3) ij len at(2) by (auto simp: r b_def nth_list_update)
  show "k \<noteq> i + 5 \<Longrightarrow> k \<noteq> j + 1 \<Longrightarrow> k \<noteq> j + 2 \<Longrightarrow> own_ship_to_vdm s ! k = s ! k"
    by (simp add: r b_def)
qed

text \<open>
  C32. An own-ship sentence with a checksum goes out as VDM: its type's last letter is \<open>M\<close>, its two digits
  are the checksum of what it now says, every other byte stands as it arrived, and it is read as an
  own-ship sentence no more.
\<close>

theorem own_ship_goes_out_as_vdm:
  assumes "own_at s = Some i" and "last_index star s = Some j" and "i < j" and "j + 3 \<le> length s"
  shows "own_at (own_ship_to_vdm s) = None \<and> sum_ok (own_ship_to_vdm s) \<and>
    own_ship_to_vdm s ! (i + 5) = CHR ''M'' \<and> length (own_ship_to_vdm s) = length s \<and>
    {k. k < length s \<and> own_ship_to_vdm s ! k \<noteq> s ! k} \<subseteq> {i + 5, j + 1, j + 2}"
proof -
  note r = own_ship_rewrite [OF assms]
  have "own_at (own_ship_to_vdm s) = None"
  proof (rule ccontr)
    assume "own_at (own_ship_to_vdm s) \<noteq> None"
    then obtain i' where i': "own_at (own_ship_to_vdm s) = Some i'" by blast
    with own_at_Some(1) [OF i'] r(5) have "i' = i" by simp
    with own_at_Some(5) [OF i'] r(3) show False by simp
  qed
  with r show ?thesis by blast
qed

definition own_sentence :: string where
  "own_sentence = ''!AIVDO,1,1,,A,14eG;o@034o8sd<L9i:a;WF>062D,0*7D''"

lemma own_ship_goes_out_as_vdm_witness:
  "own_ship_to_vdm own_sentence = ''!AIVDM,1,1,,A,14eG;o@034o8sd<L9i:a;WF>062D,0*7D'' \<and> sum_ok (own_ship_to_vdm own_sentence)"
proof -
  have "own_at own_sentence = Some 0" "last_index star own_sentence = Some 44" "length own_sentence = 47"
    by code_simp+
  then have "sum_ok (own_ship_to_vdm own_sentence)"
    using own_ship_goes_out_as_vdm [of own_sentence 0 44] by simp
  moreover have "own_ship_to_vdm own_sentence = ''!AIVDM,1,1,,A,14eG;o@034o8sd<L9i:a;WF>062D,0*7D''" by code_simp
  ultimately show ?thesis by blast
qed

section \<open>What reaches a client\<close>

lemma raw_boxes_ok: "raw_boxes scan4 cl qs = Inr bs \<Longrightarrow> b \<in> set bs \<Longrightarrow> allows_box cl b"
  by (induction scan4 cl qs arbitrary: bs rule: raw_boxes.induct)
    (auto simp: Let_def split: option.splits prod.splits if_splits sum.splits)

lemma raw_request_Inr:
  assumes "raw_request scan4 cl qs = Inr boxes"
  shows "may_raw cl" and "b \<in> set boxes \<Longrightarrow> allows_box cl b" and "0 \<le> c_area cl" and "0 < c_area cl \<Longrightarrow> boxes \<noteq> []"
    and "allows_area cl boxes"
  using assms raw_boxes_ok [of scan4 cl qs]
  by (auto simp: raw_request_def split: if_splits sum.splits)

lemma serve_nmea_Inr:
  assumes "serve_nmea scan4 res anon ip connects now qs l sl = (Inr (cl, boxes), l', sl')"
  shows "raw_request scan4 cl qs = Inr boxes" and "acquire_stream_slots cl ip sl = Inr sl'" and "\<exists>c. res = Inr c \<and> cl = anon c"
  using assms by (auto simp: serve_nmea_def split: prod.splits bool.splits sum.splits)

lemma raw_step_Frame:
  assumes "raw_step boxes now over ev p = (Frame f, p')"
  shows "f = nmea_text ev" and "ev_low_trust ev \<Longrightarrow> ev_corroborated ev" and "\<not> over"
    and "boxes \<noteq> [] \<Longrightarrow> \<exists>b \<in> set boxes. ev_has_pos ev \<and> box_contains b (ev_lat ev) (ev_lon ev)"
    and "pace_allow now p = (True, p')"
  using assms by (auto simp: raw_step_def list_ex_iff split: if_splits prod.splits)

lemma raw_feed_sent:
  "(now, ev, f) \<in> set (raw_feed boxes evs p) \<Longrightarrow> \<exists>p0 p1. (now, False, ev) \<in> set evs \<and> raw_step boxes now False ev p0 = (Frame f, p1)"
proof (induction boxes evs p rule: raw_feed.induct)
  case (2 boxes t over e rest p)
  obtain r p1 where r: "raw_step boxes t over e p = (r, p1)" by fastforce
  show ?case
  proof (cases r)
    case (Frame g)
    with 2 r show ?thesis using raw_step_Frame(3) [of boxes t over e p g p1] by auto
  qed (use 2 r in \<open>auto\<close>)
qed simp


definition harbor :: bbox where "harbor = \<lparr>b_south = 37, b_west = - 123, b_north = 38, b_east = - 122\<rparr>"

definition harbor_scan :: "string \<Rightarrow> (real \<times> real \<times> real \<times> real) option" where
  "harbor_scan q = (if q = ''harbor'' then Some (37, - 123, 38, - 122) else if q = ''world'' then Some (- 90, - 180, 90, 180)
     else if q = ''inverted'' then Some (90, - 180, - 90, 180) else None)"

definition raw_client :: claims where
  "raw_client = no_claims\<lparr>c_sub := ''f1'', c_role := ''feeder'', c_area := 4, c_conns := 2, c_rate := 10\<rparr>"

definition harbor_event :: event where
  "harbor_event = (new_event 0 0 ''station:a'' ''a'' CHR ''A'' ''x'' (OtherPacket \<lparr>h_message_id = 27, h_user_id = 366892000\<rparr> []) [own_sentence])
     \<lparr>ev_has_pos := True, ev_lat := 37.5, ev_lon := - 122.5\<rparr>"

lemma harbor_served:
  "serve_nmea harbor_scan (Inr (Some raw_client)) the ''10.0.0.1'' 30 0 [''harbor''] [] \<lparr>sl_subs = [], sl_addrs = []\<rparr> =
     (Inr (raw_client, [harbor]), [(connect_key (Some raw_client) ''10.0.0.1'', \<lparr>wd_start = 0, wd_n = 1\<rparr>)],
      \<lparr>sl_subs = [(''f1'', 1)], sl_addrs = [(''10.0.0.1'', 1)]\<rparr>)"
  by (simp add: serve_nmea_def allow_max_def raw_request_def harbor_scan_def raw_client_def no_claims_def may_raw_def
      allows_box_def allows_area_def box_area_def harbor_def acquire_stream_slots_def conn_acquire_def get_or_def addr_max_streams_def)

lemma harbor_sent:
  "raw_feed [harbor] [(0, False, harbor_event), (1, False, harbor_event\<lparr>ev_lat := 39\<rparr>)] (nmea_pacer raw_client) =
     [(0, harbor_event, nmea_text harbor_event)]"
  by (simp add: raw_step_def harbor_event_def new_event_def box_contains_def harbor_def nmea_pacer_def raw_client_def
      no_claims_def pace_allow_def Let_def unix_def)


text \<open>
  Two ways round the claims the boxes are checked against. The corners are taken as they stand, so the world
  with the world inside out has no area; and a token that may only read a box reads everything when it
  names none, here and on \<open>/v1/stream\<close>, unless it has an area cap too.
\<close>

lemma raw_area_bypass:
  "raw_request harbor_scan raw_client [''world'', ''inverted''] = Inr [world, inside_out] \<and> c_area raw_client < box_area world"
  by (simp add: raw_request_def harbor_scan_def raw_client_def no_claims_def may_raw_def allows_box_def allows_area_def
      box_area_def world_def inside_out_def)

definition boxed_client :: claims where
  "boxed_client = no_claims\<lparr>c_sub := ''f1'', c_role := ''partner'', c_bbox := [harbor]\<rparr>"

lemma box_claim_bypass:
  "raw_request harbor_scan boxed_client [] = Inr [] \<and> raw_request harbor_scan boxed_client [''world''] = Inl NmeaBox"
  "\<exists>s. ws_subscribe src boxed_client [] [] None = Inr s \<and> s_everything s"
  by (simp_all add: raw_request_def boxed_client_def no_claims_def may_raw_def allows_area_def harbor_scan_def allows_box_def
      harbor_def box_within_def ws_subscribe_def allows_mmsis_def follow_imos_def empty_sub_def)

end
