(* ===== verification/Shadow.thy ===== *)
theory Shadow
  imports Imo
begin

text \<open>
  Capture coverage (\<open>server/coverage.go\<close>): the tree of the fields an adapter's struct captures, with the
  waivers, the walk that finds a field outside it, and the bounded count of such fields.

  A struct's type is described by \<open>gotype\<close>, what reflection reads of it; \<open>GoTime\<close> is \<open>time.Time\<close>, a struct with no exported field. \<open>as_object\<close> and \<open>as_array\<close> are
  \<open>json.Unmarshal\<close> into a map and into a list of raw values, \<open>None\<close> where it fails; an object's members
  are in the order of the map.
\<close>

declare map_of_eq_Some_iff [simp del]

section \<open>The capture tree\<close>

text \<open>A \<open>fieldSet\<close> is the list of its keys; \<open>Leaf\<close> is the \<open>nil\<close> subtree.\<close>

datatype field_tree = Leaf | Node "(string \<times> field_tree) list"

type_synonym capture_set = "(string \<times> field_tree) list"

definition waivers :: "(string \<times> string list) list" where
  "waivers =
     [(''barentswatch'', [''shipLength'', ''shipWidth'', ''reportClass'']),
      (''catcher'', [''protocol'', ''msgs.class'', ''msgs.channel'', ''msgs.*'', ''encodetime'', ''stationid'', ''station_lat'',
         ''station_lon'', ''receiver'', ''device''])]"

definition flat :: "string list \<Rightarrow> capture_set" where
  "flat keys = fold (\<lambda>k. put k Leaf) keys []"

datatype gotype = GoStruct "gofield list" | GoTime | GoPtr gotype | GoSlice gotype | GoArray gotype | GoOther
  and gofield = GoField (gf_name: string) (gf_exported: bool) (gf_anonymous: bool) (gf_json: "string option") (gf_type: gotype)

fun elem_of :: "gotype \<Rightarrow> gotype" where
  "elem_of (GoPtr t) = elem_of t"
| "elem_of (GoSlice t) = elem_of t"
| "elem_of (GoArray t) = elem_of t"
| "elem_of t = t"

definition json_key :: "gofield \<Rightarrow> string" where
  "json_key f =
     (case gf_json f of
        None \<Rightarrow> gf_name f
      | Some tag \<Rightarrow> (case cut_at CHR '','' tag of (n, _, _) \<Rightarrow> if n \<noteq> [] then n else gf_name f))"

lemma size_elem_of: "size (elem_of t) \<le> size t"
  by (induction t rule: elem_of.induct) auto

lemma size_struct: "gf_type f = GoStruct sub \<Longrightarrow> size_list size sub < size f"
  by (cases f) simp

lemma size_element: "elem_of (gf_type f) = GoStruct sub \<Longrightarrow> size_list size sub < size f"
  using size_elem_of [of "gf_type f"] by (cases f) simp

function walk_struct :: "gofield list \<Rightarrow> capture_set \<Rightarrow> capture_set" where
  "walk_struct [] out = out"
| "walk_struct (f # fs) out =
     (if \<not> gf_exported f then walk_struct fs out
      else case (gf_anonymous f, gf_type f) of
        (True, GoStruct sub) \<Rightarrow> walk_struct fs (fold (\<lambda>(k, v). put k v) (walk_struct sub []) out)
      | (True, GoTime) \<Rightarrow> walk_struct fs out
      | _ \<Rightarrow>
          (case elem_of (gf_type f) of
             GoStruct sub \<Rightarrow> walk_struct fs (put (json_key f) (Node (walk_struct sub [])) out)
           | _ \<Rightarrow> walk_struct fs (put (json_key f) Leaf out)))"
  by pat_completeness auto

termination
  by (relation "measure (\<lambda>(fs, _). size_list size fs)") (auto dest!: size_struct size_struct [OF sym] size_element size_element [OF sym])

text \<open>A path into the tree; the source never asks for the empty one, which \<open>strings.Split\<close> does not give.\<close>

fun insert_path :: "string list \<Rightarrow> capture_set \<Rightarrow> capture_set" where
  "insert_path [] fs = fs"
| "insert_path [h] fs = (if map_of fs h = None then put h Leaf fs else fs)"
| "insert_path (h # rest) fs =
     put h (Node (insert_path rest (case map_of fs h of Some (Node sub) \<Rightarrow> sub | _ \<Rightarrow> []))) fs"

definition with_waivers :: "string \<Rightarrow> capture_set \<Rightarrow> capture_set" where
  "with_waivers site fs = fold (\<lambda>w. insert_path (split_on CHR ''.'' w)) (get_or [] waivers site) fs"

definition fields_of :: "string \<Rightarrow> gofield list \<Rightarrow> capture_set" where
  "fields_of site t = with_waivers site (walk_struct t [])"

section \<open>The walk\<close>

record parsers =
  as_object :: "string \<Rightarrow> (string \<times> string) list option"
  as_array :: "string \<Rightarrow> string list option"

definition trim_left :: "string \<Rightarrow> string" where
  "trim_left b = dropWhile (\<lambda>c. c = CHR '' '' \<or> c = CHR 0x09 \<or> c = CHR 0x0A \<or> c = CHR 0x0D) b"

lemma size_of_child: "map_of fs k = Some t \<Longrightarrow> size t < size_list (size_prod (\<lambda>_. 0) size) fs + 1"
  by (induction fs) (auto split: if_splits)

text \<open>The paths flagged, in order.\<close>

function shadow_walk :: "parsers \<Rightarrow> string \<Rightarrow> string \<Rightarrow> capture_set \<Rightarrow> string list" where
  "shadow_walk ps pre raw known =
     (case as_object ps raw of
        None \<Rightarrow> []
      | Some m \<Rightarrow>
          concat (map (\<lambda>(k, v).
            case map_of known k of
              None \<Rightarrow> if map_of known ''*'' = None then [pre @ k] else []
            | Some Leaf \<Rightarrow> []
            | Some (Node sub) \<Rightarrow>
                (case trim_left v of
                   [] \<Rightarrow> []
                 | c # _ \<Rightarrow>
                     if c = CHR ''{'' then shadow_walk ps (pre @ k @ ''.'') v sub
                     else if c = CHR ''['' then
                       (case as_array ps v of None \<Rightarrow> [] | Some items \<Rightarrow> concat (map (\<lambda>it. shadow_walk ps (pre @ k @ ''.'') it sub) items))
                     else [])) m))"
  by pat_completeness auto

termination
  by (relation "measure (\<lambda>(_, _, _, known). size_list (size_prod (\<lambda>_. 0) size) known)") (auto dest: size_of_child)

declare shadow_walk.simps [simp del]

section \<open>Counting\<close>

definition control_types :: "(string \<times> bool) list" where
  "control_types = [(''aisstream/SubscriptionConfirmation'', True)]"

definition shadow_every :: int where "shadow_every = 1024"
definition max_unmapped :: nat where "max_unmapped = 256"

text \<open>Each site's sampling counter; the first record of every \<open>shadow_every\<close> is checked.\<close>

definition shadow_sample :: "int \<Rightarrow> string \<Rightarrow> (string \<times> int) list \<Rightarrow> bool \<times> (string \<times> int) list" where
  "shadow_sample every site ns =
     (let n = get_or 0 ns site + 1 in (n smod every = 1 \<or> every = 1, put site n ns))"

record unmapped =
  um_fields :: "(string \<times> int) list"
  um_types :: "(string \<times> int) list"
  um_n :: nat

definition site_key :: "string \<Rightarrow> string \<Rightarrow> string" where
  "site_key site name = site @ CHR 0x09 # name"

text \<open>One of the two maps; the number of names is shared.\<close>

definition count_in :: "string \<Rightarrow> string \<Rightarrow> (string \<times> int) list \<times> nat \<Rightarrow> (string \<times> bool) \<times> (string \<times> int) list \<times> nat" where
  "count_in site name0 st =
     (case st of (m, n) \<Rightarrow>
        if map_of m (site_key site name0) \<noteq> None
        then ((name0, False), put (site_key site name0) (get_or 0 m (site_key site name0) + 1) m, n)
        else let name = (if n \<ge> max_unmapped then ''(other)'' else name0); key = site_key site name; fresh = map_of m key = None in
          ((name, fresh), put key (get_or 0 m key + 1) m, if fresh then n + 1 else n))"

definition count_field :: "string \<Rightarrow> string \<Rightarrow> unmapped \<Rightarrow> (string \<times> bool) \<times> unmapped" where
  "count_field site name u =
     (case count_in site name (um_fields u, um_n u) of (r, m, n) \<Rightarrow> (r, u\<lparr>um_fields := m, um_n := n\<rparr>))"

definition count_type :: "string \<Rightarrow> string \<Rightarrow> unmapped \<Rightarrow> (string \<times> bool) \<times> unmapped" where
  "count_type site name u =
     (case count_in site name (um_types u, um_n u) of (r, m, n) \<Rightarrow> (r, u\<lparr>um_types := m, um_n := n\<rparr>))"

definition shadow_check :: "parsers \<Rightarrow> string \<Rightarrow> string \<Rightarrow> capture_set \<Rightarrow> unmapped \<Rightarrow> unmapped" where
  "shadow_check ps site raw known u = fold (\<lambda>p u. snd (count_field site p u)) (shadow_walk ps [] raw known) u"

text \<open>
  The trees of aisstream's message types are made on first use and kept; \<open>types\<close> is the decoder's table of structs.
\<close>

definition v0_env_known :: capture_set where "v0_env_known = flat [''MessageType'', ''MetaData'', ''Message'']"

definition v0_meta_known :: capture_set where
  "v0_meta_known = flat [''MMSI'', ''MMSI_String'', ''ShipName'', ''latitude'', ''longitude'', ''time_utc'']"

definition aisstream_known :: "(string \<Rightarrow> gofield list) \<Rightarrow> string \<Rightarrow> (string \<times> capture_set) list \<Rightarrow> capture_set \<times> (string \<times> capture_set) list" where
  "aisstream_known types t v0 =
     (case map_of v0 t of
        Some f \<Rightarrow> (f, v0)
      | None \<Rightarrow> let f = fields_of (''aisstream/'' @ t) (types t) in (f, put t f v0))"

section \<open>The walk finds what is not captured\<close>

text \<open>A path of a record that the tree does not capture: its last key is unknown where the tree and the record lead.\<close>

inductive uncaptured :: "parsers \<Rightarrow> string \<Rightarrow> capture_set \<Rightarrow> string list \<Rightarrow> bool" for ps where
  unknown: "as_object ps raw = Some m \<Longrightarrow> (k, v) \<in> set m \<Longrightarrow> map_of known k = None \<Longrightarrow> map_of known ''*'' = None \<Longrightarrow>
    uncaptured ps raw known [k]"
| in_object: "as_object ps raw = Some m \<Longrightarrow> (k, v) \<in> set m \<Longrightarrow> map_of known k = Some (Node sub) \<Longrightarrow> trim_left v = CHR ''{'' # v' \<Longrightarrow>
    uncaptured ps v sub p \<Longrightarrow> uncaptured ps raw known (k # p)"
| in_array: "as_object ps raw = Some m \<Longrightarrow> (k, v) \<in> set m \<Longrightarrow> map_of known k = Some (Node sub) \<Longrightarrow> trim_left v = CHR ''['' # v' \<Longrightarrow>
    as_array ps v = Some items \<Longrightarrow> it \<in> set items \<Longrightarrow> uncaptured ps it sub p \<Longrightarrow> uncaptured ps raw known (k # p)"

inductive_cases uncaptured_Cons: "uncaptured ps raw known (k # p)"
inductive_cases uncaptured_Nil: "uncaptured ps raw known []"

fun dotted :: "string list \<Rightarrow> string" where
  "dotted [] = []"
| "dotted [k] = k"
| "dotted (k # p) = k @ ''.'' @ dotted p"

lemma dotted_Cons: "p \<noteq> [] \<Longrightarrow> dotted (k # p) = k @ ''.'' @ dotted p"
  by (cases p) auto

lemma uncaptured_nonempty: "uncaptured ps raw known p \<Longrightarrow> p \<noteq> []"
  by (auto elim: uncaptured_Nil)

text \<open>What one member of an object adds.\<close>

definition member_paths :: "parsers \<Rightarrow> string \<Rightarrow> capture_set \<Rightarrow> string \<Rightarrow> string \<Rightarrow> string list" where
  "member_paths ps pre known k v =
     (case map_of known k of
        None \<Rightarrow> if map_of known ''*'' = None then [pre @ k] else []
      | Some Leaf \<Rightarrow> []
      | Some (Node sub) \<Rightarrow>
          (case trim_left v of
             [] \<Rightarrow> []
           | c # _ \<Rightarrow>
               if c = CHR ''{'' then shadow_walk ps (pre @ k @ ''.'') v sub
               else if c = CHR ''['' then
                 (case as_array ps v of None \<Rightarrow> [] | Some items \<Rightarrow> concat (map (\<lambda>it. shadow_walk ps (pre @ k @ ''.'') it sub) items))
               else []))"

lemma walk_members:
  "shadow_walk ps pre raw known =
     (case as_object ps raw of None \<Rightarrow> [] | Some m \<Rightarrow> concat (map (\<lambda>(k, v). member_paths ps pre known k v) m))"
  unfolding shadow_walk.simps [of ps pre raw known] member_paths_def by (rule refl)

lemma walk_sound:
  "s \<in> set (shadow_walk ps pre raw known) \<Longrightarrow> \<exists>p. uncaptured ps raw known p \<and> s = pre @ dotted p"
proof (induction ps pre raw known arbitrary: s rule: shadow_walk.induct)
  case (1 ps pre raw known)
  from 1(3) obtain m k v where m: "as_object ps raw = Some m" "(k, v) \<in> set m" and s: "s \<in> set (member_paths ps pre known k v)"
    unfolding walk_members [of ps pre raw known] by (cases "as_object ps raw") auto
  show ?case
  proof (cases "map_of known k")
    case None
    with s have "map_of known ''*'' = None" "s = pre @ dotted [k]" by (auto simp: member_paths_def split: if_splits)
    with uncaptured.unknown [OF m None] show ?thesis by blast
  next
    case (Some t)
    then obtain sub where t: "map_of known k = Some (Node sub)" using s by (cases t) (auto simp: member_paths_def)
    obtain c w where w: "trim_left v = c # w" using s t by (cases "trim_left v") (auto simp: member_paths_def)
    have s': "s \<in> set (if c = CHR ''{'' then shadow_walk ps (pre @ k @ ''.'') v sub
               else if c = CHR ''['' then
                 (case as_array ps v of None \<Rightarrow> [] | Some items \<Rightarrow> concat (map (\<lambda>it. shadow_walk ps (pre @ k @ ''.'') it sub) items))
               else [])" using s unfolding member_paths_def t w option.case field_tree.case list.case .
    consider (object) "c = CHR ''{''" "s \<in> set (shadow_walk ps (pre @ k @ ''.'') v sub)"
      | (array) items it where "c = CHR ''[''" "as_array ps v = Some items" "it \<in> set items" "s \<in> set (shadow_walk ps (pre @ k @ ''.'') it sub)"
    proof (cases "c = CHR ''{''")
      case True
      then show ?thesis using s' object by simp
    next
      case False
      then show ?thesis using s' array by (cases "c = CHR ''[''"; cases "as_array ps v") auto
    qed
    then show ?thesis
    proof cases
      case object
      have "\<exists>p. uncaptured ps v sub p \<and> s = (pre @ k @ ''.'') @ dotted p"
        by (rule 1(1)) (use m t w object in simp_all)
      then obtain p where p: "uncaptured ps v sub p" "s = (pre @ k @ ''.'') @ dotted p" by blast
      have "uncaptured ps raw known (k # p)" using uncaptured.in_object [OF m t _ p(1)] w object by simp
      with p(2) show ?thesis using dotted_Cons [OF uncaptured_nonempty [OF p(1)], of k] by auto
    next
      case array
      have "\<exists>p. uncaptured ps it sub p \<and> s = (pre @ k @ ''.'') @ dotted p"
        by (rule 1(2)) (use m t w array in simp_all)
      then obtain p where p: "uncaptured ps it sub p" "s = (pre @ k @ ''.'') @ dotted p" by blast
      have "uncaptured ps raw known (k # p)" using uncaptured.in_array [OF m t _ array(2,3) p(1)] w array by simp
      with p(2) show ?thesis using dotted_Cons [OF uncaptured_nonempty [OF p(1)], of k] by auto
    qed
  qed
qed

lemma walk_member: "as_object ps raw = Some m \<Longrightarrow> (k, v) \<in> set m \<Longrightarrow> s \<in> set (member_paths ps pre known k v) \<Longrightarrow> s \<in> set (shadow_walk ps pre raw known)"
  unfolding walk_members [of ps pre raw known] by auto

lemma walk_complete: "uncaptured ps raw known p \<Longrightarrow> pre @ dotted p \<in> set (shadow_walk ps pre raw known)"
proof (induction arbitrary: pre rule: uncaptured.induct)
  case (unknown raw m k v known)
  then show ?case by (intro walk_member [of ps raw m k v]) (simp_all add: member_paths_def)
next
  case (in_object raw m k v known sub v' p)
  have "pre @ dotted (k # p) \<in> set (member_paths ps pre known k v)"
    using in_object.IH [of "pre @ k @ ''.''"] in_object.hyps(3,4) dotted_Cons [OF uncaptured_nonempty [OF in_object.hyps(5)], of k]
    by (simp add: member_paths_def)
  then show ?case by (rule walk_member [OF in_object.hyps(1,2)])
next
  case (in_array raw m k v known sub v' items it p)
  have "pre @ dotted (k # p) \<in> set (member_paths ps pre known k v)"
    using in_array.IH [of "pre @ k @ ''.''"] in_array.hyps(3-6) dotted_Cons [OF uncaptured_nonempty [OF in_array.hyps(7)], of k]
    by (auto simp: member_paths_def)
  then show ?case by (rule walk_member [OF in_array.hyps(1,2)])
qed

text \<open>
  C39. The shadow decode flags exactly the fields of a record that the capture tree does not hold: a key
  unknown at its level, where no waiver covers the level, however deep in objects and lists it lies, by its
  dotted path.
\<close>

theorem shadow_walk_exact: "set (shadow_walk ps [] raw known) = dotted ` {p. uncaptured ps raw known p}"
  using walk_sound [of _ ps "[]" raw known] walk_complete [of ps raw known _ "[]"] by auto

section \<open>The count stays bounded\<close>

text \<open>A sighting is of a field or of a record type, at a site. A name past the bound is filed under its site's \<open>(other)\<close>.\<close>

definition sighting :: "bool \<times> string \<times> string \<Rightarrow> unmapped \<Rightarrow> unmapped" where
  "sighting x u = (case x of (is_type, site, name) \<Rightarrow> snd (if is_type then count_type site name u else count_field site name u))"

definition keys_ok :: "string set \<Rightarrow> (string \<times> int) list \<Rightarrow> string set \<Rightarrow> bool" where
  "keys_ok sites m named \<longleftrightarrow> is_map m \<and> finite named \<and> fst ` set m \<subseteq> named \<union> (\<lambda>s. site_key s ''(other)'') ` sites"

definition unmapped_ok :: "string set \<Rightarrow> unmapped \<Rightarrow> bool" where
  "unmapped_ok sites u \<longleftrightarrow> um_n u = length (um_fields u) + length (um_types u) \<and>
     (\<exists>F T. keys_ok sites (um_fields u) F \<and> keys_ok sites (um_types u) T \<and> card F + card T \<le> max_unmapped \<and> card F + card T \<le> um_n u)"

lemma unmapped_okI:
  "um_n u = length (um_fields u) + length (um_types u) \<Longrightarrow> keys_ok sites (um_fields u) F \<Longrightarrow> keys_ok sites (um_types u) T \<Longrightarrow>
   card F + card T \<le> max_unmapped \<Longrightarrow> card F + card T \<le> um_n u \<Longrightarrow> unmapped_ok sites u"
  by (auto simp: unmapped_ok_def)

lemma keys_put: "fst ` set (put k v m) = insert k (fst ` set m)"
  by (induction m) auto

lemma count_in_keys:
  assumes k: "keys_ok sites m K" and s: "site \<in> sites" and eq: "count_in site name (m, n) = (r, m', n')"
  obtains K' where "keys_ok sites m' K'" "card K' = card K \<or> n < max_unmapped \<and> card K' \<le> card K + 1 \<and> length m' = length m + 1"
    "n' + length m = n + length m'" "length m \<le> length m'"
proof (cases "map_of m (site_key site name) = None")
  case False
  then have "m' = put (site_key site name) (get_or 0 m (site_key site name) + 1) m" "n' = n" using eq by (auto simp: count_in_def)
  moreover have "site_key site name \<in> fst ` set m" using False by (simp add: map_of_eq_None_iff)
  ultimately show ?thesis using k False that [of K] by (auto simp: keys_ok_def keys_put length_put is_map_put)
next
  case new: True
  show ?thesis
  proof (cases "n \<ge> max_unmapped")
    case True
    then have "m' = put (site_key site ''(other)'') (get_or 0 m (site_key site ''(other)'') + 1) m"
      "n' = (if map_of m (site_key site ''(other)'') = None then n + 1 else n)" using eq new by (auto simp: count_in_def Let_def)
    then show ?thesis using k s that [of K] by (auto simp: keys_ok_def keys_put length_put is_map_put)
  next
    case False
    then have "m' = put (site_key site name) (get_or 0 m (site_key site name) + 1) m" "n' = n + 1" using eq new by (auto simp: count_in_def Let_def)
    moreover have "card (insert (site_key site name) K) \<le> card K + 1" using k by (simp add: keys_ok_def card_insert_if)
    ultimately show ?thesis using k False new by (intro that [of "insert (site_key site name) K"])
      (auto simp: keys_ok_def keys_put length_put is_map_put)
  qed
qed

lemma sighting_ok:
  assumes "unmapped_ok sites u" and "site \<in> sites"
  shows "unmapped_ok sites (sighting (is_type, site, name) u)"
proof -
  obtain F T where n: "um_n u = length (um_fields u) + length (um_types u)" and ok: "keys_ok sites (um_fields u) F" "keys_ok sites (um_types u) T"
    and c: "card F + card T \<le> max_unmapped" "card F + card T \<le> um_n u" using assms(1) by (auto simp: unmapped_ok_def)
  show ?thesis
  proof (cases is_type)
    case True
    obtain r m' n' where e: "count_in site name (um_types u, um_n u) = (r, m', n')" by (metis prod_cases3)
    obtain K where "keys_ok sites m' K" "card K = card T \<or> um_n u < max_unmapped \<and> card K \<le> card T + 1 \<and> length m' = length (um_types u) + 1"
      "n' + length (um_types u) = um_n u + length m'" "length (um_types u) \<le> length m'" by (rule count_in_keys [OF ok(2) assms(2) e])
    then show ?thesis using True e n ok c
      by (intro unmapped_okI [of _ _ F K]) (auto simp: sighting_def count_type_def)
  next
    case False
    obtain r m' n' where e: "count_in site name (um_fields u, um_n u) = (r, m', n')" by (metis prod_cases3)
    obtain K where "keys_ok sites m' K" "card K = card F \<or> um_n u < max_unmapped \<and> card K \<le> card F + 1 \<and> length m' = length (um_fields u) + 1"
      "n' + length (um_fields u) = um_n u + length m'" "length (um_fields u) \<le> length m'" by (rule count_in_keys [OF ok(1) assms(2) e])
    then show ?thesis using False e n ok c
      by (intro unmapped_okI [of _ _ K T]) (auto simp: sighting_def count_field_def)
  qed
qed

definition no_sightings :: unmapped where
  "no_sightings = \<lparr>um_fields = [], um_types = [], um_n = 0\<rparr>"

definition sightings :: "(bool \<times> string \<times> string) list \<Rightarrow> unmapped" where
  "sightings xs = fold sighting xs no_sightings"

lemma fold_sightings_ok: "unmapped_ok sites u \<Longrightarrow> (fst \<circ> snd) ` set xs \<subseteq> sites \<Longrightarrow> unmapped_ok sites (fold sighting xs u)"
proof (induction xs arbitrary: u)
  case (Cons x xs)
  then show ?case using sighting_ok [of sites u "fst (snd x)" "fst x" "snd (snd x)"] by simp
qed simp

lemma keys_ok_length: "keys_ok sites m K \<Longrightarrow> finite sites \<Longrightarrow> length m \<le> card K + card sites"
proof -
  assume k: "keys_ok sites m K" and f: "finite sites"
  have "length m = card (fst ` set m)" using k by (metis keys_ok_def distinct_card length_map list.set_map)
  also have "\<dots> \<le> card (K \<union> (\<lambda>s. site_key s ''(other)'') ` sites)" using k f by (intro card_mono) (auto simp: keys_ok_def)
  also have "\<dots> \<le> card K + card ((\<lambda>s. site_key s ''(other)'') ` sites)" by (rule card_Un_le)
  finally show ?thesis using card_image_le [OF f, of "\<lambda>s. site_key s ''(other)''"] by linarith
qed


end
