(* ===== verification/Slug.thy ===== *)
theory Slug
  imports Prelude
begin

text \<open>
  A vessel's page path (\<open>server/slug.go\<close>). A text is the list of its code points; \<open>lower\<close> is
  \<open>strings.ToLower\<close> and \<open>nfd\<close> the normalization form of the Unicode tables. What is written is ASCII.
\<close>

type_synonym runes = "nat list"

definition slug_transliterate :: "(nat \<times> runes) list" where
  "slug_transliterate =
     [(0xe6, [97, 101]), (0xf8, [111]), (0x153, [111, 101]), (0xf0, [100]), (0x111, [100]), (0xfe, [116, 104]),
      (0xdf, [115, 115]), (0x142, [108]), (0x14b, [110]), (0x167, [116])]"

definition slug_max :: nat where "slug_max = 60"

definition spelled :: "nat \<Rightarrow> runes" where
  "spelled r = (case map_of slug_transliterate r of Some t \<Rightarrow> t | None \<Rightarrow> [r])"

definition slug_rune :: "nat \<Rightarrow> bool" where
  "slug_rune r \<longleftrightarrow> 97 \<le> r \<and> r \<le> 122 \<or> 48 \<le> r \<and> r \<le> 57"

text \<open>One rune: the bytes written so far, and whether a gap has been passed.\<close>

definition slug_step :: "nat \<Rightarrow> string \<times> bool \<Rightarrow> string \<times> bool" where
  "slug_step r st =
     (case st of (out, gap) \<Rightarrow>
        if 0x300 \<le> r \<and> r \<le> 0x36f then (out, gap)
        else if slug_rune r then ((if gap \<and> out \<noteq> [] then out @ ''-'' else out) @ [char_of r], False)
        else (out, True))"

definition trim_right :: "char \<Rightarrow> string \<Rightarrow> string" where
  "trim_right c s = rev (dropWhile (\<lambda>x. x = c) (rev s))"

definition vessel_slug :: "(runes \<Rightarrow> runes) \<Rightarrow> (runes \<Rightarrow> runes) \<Rightarrow> runes \<Rightarrow> string" where
  "vessel_slug lower nfd name =
     (let out = fst (fold slug_step (nfd (concat (map spelled (lower name)))) ([], False)) in
      trim_right CHR ''-'' (if length out > slug_max then take slug_max out else out))"

definition vessel_page_path :: "(runes \<Rightarrow> runes) \<Rightarrow> (runes \<Rightarrow> runes) \<Rightarrow> 32 word \<Rightarrow> runes \<Rightarrow> string" where
  "vessel_page_path lower nfd m name =
     (let slug = vessel_slug lower nfd name in
      ''/ais/vessels/'' @ dec (unat m) @ (if slug \<noteq> [] then CHR ''-'' # slug else []))"

section \<open>What a slug looks like\<close>

definition slug_char :: "char \<Rightarrow> bool" where
  "slug_char c \<longleftrightarrow> slug_rune (of_char c)"

text \<open>Letters and digits, with single hyphens between them and none at either end.\<close>

definition slug_shaped :: "string \<Rightarrow> bool" where
  "slug_shaped s \<longleftrightarrow> list_all (\<lambda>c. slug_char c \<or> c = CHR ''-'') s \<and>
     successively (\<lambda>a b. \<not> (a = CHR ''-'' \<and> b = CHR ''-'')) s \<and>
     (s = [] \<or> hd s \<noteq> CHR ''-'' \<and> last s \<noteq> CHR ''-'')"

lemma slug_char_of: "slug_rune r \<Longrightarrow> slug_char (char_of r) \<and> char_of r \<noteq> CHR ''-''"
proof -
  assume r: "slug_rune r"
  then have "r < 256" by (auto simp: slug_rune_def)
  then have v: "(of_char (char_of r) :: nat) = r" by simp
  then have "slug_char (char_of r)" using r by (simp add: slug_char_def)
  moreover have "char_of r \<noteq> CHR ''-''"
  proof
    assume "char_of r = CHR ''-''"
    with v have "r = 45" by simp
    with r show False by (simp add: slug_rune_def)
  qed
  ultimately show ?thesis ..
qed

lemma slug_step_shaped:
  assumes "slug_shaped (fst st)"
  shows "slug_shaped (fst (slug_step r st))"
proof -
  obtain out gap where st: "st = (out, gap)" by fastforce
  show ?thesis
  proof (cases "\<not> (0x300 \<le> r \<and> r \<le> 0x36f) \<and> slug_rune r")
    case True
    have "slug_shaped (out @ [char_of r])"
      using assms slug_char_of [of r] True
      by (cases "out = []") (auto simp: st slug_shaped_def successively_append_iff)
    moreover have "slug_shaped (out @ ''-'' @ [char_of r])" if "out \<noteq> []"
      using assms slug_char_of [of r] True that by (auto simp: st slug_shaped_def successively_append_iff)
    moreover have "slug_step r st = ((if gap \<and> out \<noteq> [] then out @ ''-'' else out) @ [char_of r], False)"
      using True by (simp only: st slug_step_def prod.case if_True if_False simp_thms)
    ultimately show ?thesis by simp
  next
    case False
    then show ?thesis using assms by (auto simp: st slug_step_def)
  qed
qed

lemma fold_slug_shaped: "slug_shaped (fst st) \<Longrightarrow> slug_shaped (fst (fold slug_step rs st))"
  by (induction rs arbitrary: st) (simp_all add: slug_step_shaped)

lemma trim_right_parts: "\<exists>k. s = trim_right c s @ replicate k c" and trim_right_last: "trim_right c s = [] \<or> last (trim_right c s) \<noteq> c"
proof -
  have t: "takeWhile (\<lambda>x. x = c) xs = replicate (length (takeWhile (\<lambda>x. x = c) xs)) c" for xs
    by (induction xs) auto
  have "s = rev (takeWhile (\<lambda>x. x = c) (rev s) @ dropWhile (\<lambda>x. x = c) (rev s))" by simp
  also have "\<dots> = trim_right c s @ replicate (length (takeWhile (\<lambda>x. x = c) (rev s))) c"
    unfolding rev_append trim_right_def by (subst t) simp
  finally show "\<exists>k. s = trim_right c s @ replicate k c" ..
  show "trim_right c s = [] \<or> last (trim_right c s) \<noteq> c"
  proof (cases "dropWhile (\<lambda>x. x = c) (rev s)")
    case (Cons x xs)
    then have "x \<noteq> c" using hd_dropWhile [of "\<lambda>x. x = c" "rev s"] by simp
    then show ?thesis by (simp add: trim_right_def Cons)
  qed (simp add: trim_right_def)
qed

lemma prefix_shaped:
  assumes "slug_shaped (a @ b)"
  shows "slug_shaped (trim_right CHR ''-'' a)"
proof -
  define t where "t = trim_right CHR ''-'' a"
  obtain k where "a = t @ replicate k CHR ''-''" unfolding t_def using trim_right_parts by blast
  then obtain r where ab: "a @ b = t @ r" by simp
  have "slug_shaped (t @ r)" using assms by (simp add: ab)
  moreover have "t = [] \<or> last t \<noteq> CHR ''-''" unfolding t_def by (rule trim_right_last)
  ultimately show ?thesis
    unfolding t_def [symmetric] by (cases "t = []") (auto simp: slug_shaped_def successively_append_iff)
qed

text \<open>
  C38. Whatever a vessel is called, in whatever script, its slug is at most sixty characters, of the letters
  a to z and the digits, with single hyphens between them and none at either end: a name cut at the limit
  keeps no hyphen, and one with nothing to write has an empty slug.
\<close>

theorem vessel_slug_shaped:
  "slug_shaped (vessel_slug lower nfd name) \<and> length (vessel_slug lower nfd name) \<le> slug_max"
proof -
  define out where "out = fst (fold slug_step (nfd (concat (map spelled (lower name)))) ([], False))"
  have out: "slug_shaped out" unfolding out_def by (rule fold_slug_shaped) (simp add: slug_shaped_def)
  have slug: "vessel_slug lower nfd name = trim_right CHR ''-'' (take slug_max out)"
    by (simp add: vessel_slug_def out_def [symmetric] Let_def)
  have "slug_shaped (vessel_slug lower nfd name)"
    unfolding slug by (rule prefix_shaped [of _ "drop slug_max out"]) (simp add: out)
  moreover have "length (trim_right CHR ''-'' (take slug_max out)) \<le> length (take slug_max out)"
    unfolding trim_right_def length_rev by (metis length_dropWhile_le length_rev)
  ultimately show ?thesis by (simp add: slug)
qed

lemma slug_example: "vessel_slug id id [0xe6, 98, 32, 32, 45, 49, 0x301, 33] = ''aeb-1''"
  by code_simp

end
