(* ===== verification/Spec2Isabelle.thy ===== *)
theory Spec2Isabelle
  imports Prelude Regexps Mmsi Tracks Clock Packets Queue Vessel Index Cache Usage Delay Stations Pipeline Access Imo Filters Heap Queries Mirror Subscriptions Names Simplify Licenses Trackapi Vesselapi Particulars Registers Wikidata Coveragemap Mvt Nmea Shadow Slug Tiles
begin

text \<open>
  The AIS server of this repository (\<open>src/server\<close>): it takes AIS messages from many networks, tells the
  copies of one transmission apart, folds what is new into a cache of vessels, records and queues it, and
  answers streams, vessel queries, tracks and station pages from what it holds.

  How the parts meet. A sentence or a foreign record becomes an event (\<open>Packets\<close>, from \<open>pipeline.go\<close>).
  \<open>Pipeline\<close> gives it its canonical time, drops duplicates inside the dedupe window, folds it into the vessel
  cache (\<open>Cache\<close>, over \<open>Vessel\<close>, \<open>Index\<close> and \<open>Tracks\<close>), counts it (\<open>Usage\<close>, \<open>Delay\<close>, \<open>Stations\<close>), queues it for
  ClickHouse (\<open>Queue\<close>) and publishes it to the subscriptions it matches (\<open>Subscriptions\<close>). The cache's dirty
  vessels are flushed to the SQLite record, whose rows the mirror keeps in memory (\<open>Queries\<close>, \<open>Mirror\<close>, on the heaps
  of \<open>Heap\<close>). Requests pass \<open>Access\<close> (tokens, tiers, rate limits), are read by \<open>Imo\<close>, \<open>Filters\<close> and \<open>Subscriptions\<close>, and
  are answered by \<open>Vesselapi\<close> (cache and record) and \<open>Trackapi\<close> (ClickHouse and the ring of recent positions, simplified by
  \<open>Simplify\<close>), with the credits of \<open>Licenses\<close> and, for one vessel, the registers merged by \<open>Particulars\<close>. \<open>Names\<close> mints
  station tokens and names the stations.

  Theories and the files they model.

    \<open>Prelude\<close>: time and duration in nanoseconds, \<open>int64\<close> wrap-around, Go's truncated division, byte strings, maps.
    \<open>Regexps\<close>, \<open>Mmsi\<close>: \<open>mid.go\<close>, \<open>kinds.go\<close>; a derivative matcher shown to decide the patterns' languages.
    \<open>Tracks\<close>: \<open>tracks.go\<close>; queued positions, the ring of recent transmissions, \<open>despike\<close>.
    \<open>Clock\<close>: the calendar and RFC 3339, as the standard library computes them.
    \<open>Packets\<close>: the message types of the AIS decoder that the code switches on, the event, and the judgements on one.
    \<open>Queue\<close>: \<open>tracks.go\<close>, \<open>clickhouse.go\<close>, \<open>statics.go\<close>; batches, retries, own-ship allowances, static states.
    \<open>Vessel\<close>, \<open>Index\<close>, \<open>Cache\<close>: \<open>vessels.go\<close>, \<open>index.go\<close>, \<open>store.go\<close>; one vessel, the degree grid, and every writer of
      the cache with its flush.
    \<open>Usage\<close>, \<open>Delay\<close>, \<open>Stations\<close>: \<open>stats.go\<close>, \<open>delay.go\<close>, \<open>stations.go\<close>; rolling counters that survive a restart.
    \<open>Pipeline\<close>: \<open>pipeline.go\<close>, \<open>dedupe_state.go\<close>, the hub of \<open>aishub.go\<close>.
    \<open>Access\<close>: \<open>auth.go\<close>, \<open>tiers.go\<close>, \<open>ops.go\<close>; claims, stream slots, the token bucket, the request gate.
    \<open>Imo\<close>, \<open>Filters\<close>, \<open>Queries\<close>, \<open>Heap\<close>, \<open>Mirror\<close>: \<open>imo.go\<close>, \<open>store.go\<close>, \<open>mirror.go\<close>; lookups by number, the conditions of
      a record query, and the mirror that answers it.
    \<open>Subscriptions\<close>: \<open>stream.go\<close>; reading a subscription on each transport, matching, publishing.
    \<open>Names\<close>: \<open>names.go\<close>; \<open>Simplify\<close>: \<open>simplify.go\<close>; \<open>Trackapi\<close>: \<open>track_api.go\<close>; \<open>Licenses\<close>: \<open>archive.go\<close>;
      \<open>Vesselapi\<close>: the handlers of \<open>vessels.go\<close>.
    \<open>Registers\<close>, \<open>Wikidata\<close>, \<open>Particulars\<close>: \<open>uscg.go\<close>, \<open>fiskeridir.go\<close>, \<open>fcc.go\<close>, \<open>tc.go\<close>, \<open>amsa.go\<close>, \<open>ised.go\<close>, \<open>wikidata.go\<close>,
      \<open>particulars.go\<close>; who a listed vessel is, what a read register keeps, and the registers merged with their credits.
  What the lemmas show. State: each component has an invariant that every operation keeps, over every reachable state
  (\<open>Cache\<close>, \<open>Mirror\<close>, \<open>Pipeline\<close>, \<open>Queue\<close>, \<open>Access\<close>, \<open>Names\<close>). Answers: a query through an index, a heap or a merge equals the
  plain reading of what it asks (\<open>Index\<close>, \<open>Mirror\<close>, \<open>Simplify\<close>, \<open>Vesselapi\<close>, \<open>Queries\<close>). Safety: a copy is never delivered
  twice, a retried batch is named by its token, a subscription stays within its claims, a limiter within its rate. Round
  trips: what a restart saves it reads back. Errors are values: each refusal of the code is a constructor, and theorems say
  when each arises.

  Interfaces. Where one part relies on another through a contract, the contract is a locale whose assumptions the client's
  lemmas use and whose interpretation on the model discharges them: the degree grid of \<open>Index\<close>, \<open>heap_order\<close> (interpreted for
  the mirror's hits and the positions of \<open>Simplify\<close>), \<open>station_rule\<close> of \<open>Names\<close>, \<open>record_reader\<close> of \<open>Vesselapi\<close> and others.

  Choices. A \<open>float64\<close> is a real number, so rounding of single operations is not modelled; an MMSI, a message field of fixed
  width and an IP address are words where the code masks or wraps them and naturals where it only compares. A Go map is an
  association list without repeated keys, read by \<open>map_of\<close>, in an order the theorems do not depend on. A nil pointer is
  \<open>None\<close>. A handler takes its parameters as functions of their names and gives its answer or its error; writing bytes to
  the socket is left out. What is not in the repository is a parameter: the AIS decoder, hashes and signatures, JSON and
  number parsing of the standard library, Unicode tables, the SQL engines. A query to ClickHouse answers from rows as its
  view defines them; a condition sent to SQLite is a term whose meaning \<open>holds\<close> gives.

  Loops. Every loop of the code is a total function: structural on its input, or by a measure that falls (the heap's depth,
  the chunks left, the positions left). No fuel bounds any definition.

  Not modelled. The sockets' read and write loops, pings and shutdown; the text of SQL and the migrations; metrics pages;
  the clients of the upstream feeds (HTTP polling, MQTT and TCP framing), whose events enter as \<open>ingest\<close> takes them; the archive's
  files and uploads; the registers' downloads; the web client, the plugin and the command-line tools. PROJECT.json lists
  each with its reason.
\<close>

end
